(* ===== verification/Prelude.thy ===== *)
theory Prelude
  imports Main "HOL-Library.Word"
begin

text \<open>
  Shared material of the development: unsigned machine arithmetic on \<open>nat\<close> with the
  wrap-around written out, the circular-array view that every ring buffer of the library
  uses, and the interface of a FIFO queue.  The lemma collection \<open>ring_simps\<close> carries
  the ring-buffer proofs of the components.
\<close>

named_theorems ring_simps \<open>facts about circular arrays\<close>

section \<open>Unsigned arithmetic with wrap-around\<close>

abbreviation u32_mod :: nat where
  "u32_mod \<equiv> 4294967296"

definition add32 :: "nat \<Rightarrow> nat \<Rightarrow> nat" where
  "add32 a b = (a + b) mod u32_mod"

definition sub32 :: "nat \<Rightarrow> nat \<Rightarrow> nat" where
  "sub32 a b = (a + (u32_mod - b)) mod u32_mod"

lemma add32_small: "a + b < u32_mod \<Longrightarrow> add32 a b = a + b"
  by (simp add: add32_def)

lemma sub32_small: "b \<le> a \<Longrightarrow> a < u32_mod \<Longrightarrow> sub32 a b = a - b"
proof -
  assume le: "b \<le> a" and lt: "a < u32_mod"
  have eq: "a + (u32_mod - b) = (a - b) + u32_mod" using le lt by simp
  have "(a - b) mod u32_mod = a - b" by (rule mod_less) (use lt in simp)
  then show ?thesis unfolding sub32_def eq by simp
qed

text \<open>The value of a \<open>char\<close>, which is signed.\<close>

lemma sint_uint_char: "sint (c :: 8 word) = (if uint c < 128 then uint c else uint c - 256)"
proof -
  have c: "uint c < 256" "0 \<le> uint c" using uint_lt2p [of c] by auto
  have "(uint c + 128) mod 256 = uint c - 128" if "128 \<le> uint c"
    using minus_mod_self2 [of "uint c + 128" 256] c that by simp
  then show ?thesis
    using c by (auto simp: sint_uint signed_take_bit_eq_take_bit_shift take_bit_eq_mod)
qed

section \<open>Undefined behaviour as a value\<close>

text \<open>
  Operations that can leave the language's defined behaviour return an error: an access outside
  an array, a read of raw storage, a failed \<open>assert\<close>, a loop that never ends, or a signed
  result that does not fit its type.
\<close>

datatype ub = OutOfBounds | Uninitialised | AssertFailed | Diverges | SignedOverflow

type_synonym 'a result = "ub + 'a"

definition ub_bind :: "'a result \<Rightarrow> ('a \<Rightarrow> 'b result) \<Rightarrow> 'b result" where
  "ub_bind r f = (case r of Inl e \<Rightarrow> Inl e | Inr x \<Rightarrow> f x)"

lemma ub_bind_simps [simp]: "ub_bind (Inl e) f = Inl e" "ub_bind (Inr x) f = f x"
  by (simp_all add: ub_bind_def)

text \<open>Raw storage for objects: \<open>None\<close> is a slot with no constructed object.\<close>

definition slot_store :: "'a option list \<Rightarrow> nat \<Rightarrow> 'a option \<Rightarrow> 'a option list result" where
  "slot_store mem i v = (if i < length mem then Inr (mem[i := v]) else Inl OutOfBounds)"

definition slot_load :: "'a option list \<Rightarrow> nat \<Rightarrow> 'a result" where
  "slot_load mem i =
     (if i < length mem then (case mem ! i of None \<Rightarrow> Inl Uninitialised | Some x \<Rightarrow> Inr x)
      else Inl OutOfBounds)"

lemma slot_store_ok [simp]: "i < length mem \<Longrightarrow> slot_store mem i v = Inr (mem[i := v])"
  by (simp add: slot_store_def)

lemma slot_load_ok [simp]: "i < length mem \<Longrightarrow> mem ! i = Some x \<Longrightarrow> slot_load mem i = Inr x"
  by (simp add: slot_load_def)

section \<open>Circular arrays\<close>

text \<open>
  The \<open>n\<close> elements of the array \<open>a\<close> that start at index \<open>s\<close>, read modulo
  the capacity.
\<close>

definition ring :: "nat \<Rightarrow> 'a list \<Rightarrow> nat \<Rightarrow> nat \<Rightarrow> 'a list" where
  "ring cap a s n = map (\<lambda>i. a ! ((s + i) mod cap)) [0..<n]"

lemma length_ring [simp, ring_simps]: "length (ring cap a s n) = n"
  by (simp add: ring_def)

lemma ring_0 [simp, ring_simps]: "ring cap a s 0 = []"
  by (simp add: ring_def)

lemma ring_Suc: "ring cap a s (Suc n) = ring cap a s n @ [a ! ((s + n) mod cap)]"
  by (simp add: ring_def)

lemma nth_ring: "i < n \<Longrightarrow> ring cap a s n ! i = a ! ((s + i) mod cap)"
  by (simp add: ring_def)

lemma ring_Cons:
  "ring cap a s (Suc n) = a ! (s mod cap) # ring cap a (Suc s mod cap) n"
proof (rule nth_equalityI)
  fix i assume "i < length (ring cap a s (Suc n))"
  then show "ring cap a s (Suc n) ! i = (a ! (s mod cap) # ring cap a (Suc s mod cap) n) ! i"
    by (cases i) (simp_all add: nth_ring mod_add_left_eq)
qed simp

lemma ring_index_inj:
  fixes cap :: nat
  assumes "i < cap" and "j < cap" and "(s + i) mod cap = (s + j) mod cap"
  shows "i = j"
proof -
  have main: "i \<ge> j \<Longrightarrow> i < cap \<Longrightarrow> (s + i) mod cap = (s + j) mod cap \<Longrightarrow> i = j" for i j :: nat
  proof -
    assume ij: "j \<le> i" "i < cap" and eq: "(s + i) mod cap = (s + j) mod cap"
    then have "cap dvd (s + i) - (s + j)" using mod_eq_dvd_iff_nat [of "s + j" "s + i" cap] by simp
    then have "cap dvd i - j" by simp
    with ij show "i = j" by (auto dest: dvd_imp_le)
  qed
  show ?thesis using main [of j i] main [of i j] assms by (cases "j \<le> i") auto
qed

lemma ring_update_outside:
  assumes "n \<le> k" and "k < cap"
  shows "ring cap (a[(s + k) mod cap := x]) s n = ring cap a s n"
proof (rule nth_equalityI)
  fix i assume i: "i < length (ring cap (a[(s + k) mod cap := x]) s n)"
  then have "(s + k) mod cap \<noteq> (s + i) mod cap"
    using assms ring_index_inj [of k cap i s] by auto
  with i show "ring cap (a[(s + k) mod cap := x]) s n ! i = ring cap a s n ! i"
    by (simp add: nth_ring)
qed simp

lemma ring_succ_pred: "s < cap \<Longrightarrow> (Suc s mod cap + (cap - 1)) mod cap = s"
  by (auto simp: mod_if)

text \<open>After the front slot has been popped, overwriting it leaves the rest alone.\<close>

lemma ring_update_popped:
  assumes "s < cap" and "n < cap"
  shows "ring cap (a[s := x]) (Suc s mod cap) n = ring cap a (Suc s mod cap) n"
  using ring_update_outside [of n "cap - 1" cap a "Suc s mod cap" x] assms
  unfolding ring_succ_pred [OF assms(1)] by simp

lemma ring_push_back:
  assumes "n < cap" and "cap \<le> length a"
  shows "ring cap (a[(s + n) mod cap := x]) s (Suc n) = ring cap a s n @ [x]"
proof -
  have "(s + n) mod cap < length a"
    using assms mod_less_divisor [of cap "s + n"] by linarith
  then show ?thesis using assms by (simp add: ring_Suc ring_update_outside)
qed

lemma ring_push_front:
  assumes "n < cap" and "cap \<le> length a" and "s < cap"
    and s': "s' = (if s = 0 then cap - 1 else s - 1)"
  shows "ring cap (a[s' := x]) s' (Suc n) = x # ring cap a s n"
proof -
  have lt: "s' < cap" using assms by auto
  have Suc_s': "Suc s' mod cap = s" using assms by auto
  have "ring cap (a[s' := x]) s n = ring cap a s n"
  proof -
    have "s' = (s + (cap - 1)) mod cap" using assms by (cases "s = 0") (auto simp: mod_if)
    moreover have "(s + (cap - 1)) mod cap \<noteq> (s + i) mod cap" if "i < n" for i
      using that assms ring_index_inj [of i cap "cap - 1" s] by auto
    ultimately show ?thesis by (simp add: ring_def)
  qed
  then show ?thesis using lt assms(2) by (simp add: ring_Cons Suc_s')
qed

lemmas ring_intros = ring_update_popped ring_push_back ring_push_front ring_Cons ring_Suc

section \<open>The FIFO queue interface\<close>

text \<open>
  What every queue class of the library promises: \<open>push\<close> appends exactly when there is
  \<open>room\<close> and says so, \<open>pop\<close> removes the oldest element, and both keep the class
  invariant.  \<open>room\<close> is a predicate of the contents: always true for the queues that
  grow, a length bound for the bounded ones.
\<close>

datatype 'a qop = Enq 'a | Deq

datatype 'a qres = Accepted bool | Got "'a option"

text \<open>A client's sequence of calls, with what each call returned.\<close>

fun qrun :: "('a \<Rightarrow> 'q \<Rightarrow> bool \<times> 'q) \<Rightarrow> ('q \<Rightarrow> 'a option \<times> 'q) \<Rightarrow> 'q \<Rightarrow> 'a qop list
    \<Rightarrow> 'a qres list \<times> 'q" where
  "qrun psh pp q [] = ([], q)"
| "qrun psh pp q (Enq x # ops) =
     (let (ok, q1) = psh x q; (rs, q2) = qrun psh pp q1 ops in (Accepted ok # rs, q2))"
| "qrun psh pp q (Deq # ops) =
     (let (r, q1) = pp q; (rs, q2) = qrun psh pp q1 ops in (Got r # rs, q2))"

text \<open>The reference queue: a list, with the room test as a parameter.\<close>

definition list_push :: "('a list \<Rightarrow> bool) \<Rightarrow> 'a \<Rightarrow> 'a list \<Rightarrow> bool \<times> 'a list" where
  "list_push room x xs = (if room xs then (True, xs @ [x]) else (False, xs))"

definition list_pop :: "'a list \<Rightarrow> 'a option \<times> 'a list" where
  "list_pop xs = (case xs of [] \<Rightarrow> (None, []) | x # r \<Rightarrow> (Some x, r))"

text \<open>The elements a run accepted and the elements it handed out, in order.\<close>

fun accepted :: "'a qop list \<Rightarrow> 'a qres list \<Rightarrow> 'a list" where
  "accepted (Enq x # ops) (Accepted True # rs) = x # accepted ops rs"
| "accepted (_ # ops) (_ # rs) = accepted ops rs"
| "accepted _ _ = []"

fun delivered :: "'a qres list \<Rightarrow> 'a list" where
  "delivered (Got (Some x) # rs) = x # delivered rs"
| "delivered (_ # rs) = delivered rs"
| "delivered [] = []"

locale fifo_queue =
  fixes invar :: "'q \<Rightarrow> bool"
    and contents :: "'q \<Rightarrow> 'a list"
    and psh :: "'a \<Rightarrow> 'q \<Rightarrow> bool \<times> 'q"
    and pp :: "'q \<Rightarrow> 'a option \<times> 'q"
    and room :: "'a list \<Rightarrow> bool"
  assumes push_invar: "invar q \<Longrightarrow> invar (snd (psh x q))"
    and push_flag: "invar q \<Longrightarrow> fst (psh x q) = room (contents q)"
    and push_contents: "invar q \<Longrightarrow> contents (snd (psh x q)) = snd (list_push room x (contents q))"
    and pop_invar: "invar q \<Longrightarrow> invar (snd (pp q))"
    and pop_value: "invar q \<Longrightarrow> fst (pp q) = fst (list_pop (contents q))"
    and pop_contents: "invar q \<Longrightarrow> contents (snd (pp q)) = snd (list_pop (contents q))"
begin

lemmas laws = push_invar push_flag push_contents pop_invar pop_value pop_contents

lemma run_refines:
  assumes "invar q"
  shows "invar (snd (qrun psh pp q ops))
    \<and> fst (qrun psh pp q ops) = fst (qrun (list_push room) list_pop (contents q) ops)
    \<and> contents (snd (qrun psh pp q ops)) = snd (qrun (list_push room) list_pop (contents q) ops)"
  using assms
proof (induction ops arbitrary: q)
  case Nil
  then show ?case by simp
next
  case (Cons op ops)
  show ?case
  proof (cases op)
    case (Enq x)
    have "fst (psh x q) = room (contents q)"
      by (rule push_flag [OF Cons.prems])
    moreover have "list_push room x (contents q) = (room (contents q), contents (snd (psh x q)))"
      using push_contents [OF Cons.prems, of x] by (simp add: list_push_def)
    ultimately show ?thesis
      using Enq Cons.IH [OF push_invar [OF Cons.prems, of x]] by (simp add: split_def Let_def)
  next
    case Deq
    have "list_pop (contents q) = (fst (pp q), contents (snd (pp q)))"
      using pop_value [OF Cons.prems] pop_contents [OF Cons.prems] by simp
    then show ?thesis
      using Deq Cons.IH [OF pop_invar [OF Cons.prems]] by (simp add: split_def Let_def)
  qed
qed

end

lemma list_queue_conservation:
  "xs @ accepted ops (fst (qrun (list_push room) list_pop xs ops))
   = delivered (fst (qrun (list_push room) list_pop xs ops))
     @ snd (qrun (list_push room) list_pop xs ops)"
proof (induction ops arbitrary: xs)
  case Nil
  then show ?case by simp
next
  case (Cons op ops)
  show ?case
  proof (cases op)
    case (Enq x)
    then show ?thesis
      using Cons.IH [of xs] Cons.IH [of "xs @ [x]"]
      by (cases "room xs") (simp_all add: list_push_def split_def Let_def)
  next
    case Deq
    then show ?thesis
      using Cons.IH [of "[]"] Cons.IH [of "tl xs"]
      by (cases xs) (simp_all add: list_pop_def split_def Let_def)
  qed
qed

context fifo_queue
begin

text \<open>Nothing is lost, duplicated or reordered over any sequence of calls.\<close>

lemma conservation:
  assumes "invar q"
  shows "contents q @ accepted ops (fst (qrun psh pp q ops))
       = delivered (fst (qrun psh pp q ops)) @ contents (snd (qrun psh pp q ops))"
  using run_refines [OF assms, of ops] list_queue_conservation [of "contents q" ops room] by simp

end

section \<open>The map interface\<close>

text \<open>
  What the map classes promise, relative to a lookup function: insertion of an absent key,
  removal of a key, both total and without undefined behaviour on states that satisfy the invariant.
\<close>

locale map_impl =
  fixes invar :: "'m \<Rightarrow> bool"
    and lookup :: "'m \<Rightarrow> 'k \<rightharpoonup> 'v"
    and ins :: "'k \<Rightarrow> 'v \<Rightarrow> 'm \<Rightarrow> 'm result"
    and del :: "'k \<Rightarrow> 'm \<Rightarrow> 'm result"
  assumes ins: "invar m \<Longrightarrow> lookup m k = None \<Longrightarrow>
      \<exists>m'. ins k v m = Inr m' \<and> invar m' \<and> lookup m' = (lookup m)(k \<mapsto> v)"
    and del: "invar m \<Longrightarrow> \<exists>m'. del k m = Inr m' \<and> invar m' \<and> lookup m' = (lookup m)(k := None)"

datatype ('k, 'v) mop = Put 'k 'v | Remove 'k

text \<open>A client that puts a key by removing it first, as the callers of such maps do.\<close>

fun map_run :: "('k \<Rightarrow> 'v \<Rightarrow> 'm \<Rightarrow> 'm result) \<Rightarrow> ('k \<Rightarrow> 'm \<Rightarrow> 'm result) \<Rightarrow> ('k, 'v) mop list
    \<Rightarrow> 'm \<Rightarrow> 'm result" where
  "map_run i d [] m = Inr m"
| "map_run i d (Put k v # ops) m = ub_bind (d k m) (\<lambda>m. ub_bind (i k v m) (map_run i d ops))"
| "map_run i d (Remove k # ops) m = ub_bind (d k m) (map_run i d ops)"

fun spec_run :: "('k, 'v) mop list \<Rightarrow> ('k \<rightharpoonup> 'v) \<Rightarrow> ('k \<rightharpoonup> 'v)" where
  "spec_run [] f = f"
| "spec_run (Put k v # ops) f = spec_run ops (f(k \<mapsto> v))"
| "spec_run (Remove k # ops) f = spec_run ops (f(k := None))"

context map_impl
begin

lemma run_spec:
  "invar m \<Longrightarrow> \<exists>m'. map_run ins del ops m = Inr m' \<and> invar m' \<and> lookup m' = spec_run ops (lookup m)"
proof (induction ops arbitrary: m)
  case Nil
  then show ?case by simp
next
  case (Cons op ops)
  show ?case
  proof (cases op)
    case (Put k v)
    obtain m1 where m1: "del k m = Inr m1" "invar m1" "lookup m1 = (lookup m)(k := None)"
      using del [OF Cons.prems] by blast
    obtain m2 where m2: "ins k v m1 = Inr m2" "invar m2" "lookup m2 = (lookup m1)(k \<mapsto> v)"
      using ins [OF m1(2), of k v] m1(3) by auto
    have l: "lookup m2 = (lookup m)(k \<mapsto> v)" using m2(3) m1(3) by simp
    show ?thesis using Cons.IH [OF m2(2)] Put m1(1) m2(1) unfolding l by (simp add: fun_upd_def)
  next
    case (Remove k)
    obtain m1 where m1: "del k m = Inr m1" "invar m1" "lookup m1 = (lookup m)(k := None)"
      using del [OF Cons.prems] by blast
    show ?thesis using Cons.IH [OF m1(2)] Remove m1(1) unfolding m1(3) by (simp add: fun_upd_def)
  qed
qed

end

end
