(* ===== verification/List_Util.thy ===== *)
theory List_Util
  imports Prelude
begin

text \<open>
  The intrusive doubly linked lists of \<open>list_util.h\<close>.  Nodes are addresses; the heap gives
  each node its \<open>next\<close> and \<open>prev\<close> field, so that aliasing between the arguments of an
  operation is visible.  An operation is the sequence of field assignments of the source.
  \<open>clist h head xs\<close> says that the ring through \<open>head\<close> consists of the nodes
  \<open>xs\<close>, correctly linked in both directions.
\<close>

named_theorems dseg_simps \<open>list segments under field updates\<close>

record list_head =
  nxt :: "nat \<Rightarrow> nat"
  prv :: "nat \<Rightarrow> nat"

definition LIST_POISON1 :: nat where "LIST_POISON1 = 0x00100100"

definition LIST_POISON2 :: nat where "LIST_POISON2 = 0x00200200"

definition set_next :: "nat \<Rightarrow> nat \<Rightarrow> list_head \<Rightarrow> list_head" where
  "set_next a v h = h\<lparr>nxt := (nxt h)(a := v)\<rparr>"

definition set_prev :: "nat \<Rightarrow> nat \<Rightarrow> list_head \<Rightarrow> list_head" where
  "set_prev a v h = h\<lparr>prv := (prv h)(a := v)\<rparr>"

definition list_init :: "nat \<Rightarrow> list_head \<Rightarrow> list_head" where
  "list_init l h = (let h = set_next l l h; h = set_prev l l h in h)"

definition list_add_between :: "nat \<Rightarrow> nat \<Rightarrow> nat \<Rightarrow> list_head \<Rightarrow> list_head" where
  "list_add_between newl prev next h =
     (let h = set_prev next newl h;
          h = set_next newl next h;
          h = set_prev newl prev h;
          h = set_next prev newl h in h)"

definition list_add :: "nat \<Rightarrow> nat \<Rightarrow> list_head \<Rightarrow> list_head" where
  "list_add newl head h = list_add_between newl head (nxt h head) h"

definition list_add_head :: "nat \<Rightarrow> nat \<Rightarrow> list_head \<Rightarrow> list_head" where
  "list_add_head newl head h = list_add_between newl head (nxt h head) h"

definition list_add_tail :: "nat \<Rightarrow> nat \<Rightarrow> list_head \<Rightarrow> list_head" where
  "list_add_tail newl head h = list_add_between newl (prv h head) head h"

definition list_del_between :: "nat \<Rightarrow> nat \<Rightarrow> list_head \<Rightarrow> list_head" where
  "list_del_between prev next h = (let h = set_prev next prev h; h = set_next prev next h in h)"

definition list_del_entry :: "nat \<Rightarrow> list_head \<Rightarrow> list_head" where
  "list_del_entry entry h = list_del_between (prv h entry) (nxt h entry) h"

definition list_del :: "nat \<Rightarrow> list_head \<Rightarrow> list_head" where
  "list_del entry h =
     (let h = list_del_between (prv h entry) (nxt h entry) h;
          h = set_next entry LIST_POISON1 h;
          h = set_prev entry LIST_POISON2 h in h)"

definition list_replace :: "nat \<Rightarrow> nat \<Rightarrow> list_head \<Rightarrow> list_head" where
  "list_replace old newl h =
     (let h = set_next newl (nxt h old) h;
          h = set_prev (nxt h newl) newl h;
          h = set_prev newl (prv h old) h;
          h = set_next (prv h newl) newl h in h)"

definition list_replace_init :: "nat \<Rightarrow> nat \<Rightarrow> list_head \<Rightarrow> list_head" where
  "list_replace_init old newl h = list_init old (list_replace old newl h)"

definition list_del_init :: "nat \<Rightarrow> list_head \<Rightarrow> list_head" where
  "list_del_init entry h = list_init entry (list_del_entry entry h)"

definition list_move :: "nat \<Rightarrow> nat \<Rightarrow> list_head \<Rightarrow> list_head" where
  "list_move l head h = list_add l head (list_del_entry l h)"

definition list_move_tail :: "nat \<Rightarrow> nat \<Rightarrow> list_head \<Rightarrow> list_head" where
  "list_move_tail l head h = list_add_tail l head (list_del_entry l h)"

definition list_is_last :: "nat \<Rightarrow> nat \<Rightarrow> list_head \<Rightarrow> bool" where
  "list_is_last l head h \<longleftrightarrow> nxt h l = head"

definition list_empty :: "nat \<Rightarrow> list_head \<Rightarrow> bool" where
  "list_empty head h \<longleftrightarrow> nxt h head = head"

definition list_empty_careful :: "nat \<Rightarrow> list_head \<Rightarrow> bool" where
  "list_empty_careful head h \<longleftrightarrow> (let next = nxt h head in next = head \<and> next = prv h head)"

definition list_movelist :: "nat \<Rightarrow> nat \<Rightarrow> list_head \<Rightarrow> list_head" where
  "list_movelist l new_list h =
     (if \<not> list_empty l h then
        (let h = set_prev new_list (prv h l) h;
             h = set_next new_list (nxt h l) h;
             h = set_next (prv h new_list) new_list h;
             h = set_prev (nxt h new_list) new_list h in list_init l h)
      else list_init new_list h)"

definition list_join :: "nat \<Rightarrow> nat \<Rightarrow> list_head \<Rightarrow> list_head" where
  "list_join l head h =
     (if \<not> list_empty l h then
        (let first = nxt h l; last = prv h l; at = prv h head;
             h = set_prev first at h;
             h = set_next at first h;
             h = set_next last head h;
             h = set_prev head last h in h)
      else h)"

definition list_rotate_left :: "nat \<Rightarrow> list_head \<Rightarrow> list_head" where
  "list_rotate_left head h =
     (if \<not> list_empty head h then (let first = nxt h head in list_move_tail first head h) else h)"

definition list_is_singular :: "nat \<Rightarrow> list_head \<Rightarrow> bool" where
  "list_is_singular head h \<longleftrightarrow> \<not> list_empty head h \<and> nxt h head = prv h head"

definition list_cut_position_aux :: "nat \<Rightarrow> nat \<Rightarrow> nat \<Rightarrow> list_head \<Rightarrow> list_head" where
  "list_cut_position_aux l head entry h =
     (let new_first = nxt h entry;
          h = set_next l (nxt h head) h;
          h = set_prev (nxt h l) l h;
          h = set_prev l entry h;
          h = set_next entry l h;
          h = set_next head new_first h;
          h = set_prev new_first head h in h)"

definition list_cut_position :: "nat \<Rightarrow> nat \<Rightarrow> nat \<Rightarrow> list_head \<Rightarrow> list_head" where
  "list_cut_position l head entry h =
     (if list_empty head h then h
      else if list_is_singular head h \<and> (nxt h head \<noteq> entry \<and> head \<noteq> entry) then h
      else if entry = head then list_init l h
      else list_cut_position_aux l head entry h)"

definition list_splice_between :: "nat \<Rightarrow> nat \<Rightarrow> nat \<Rightarrow> list_head \<Rightarrow> list_head" where
  "list_splice_between l prev next h =
     (let first = nxt h l; last = prv h l;
          h = set_prev first prev h;
          h = set_next prev first h;
          h = set_next last next h;
          h = set_prev next last h in h)"

definition list_splice :: "nat \<Rightarrow> nat \<Rightarrow> list_head \<Rightarrow> list_head" where
  "list_splice l head h = (if \<not> list_empty l h then list_splice_between l head (nxt h head) h else h)"

definition list_splice_tail :: "nat \<Rightarrow> nat \<Rightarrow> list_head \<Rightarrow> list_head" where
  "list_splice_tail l head h = (if \<not> list_empty l h then list_splice_between l (prv h head) head h else h)"

definition list_splice_init :: "nat \<Rightarrow> nat \<Rightarrow> list_head \<Rightarrow> list_head" where
  "list_splice_init l head h =
     (if \<not> list_empty l h then list_init l (list_splice_between l head (nxt h head) h) else h)"

definition list_splice_tail_init :: "nat \<Rightarrow> nat \<Rightarrow> list_head \<Rightarrow> list_head" where
  "list_splice_tail_init l head h =
     (if \<not> list_empty l h then list_init l (list_splice_between l (prv h head) head h) else h)"

text \<open>The traversal macros, as the list of nodes they visit; they may not end on a broken ring.\<close>

partial_function (option) walk_next :: "list_head \<Rightarrow> nat \<Rightarrow> nat \<Rightarrow> nat list option" where
  "walk_next h head pos =
     (if pos = head then Some []
      else Option.bind (walk_next h head (nxt h pos)) (\<lambda>ps. Some (pos # ps)))"

partial_function (option) walk_prev :: "list_head \<Rightarrow> nat \<Rightarrow> nat \<Rightarrow> nat list option" where
  "walk_prev h head pos =
     (if pos = head then Some []
      else Option.bind (walk_prev h head (prv h pos)) (\<lambda>ps. Some (pos # ps)))"

definition list_for_each :: "nat \<Rightarrow> list_head \<Rightarrow> nat list option" where
  "list_for_each head h = walk_next h head (nxt h head)"

definition list_for_each_prev :: "nat \<Rightarrow> list_head \<Rightarrow> nat list option" where
  "list_for_each_prev head h = walk_prev h head (prv h head)"

section \<open>Segments and rings\<close>

fun dseg :: "list_head \<Rightarrow> nat \<Rightarrow> nat list \<Rightarrow> nat \<Rightarrow> bool" where
  "dseg h a [] b \<longleftrightarrow> nxt h a = b \<and> prv h b = a"
| "dseg h a (x # xs) b \<longleftrightarrow> nxt h a = x \<and> prv h x = a \<and> dseg h x xs b"

definition clist :: "list_head \<Rightarrow> nat \<Rightarrow> nat list \<Rightarrow> bool" where
  "clist h head xs \<longleftrightarrow> distinct (head # xs) \<and> dseg h head xs head"

text \<open>Two heaps agree on every node outside \<open>A\<close>.\<close>

definition same_outside :: "nat set \<Rightarrow> list_head \<Rightarrow> list_head \<Rightarrow> bool" where
  "same_outside A h h' \<longleftrightarrow> (\<forall>a. a \<notin> A \<longrightarrow> nxt h' a = nxt h a \<and> prv h' a = prv h a)"

lemma fields [simp, dseg_simps]:
  "nxt (set_next a v h) x = (if x = a then v else nxt h x)" "prv (set_next a v h) = prv h"
  "prv (set_prev a v h) x = (if x = a then v else prv h x)" "nxt (set_prev a v h) = nxt h"
  by (simp_all add: set_next_def set_prev_def)

lemma dseg_append [simp, dseg_simps]: "dseg h a (xs @ y # ys) b \<longleftrightarrow> dseg h a xs y \<and> dseg h y ys b"
  by (induction xs arbitrary: a) auto

lemma dseg_set_next [simp, dseg_simps]:
  "u \<noteq> a \<Longrightarrow> u \<notin> set xs \<Longrightarrow> dseg (set_next u v h) a xs b = dseg h a xs b"
  by (induction xs arbitrary: a) auto

lemma dseg_set_prev [simp, dseg_simps]:
  "u \<noteq> b \<Longrightarrow> u \<notin> set xs \<Longrightarrow> dseg (set_prev u v h) a xs b = dseg h a xs b"
  by (induction xs arbitrary: a) auto

lemma dseg_cong:
  assumes "dseg h a xs b" and "\<forall>x \<in> set (a # xs). nxt h' x = nxt h x"
    and "\<forall>x \<in> set (xs @ [b]). prv h' x = prv h x"
  shows "dseg h' a xs b"
  using assms by (induction xs arbitrary: a) auto

text \<open>A list whose nodes an operation does not own is untouched by it.\<close>

lemma clist_frame:
  assumes "clist h l ys" and "same_outside A h h'" and "A \<inter> set (l # ys) = {}"
  shows "clist h' l ys"
proof -
  have "\<forall>a \<in> set (l # ys). nxt h' a = nxt h a" "\<forall>a \<in> set (ys @ [l]). prv h' a = prv h a"
    using assms(2,3) unfolding same_outside_def by auto
  moreover have "dseg h l ys l" using assms(1) by (simp add: clist_def)
  ultimately have "dseg h' l ys l" using dseg_cong by blast
  then show ?thesis using assms(1) by (simp add: clist_def)
qed

lemma dseg_ends: "dseg h a xs b \<Longrightarrow> nxt h a = hd (xs @ [b]) \<and> prv h b = last (a # xs)"
proof (induction xs arbitrary: a)
  case (Cons x xs)
  then have "prv h b = last (x # xs)" by simp
  then show ?case using Cons.prems by simp
qed simp

lemma clist_empty_iff: "clist h head xs \<Longrightarrow> list_empty head h \<longleftrightarrow> xs = []"
proof -
  assume c: "clist h head xs"
  then have "nxt h head = hd (xs @ [head])" using dseg_ends by (simp add: clist_def)
  moreover have "hd (xs @ [head]) = head \<longleftrightarrow> xs = []"
    using c by (cases xs) (auto simp: clist_def)
  ultimately show ?thesis by (simp add: list_empty_def)
qed

lemmas clist_ends = clist_def dseg_ends

lemma list_split_last: obtains "xs = []" | ys z where "xs = ys @ [z]"
  by (cases xs rule: rev_cases) auto

section \<open>Insertion and removal\<close>

text \<open>Insertion between two neighbours, wherever in the ring they are.\<close>

lemma list_add_between_ring:
  assumes "clist h head (as @ bs)" and "newl \<notin> set (head # as @ bs)"
  shows "clist (list_add_between newl (last (head # as)) (hd (bs @ [head])) h) head (as @ newl # bs)"
proof -
  show ?thesis
    by (cases as rule: rev_cases; cases bs)
      (use assms in \<open>auto simp: clist_def list_add_between_def Let_def\<close>)
qed

lemma list_del_between_ring:
  assumes "clist h head (as @ e # bs)"
  shows "clist (list_del_between (prv h e) (nxt h e) h) head (as @ bs)"
proof -
  have e: "prv h e = last (head # as)" "nxt h e = hd (bs @ [head])"
    using assms dseg_ends [of h head as e] dseg_ends [of h e bs head] by (auto simp: clist_def)
  show ?thesis unfolding e
    by (cases as rule: rev_cases; cases bs)
      (use assms in \<open>auto simp: clist_def list_del_between_def Let_def\<close>)
qed

lemma list_add_ring:
  assumes "clist h head xs" and "newl \<notin> set (head # xs)"
  shows "clist (list_add newl head h) head (newl # xs)"
  using list_add_between_ring [of h head "[]" xs newl] assms dseg_ends [of h head xs head]
  by (simp add: list_add_def clist_def)

lemma list_add_tail_ring:
  assumes "clist h head xs" and "newl \<notin> set (head # xs)"
  shows "clist (list_add_tail newl head h) head (xs @ [newl])"
  using list_add_between_ring [of h head xs "[]" newl] assms dseg_ends [of h head xs head]
  by (simp add: list_add_tail_def clist_def)

lemma list_del_entry_ring:
  "clist h head (as @ e # bs) \<Longrightarrow> clist (list_del_entry e h) head (as @ bs)"
  unfolding list_del_entry_def by (rule list_del_between_ring)

lemma clist_set_fresh:
  assumes "clist h head xs" and "u \<notin> set (head # xs)"
  shows "clist (set_next u v h) head xs" and "clist (set_prev u v h) head xs" and "clist (list_init u h) head xs"
  using assms by (auto simp: clist_def list_init_def)

lemma list_init_ring: "clist (list_init l h) l []"
  by (simp add: clist_def list_init_def)

lemma list_del_ring:
  assumes "clist h head (as @ e # bs)"
  shows "clist (list_del e h) head (as @ bs)"
    and "nxt (list_del e h) e = LIST_POISON1" and "prv (list_del e h) e = LIST_POISON2"
proof -
  have "e \<notin> set (head # as @ bs)" using assms by (auto simp: clist_def)
  then show "clist (list_del e h) head (as @ bs)"
    using list_del_between_ring [OF assms] by (simp add: list_del_def Let_def clist_set_fresh)
qed (simp_all add: list_del_def Let_def)

lemma list_del_init_ring:
  assumes "clist h head (as @ e # bs)"
  shows "clist (list_del_init e h) head (as @ bs)" and "clist (list_del_init e h) e []"
proof -
  have "e \<notin> set (head # as @ bs)" using assms by (auto simp: clist_def)
  then show "clist (list_del_init e h) head (as @ bs)"
    using list_del_entry_ring [OF assms] by (simp add: list_del_init_def clist_set_fresh)
qed (simp add: list_del_init_def list_init_ring)

text \<open>Moving within one ring, and from one ring to another disjoint from it.\<close>

lemma list_move_ring:
  assumes "clist h head (as @ e # bs)"
  shows "clist (list_move e head h) head (e # as @ bs)"
    and "clist (list_move_tail e head h) head (as @ bs @ [e])"
proof -
  have fresh: "e \<notin> set (head # as @ bs)" using assms by (auto simp: clist_def)
  show "clist (list_move e head h) head (e # as @ bs)"
    using list_add_ring [OF list_del_entry_ring [OF assms] fresh] by (simp add: list_move_def)
  show "clist (list_move_tail e head h) head (as @ bs @ [e])"
    using list_add_tail_ring [OF list_del_entry_ring [OF assms] fresh] by (simp add: list_move_tail_def)
qed

lemma list_replace_ring:
  assumes "clist h head (as @ old # bs)" and "newl \<notin> set (head # as @ old # bs)"
  shows "clist (list_replace old newl h) head (as @ newl # bs)"
proof -
  have e: "prv h old = last (head # as)" "nxt h old = hd (bs @ [head])"
    using assms dseg_ends [of h head as old] dseg_ends [of h old bs head] by (auto simp: clist_def)
  show ?thesis
    by (cases as rule: rev_cases; cases bs)
      (use assms e in \<open>auto simp: clist_def list_replace_def Let_def\<close>)
qed

lemma list_replace_empty:
  assumes "clist h old []" and "newl \<noteq> old"
  shows "clist (list_replace old newl h) newl []"
  using assms by (simp add: clist_def list_replace_def Let_def)

section \<open>Frames\<close>

text \<open>What each operation writes: the nodes of the ring it works on, and the new node.\<close>

lemma same_outside_refl [simp]: "same_outside A h h"
  by (simp add: same_outside_def)

lemma same_outside_set [intro]:
  "same_outside A h h' \<Longrightarrow> u \<in> A \<Longrightarrow> same_outside A h (set_next u v h')"
  "same_outside A h h' \<Longrightarrow> u \<in> A \<Longrightarrow> same_outside A h (set_prev u v h')"
  "same_outside A h h' \<Longrightarrow> u \<in> A \<Longrightarrow> same_outside A h (list_init u h')"
  by (auto simp: same_outside_def list_init_def)

lemma dseg_closed:
  "dseg h a xs b \<Longrightarrow>
   (\<forall>y \<in> set (a # xs). nxt h y \<in> set (xs @ [b])) \<and> (\<forall>y \<in> set (xs @ [b]). prv h y \<in> set (a # xs))"
  by (induction xs arbitrary: a) auto

lemma clist_closed:
  assumes "clist h head xs" and "a \<in> set (head # xs)"
  shows "nxt h a \<in> set (head # xs)" and "prv h a \<in> set (head # xs)"
  using assms dseg_closed [of h head xs head] by (auto simp: clist_def)

lemma list_add_frame:
  assumes "clist h head xs"
  shows "same_outside (set (newl # head # xs)) h (list_add newl head h)"
    and "same_outside (set (newl # head # xs)) h (list_add_tail newl head h)"
  using clist_closed [OF assms, of head]
  by (auto simp: list_add_def list_add_tail_def list_add_between_def Let_def same_outside_def)

lemma list_del_frame:
  assumes "clist h head xs" and "e \<in> set xs"
  shows "same_outside (set (head # xs)) h (list_del_entry e h)"
    and "same_outside (set (head # xs)) h (list_del e h)"
    and "same_outside (set (head # xs)) h (list_del_init e h)"
  using clist_closed [OF assms(1), of e] assms(2)
  by (auto simp: list_del_entry_def list_del_def list_del_init_def list_init_def list_del_between_def Let_def same_outside_def)

lemma list_replace_frame:
  assumes "clist h head xs" and "old \<in> set (head # xs)"
  shows "same_outside (set (newl # head # xs)) h (list_replace old newl h)"
  using clist_closed [OF assms(1,2)] assms(2)
  by (auto simp: list_replace_def Let_def same_outside_def)

section \<open>Whole lists\<close>

lemma list_movelist_ring:
  assumes "clist h l xs" and "new_list \<notin> set (l # xs)"
  shows "clist (list_movelist l new_list h) new_list xs" and "clist (list_movelist l new_list h) l []"
proof -
  have e: "nxt h l = hd (xs @ [l])" "prv h l = last (l # xs)"
    using assms(1) dseg_ends [of h l xs l] by (auto simp: clist_def)
  have emp: "list_empty l h \<longleftrightarrow> xs = []" by (rule clist_empty_iff [OF assms(1)])
  show "clist (list_movelist l new_list h) new_list xs"
  proof (cases xs)
    case Nil
    then show ?thesis by (simp add: list_movelist_def emp list_init_ring)
  next
    case (Cons y ys)
    then show ?thesis using assms e
      by (cases ys rule: rev_cases)
        (auto simp: list_movelist_def emp clist_def list_init_def Let_def)
  qed
  show "clist (list_movelist l new_list h) l []"
    using assms e by (cases xs) (auto simp: list_movelist_def emp list_init_ring Let_def clist_set_fresh)
qed

text \<open>Splicing the ring of \<open>l\<close> in between two neighbours of another, disjoint ring.\<close>

lemma list_splice_between_ring:
  assumes "clist h head (as @ bs)" and "clist h l xs" and "xs \<noteq> []"
    and "set (l # xs) \<inter> set (head # as @ bs) = {}"
  shows "clist (list_splice_between l (last (head # as)) (hd (bs @ [head])) h) head (as @ xs @ bs)"
proof -
  have e: "nxt h l = hd xs" "prv h l = last xs"
    using assms(2,3) dseg_ends [of h l xs l] by (auto simp: clist_def)
  obtain y ys where xs: "xs = y # ys" using assms(3) by (cases xs) auto
  show ?thesis
    by (cases as rule: rev_cases; cases bs; cases ys rule: rev_cases)
      (use assms e xs in \<open>auto simp: clist_def list_splice_between_def Let_def\<close>)
qed

lemma list_splice_ring:
  assumes "clist h head ys" and "clist h l xs" and "set (l # xs) \<inter> set (head # ys) = {}"
  shows "clist (list_splice l head h) head (xs @ ys)"
    and "clist (list_splice_tail l head h) head (ys @ xs)"
    and "clist (list_splice_init l head h) head (xs @ ys)" and "clist (list_splice_init l head h) l []"
    and "clist (list_splice_tail_init l head h) head (ys @ xs)" and "clist (list_splice_tail_init l head h) l []"
proof -
  have emp: "list_empty l h \<longleftrightarrow> xs = []" by (rule clist_empty_iff [OF assms(2)])
  have e: "nxt h head = hd (ys @ [head])" "prv h head = last (head # ys)"
    using assms(1) dseg_ends [of h head ys head] by (auto simp: clist_def)
  have front: "clist (list_splice_between l head (nxt h head) h) head (xs @ ys)" if "xs \<noteq> []"
    using list_splice_between_ring [of h head "[]" ys l xs] assms that e by simp
  have rear: "clist (list_splice_between l (prv h head) head h) head (ys @ xs)" if "xs \<noteq> []"
    using list_splice_between_ring [of h head ys "[]" l xs] assms that e by simp
  have l: "l \<notin> set (head # xs @ ys)" "l \<notin> set (head # ys @ xs)" using assms(2,3) by (auto simp: clist_def)
  show "clist (list_splice l head h) head (xs @ ys)" "clist (list_splice_tail l head h) head (ys @ xs)"
    using front rear assms(1) emp by (auto simp: list_splice_def list_splice_tail_def)
  show "clist (list_splice_init l head h) head (xs @ ys)" "clist (list_splice_tail_init l head h) head (ys @ xs)"
    using clist_set_fresh(3) [OF front l(1)] clist_set_fresh(3) [OF rear l(2)] assms(1) emp
    by (auto simp: list_splice_init_def list_splice_tail_init_def)
  show "clist (list_splice_init l head h) l []" "clist (list_splice_tail_init l head h) l []"
    using assms(2) emp by (auto simp: list_splice_init_def list_splice_tail_init_def list_init_ring)
qed

lemma list_join_is_splice_tail: "list_join l head h = list_splice_tail l head h"
  by (simp add: list_join_def list_splice_tail_def list_splice_between_def Let_def)

lemma list_splice_frame:
  assumes "clist h head ys" and "clist h l xs"
  shows "same_outside (set (l # xs) \<union> set (head # ys)) h (list_splice l head h)"
    and "same_outside (set (l # xs) \<union> set (head # ys)) h (list_splice_tail l head h)"
    and "same_outside (set (l # xs) \<union> set (head # ys)) h (list_splice_init l head h)"
    and "same_outside (set (l # xs) \<union> set (head # ys)) h (list_splice_tail_init l head h)"
  using clist_closed [OF assms(1), of head] clist_closed [OF assms(2), of l]
  by (auto simp: list_splice_def list_splice_tail_def list_splice_init_def list_splice_tail_init_def
      list_splice_between_def list_init_def Let_def same_outside_def)

lemma list_cut_position_ring:
  assumes "clist h head (as @ e # bs)" and "l \<notin> set (head # as @ e # bs)"
  shows "clist (list_cut_position l head e h) l (as @ [e])" and "clist (list_cut_position l head e h) head bs"
proof -
  have ne: "e \<noteq> head" using assms(1) by (auto simp: clist_def)
  have emp: "\<not> list_empty head h" using clist_empty_iff [OF assms(1)] by simp
  have sing: "\<not> (list_is_singular head h \<and> nxt h head \<noteq> e)"
  proof
    assume a: "list_is_singular head h \<and> nxt h head \<noteq> e"
    obtain y ys where xs: "as @ e # bs = y # ys" by (cases as) auto
    have f: "nxt h head = y" "prv h head = last (y # ys)"
      using assms(1) dseg_ends [of h head "y # ys" head] unfolding xs by (auto simp: clist_def)
    have "ys = []"
    proof (rule ccontr)
      assume "ys \<noteq> []"
      then have "last ys \<in> set ys" by simp
      then show False using a f assms(1) \<open>ys \<noteq> []\<close> unfolding xs by (auto simp: clist_def list_is_singular_def)
    qed
    then show False using xs a f by (cases as) auto
  qed
  have cut: "list_cut_position l head e h = list_cut_position_aux l head e h"
    using emp sing ne by (auto simp: list_cut_position_def)
  have e: "nxt h head = hd (as @ [e])" "nxt h e = hd (bs @ [head])"
    using assms(1) dseg_ends [of h head as e] dseg_ends [of h e bs head] by (auto simp: clist_def)
  show "clist (list_cut_position l head e h) l (as @ [e])" unfolding cut
    by (cases as; cases bs) (use assms e in \<open>auto simp: clist_def list_cut_position_aux_def Let_def\<close>)
  show "clist (list_cut_position l head e h) head bs" unfolding cut
    by (cases as; cases bs) (use assms e in \<open>auto simp: clist_def list_cut_position_aux_def Let_def\<close>)
qed

lemma list_rotate_left_ring: "clist h head xs \<Longrightarrow> clist (list_rotate_left head h) head (rotate1 xs)"
proof -
  assume c: "clist h head xs"
  show ?thesis
  proof (cases xs)
    case Nil
    then show ?thesis using c clist_empty_iff [OF c] by (simp add: list_rotate_left_def)
  next
    case (Cons y ys)
    then have "nxt h head = y" using c by (simp add: clist_def)
    then show ?thesis using Cons c clist_empty_iff [OF c] list_move_ring(2) [of h head "[]" y ys]
      by (simp add: list_rotate_left_def)
  qed
qed

section \<open>Traversal\<close>

lemma walk_next_seg: "dseg h a ys head \<Longrightarrow> head \<notin> set ys \<Longrightarrow> walk_next h head (nxt h a) = Some ys"
  by (induction ys arbitrary: a) (simp_all add: walk_next.simps)

lemma walk_prev_seg: "dseg h head ys b \<Longrightarrow> head \<notin> set ys \<Longrightarrow> walk_prev h head (prv h b) = Some (rev ys)"
proof (induction ys arbitrary: b rule: rev_induct)
  case Nil
  then show ?case by (simp add: walk_prev.simps)
next
  case (snoc y ys)
  then show ?case using walk_prev.simps [of h head y] by simp
qed

section \<open>Properties\<close>


definition ring3 :: list_head where
  "ring3 = \<lparr>nxt = (\<lambda>_. 0)(1 := 2, 2 := 3, 3 := 1), prv = (\<lambda>_. 0)(1 := 3, 2 := 1, 3 := 2)\<rparr>"


text \<open>
  Whole-list operations on two disjoint rings: the four splices and \<open>list_join\<close>
  concatenate in the documented order and the \<open>_init\<close> variants leave the source empty,
  \<open>list_movelist\<close> transfers the whole list to a new head, and \<open>list_cut_position\<close>
  moves exactly the initial part up to and including the given entry.
\<close>
theorem list_whole_operations:
  assumes "clist h head (as @ e # bs)" and "clist h l xs" and "set (l # xs) \<inter> set (head # as @ e # bs) = {}"
    and "new_list \<notin> set (head # as @ e # bs)"
  shows "clist (list_splice l head h) head (xs @ as @ e # bs)
    \<and> clist (list_splice_tail l head h) head (as @ e # bs @ xs)
    \<and> list_join l head h = list_splice_tail l head h
    \<and> clist (list_splice_init l head h) head (xs @ as @ e # bs) \<and> clist (list_splice_init l head h) l []
    \<and> clist (list_splice_tail_init l head h) head (as @ e # bs @ xs) \<and> clist (list_splice_tail_init l head h) l []
    \<and> clist (list_movelist head new_list h) new_list (as @ e # bs) \<and> clist (list_movelist head new_list h) head []
    \<and> clist (list_cut_position l head e h) l (as @ [e]) \<and> clist (list_cut_position l head e h) head bs"
proof -
  have l: "l \<notin> set (head # as @ e # bs)" using assms(3) by auto
  show ?thesis
    using list_splice_ring [OF assms(1,2,3)] list_movelist_ring [OF assms(1,4)]
      list_cut_position_ring [OF assms(1) l]
    by (simp add: list_join_is_splice_tail)
qed

definition two_rings :: list_head where
  "two_rings = \<lparr>nxt = (\<lambda>_. 0)(1 := 2, 2 := 3, 3 := 1, 7 := 8, 8 := 7),
     prv = (\<lambda>_. 0)(1 := 3, 2 := 1, 3 := 2, 7 := 8, 8 := 7)\<rparr>"

theorem list_whole_operations_witness:
  "clist two_rings 1 [2, 3] \<and> clist two_rings 7 [8] \<and> clist (list_splice_init 7 1 two_rings) 1 [8, 2, 3]
   \<and> clist (list_cut_position 7 1 2 two_rings) 7 [2] \<and> clist (list_movelist 1 9 two_rings) 9 [2, 3]"
proof -
  have c: "clist two_rings 1 ([] @ 2 # [3])" "clist two_rings 7 [8]" by (simp_all add: clist_def two_rings_def)
  show ?thesis using c list_whole_operations [OF c, of 9] by simp
qed

text \<open>
  On a well-formed ring the traversal macros terminate and visit exactly the nodes of the list,
  forwards and backwards, and the tests \<open>list_empty\<close>, \<open>list_empty_careful\<close>,
  \<open>list_is_singular\<close> and \<open>list_is_last\<close> answer correctly.
\<close>
theorem list_traversal_and_tests:
  assumes "clist h head xs"
  shows "list_for_each head h = Some xs \<and> list_for_each_prev head h = Some (rev xs)
    \<and> (list_empty head h \<longleftrightarrow> xs = []) \<and> (list_empty_careful head h \<longleftrightarrow> xs = [])
    \<and> (list_is_singular head h \<longleftrightarrow> length xs = 1)
    \<and> (\<forall>x \<in> set xs. list_is_last x head h \<longleftrightarrow> x = last xs)"
proof -
  have d: "dseg h head xs head" "head \<notin> set xs" "distinct xs" using assms by (auto simp: clist_def)
  have ends: "nxt h head = hd (xs @ [head])" "prv h head = last (head # xs)" using dseg_ends [OF d(1)] by auto
  have emp: "list_empty head h \<longleftrightarrow> xs = []" by (rule clist_empty_iff [OF assms])
  have sing: "hd xs = last xs \<longleftrightarrow> length xs = 1" if "xs \<noteq> []"
  proof (cases xs)
    case (Cons y ys)
    then show ?thesis using d(3) last_in_set [of ys] by (cases "ys = []") auto
  qed (use that in simp)
  have lst: "list_is_last x head h \<longleftrightarrow> x = last xs" if x: "x \<in> set xs" for x
  proof -
    obtain us vs where s: "xs = us @ x # vs" using x split_list by metis
    have "nxt h x = hd (vs @ [head])" using d(1) dseg_ends [of h x vs head] unfolding s by simp
    then show ?thesis using d(2,3) s by (cases vs rule: rev_cases) (auto simp: list_is_last_def hd_append)
  qed
  show ?thesis using walk_next_seg [OF d(1,2)] walk_prev_seg [OF d(1,2)] emp ends sing lst
    by (auto simp: list_for_each_def list_for_each_prev_def list_empty_careful_def list_is_singular_def list_empty_def)
qed

theorem list_traversal_and_tests_witness:
  "clist ring3 1 [2, 3] \<and> list_for_each 1 ring3 = Some [2, 3] \<and> list_for_each_prev 1 ring3 = Some [3, 2]"
proof -
  have c: "clist ring3 1 [2, 3]" by (simp add: clist_def ring3_def)
  show ?thesis using c list_traversal_and_tests [OF c] by simp
qed

end
