(* ===== verification/Hlist_Util.thy ===== *)
theory Hlist_Util
  imports Prelude
begin

text \<open>
  The hash-bucket lists of \<open>list_util.h\<close>: a head with a single \<open>first\<close> pointer, and
  nodes that hold \<open>next\<close> and \<open>pprev\<close>, the address of the pointer that points at them.
  Such an address is a location: the \<open>first\<close> field of a head or the \<open>next\<close> field of a
  node.  \<open>None\<close> is \<open>NULL\<close>.
\<close>

datatype hloc = HeadFirst nat | NodeNext nat | HPoison

record hlist_node =
  hfirst :: "nat \<Rightarrow> nat option"
  hnext :: "nat \<Rightarrow> nat option"
  pprev :: "nat \<Rightarrow> hloc option"

definition H_POISON1 :: nat where "H_POISON1 = 0x00100100"

fun deref :: "hlist_node \<Rightarrow> hloc \<Rightarrow> nat option" where
  "deref h (HeadFirst a) = hfirst h a"
| "deref h (NodeNext a) = hnext h a"
| "deref h HPoison = None"

fun assign :: "hloc \<Rightarrow> nat option \<Rightarrow> hlist_node \<Rightarrow> hlist_node" where
  "assign (HeadFirst a) v h = h\<lparr>hfirst := (hfirst h)(a := v)\<rparr>"
| "assign (NodeNext a) v h = h\<lparr>hnext := (hnext h)(a := v)\<rparr>"
| "assign HPoison v h = h"

definition set_pprev :: "nat \<Rightarrow> hloc option \<Rightarrow> hlist_node \<Rightarrow> hlist_node" where
  "set_pprev a v h = h\<lparr>pprev := (pprev h)(a := v)\<rparr>"

definition set_pprev_opt :: "nat option \<Rightarrow> hloc option \<Rightarrow> hlist_node \<Rightarrow> hlist_node" where
  "set_pprev_opt p v h = (case p of None \<Rightarrow> h | Some a \<Rightarrow> set_pprev a v h)"

definition hlist_init_node :: "nat \<Rightarrow> hlist_node \<Rightarrow> hlist_node" where
  "hlist_init_node n h = (let h = assign (NodeNext n) None h; h = set_pprev n None h in h)"

definition hlist_unhashed :: "nat \<Rightarrow> hlist_node \<Rightarrow> bool" where
  "hlist_unhashed n h \<longleftrightarrow> pprev h n = None"

definition hlist_empty :: "nat \<Rightarrow> hlist_node \<Rightarrow> bool" where
  "hlist_empty hp h \<longleftrightarrow> hfirst h hp = None"

text \<open>
  Operations that write through a \<open>pprev\<close> pointer fault (\<open>None\<close>) when it is
  \<open>NULL\<close> or poisoned.
\<close>

definition store_through :: "hloc option \<Rightarrow> nat option \<Rightarrow> hlist_node \<Rightarrow> hlist_node option" where
  "store_through pp v h =
     (case pp of None \<Rightarrow> None | Some loc \<Rightarrow> if loc = HPoison then None else Some (assign loc v h))"

definition hlist_del_links :: "nat \<Rightarrow> hlist_node \<Rightarrow> hlist_node option" where
  "hlist_del_links n h =
     (let next = hnext h n; pp = pprev h n
      in map_option (set_pprev_opt next pp) (store_through pp next h))"

definition hlist_del :: "nat \<Rightarrow> hlist_node \<Rightarrow> hlist_node option" where
  "hlist_del n h =
     map_option (\<lambda>h. set_pprev n (Some HPoison) (assign (NodeNext n) (Some H_POISON1) h))
       (hlist_del_links n h)"

definition hlist_del_init :: "nat \<Rightarrow> hlist_node \<Rightarrow> hlist_node option" where
  "hlist_del_init n h =
     (if \<not> hlist_unhashed n h then map_option (hlist_init_node n) (hlist_del_links n h) else Some h)"

definition hlist_add_head :: "nat \<Rightarrow> nat \<Rightarrow> hlist_node \<Rightarrow> hlist_node" where
  "hlist_add_head n hp h =
     (let first = hfirst h hp;
          h = assign (NodeNext n) first h;
          h = set_pprev_opt first (Some (NodeNext n)) h;
          h = assign (HeadFirst hp) (Some n) h;
          h = set_pprev n (Some (HeadFirst hp)) h in h)"

definition hlist_add_before :: "nat \<Rightarrow> nat \<Rightarrow> hlist_node \<Rightarrow> hlist_node option" where
  "hlist_add_before n next h =
     (let h = set_pprev n (pprev h next) h;
          h = assign (NodeNext n) (Some next) h;
          h = set_pprev next (Some (NodeNext n)) h
      in store_through (pprev h n) (Some n) h)"

definition hlist_add_behind :: "nat \<Rightarrow> nat \<Rightarrow> hlist_node \<Rightarrow> hlist_node" where
  "hlist_add_behind n prev h =
     (let h = assign (NodeNext n) (hnext h prev) h;
          h = assign (NodeNext prev) (Some n) h;
          h = set_pprev n (Some (NodeNext prev)) h
      in set_pprev_opt (hnext h n) (Some (NodeNext n)) h)"

definition hlist_add_fake :: "nat \<Rightarrow> hlist_node \<Rightarrow> hlist_node" where
  "hlist_add_fake n h = set_pprev n (Some (NodeNext n)) h"

definition hlist_move_list :: "nat \<Rightarrow> nat \<Rightarrow> hlist_node \<Rightarrow> hlist_node" where
  "hlist_move_list old newl h =
     (let h = assign (HeadFirst newl) (hfirst h old) h;
          h = set_pprev_opt (hfirst h newl) (Some (HeadFirst newl)) h
      in assign (HeadFirst old) None h)"

text \<open>The \<open>hlist_for_each\<close> macro, as the nodes it visits.\<close>

partial_function (option) hlist_walk :: "hlist_node \<Rightarrow> nat option \<Rightarrow> nat list option" where
  "hlist_walk h pos =
     (case pos of None \<Rightarrow> Some []
      | Some p \<Rightarrow> Option.bind (hlist_walk h (hnext h p)) (\<lambda>ps. Some (p # ps)))"

definition hlist_for_each :: "nat \<Rightarrow> hlist_node \<Rightarrow> nat list option" where
  "hlist_for_each hp h = hlist_walk h (hfirst h hp)"

section \<open>Well-formed chains\<close>

fun hpath :: "hlist_node \<Rightarrow> hloc \<Rightarrow> nat list \<Rightarrow> bool" where
  "hpath h loc [] \<longleftrightarrow> True"
| "hpath h loc (x # xs) \<longleftrightarrow> deref h loc = Some x \<and> pprev h x = Some loc \<and> hpath h (NodeNext x) xs"

definition hend :: "hloc \<Rightarrow> nat list \<Rightarrow> hloc" where
  "hend loc xs = (if xs = [] then loc else NodeNext (last xs))"

definition hlist :: "hlist_node \<Rightarrow> nat \<Rightarrow> nat list \<Rightarrow> bool" where
  "hlist h hp xs \<longleftrightarrow> distinct xs \<and> hpath h (HeadFirst hp) xs \<and> deref h (hend (HeadFirst hp) xs) = None"

lemma hend_simps [simp]:
  "hend loc [] = loc" "hend loc (x # xs) = hend (NodeNext x) xs" "hend loc (xs @ [x]) = NodeNext x"
  by (auto simp: hend_def)

lemma hpath_append [simp]: "hpath h loc (xs @ ys) \<longleftrightarrow> hpath h loc xs \<and> hpath h (hend loc xs) ys"
  by (induction xs arbitrary: loc) auto

lemma hend_append [simp]: "hend loc (xs @ ys) = hend (hend loc xs) ys"
  by (induction xs arbitrary: loc) auto

lemma hfields [simp]:
  "loc \<noteq> HPoison \<Longrightarrow> deref (assign loc v h) loc = v" "u \<noteq> loc \<Longrightarrow> deref (assign u v h) loc = deref h loc"
  "pprev (assign loc v h) = pprev h" "deref (set_pprev a w h) loc = deref h loc"
  "pprev (set_pprev a w h) x = (if x = a then w else pprev h x)"
  "deref (set_pprev_opt p w h) loc = deref h loc"
  "pprev (set_pprev_opt p w h) x = (if p = Some x then w else pprev h x)"
  by (cases loc; cases u; auto simp: set_pprev_def set_pprev_opt_def split: option.splits)+

lemma set_pprev_opt_simps [simp]:
  "set_pprev_opt None w h = h" "set_pprev_opt (Some a) w h = set_pprev a w h"
  by (simp_all add: set_pprev_opt_def)

lemma hnext_deref: "hnext h a = deref h (NodeNext a)" "hfirst h a = deref h (HeadFirst a)"
  by (simp_all add: deref.simps)

declare assign.simps [simp del] deref.simps [simp del]

definition hlocs :: "hloc \<Rightarrow> nat list \<Rightarrow> hloc set" where
  "hlocs loc xs = insert loc (NodeNext ` set xs)"

lemma in_hlocs [simp]: "u \<in> hlocs loc xs \<longleftrightarrow> u = loc \<or> (\<exists>x \<in> set xs. u = NodeNext x)"
  by (auto simp: hlocs_def)

lemma hpath_assign [simp]: "u \<notin> hlocs loc xs \<Longrightarrow> hpath (assign u v h) loc xs = hpath h loc xs"
  by (induction xs arbitrary: loc) auto

lemma hpath_assign_end [simp]:
  "\<forall>x \<in> set xs. loc \<noteq> NodeNext x \<Longrightarrow> distinct xs \<Longrightarrow>
   hpath (assign (hend loc xs) v h) loc xs = hpath h loc xs"
proof (induction xs arbitrary: loc)
  case (Cons x xs)
  have "hend (NodeNext x) xs \<noteq> loc" using Cons.prems by (auto simp: hend_def)
  then show ?case using Cons by auto
qed simp

lemma hpath_set_pprev [simp]: "a \<notin> set xs \<Longrightarrow> hpath (set_pprev a w h) loc xs = hpath h loc xs"
  by (induction xs arbitrary: loc) auto

lemma hpath_set_pprev_opt [simp]:
  "(\<And>a. p = Some a \<Longrightarrow> a \<notin> set xs) \<Longrightarrow> hpath (set_pprev_opt p w h) loc xs = hpath h loc xs"
  by (cases p) (simp_all add: set_pprev_opt_def)

lemma hend_in: "hend loc xs \<in> hlocs loc xs"
  by (auto simp: hend_def)

lemma hlist_split:
  assumes "hlist h hp (as @ n # bs)"
  shows "pprev h n = Some (hend (HeadFirst hp) as)" and "hpath h (HeadFirst hp) as" and "hpath h (NodeNext n) bs"
    and "deref h (hend (NodeNext n) bs) = None" and "deref h (hend (HeadFirst hp) as) = Some n"
    and "hnext h n = (case bs of [] \<Rightarrow> None | b # _ \<Rightarrow> Some b)"
  using assms by (auto simp: hlist_def hnext_deref split: list.splits)

lemma hend_not_poison [simp]: "hend (HeadFirst hp) as \<noteq> HPoison" "hend (NodeNext n) as \<noteq> HPoison"
  by (auto simp: hend_def)

lemma hend_other:
  assumes "x \<notin> set xs"
  shows "hend (HeadFirst hp) xs \<noteq> NodeNext x" and "n \<noteq> x \<Longrightarrow> hend (NodeNext n) xs \<noteq> NodeNext x"
  using assms last_in_set [of xs] by (auto simp: hend_def)

lemma hend_hend: "set as \<inter> set bs = {} \<Longrightarrow> n \<notin> set as \<Longrightarrow> hend (HeadFirst hp) as \<notin> hlocs (NodeNext n) bs"
  by (cases as rule: rev_cases) auto

lemma hlist_del_links_ok:
  assumes "hlist h hp (as @ n # bs)"
  shows "\<exists>h'. hlist_del_links n h = Some h' \<and> hlist h' hp (as @ bs)"
proof -
  note sp = hlist_split [OF assms]
  have d: "distinct (as @ n # bs)" using assms by (simp add: hlist_def)
  let ?e = "hend (HeadFirst hp) as"
  let ?h = "set_pprev_opt (hnext h n) (Some ?e) (assign ?e (hnext h n) h)"
  have eq: "hlist_del_links n h = Some ?h"
    by (simp add: hlist_del_links_def store_through_def sp(1) Let_def)
  have as: "hpath ?h (HeadFirst hp) as"
    using sp(2,6) d by (subst hpath_set_pprev_opt) (auto split: list.splits)
  show ?thesis
  proof (cases bs)
    case Nil
    then show ?thesis using eq as d sp(6) by (auto simp: hlist_def)
  next
    case (Cons b cs)
    have ne: "?e \<notin> hlocs (NodeNext b) cs" using d Cons by (intro hend_hend) auto
    have "hpath ?h (NodeNext b) cs"
      using sp(3,6) d Cons ne by (subst hpath_set_pprev_opt) (auto)
    moreover have "deref ?h (hend (NodeNext b) cs) = None"
      using sp(4) ne hend_in [of "NodeNext b" cs] Cons by (subst hfields(6), subst hfields(2)) auto
    ultimately show ?thesis using eq as d sp(6) Cons by (auto simp: hlist_def)
  qed
qed

lemma hlist_set_fresh:
  assumes "hlist h hp xs" and "n \<notin> set xs"
  shows "hlist (assign (NodeNext n) v h) hp xs" and "hlist (set_pprev n w h) hp xs"
  using assms hend_other(1) [OF assms(2), of hp]
  by (auto simp: hlist_def)

lemma hlist_add_head_ok:
  assumes "hlist h hp xs" and "n \<notin> set xs"
  shows "hlist (hlist_add_head n hp h) hp (n # xs)"
proof (cases xs)
  case Nil
  then show ?thesis using assms
    by (auto simp: hlist_def hlist_add_head_def Let_def hnext_deref)
next
  case (Cons y ys)
  have e: "hend (NodeNext y) ys \<noteq> NodeNext n" "hend (NodeNext y) ys \<noteq> HeadFirst hp"
    using assms(2) Cons hend_other(2) [of n ys y] by (auto simp: hend_def)
  show ?thesis using assms Cons e
    by (auto simp: hlist_def hlist_add_head_def Let_def hnext_deref)
qed

lemma hlist_add_behind_ok:
  assumes "hlist h hp (as @ p # bs)" and "n \<notin> set (as @ p # bs)"
  shows "hlist (hlist_add_behind n p h) hp (as @ p # n # bs)"
proof -
  note sp = hlist_split [OF assms(1)]
  have d: "distinct (as @ p # bs)" using assms by (simp add: hlist_def)
  have e: "hend (HeadFirst hp) as \<noteq> NodeNext n" "hend (HeadFirst hp) as \<noteq> NodeNext p"
    using hend_other(1) [of n as hp] hend_other(1) [of p as hp] assms(2) d by auto
  show ?thesis
  proof (cases bs)
    case Nil
    then show ?thesis using assms(2) d e sp
      by (auto simp: hlist_def hlist_add_behind_def Let_def hnext_deref)
  next
    case (Cons b cs)
    have "hend (NodeNext b) cs \<noteq> NodeNext n" "hend (NodeNext b) cs \<noteq> NodeNext p"
      using hend_other(2) [of n cs b] hend_other(2) [of p cs b] assms(2) d Cons by auto
    then show ?thesis using assms(2) d e sp Cons
      by (auto simp: hlist_def hlist_add_behind_def Let_def hnext_deref)
  qed
qed

lemma hlist_add_before_ok:
  assumes "hlist h hp (as @ x # bs)" and "n \<notin> set (as @ x # bs)"
  shows "\<exists>h'. hlist_add_before n x h = Some h' \<and> hlist h' hp (as @ n # x # bs)"
proof -
  note sp = hlist_split [OF assms(1)]
  have d: "distinct (as @ x # bs)" using assms by (simp add: hlist_def)
  let ?e = "hend (HeadFirst hp) as"
  have e: "?e \<noteq> NodeNext n" "?e \<noteq> NodeNext x" "\<forall>y \<in> set bs. ?e \<noteq> NodeNext y"
    using hend_other(1) [of n as hp] hend_other(1) [of x as hp] hend_hend [of as bs x hp] assms(2) d by auto
  have b: "hend (NodeNext x) bs \<noteq> NodeNext n" "hend (NodeNext x) bs \<noteq> ?e"
    using hend_other(2) [of n bs x] hend_in [of "NodeNext x" bs] e assms(2) by auto
  let ?h = "assign ?e (Some n) (set_pprev x (Some (NodeNext n)) (assign (NodeNext n) (Some x) (set_pprev n (Some ?e) h)))"
  have "hlist_add_before n x h = Some ?h"
    using sp(1) assms(2) by (simp add: hlist_add_before_def store_through_def Let_def)
  moreover have "hlist ?h hp (as @ n # x # bs)"
    using assms(2) d e b sp by (auto simp: hlist_def)
  ultimately show ?thesis by blast
qed

lemma hlist_del_ok:
  assumes "hlist h hp (as @ n # bs)"
  shows "\<exists>h'. hlist_del n h = Some h' \<and> hlist h' hp (as @ bs) \<and> pprev h' n = Some HPoison"
    and "\<exists>h'. hlist_del_init n h = Some h' \<and> hlist h' hp (as @ bs) \<and> hlist_unhashed n h'"
proof -
  obtain h1 where h1: "hlist_del_links n h = Some h1" "hlist h1 hp (as @ bs)"
    using hlist_del_links_ok [OF assms] by blast
  have n: "n \<notin> set (as @ bs)" using assms by (auto simp: hlist_def)
  show "\<exists>h'. hlist_del n h = Some h' \<and> hlist h' hp (as @ bs) \<and> pprev h' n = Some HPoison"
    using h1 hlist_set_fresh(2) [OF hlist_set_fresh(1) [OF h1(2) n] n] by (auto simp: hlist_del_def)
  show "\<exists>h'. hlist_del_init n h = Some h' \<and> hlist h' hp (as @ bs) \<and> hlist_unhashed n h'"
    using h1 hlist_set_fresh(2) [OF hlist_set_fresh(1) [OF h1(2) n] n] hlist_split(1) [OF assms]
    by (auto simp: hlist_del_init_def hlist_init_node_def hlist_unhashed_def Let_def)
qed

lemma hlist_move_list_ok:
  assumes "hlist h old xs" and "newl \<noteq> old"
  shows "hlist (hlist_move_list old newl h) newl xs" and "hlist (hlist_move_list old newl h) old []"
proof -
  show "hlist (hlist_move_list old newl h) newl xs"
  proof (cases xs)
    case Nil
    then show ?thesis using assms by (auto simp: hlist_def hlist_move_list_def Let_def hnext_deref)
  next
    case (Cons y ys)
    have "HeadFirst a \<noteq> hend (NodeNext y) ys" for a by (auto simp: hend_def)
    then show ?thesis using assms Cons by (auto simp: hlist_def hlist_move_list_def Let_def hnext_deref)
  qed
  show "hlist (hlist_move_list old newl h) old []" by (simp add: hlist_def hlist_move_list_def Let_def)
qed

lemma hlist_walk_path:
  "hpath h loc xs \<Longrightarrow> deref h (hend loc xs) = None \<Longrightarrow> hlist_walk h (deref h loc) = Some xs"
proof (induction xs arbitrary: loc)
  case Nil
  then show ?case by (simp add: hlist_walk.simps)
next
  case (Cons x xs)
  then show ?case by (simp add: hlist_walk.simps [of h "Some x"] hnext_deref)
qed

text \<open>
  C38. The hash-bucket lists keep their \<open>next\<close>/\<open>pprev\<close> links consistent:
  \<open>hlist_add_head\<close>, \<open>hlist_add_before\<close> and \<open>hlist_add_behind\<close> insert the new
  node exactly where they say, \<open>hlist_del\<close> and \<open>hlist_del_init\<close> unlink a node without
  knowing its head and never write through a null or poisoned pointer, \<open>hlist_move_list\<close>
  transfers the whole list, and \<open>hlist_for_each\<close> ends after visiting exactly the list.
\<close>
theorem hlist_operations:
  assumes "hlist h hp (as @ x # bs)" and "n \<notin> set (as @ x # bs)" and "other \<noteq> hp"
  shows "hlist (hlist_add_head n hp h) hp (n # as @ x # bs)
    \<and> (\<exists>h'. hlist_add_before n x h = Some h' \<and> hlist h' hp (as @ n # x # bs))
    \<and> hlist (hlist_add_behind n x h) hp (as @ x # n # bs)
    \<and> (\<exists>h'. hlist_del x h = Some h' \<and> hlist h' hp (as @ bs) \<and> pprev h' x = Some HPoison)
    \<and> (\<exists>h'. hlist_del_init x h = Some h' \<and> hlist h' hp (as @ bs) \<and> hlist_unhashed x h')
    \<and> hlist (hlist_move_list hp other h) other (as @ x # bs) \<and> hlist (hlist_move_list hp other h) hp []
    \<and> hlist_for_each hp h = Some (as @ x # bs) \<and> \<not> hlist_empty hp h"
proof -
  have "hlist_for_each hp h = Some (as @ x # bs)"
    using hlist_walk_path [of h "HeadFirst hp" "as @ x # bs"] assms(1)
    by (simp add: hlist_for_each_def hlist_def hnext_deref)
  moreover have "\<not> hlist_empty hp h"
    using assms(1) by (cases as) (auto simp: hlist_empty_def hlist_def hnext_deref)
  ultimately show ?thesis
    using hlist_add_head_ok [OF assms(1,2)] hlist_add_before_ok [OF assms(1,2)]
      hlist_add_behind_ok [OF assms(1,2)] hlist_del_ok [OF assms(1)] hlist_move_list_ok [OF assms(1,3)]
    by blast
qed

definition bucket :: hlist_node where
  "bucket = \<lparr>hfirst = (\<lambda>_. None)(0 := Some 1), hnext = (\<lambda>_. None)(1 := Some 2),
     pprev = (\<lambda>_. None)(1 := Some (HeadFirst 0), 2 := Some (NodeNext 1))\<rparr>"

theorem hlist_operations_witness:
  "hlist bucket 0 ([1] @ 2 # []) \<and> hlist_for_each 0 bucket = Some [1, 2]
   \<and> hlist (hlist_add_behind 5 2 bucket) 0 [1, 2, 5]"
proof -
  have c: "hlist bucket 0 ([1] @ 2 # [])" by (simp add: hlist_def bucket_def deref.simps)
  show ?thesis using c hlist_operations [OF c, of 5 3] by simp
qed

end
