(* ===== verification/Small_Queue.thy ===== *)
theory Small_Queue
  imports Prelude
begin

text \<open>
  \<open>SmallQueue<T, N>\<close> of \<open>small_container.h\<close>: a queue that keeps its first
  \<open>N\<close> elements in an in-object circular array and spills to a heap-allocated deque when
  the array is full.  The deque pointer \<open>_full\<close> is an option (\<open>None\<close> for
  \<open>NULL\<close>); the template argument \<open>N\<close> is a parameter of the operations.  The
  class refines the unbounded FIFO queue.
\<close>

record 'a SmallQueue =
  sq_begin :: nat
  sq_size :: nat
  sq_c :: "'a list"
  sq_full :: "'a list option"

text \<open>The constructor; the array \<open>_c[N]\<close> starts with whatever the memory holds.\<close>

definition SmallQueue_new :: "'a list \<Rightarrow> 'a SmallQueue" where
  "SmallQueue_new mem = \<lparr>sq_begin = 0, sq_size = 0, sq_c = mem, sq_full = None\<rparr>"

definition SmallQueue_push :: "nat \<Rightarrow> 'a \<Rightarrow> 'a SmallQueue \<Rightarrow> 'a SmallQueue" where
  "SmallQueue_push N val q =
     (if sq_full q \<noteq> None \<and> the (sq_full q) \<noteq> []
      then q\<lparr>sq_full := Some (the (sq_full q) @ [val])\<rparr>
      else if sq_size q < N then
        (let tail = sq_begin q + sq_size q;
             tail = (if tail \<ge> N then tail - N else tail)
         in q\<lparr>sq_c := (sq_c q)[tail := val], sq_size := sq_size q + 1\<rparr>)
      else
        (let d = (case sq_full q of None \<Rightarrow> [] | Some d \<Rightarrow> d)
         in q\<lparr>sq_full := Some (d @ [val])\<rparr>))"

text \<open>\<open>pop\<close> returns the element it stored through \<open>val\<close>, \<open>None\<close> for false.\<close>

definition SmallQueue_pop :: "nat \<Rightarrow> 'a SmallQueue \<Rightarrow> 'a option \<times> 'a SmallQueue" where
  "SmallQueue_pop N q =
     (if sq_size q > 0 then
        (let v = sq_c q ! sq_begin q;
             b = sq_begin q + 1;
             b = (if b \<ge> N then b - N else b)
         in (Some v, q\<lparr>sq_begin := b, sq_size := sq_size q - 1\<rparr>))
      else case sq_full q of
        Some (v # d) \<Rightarrow> (Some v, q\<lparr>sq_full := Some d\<rparr>)
      | _ \<Rightarrow> (None, q))"

definition SmallQueue_empty :: "'a SmallQueue \<Rightarrow> bool" where
  "SmallQueue_empty q \<longleftrightarrow> sq_size q = 0 \<and> (sq_full q = None \<or> the (sq_full q) = [])"

definition SmallQueue_size :: "'a SmallQueue \<Rightarrow> nat" where
  "SmallQueue_size q = sq_size q + (case sq_full q of None \<Rightarrow> 0 | Some d \<Rightarrow> length d)"

definition SmallQueue_clear :: "'a SmallQueue \<Rightarrow> 'a SmallQueue" where
  "SmallQueue_clear q =
     q\<lparr>sq_size := 0, sq_begin := 0,
       sq_full := (case sq_full q of None \<Rightarrow> None | Some d \<Rightarrow> Some [])\<rparr>"

lemmas SmallQueue_defs = SmallQueue_push_def SmallQueue_pop_def SmallQueue_empty_def
  SmallQueue_size_def SmallQueue_clear_def SmallQueue_new_def

section \<open>Invariant and contents\<close>

definition SmallQueue_inv :: "nat \<Rightarrow> 'a SmallQueue \<Rightarrow> bool" where
  "SmallQueue_inv N q \<longleftrightarrow> sq_begin q < N \<and> sq_size q \<le> N \<and> length (sq_c q) = N"

definition SmallQueue_contents :: "nat \<Rightarrow> 'a SmallQueue \<Rightarrow> 'a list" where
  "SmallQueue_contents N q =
     ring N (sq_c q) (sq_begin q) (sq_size q) @ (case sq_full q of None \<Rightarrow> [] | Some d \<Rightarrow> d)"

lemma wrap_once: "s < N \<Longrightarrow> n \<le> N \<Longrightarrow> (if s + n \<ge> N then s + n - N else s + n) = (s + n) mod N"
  for s n N :: nat
  by (auto simp: mod_if)

lemma SmallQueue_push_spec:
  assumes "SmallQueue_inv N q"
  shows "SmallQueue_inv N (SmallQueue_push N x q)"
    and "SmallQueue_contents N (SmallQueue_push N x q) = SmallQueue_contents N q @ [x]"
  using assms ring_push_back [of "sq_size q" N "sq_c q" "sq_begin q" x]
  by (auto simp: SmallQueue_push_def SmallQueue_inv_def SmallQueue_contents_def Let_def wrap_once
      split: option.splits)

lemma SmallQueue_pop_spec:
  assumes "SmallQueue_inv N q"
  shows "SmallQueue_inv N (snd (SmallQueue_pop N q))"
    and "fst (SmallQueue_pop N q) = fst (list_pop (SmallQueue_contents N q))"
    and "SmallQueue_contents N (snd (SmallQueue_pop N q)) = snd (list_pop (SmallQueue_contents N q))"
proof -
  have b: "(if sq_begin q + 1 \<ge> N then sq_begin q + 1 - N else sq_begin q + 1) = Suc (sq_begin q) mod N"
    "Suc (sq_begin q) mod N < N" "sq_begin q mod N = sq_begin q"
    using assms wrap_once [of "sq_begin q" N 1] by (auto simp: SmallQueue_inv_def)
  show "SmallQueue_inv N (snd (SmallQueue_pop N q))"
    using assms b by (auto simp: SmallQueue_pop_def SmallQueue_inv_def Let_def split: option.splits list.splits)
  show "fst (SmallQueue_pop N q) = fst (list_pop (SmallQueue_contents N q))"
    using b by (cases "sq_size q")
      (auto simp: SmallQueue_pop_def SmallQueue_contents_def list_pop_def ring_Cons Let_def
        split: option.splits list.splits)
  show "SmallQueue_contents N (snd (SmallQueue_pop N q)) = snd (list_pop (SmallQueue_contents N q))"
    using b by (cases "sq_size q")
      (auto simp: SmallQueue_pop_def SmallQueue_contents_def list_pop_def ring_Cons Let_def
        split: option.splits list.splits)
qed

interpretation sq: fifo_queue "SmallQueue_inv N" "SmallQueue_contents N"
    "\<lambda>x q. (True, SmallQueue_push N x q)" "SmallQueue_pop N" "\<lambda>_. True" for N
  by unfold_locales (simp_all add: SmallQueue_push_spec SmallQueue_pop_spec list_push_def)

lemma SmallQueue_new_spec:
  assumes "0 < N" and "length mem = N"
  shows "SmallQueue_inv N (SmallQueue_new mem)" and "SmallQueue_contents N (SmallQueue_new mem) = []"
  using assms by (simp_all add: SmallQueue_inv_def SmallQueue_contents_def SmallQueue_new_def)

lemma SmallQueue_size_contents: "SmallQueue_size q = length (SmallQueue_contents N q)"
  by (simp add: SmallQueue_size_def SmallQueue_contents_def split: option.split)

lemma SmallQueue_empty_contents: "SmallQueue_empty q \<longleftrightarrow> SmallQueue_contents N q = []"
  by (auto simp: SmallQueue_empty_def SmallQueue_contents_def ring_def split: option.split)

lemma SmallQueue_clear_contents: "SmallQueue_contents N (SmallQueue_clear q) = []"
  by (simp add: SmallQueue_clear_def SmallQueue_contents_def split: option.split)

text \<open>
  C15. A \<open>SmallQueue\<close> is an unbounded FIFO queue whatever the interleaving of the array and
  the spill deque: starting from the constructor, every sequence of \<open>push\<close> and \<open>pop\<close>
  calls returns exactly what a plain list queue returns, and afterwards \<open>size()\<close> and
  \<open>empty()\<close> describe the list queue's contents.
\<close>
theorem SmallQueue_refines_list_queue:
  assumes "0 < N" and "length mem = N"
    and run: "qrun (\<lambda>x q. (True, SmallQueue_push N x q)) (SmallQueue_pop N) (SmallQueue_new mem) ops = (rs, q)"
    and ref: "qrun (list_push (\<lambda>_. True)) list_pop [] ops = (rs', xs)"
  shows "rs = rs' \<and> SmallQueue_size q = length xs \<and> (SmallQueue_empty q \<longleftrightarrow> xs = [])
    \<and> SmallQueue_contents N (SmallQueue_clear q) = []"
  using sq.run_refines [OF SmallQueue_new_spec(1) [OF assms(1,2)], of ops]
  by (simp add: run ref SmallQueue_new_spec(2) [OF assms(1,2)] SmallQueue_size_contents [of _ N]
      SmallQueue_empty_contents [of _ N] SmallQueue_clear_contents)

theorem SmallQueue_refines_list_queue_witness:
  "fst (qrun (\<lambda>x q. (True, SmallQueue_push 2 x q)) (SmallQueue_pop 2) (SmallQueue_new [0, 0])
        [Enq (1::nat), Enq 2, Enq 3, Deq, Enq 4, Deq, Deq, Deq, Deq])
   = [Accepted True, Accepted True, Accepted True, Got (Some 1), Accepted True,
      Got (Some 2), Got (Some 3), Got (Some 4), Got None]"
proof -
  let ?ops = "[Enq (1::nat), Enq 2, Enq 3, Deq, Enq 4, Deq, Deq, Deq, Deq]"
  let ?impl = "qrun (\<lambda>x q. (True, SmallQueue_push 2 x q)) (SmallQueue_pop 2) (SmallQueue_new [0, 0]) ?ops"
  let ?ref = "qrun (list_push (\<lambda>_. True)) list_pop [] ?ops"
  have "fst ?impl = fst ?ref"
    using SmallQueue_refines_list_queue [of 2 "[0, 0]" ?ops "fst ?impl" "snd ?impl" "fst ?ref" "snd ?ref"]
    by simp
  then show ?thesis by (simp add: list_push_def list_pop_def)
qed

end
