(* ===== verification/Bounded_Queue.thy ===== *)
theory Bounded_Queue
  imports Prelude
begin

text \<open>
  \<open>BoundedQueue<T>\<close> of \<open>blocking_queue.h\<close>: a double-ended ring buffer over raw
  storage.  \<open>uint32_t\<close> indices are \<open>nat\<close> with \<open>add32\<close>/\<open>sub32\<close>; every
  access to the storage is checked, so that constructing outside the array, reading raw storage
  and the endless \<open>_mod\<close> loop are error values.  All operations refine a list deque except
  \<open>pop_bottom\<close>, which indexes the storage without \<open>_mod\<close>.
\<close>

datatype StorageOwnership = OWNS_STORAGE | NOT_OWN_STORAGE

record 'a BoundedQueue =
  bq_count :: nat
  bq_cap :: nat
  bq_start :: nat
  bq_ownership :: StorageOwnership
  bq_items :: "'a option list option"

definition BoundedQueue_from_mem :: "'a option list option \<Rightarrow> nat \<Rightarrow> nat \<Rightarrow> StorageOwnership
    \<Rightarrow> 'a BoundedQueue result" where
  "BoundedQueue_from_mem mem memsize sizeof_T own =
     (if mem = None then Inl AssertFailed
      else Inr \<lparr>bq_count = 0, bq_cap = (memsize div sizeof_T) mod u32_mod, bq_start = 0,
                bq_ownership = own, bq_items = mem\<rparr>)"

text \<open>The allocating constructor; \<open>malloc\<close> is its result, \<open>None\<close> for a failure.\<close>

definition BoundedQueue_new :: "'a option list option \<Rightarrow> nat \<Rightarrow> 'a BoundedQueue result" where
  "BoundedQueue_new malloc capacity =
     (if malloc = None then Inl AssertFailed
      else Inr \<lparr>bq_count = 0, bq_cap = capacity mod u32_mod, bq_start = 0,
                bq_ownership = OWNS_STORAGE, bq_items = malloc\<rparr>)"

definition BoundedQueue_default :: "'a BoundedQueue" where
  "BoundedQueue_default = \<lparr>bq_count = 0, bq_cap = 0, bq_start = 0,
     bq_ownership = NOT_OWN_STORAGE, bq_items = None\<rparr>"

text \<open>\<open>while (off >= cap) off -= cap;\<close> does not return when \<open>cap\<close> is 0.\<close>

partial_function (option) BoundedQueue_mod :: "nat \<Rightarrow> nat \<Rightarrow> nat option" where
  "BoundedQueue_mod off cap = (if off \<ge> cap then BoundedQueue_mod (off - cap) cap else Some off)"

definition mod_or_hang :: "nat \<Rightarrow> nat \<Rightarrow> nat result" where
  "mod_or_hang off cap = (case BoundedQueue_mod off cap of None \<Rightarrow> Inl Diverges | Some i \<Rightarrow> Inr i)"

definition bq_mem :: "'a BoundedQueue \<Rightarrow> 'a option list" where
  "bq_mem q = (case bq_items q of None \<Rightarrow> [] | Some mem \<Rightarrow> mem)"

text \<open>Placement construction or destruction of the object in slot \<open>i\<close>.\<close>

definition bq_write :: "'a BoundedQueue \<Rightarrow> nat \<Rightarrow> 'a option \<Rightarrow> 'a BoundedQueue result" where
  "bq_write q i v = ub_bind (slot_store (bq_mem q) i v) (\<lambda>mem. Inr (q\<lparr>bq_items := Some mem\<rparr>))"

definition BoundedQueue_push :: "'a \<Rightarrow> 'a BoundedQueue \<Rightarrow> (bool \<times> 'a BoundedQueue) result" where
  "BoundedQueue_push item q =
     (if bq_count q < bq_cap q then
        ub_bind (mod_or_hang (add32 (bq_start q) (bq_count q)) (bq_cap q)) (\<lambda>i.
        ub_bind (bq_write q i (Some item)) (\<lambda>q.
        Inr (True, q\<lparr>bq_count := bq_count q + 1\<rparr>)))
      else Inr (False, q))"

definition BoundedQueue_elim_push :: "'a \<Rightarrow> 'a BoundedQueue \<Rightarrow> 'a BoundedQueue result" where
  "BoundedQueue_elim_push item q =
     (if bq_count q < bq_cap q then
        ub_bind (mod_or_hang (add32 (bq_start q) (bq_count q)) (bq_cap q)) (\<lambda>i.
        ub_bind (bq_write q i (Some item)) (\<lambda>q.
        Inr (q\<lparr>bq_count := bq_count q + 1\<rparr>)))
      else
        ub_bind (bq_write q (bq_start q) (Some item)) (\<lambda>q.
        ub_bind (mod_or_hang (add32 (bq_start q) 1) (bq_cap q)) (\<lambda>s.
        Inr (q\<lparr>bq_start := s\<rparr>))))"

definition BoundedQueue_push_top :: "'a \<Rightarrow> 'a BoundedQueue \<Rightarrow> (bool \<times> 'a BoundedQueue) result" where
  "BoundedQueue_push_top item q =
     (if bq_count q < bq_cap q then
        (let s = (if bq_start q \<noteq> 0 then bq_start q - 1 else bq_cap q - 1);
             q = q\<lparr>bq_start := s, bq_count := bq_count q + 1\<rparr>
         in ub_bind (bq_write q s (Some item)) (\<lambda>q. Inr (True, q)))
      else Inr (False, q))"

text \<open>The overloads that construct a default \<open>T()\<close> return the new object's address.\<close>

definition BoundedQueue_push_default :: "'a \<Rightarrow> 'a BoundedQueue \<Rightarrow> (nat option \<times> 'a BoundedQueue) result" where
  "BoundedQueue_push_default dflt q =
     (if bq_count q < bq_cap q then
        ub_bind (mod_or_hang (add32 (bq_start q) (bq_count q)) (bq_cap q)) (\<lambda>i.
        ub_bind (bq_write (q\<lparr>bq_count := bq_count q + 1\<rparr>) i (Some dflt)) (\<lambda>q.
        Inr (Some i, q)))
      else Inr (None, q))"

definition BoundedQueue_push_top_default :: "'a \<Rightarrow> 'a BoundedQueue \<Rightarrow> (nat option \<times> 'a BoundedQueue) result" where
  "BoundedQueue_push_top_default dflt q =
     (if bq_count q < bq_cap q then
        (let s = (if bq_start q \<noteq> 0 then bq_start q - 1 else bq_cap q - 1);
             q = q\<lparr>bq_start := s, bq_count := bq_count q + 1\<rparr>
         in ub_bind (bq_write q s (Some dflt)) (\<lambda>q. Inr (Some s, q)))
      else Inr (None, q))"

definition BoundedQueue_pop :: "'a BoundedQueue \<Rightarrow> ('a option \<times> 'a BoundedQueue) result" where
  "BoundedQueue_pop q =
     (if bq_count q \<noteq> 0 then
        (let q = q\<lparr>bq_count := bq_count q - 1\<rparr> in
         ub_bind (slot_load (bq_mem q) (bq_start q)) (\<lambda>x.
         ub_bind (bq_write q (bq_start q) None) (\<lambda>q.
         ub_bind (mod_or_hang (add32 (bq_start q) 1) (bq_cap q)) (\<lambda>s.
         Inr (Some x, q\<lparr>bq_start := s\<rparr>)))))
      else Inr (None, q))"

text \<open>\<open>pop()\<close> without an out-parameter: the object is destroyed, not read.\<close>

definition BoundedQueue_pop_drop :: "'a BoundedQueue \<Rightarrow> (bool \<times> 'a BoundedQueue) result" where
  "BoundedQueue_pop_drop q =
     (if bq_count q \<noteq> 0 then
        (let q = q\<lparr>bq_count := bq_count q - 1\<rparr> in
         ub_bind (bq_write q (bq_start q) None) (\<lambda>q.
         ub_bind (mod_or_hang (add32 (bq_start q) 1) (bq_cap q)) (\<lambda>s.
         Inr (True, q\<lparr>bq_start := s\<rparr>))))
      else Inr (False, q))"

text \<open>The slot is \<open>_start + _count\<close>, with no reduction modulo the capacity.\<close>

definition BoundedQueue_pop_bottom :: "'a BoundedQueue \<Rightarrow> ('a option \<times> 'a BoundedQueue) result" where
  "BoundedQueue_pop_bottom q =
     (if bq_count q \<noteq> 0 then
        (let q = q\<lparr>bq_count := bq_count q - 1\<rparr>; i = add32 (bq_start q) (bq_count q) in
         ub_bind (slot_load (bq_mem q) i) (\<lambda>x.
         ub_bind (bq_write q i None) (\<lambda>q.
         Inr (Some x, q))))
      else Inr (None, q))"

definition BoundedQueue_pop_bottom_drop :: "'a BoundedQueue \<Rightarrow> (bool \<times> 'a BoundedQueue) result" where
  "BoundedQueue_pop_bottom_drop q =
     (if bq_count q \<noteq> 0 then
        (let q = q\<lparr>bq_count := bq_count q - 1\<rparr> in
         ub_bind (bq_write q (add32 (bq_start q) (bq_count q)) None) (\<lambda>q.
         Inr (True, q)))
      else Inr (False, q))"

fun destroy_loop :: "nat \<Rightarrow> nat \<Rightarrow> 'a BoundedQueue \<Rightarrow> 'a BoundedQueue result" where
  "destroy_loop i 0 q = Inr q"
| "destroy_loop i (Suc n) q =
     ub_bind (mod_or_hang (add32 (bq_start q) i) (bq_cap q)) (\<lambda>j.
     ub_bind (bq_write q j None) (\<lambda>q. destroy_loop (Suc i) n q))"

definition BoundedQueue_clear :: "'a BoundedQueue \<Rightarrow> 'a BoundedQueue result" where
  "BoundedQueue_clear q =
     ub_bind (destroy_loop 0 (bq_count q) q) (\<lambda>q. Inr (q\<lparr>bq_count := 0, bq_start := 0\<rparr>))"

text \<open>The accessors return the addressed object; \<open>Inr None\<close> is the null pointer.\<close>

definition BoundedQueue_top :: "'a BoundedQueue \<Rightarrow> 'a option result" where
  "BoundedQueue_top q =
     (if bq_count q \<noteq> 0 then ub_bind (slot_load (bq_mem q) (bq_start q)) (\<lambda>x. Inr (Some x)) else Inr None)"

definition BoundedQueue_top_at :: "nat \<Rightarrow> 'a BoundedQueue \<Rightarrow> 'a option result" where
  "BoundedQueue_top_at index q =
     (if index < bq_count q then
        ub_bind (mod_or_hang (add32 (bq_start q) index) (bq_cap q)) (\<lambda>i.
        ub_bind (slot_load (bq_mem q) i) (\<lambda>x. Inr (Some x)))
      else Inr None)"

definition BoundedQueue_bottom :: "'a BoundedQueue \<Rightarrow> 'a option result" where
  "BoundedQueue_bottom q =
     (if bq_count q \<noteq> 0 then
        ub_bind (mod_or_hang (sub32 (add32 (bq_start q) (bq_count q)) 1) (bq_cap q)) (\<lambda>i.
        ub_bind (slot_load (bq_mem q) i) (\<lambda>x. Inr (Some x)))
      else Inr None)"

definition BoundedQueue_bottom_at :: "nat \<Rightarrow> 'a BoundedQueue \<Rightarrow> 'a option result" where
  "BoundedQueue_bottom_at index q =
     (if index < bq_count q then
        ub_bind (mod_or_hang (sub32 (sub32 (add32 (bq_start q) (bq_count q)) index) 1) (bq_cap q)) (\<lambda>i.
        ub_bind (slot_load (bq_mem q) i) (\<lambda>x. Inr (Some x)))
      else Inr None)"

definition BoundedQueue_empty :: "'a BoundedQueue \<Rightarrow> bool" where
  "BoundedQueue_empty q \<longleftrightarrow> bq_count q = 0"

definition BoundedQueue_full :: "'a BoundedQueue \<Rightarrow> bool" where
  "BoundedQueue_full q \<longleftrightarrow> bq_cap q = bq_count q"

definition BoundedQueue_initialized :: "'a BoundedQueue \<Rightarrow> bool" where
  "BoundedQueue_initialized q \<longleftrightarrow> bq_items q \<noteq> None"

definition BoundedQueue_swap :: "'a BoundedQueue \<Rightarrow> 'a BoundedQueue \<Rightarrow> 'a BoundedQueue \<times> 'a BoundedQueue" where
  "BoundedQueue_swap q rhs =
     (q\<lparr>bq_count := bq_count rhs, bq_cap := bq_cap rhs, bq_start := bq_start rhs,
        bq_ownership := bq_ownership rhs, bq_items := bq_items rhs\<rparr>,
      rhs\<lparr>bq_count := bq_count q, bq_cap := bq_cap q, bq_start := bq_start q,
        bq_ownership := bq_ownership q, bq_items := bq_items q\<rparr>)"

section \<open>The index loop\<close>

lemma BoundedQueue_mod_returns: "0 < cap \<Longrightarrow> BoundedQueue_mod off cap = Some (off mod cap)"
proof (induction off rule: less_induct)
  case (less off)
  then show ?case
    by (subst BoundedQueue_mod.simps) (auto simp: le_mod_geq)
qed

lemma BoundedQueue_mod_hangs: "BoundedQueue_mod off 0 = None"
proof (rule ccontr)
  assume "BoundedQueue_mod off 0 \<noteq> None"
  then obtain r where "BoundedQueue_mod off 0 = Some r" by blast
  then have "0 \<noteq> (0::nat)"
    by (rule BoundedQueue_mod.raw_induct [where P = "\<lambda>off cap r. cap \<noteq> 0", rotated])
      (auto split: if_splits)
  then show False by simp
qed

lemma mod_or_hang_ok [simp]: "0 < cap \<Longrightarrow> mod_or_hang off cap = Inr (off mod cap)"
  by (simp add: mod_or_hang_def BoundedQueue_mod_returns)

section \<open>Representation\<close>

text \<open>
  The queue \<open>q\<close> of capacity \<open>n\<close> holds exactly \<open>xs\<close>, top first.  The bound on
  \<open>n\<close> keeps \<open>_start + _count\<close> inside \<open>uint32_t\<close>.
\<close>

definition bq_rep :: "nat \<Rightarrow> 'a BoundedQueue \<Rightarrow> 'a list \<Rightarrow> bool" where
  "bq_rep n q xs \<longleftrightarrow>
     bq_cap q = n \<and> 0 < n \<and> n \<le> 2 ^ 31 \<and> bq_start q < n \<and> bq_count q = length xs
     \<and> length xs \<le> n \<and> bq_items q \<noteq> None \<and> n \<le> length (bq_mem q)
     \<and> ring n (bq_mem q) (bq_start q) (length xs) = map Some xs"

lemma bq_mem_upd [simp]:
  "bq_mem (q\<lparr>bq_items := Some mem\<rparr>) = mem"
  "bq_mem (q\<lparr>bq_count := c\<rparr>) = bq_mem q" "bq_mem (q\<lparr>bq_start := s\<rparr>) = bq_mem q"
  by (simp_all add: bq_mem_def)

lemma bq_write_ok [simp]:
  "i < length (bq_mem q) \<Longrightarrow> bq_write q i v = Inr (q\<lparr>bq_items := Some ((bq_mem q)[i := v])\<rparr>)"
  by (simp add: bq_write_def)

lemma bq_add32 [simp]: "bq_rep n q xs \<Longrightarrow> k \<le> n \<Longrightarrow> add32 (bq_start q) k = bq_start q + k"
  by (auto simp: bq_rep_def intro!: add32_small)

lemma bq_index: "bq_rep n q xs \<Longrightarrow> i mod n < length (bq_mem q)"
  using mod_less_divisor [of n i] by (auto simp: bq_rep_def simp del: mod_less_divisor)

lemma bq_slot:
  assumes "bq_rep n q xs" and "i < length xs"
  shows "slot_load (bq_mem q) ((bq_start q + i) mod n) = Inr (xs ! i)"
proof (rule slot_load_ok)
  show "(bq_start q + i) mod n < length (bq_mem q)" using assms(1) by (rule bq_index)
  show "bq_mem q ! ((bq_start q + i) mod n) = Some (xs ! i)"
    using assms nth_ring [of i "length xs" n "bq_mem q" "bq_start q"] by (simp add: bq_rep_def)
qed

lemma push_rep:
  assumes "bq_rep n q xs" and "length xs < n"
  shows "bq_rep n (q\<lparr>bq_items := Some ((bq_mem q)[(bq_start q + length xs) mod n := Some x]),
                   bq_count := Suc (length xs)\<rparr>) (xs @ [x])"
  using assms ring_push_back [of "length xs" n "bq_mem q" "bq_start q" "Some x"]
  by (simp add: bq_rep_def bq_mem_def)

lemma BoundedQueue_push_rep:
  assumes "bq_rep n q xs"
  shows "\<exists>q'. BoundedQueue_push x q = Inr (length xs < n, q')
    \<and> bq_rep n q' (if length xs < n then xs @ [x] else xs)"
proof -
  have q: "bq_count q = length xs" "bq_cap q = n" "0 < n" "length xs \<le> n"
    using assms by (auto simp: bq_rep_def)
  show ?thesis using assms push_rep [OF assms, of x] q
    by (auto simp: BoundedQueue_push_def bq_index)
qed

lemma BoundedQueue_elim_push_rep:
  assumes "bq_rep n q xs"
  shows "\<exists>q'. BoundedQueue_elim_push x q = Inr q'
    \<and> bq_rep n q' (if length xs < n then xs @ [x] else tl xs @ [x])"
proof -
  have q: "bq_count q = length xs" "bq_cap q = n" "0 < n" "length xs \<le> n" "bq_start q < n"
    "bq_start q < length (bq_mem q)" "n \<le> length (bq_mem q)"
    using assms by (auto simp: bq_rep_def)
  show ?thesis
  proof (cases "length xs < n")
    case True
    then show ?thesis using assms push_rep [OF assms, of x] q
      by (auto simp: BoundedQueue_elim_push_def bq_index)
  next
    case False
    then obtain y ys where xs: "xs = y # ys" and len: "n = Suc (length ys)"
      using q by (cases xs) auto
    let ?s = "Suc (bq_start q) mod n"
    have "ring n (bq_mem q) ?s (length ys) = map Some ys"
      using assms by (simp add: bq_rep_def xs ring_Cons)
    then have "ring n ((bq_mem q)[bq_start q := Some x]) ?s n = map Some (ys @ [x])"
      using ring_push_back [of "length ys" n "bq_mem q" ?s "Some x"] ring_succ_pred [of "bq_start q" n] q len
      by simp
    then show ?thesis using assms q False
      by (auto simp: BoundedQueue_elim_push_def bq_rep_def xs len bq_mem_def add32_small)
  qed
qed

lemma BoundedQueue_push_top_rep:
  assumes "bq_rep n q xs"
  shows "\<exists>q'. BoundedQueue_push_top x q = Inr (length xs < n, q')
    \<and> bq_rep n q' (if length xs < n then x # xs else xs)"
proof -
  let ?s = "if bq_start q = 0 then n - 1 else bq_start q - 1"
  have q: "bq_count q = length xs" "bq_cap q = n" "0 < n" "length xs \<le> n" "bq_start q < n"
    "n \<le> length (bq_mem q)" "?s < n" "?s < length (bq_mem q)"
    using assms by (auto simp: bq_rep_def)
  show ?thesis using assms q ring_push_front [of "length xs" n "bq_mem q" "bq_start q" ?s "Some x"]
    by (auto simp: BoundedQueue_push_top_def bq_rep_def Let_def bq_mem_def)
qed

text \<open>The overloads that construct a default object do what the others do with it.\<close>

lemma BoundedQueue_push_default_rep:
  assumes "bq_rep n q xs"
  shows "\<exists>a q'. BoundedQueue_push_default d q = Inr (a, q') \<and> (a \<noteq> None \<longleftrightarrow> length xs < n)
    \<and> bq_rep n q' (if length xs < n then xs @ [d] else xs)"
proof -
  have q: "bq_count q = length xs" "bq_cap q = n" "0 < n" "length xs \<le> n"
    using assms by (auto simp: bq_rep_def)
  have comm: "q\<lparr>bq_count := c, bq_items := mem\<rparr> = q\<lparr>bq_items := mem, bq_count := c\<rparr>" for c mem
    by simp
  show ?thesis using assms push_rep [OF assms, of d] q
    by (auto simp: BoundedQueue_push_default_def bq_index comm)
qed

lemma BoundedQueue_push_top_default_rep:
  assumes "bq_rep n q xs"
  shows "\<exists>a q'. BoundedQueue_push_top_default d q = Inr (a, q') \<and> (a \<noteq> None \<longleftrightarrow> length xs < n)
    \<and> bq_rep n q' (if length xs < n then d # xs else xs)"
proof -
  have "BoundedQueue_push_top_default d q
      = ub_bind (BoundedQueue_push_top d q) (\<lambda>(b, q'). Inr (if b then Some (bq_start q') else None, q'))"
    by (auto simp: BoundedQueue_push_top_default_def BoundedQueue_push_top_def Let_def bq_write_def slot_store_def)
  then show ?thesis using BoundedQueue_push_top_rep [OF assms, of d] by auto
qed

lemma pop_rep:
  assumes "bq_rep n q (x # xs)"
  shows "bq_rep n (q\<lparr>bq_count := length xs, bq_items := Some ((bq_mem q)[bq_start q := v]),
                   bq_start := Suc (bq_start q) mod n\<rparr>) xs"
  using assms ring_update_popped [of "bq_start q" n "length xs" "bq_mem q" v]
  by (simp add: bq_rep_def bq_mem_def ring_Cons)

lemma BoundedQueue_pop_rep:
  assumes "bq_rep n q xs"
  shows "\<exists>q'. BoundedQueue_pop q = Inr (fst (list_pop xs), q') \<and> bq_rep n q' (snd (list_pop xs))"
proof (cases xs)
  case Nil
  then show ?thesis using assms by (auto simp: BoundedQueue_pop_def bq_rep_def list_pop_def)
next
  case (Cons x ys)
  have q: "bq_count q = Suc (length ys)" "bq_cap q = n" "0 < n" "bq_start q mod n = bq_start q"
    "bq_start q < length (bq_mem q)" "add32 (bq_start q) 1 = Suc (bq_start q)"
    using assms Cons by (auto simp: bq_rep_def add32_small)
  show ?thesis using assms bq_slot [OF assms, of 0] Cons q pop_rep [of n q x ys None]
    by (auto simp: BoundedQueue_pop_def list_pop_def Let_def)
qed

lemma BoundedQueue_pop_drop_rep:
  assumes "bq_rep n q xs"
  shows "\<exists>q'. BoundedQueue_pop_drop q = Inr (xs \<noteq> [], q') \<and> bq_rep n q' (tl xs)"
proof (cases xs)
  case Nil
  then show ?thesis using assms by (auto simp: BoundedQueue_pop_drop_def bq_rep_def)
next
  case (Cons x ys)
  have q: "bq_count q = Suc (length ys)" "bq_cap q = n" "0 < n"
    "bq_start q < length (bq_mem q)" "add32 (bq_start q) 1 = Suc (bq_start q)"
    using assms Cons by (auto simp: bq_rep_def add32_small)
  show ?thesis using assms Cons q pop_rep [of n q x ys None]
    by (auto simp: BoundedQueue_pop_drop_def Let_def)
qed

lemma destroy_loop_ok:
  "bq_cap q = n \<Longrightarrow> 0 < n \<Longrightarrow> n \<le> length (bq_mem q) \<Longrightarrow> bq_items q \<noteq> None \<Longrightarrow>
   \<exists>mem. destroy_loop i k q = Inr (q\<lparr>bq_items := Some mem\<rparr>) \<and> n \<le> length mem"
proof (induction k arbitrary: i q)
  case 0
  then obtain mem where "bq_items q = Some mem" by blast
  then have "q = q\<lparr>bq_items := Some mem\<rparr>" by simp
  then show ?case using 0 by (metis bq_mem_upd(1) destroy_loop.simps(1))
next
  case (Suc k)
  let ?j = "add32 (bq_start q) i mod n"
  have j: "?j < length (bq_mem q)"
    using Suc.prems mod_less_divisor [of n "add32 (bq_start q) i"] by linarith
  show ?case
    using Suc.IH [of "q\<lparr>bq_items := Some ((bq_mem q)[?j := None])\<rparr>" "Suc i"] Suc.prems j by auto
qed

lemma BoundedQueue_clear_rep:
  assumes "bq_rep n q xs"
  shows "\<exists>q'. BoundedQueue_clear q = Inr q' \<and> bq_rep n q' []"
  using destroy_loop_ok [of q n 0 "bq_count q"] assms
  by (auto simp: BoundedQueue_clear_def bq_rep_def)

definition nth_opt :: "'a list \<Rightarrow> nat \<Rightarrow> 'a option" where
  "nth_opt xs i = (if i < length xs then Some (xs ! i) else None)"

lemma BoundedQueue_top_at_rep:
  assumes "bq_rep n q xs"
  shows "BoundedQueue_top_at i q = Inr (nth_opt xs i)"
  using bq_slot [OF assms, of i] bq_add32 [OF assms, of i] assms
  by (auto simp: BoundedQueue_top_at_def bq_rep_def nth_opt_def)

lemma BoundedQueue_top_rep:
  assumes "bq_rep n q xs"
  shows "BoundedQueue_top q = Inr (nth_opt xs 0)"
  using bq_slot [OF assms, of 0] assms
  by (auto simp: BoundedQueue_top_def bq_rep_def nth_opt_def)

lemma BoundedQueue_bottom_at_rep:
  assumes "bq_rep n q xs"
  shows "BoundedQueue_bottom_at i q = Inr (nth_opt (rev xs) i)"
proof (cases "i < length xs")
  case True
  have q: "bq_count q = length xs" "bq_cap q = n" "0 < n" "length xs \<le> n" "n \<le> 2 ^ 31" "bq_start q < n"
    using assms by (auto simp: bq_rep_def)
  have "sub32 (sub32 (add32 (bq_start q) (length xs)) i) 1 = bq_start q + (length xs - Suc i)"
    using True q by (simp add: bq_add32 [OF assms] sub32_small)
  then show ?thesis using True q bq_slot [OF assms, of "length xs - Suc i"]
    by (simp add: BoundedQueue_bottom_at_def nth_opt_def rev_nth)
next
  case False
  then show ?thesis using assms by (simp add: BoundedQueue_bottom_at_def bq_rep_def nth_opt_def)
qed

lemma BoundedQueue_bottom_rep:
  assumes "bq_rep n q xs"
  shows "BoundedQueue_bottom q = Inr (nth_opt (rev xs) 0)"
proof -
  have "sub32 (sub32 (add32 (bq_start q) (bq_count q)) 0) 1 = sub32 (add32 (bq_start q) (bq_count q)) 1"
    by (simp add: sub32_def add32_def)
  then have "BoundedQueue_bottom q = BoundedQueue_bottom_at 0 q"
    by (auto simp: BoundedQueue_bottom_def BoundedQueue_bottom_at_def)
  then show ?thesis by (simp add: BoundedQueue_bottom_at_rep [OF assms])
qed

section \<open>Sequences of operations\<close>

datatype 'a bq_op = Push 'a | PushDefault 'a | ElimPush 'a | PushTop 'a | PushTopDefault 'a | Pop | PopDrop | Clear
  | Top | TopAt nat | Bottom | BottomAt nat

datatype 'a bq_out = Flag bool | Elem "'a option" | Done

fun BoundedQueue_step :: "'a bq_op \<Rightarrow> 'a BoundedQueue \<Rightarrow> ('a bq_out \<times> 'a BoundedQueue) result" where
  "BoundedQueue_step (Push x) q = ub_bind (BoundedQueue_push x q) (\<lambda>(b, q). Inr (Flag b, q))"
| "BoundedQueue_step (ElimPush x) q = ub_bind (BoundedQueue_elim_push x q) (\<lambda>q. Inr (Done, q))"
| "BoundedQueue_step (PushTop x) q = ub_bind (BoundedQueue_push_top x q) (\<lambda>(b, q). Inr (Flag b, q))"
| "BoundedQueue_step (PushDefault d) q = ub_bind (BoundedQueue_push_default d q) (\<lambda>(a, q). Inr (Flag (a \<noteq> None), q))"
| "BoundedQueue_step (PushTopDefault d) q = ub_bind (BoundedQueue_push_top_default d q) (\<lambda>(a, q). Inr (Flag (a \<noteq> None), q))"
| "BoundedQueue_step Pop q = ub_bind (BoundedQueue_pop q) (\<lambda>(v, q). Inr (Elem v, q))"
| "BoundedQueue_step PopDrop q = ub_bind (BoundedQueue_pop_drop q) (\<lambda>(b, q). Inr (Flag b, q))"
| "BoundedQueue_step Clear q = ub_bind (BoundedQueue_clear q) (\<lambda>q. Inr (Done, q))"
| "BoundedQueue_step Top q = ub_bind (BoundedQueue_top q) (\<lambda>v. Inr (Elem v, q))"
| "BoundedQueue_step (TopAt i) q = ub_bind (BoundedQueue_top_at i q) (\<lambda>v. Inr (Elem v, q))"
| "BoundedQueue_step Bottom q = ub_bind (BoundedQueue_bottom q) (\<lambda>v. Inr (Elem v, q))"
| "BoundedQueue_step (BottomAt i) q = ub_bind (BoundedQueue_bottom_at i q) (\<lambda>v. Inr (Elem v, q))"

text \<open>The specification: a list of at most \<open>n\<close> elements, top first.\<close>

fun deque_step :: "nat \<Rightarrow> 'a bq_op \<Rightarrow> 'a list \<Rightarrow> 'a bq_out \<times> 'a list" where
  "deque_step n (Push x) xs = (Flag (length xs < n), if length xs < n then xs @ [x] else xs)"
| "deque_step n (ElimPush x) xs = (Done, if length xs < n then xs @ [x] else tl xs @ [x])"
| "deque_step n (PushTop x) xs = (Flag (length xs < n), if length xs < n then x # xs else xs)"
| "deque_step n (PushDefault d) xs = (Flag (length xs < n), if length xs < n then xs @ [d] else xs)"
| "deque_step n (PushTopDefault d) xs = (Flag (length xs < n), if length xs < n then d # xs else xs)"
| "deque_step n Pop xs = (Elem (fst (list_pop xs)), snd (list_pop xs))"
| "deque_step n PopDrop xs = (Flag (xs \<noteq> []), tl xs)"
| "deque_step n Clear xs = (Done, [])"
| "deque_step n Top xs = (Elem (nth_opt xs 0), xs)"
| "deque_step n (TopAt i) xs = (Elem (nth_opt xs i), xs)"
| "deque_step n Bottom xs = (Elem (nth_opt (rev xs) 0), xs)"
| "deque_step n (BottomAt i) xs = (Elem (nth_opt (rev xs) i), xs)"

fun BoundedQueue_run :: "'a bq_op list \<Rightarrow> 'a BoundedQueue \<Rightarrow> ('a bq_out list \<times> 'a BoundedQueue) result" where
  "BoundedQueue_run [] q = Inr ([], q)"
| "BoundedQueue_run (op # ops) q =
     ub_bind (BoundedQueue_step op q) (\<lambda>(r, q).
     ub_bind (BoundedQueue_run ops q) (\<lambda>(rs, q). Inr (r # rs, q)))"

fun deque_run :: "nat \<Rightarrow> 'a bq_op list \<Rightarrow> 'a list \<Rightarrow> 'a bq_out list \<times> 'a list" where
  "deque_run n [] xs = ([], xs)"
| "deque_run n (op # ops) xs =
     (let (r, xs) = deque_step n op xs; (rs, xs) = deque_run n ops xs in (r # rs, xs))"

lemma BoundedQueue_step_rep:
  assumes "bq_rep n q xs"
  shows "\<exists>q'. BoundedQueue_step op q = Inr (fst (deque_step n op xs), q')
    \<and> bq_rep n q' (snd (deque_step n op xs))"
proof (cases op)
  case (Push x) then show ?thesis using BoundedQueue_push_rep [OF assms, of x] by auto
next
  case (ElimPush x) then show ?thesis using BoundedQueue_elim_push_rep [OF assms, of x] by auto
next
  case (PushTop x) then show ?thesis using BoundedQueue_push_top_rep [OF assms, of x] by auto
next
  case (PushDefault x) then show ?thesis using BoundedQueue_push_default_rep [OF assms, of x] by auto
next
  case (PushTopDefault x) then show ?thesis using BoundedQueue_push_top_default_rep [OF assms, of x] by auto
next
  case Pop then show ?thesis using BoundedQueue_pop_rep [OF assms] by auto
next
  case PopDrop then show ?thesis using BoundedQueue_pop_drop_rep [OF assms] by auto
next
  case Clear then show ?thesis using BoundedQueue_clear_rep [OF assms] by auto
qed (use assms BoundedQueue_top_rep [OF assms] BoundedQueue_top_at_rep [OF assms]
      BoundedQueue_bottom_rep [OF assms] BoundedQueue_bottom_at_rep [OF assms] in simp_all)

lemma BoundedQueue_run_rep:
  "bq_rep n q xs \<Longrightarrow> \<exists>q'. BoundedQueue_run ops q = Inr (fst (deque_run n ops xs), q')
    \<and> bq_rep n q' (snd (deque_run n ops xs))"
proof (induction ops arbitrary: q xs)
  case Nil
  then show ?case by simp
next
  case (Cons op ops)
  from BoundedQueue_step_rep [OF Cons.prems, of op] obtain q1 where
    q1: "BoundedQueue_step op q = Inr (fst (deque_step n op xs), q1)"
      "bq_rep n q1 (snd (deque_step n op xs))" by blast
  from Cons.IH [OF q1(2)] show ?case by (auto simp: q1(1) split_def Let_def)
qed

lemma BoundedQueue_new_rep:
  assumes "0 < n" and "n \<le> 2 ^ 31" and "n \<le> length mem"
  shows "\<exists>q. BoundedQueue_new (Some mem) n = Inr q \<and> bq_rep n q []"
  using assms by (auto simp: BoundedQueue_new_def bq_rep_def bq_mem_def)

text \<open>
  C14. A freshly constructed \<open>BoundedQueue\<close> of capacity \<open>n\<close> (positive, at most
  \<open>2^31\<close>, storage of at least \<open>n\<close> slots) refines a double-ended list of at most
  \<open>n\<close> elements: for every sequence of \<open>push\<close>, \<open>elim_push\<close>, \<open>push_top\<close>,
  \<open>pop\<close>, \<open>clear\<close>, \<open>top\<close> and \<open>bottom\<close> calls no access leaves the storage or
  reads a slot without an object, the \<open>_mod\<close> loop ends, and the results are those of the list.
\<close>
theorem BoundedQueue_refines_deque:
  assumes "0 < n" and "n \<le> 2 ^ 31" and "n \<le> length mem"
  shows "\<exists>q q'. BoundedQueue_new (Some mem) n = Inr q
    \<and> BoundedQueue_run ops q = Inr (fst (deque_run n ops []), q')
    \<and> (BoundedQueue_empty q' \<longleftrightarrow> snd (deque_run n ops []) = [])
    \<and> (BoundedQueue_full q' \<longleftrightarrow> length (snd (deque_run n ops [])) = n)"
proof -
  obtain q where q: "BoundedQueue_new (Some mem) n = Inr q" "bq_rep n q []"
    using BoundedQueue_new_rep [OF assms] by blast
  obtain q' where q': "BoundedQueue_run ops q = Inr (fst (deque_run n ops []), q')"
    "bq_rep n q' (snd (deque_run n ops []))"
    using BoundedQueue_run_rep [OF q(2), of ops] by blast
  have "BoundedQueue_empty q' \<longleftrightarrow> snd (deque_run n ops []) = []"
    "BoundedQueue_full q' \<longleftrightarrow> length (snd (deque_run n ops [])) = n"
    using q'(2) by (auto simp: bq_rep_def BoundedQueue_empty_def BoundedQueue_full_def)
  with q(1) q'(1) show ?thesis by blast
qed

theorem BoundedQueue_refines_deque_witness:
  "\<exists>q q'. BoundedQueue_new (Some [None, None]) 2 = Inr q
    \<and> BoundedQueue_run [Push (1::nat), Push 2, ElimPush 3, Pop, PushTop 9, BottomAt 0, Pop] q
      = Inr ([Flag True, Flag True, Done, Elem (Some 2), Flag True, Elem (Some 3), Elem (Some 9)], q')"
  using BoundedQueue_refines_deque
    [of 2 "[None, None]" "[Push (1::nat), Push 2, ElimPush 3, Pop, PushTop 9, BottomAt 0, Pop]"]
  by (auto simp: list_pop_def nth_opt_def)

text \<open>
  \<open>pop_bottom\<close> agrees with the deque only while the contents do not wrap: with storage of
  exactly \<open>n\<close> slots it returns and removes the last element if
  \<open>_start + size() \<le> capacity()\<close>, and otherwise it addresses \<open>_items[_start + _count]\<close>
  outside the storage.
\<close>
theorem BoundedQueue_pop_bottom_wraps:
  assumes "bq_rep n q (xs @ [x])" and "length (bq_mem q) = n"
  shows "if bq_start q + length (xs @ [x]) \<le> n
    then \<exists>q'. BoundedQueue_pop_bottom q = Inr (Some x, q') \<and> BoundedQueue_pop_bottom_drop q = Inr (True, q')
      \<and> bq_rep n q' xs
    else BoundedQueue_pop_bottom q = Inl OutOfBounds \<and> BoundedQueue_pop_bottom_drop q = Inl OutOfBounds"
proof -
  have q: "bq_count q = Suc (length xs)" "add32 (bq_start q) (length xs) = bq_start q + length xs"
    using assms(1) bq_add32 [OF assms(1), of "length xs"] by (auto simp: bq_rep_def)
  show ?thesis
  proof (cases "bq_start q + length (xs @ [x]) \<le> n")
    case True
    have load: "slot_load (bq_mem q) (bq_start q + length xs) = Inr x"
      using bq_slot [OF assms(1), of "length xs"] True by simp
    have "ring n ((bq_mem q)[bq_start q + length xs := None]) (bq_start q) (length xs) = map Some xs"
      using ring_update_outside [of "length xs" "length xs" n "bq_mem q" "bq_start q" None] True assms(1)
      by (simp add: bq_rep_def ring_Suc)
    then show ?thesis using True q load assms
      by (auto simp: BoundedQueue_pop_bottom_def BoundedQueue_pop_bottom_drop_def Let_def bq_rep_def)
  next
    case False
    then show ?thesis using q assms(2)
      by (simp add: BoundedQueue_pop_bottom_def BoundedQueue_pop_bottom_drop_def Let_def slot_load_def
          bq_write_def slot_store_def)
  qed
qed

definition wrapped_example :: "nat BoundedQueue" where
  "wrapped_example = \<lparr>bq_count = 2, bq_cap = 2, bq_start = 1, bq_ownership = OWNS_STORAGE,
     bq_items = Some [Some 2, Some 1]\<rparr>"

theorem BoundedQueue_pop_bottom_wraps_witness:
  "bq_rep 2 wrapped_example ([1] @ [2]) \<and> BoundedQueue_pop_bottom wrapped_example = Inl OutOfBounds"
proof -
  have rep: "bq_rep 2 wrapped_example ([1] @ [2])"
    by (simp add: bq_rep_def wrapped_example_def bq_mem_def ring_def upt_rec)
  have "length (bq_mem wrapped_example) = 2" by (simp add: wrapped_example_def bq_mem_def)
  from BoundedQueue_pop_bottom_wraps [OF rep this] rep show ?thesis
    by (simp add: wrapped_example_def)
qed

end
