(* ===== verification/Loop_Queue.thy ===== *)
theory Loop_Queue
  imports Prelude
begin

text \<open>
  \<open>TCLoopQueue<T>\<close> of \<open>blocking_queue.h\<close>: a ring of \<open>iSize + 1\<close> cells in which
  \<open>_iBegin\<close> is the next cell to write and \<open>_iEnd\<close> the next to read; equal indices mean
  empty.  Indices are \<open>uint32_t\<close>; the one subtraction that can wrap
  (\<open>_iCapacity - 2\<close>) is written with \<open>sub32\<close>.  For \<open>iSize \<ge> 1\<close> the class
  refines a bounded FIFO queue; for \<open>iSize = 0\<close> it loses elements.
\<close>

record 'a TCLoopQueue =
  lq_p :: "'a list"
  lq_iCapacity :: nat
  lq_iCapacitySub :: nat
  lq_iBegin :: nat
  lq_iEnd :: nat

definition TCLoopQueue_new :: "nat \<Rightarrow> 'a list \<Rightarrow> 'a TCLoopQueue result" where
  "TCLoopQueue_new iSize mem =
     (if iSize < 1000000
      then Inr \<lparr>lq_p = mem, lq_iCapacity = iSize + 1, lq_iCapacitySub = iSize, lq_iBegin = 0, lq_iEnd = 0\<rparr>
      else Inl AssertFailed)"

definition TCLoopQueue_size :: "'a TCLoopQueue \<Rightarrow> nat" where
  "TCLoopQueue_size q =
     (if lq_iBegin q < lq_iEnd q then lq_iBegin q + lq_iCapacity q - lq_iEnd q
      else lq_iBegin q - lq_iEnd q)"

definition lq_put :: "'a \<Rightarrow> 'a TCLoopQueue \<Rightarrow> 'a TCLoopQueue" where
  "lq_put t q = q\<lparr>lq_p := (lq_p q)[lq_iBegin q := t],
     lq_iBegin := (if lq_iBegin q = lq_iCapacitySub q then 0 else lq_iBegin q + 1)\<rparr>"

text \<open>
  \<open>push_back(t, bEmpty, iBegin, iEnd)\<close>: the result flag, the three out-parameters and the queue.
\<close>

definition TCLoopQueue_push_back_pos ::
    "'a \<Rightarrow> 'a TCLoopQueue \<Rightarrow> bool \<times> bool \<times> nat \<times> nat \<times> 'a TCLoopQueue" where
  "TCLoopQueue_push_back_pos t q =
     (let iEnd = lq_iEnd q; iBegin = lq_iBegin q in
      if (iEnd > iBegin \<and> iEnd - iBegin < 2)
         \<or> (iBegin > iEnd \<and> iBegin - iEnd > sub32 (lq_iCapacity q) 2)
      then (False, False, iBegin, iEnd, q)
      else
        (let bEmpty = (lq_iEnd q = lq_iBegin q);
             q' = lq_put t q;
             bEmpty = (if \<not> bEmpty \<and> 1 = TCLoopQueue_size q' then True else bEmpty)
         in (True, bEmpty, iBegin, iEnd, q')))"

definition TCLoopQueue_push_back_flag :: "'a \<Rightarrow> 'a TCLoopQueue \<Rightarrow> bool \<times> bool \<times> 'a TCLoopQueue" where
  "TCLoopQueue_push_back_flag t q =
     (let iEnd = lq_iEnd q in
      if (iEnd > lq_iBegin q \<and> iEnd - lq_iBegin q < 2)
         \<or> (lq_iBegin q > iEnd \<and> lq_iBegin q - iEnd > sub32 (lq_iCapacity q) 2)
      then (False, False, q)
      else
        (let bEmpty = (lq_iEnd q = lq_iBegin q);
             q' = lq_put t q;
             bEmpty = (if \<not> bEmpty \<and> 1 = TCLoopQueue_size q' then True else bEmpty)
         in (True, bEmpty, q')))"

definition TCLoopQueue_push_back :: "'a \<Rightarrow> 'a TCLoopQueue \<Rightarrow> bool \<times> 'a TCLoopQueue" where
  "TCLoopQueue_push_back t q = (case TCLoopQueue_push_back_flag t q of (r, _, q') \<Rightarrow> (r, q'))"

definition TCLoopQueue_push_back_vec :: "'a list \<Rightarrow> 'a TCLoopQueue \<Rightarrow> bool \<times> 'a TCLoopQueue" where
  "TCLoopQueue_push_back_vec vt q =
     (let iEnd = lq_iEnd q in
      if length vt > lq_iCapacity q - 1
         \<or> (iEnd > lq_iBegin q \<and> iEnd - lq_iBegin q < length vt + 1)
         \<or> (lq_iBegin q > iEnd \<and> lq_iBegin q - iEnd > lq_iCapacity q - length vt - 1)
      then (False, q)
      else (True, fold lq_put vt q))"

definition TCLoopQueue_pop_front :: "'a TCLoopQueue \<Rightarrow> 'a option \<times> 'a TCLoopQueue" where
  "TCLoopQueue_pop_front q =
     (if lq_iEnd q = lq_iBegin q then (None, q)
      else (Some (lq_p q ! lq_iEnd q),
            q\<lparr>lq_iEnd := (if lq_iEnd q = lq_iCapacitySub q then 0 else lq_iEnd q + 1)\<rparr>))"

definition TCLoopQueue_pop_front_drop :: "'a TCLoopQueue \<Rightarrow> bool \<times> 'a TCLoopQueue" where
  "TCLoopQueue_pop_front_drop q =
     (if lq_iEnd q = lq_iBegin q then (False, q)
      else (True, q\<lparr>lq_iEnd := (if lq_iEnd q = lq_iCapacitySub q then 0 else lq_iEnd q + 1)\<rparr>))"

definition TCLoopQueue_get_front :: "'a TCLoopQueue \<Rightarrow> 'a option" where
  "TCLoopQueue_get_front q = (if lq_iEnd q = lq_iBegin q then None else Some (lq_p q ! lq_iEnd q))"

definition TCLoopQueue_empty :: "'a TCLoopQueue \<Rightarrow> bool" where
  "TCLoopQueue_empty q = (if lq_iEnd q = lq_iBegin q then True else False)"

definition TCLoopQueue_getCapacity :: "'a TCLoopQueue \<Rightarrow> nat" where
  "TCLoopQueue_getCapacity q = lq_iCapacity q"

section \<open>Invariant and contents\<close>

definition lq_inv :: "nat \<Rightarrow> 'a TCLoopQueue \<Rightarrow> bool" where
  "lq_inv n q \<longleftrightarrow> 1 \<le> n \<and> n < 1000000 \<and> lq_iCapacity q = n + 1 \<and> lq_iCapacitySub q = n
     \<and> lq_iBegin q \<le> n \<and> lq_iEnd q \<le> n \<and> length (lq_p q) = n + 1"

definition lq_contents :: "'a TCLoopQueue \<Rightarrow> 'a list" where
  "lq_contents q = ring (lq_iCapacity q) (lq_p q) (lq_iEnd q) (TCLoopQueue_size q)"

lemma lq_size_le: "lq_inv n q \<Longrightarrow> TCLoopQueue_size q \<le> n"
  by (auto simp: lq_inv_def TCLoopQueue_size_def)

lemma lq_write_index: "lq_inv n q \<Longrightarrow> (lq_iEnd q + TCLoopQueue_size q) mod Suc n = lq_iBegin q"
  by (auto simp: lq_inv_def TCLoopQueue_size_def mod_if)

lemma lq_empty_iff: "lq_inv n q \<Longrightarrow> lq_iEnd q = lq_iBegin q \<longleftrightarrow> TCLoopQueue_size q = 0"
  by (auto simp: lq_inv_def TCLoopQueue_size_def)

text \<open>The full test of the single-element overloads is exact.\<close>

lemma lq_full_iff:
  assumes "lq_inv n q"
  shows "(lq_iEnd q > lq_iBegin q \<and> lq_iEnd q - lq_iBegin q < 2)
      \<or> (lq_iBegin q > lq_iEnd q \<and> lq_iBegin q - lq_iEnd q > sub32 (lq_iCapacity q) 2)
    \<longleftrightarrow> TCLoopQueue_size q = n"
proof -
  have "sub32 (lq_iCapacity q) 2 = n - 1"
    using assms sub32_small [of 2 "n + 1"] by (auto simp: lq_inv_def)
  then show ?thesis using assms by (auto simp: lq_inv_def TCLoopQueue_size_def)
qed

lemma lq_put_spec:
  assumes "lq_inv n q" and "TCLoopQueue_size q < n"
  shows "lq_inv n (lq_put t q)" and "TCLoopQueue_size (lq_put t q) = Suc (TCLoopQueue_size q)"
    and "lq_contents (lq_put t q) = lq_contents q @ [t]"
proof -
  show inv: "lq_inv n (lq_put t q)" using assms by (auto simp: lq_inv_def lq_put_def)
  show sz: "TCLoopQueue_size (lq_put t q) = Suc (TCLoopQueue_size q)"
    using assms by (auto simp: lq_inv_def lq_put_def TCLoopQueue_size_def)
  have "lq_contents (lq_put t q)
      = ring (Suc n) ((lq_p q)[(lq_iEnd q + TCLoopQueue_size q) mod Suc n := t]) (lq_iEnd q) (Suc (TCLoopQueue_size q))"
    using assms sz lq_write_index [OF assms(1)] unfolding lq_contents_def sz
    by (simp add: lq_put_def lq_inv_def)
  then show "lq_contents (lq_put t q) = lq_contents q @ [t]"
    using assms ring_push_back [of "TCLoopQueue_size q" "Suc n" "lq_p q" "lq_iEnd q" t]
    by (simp add: lq_inv_def lq_contents_def)
qed

lemma lq_put_all:
  "lq_inv n q \<Longrightarrow> TCLoopQueue_size q + length vt \<le> n \<Longrightarrow>
   lq_inv n (fold lq_put vt q) \<and> lq_contents (fold lq_put vt q) = lq_contents q @ vt"
  by (induction vt arbitrary: q) (simp_all add: lq_put_spec)

lemma TCLoopQueue_push_back_spec:
  assumes "lq_inv n q"
  shows "TCLoopQueue_push_back t q = (if TCLoopQueue_size q < n then (True, lq_put t q) else (False, q))"
  using lq_full_iff [OF assms] lq_size_le [OF assms]
  by (auto simp: TCLoopQueue_push_back_def TCLoopQueue_push_back_flag_def Let_def)

lemma TCLoopQueue_pop_front_spec:
  assumes "lq_inv n q"
  shows "lq_inv n (snd (TCLoopQueue_pop_front q))"
    and "fst (TCLoopQueue_pop_front q) = fst (list_pop (lq_contents q))"
    and "lq_contents (snd (TCLoopQueue_pop_front q)) = snd (list_pop (lq_contents q))"
proof -
  let ?q = "snd (TCLoopQueue_pop_front q)"
  show inv: "lq_inv n ?q" using assms by (auto simp: lq_inv_def TCLoopQueue_pop_front_def)
  show "fst (TCLoopQueue_pop_front q) = fst (list_pop (lq_contents q))"
    using assms lq_empty_iff [OF assms]
    by (cases "TCLoopQueue_size q")
      (auto simp: TCLoopQueue_pop_front_def lq_contents_def list_pop_def ring_Cons lq_inv_def)
  show "lq_contents ?q = snd (list_pop (lq_contents q))"
  proof (cases "TCLoopQueue_size q")
    case 0
    then show ?thesis using lq_empty_iff [OF assms]
      by (simp add: TCLoopQueue_pop_front_def lq_contents_def list_pop_def)
  next
    case (Suc k)
    have "TCLoopQueue_size ?q = k" "lq_iEnd ?q = Suc (lq_iEnd q) mod Suc n"
      using assms Suc by (auto simp: TCLoopQueue_pop_front_def TCLoopQueue_size_def lq_inv_def split: if_splits)
    then show ?thesis using assms Suc
      by (simp add: lq_contents_def list_pop_def ring_Cons lq_inv_def TCLoopQueue_pop_front_def)
  qed
qed

lemma length_lq_contents [simp]: "length (lq_contents q) = TCLoopQueue_size q"
  by (simp add: lq_contents_def)

interpretation lq: fifo_queue "lq_inv n" lq_contents TCLoopQueue_push_back TCLoopQueue_pop_front
    "\<lambda>xs. length xs < n" for n
  by unfold_locales
    (simp_all add: TCLoopQueue_push_back_spec lq_put_spec list_push_def TCLoopQueue_pop_front_spec)

lemma TCLoopQueue_new_inv:
  assumes "1 \<le> n" and "n < 1000000" and "length mem = n + 1"
  shows "\<exists>q. TCLoopQueue_new n mem = Inr q \<and> lq_inv n q \<and> lq_contents q = []"
  using assms by (auto simp: TCLoopQueue_new_def lq_inv_def lq_contents_def TCLoopQueue_size_def)

text \<open>
  C26. A \<open>TCLoopQueue\<close> constructed with \<open>1 \<le> iSize < 1000000\<close> is a FIFO queue of exactly
  \<open>iSize\<close> elements: every sequence of \<open>push_back(t)\<close> and \<open>pop_front(t)\<close> calls
  accepts, refuses and returns what the bounded list queue does, \<open>size()\<close> is the number of
  queued elements, and no element is lost, duplicated or reordered.
\<close>
theorem TCLoopQueue_refines_bounded_queue:
  assumes "1 \<le> n" and "n < 1000000" and "length mem = n + 1"
  shows "\<exists>q rs q'. TCLoopQueue_new n mem = Inr q
    \<and> qrun TCLoopQueue_push_back TCLoopQueue_pop_front q ops = (rs, q')
    \<and> rs = fst (qrun (list_push (\<lambda>xs. length xs < n)) list_pop [] ops)
    \<and> accepted ops rs = delivered rs @ lq_contents q'
    \<and> TCLoopQueue_size q' = length (lq_contents q') \<and> TCLoopQueue_size q' \<le> n"
proof -
  obtain q where q: "TCLoopQueue_new n mem = Inr q" "lq_inv n q" "lq_contents q = []"
    using TCLoopQueue_new_inv [OF assms] by blast
  obtain rs q' where r: "qrun TCLoopQueue_push_back TCLoopQueue_pop_front q ops = (rs, q')"
    by fastforce
  have inv: "lq_inv n q'" and res: "rs = fst (qrun (list_push (\<lambda>xs. length xs < n)) list_pop [] ops)"
    using lq.run_refines [OF q(2), of ops] q(3) r by simp_all
  have cons: "accepted ops rs = delivered rs @ lq_contents q'"
    using lq.conservation [OF q(2), of ops] q(3) r by simp
  show ?thesis using q(1) r res cons lq_size_le [OF inv] by (metis length_lq_contents)
qed

theorem TCLoopQueue_refines_bounded_queue_witness:
  "\<exists>q rs q'. TCLoopQueue_new 2 [0, 0, 0] = Inr q
    \<and> qrun TCLoopQueue_push_back TCLoopQueue_pop_front q [Enq (5::nat), Enq 6, Enq 7, Deq] = (rs, q')
    \<and> rs = [Accepted True, Accepted True, Accepted False, Got (Some 5)]"
  using TCLoopQueue_refines_bounded_queue [of 2 "[0, 0, 0]" "[Enq (5::nat), Enq 6, Enq 7, Deq]"]
  by (auto simp: list_push_def list_pop_def)

text \<open>
  The vector overload \<open>push_back(vt)\<close> is all or nothing: it appends the whole vector in
  order exactly when the free space holds it, and otherwise leaves the queue as it is.
\<close>
theorem TCLoopQueue_push_back_vec_atomic:
  assumes "lq_inv n q"
  shows "(fst (TCLoopQueue_push_back_vec vt q) \<longleftrightarrow> TCLoopQueue_size q + length vt \<le> n)
    \<and> lq_contents (snd (TCLoopQueue_push_back_vec vt q))
       = (if TCLoopQueue_size q + length vt \<le> n then lq_contents q @ vt else lq_contents q)
    \<and> lq_inv n (snd (TCLoopQueue_push_back_vec vt q))"
proof -
  have "(length vt > lq_iCapacity q - 1
         \<or> (lq_iEnd q > lq_iBegin q \<and> lq_iEnd q - lq_iBegin q < length vt + 1)
         \<or> (lq_iBegin q > lq_iEnd q \<and> lq_iBegin q - lq_iEnd q > lq_iCapacity q - length vt - 1))
    \<longleftrightarrow> \<not> TCLoopQueue_size q + length vt \<le> n"
    using assms by (auto simp: lq_inv_def TCLoopQueue_size_def)
  then have "TCLoopQueue_push_back_vec vt q
      = (if TCLoopQueue_size q + length vt \<le> n then (True, fold lq_put vt q) else (False, q))"
    by (simp add: TCLoopQueue_push_back_vec_def)
  then show ?thesis using lq_put_all [OF assms, of vt] assms by simp
qed

definition lq_example :: "nat TCLoopQueue" where
  "lq_example = \<lparr>lq_p = [7, 0, 0], lq_iCapacity = 3, lq_iCapacitySub = 2, lq_iBegin = 1, lq_iEnd = 0\<rparr>"

theorem TCLoopQueue_push_back_vec_atomic_witness:
  "lq_inv 2 lq_example \<and> \<not> fst (TCLoopQueue_push_back_vec [8, 9] lq_example)
   \<and> fst (TCLoopQueue_push_back_vec [8] lq_example)"
proof -
  have inv: "lq_inv 2 lq_example" by (simp add: lq_inv_def lq_example_def)
  show ?thesis
    using inv TCLoopQueue_push_back_vec_atomic [OF inv, of "[8, 9]"]
      TCLoopQueue_push_back_vec_atomic [OF inv, of "[8]"]
    by (simp add: TCLoopQueue_size_def lq_example_def)
qed

lemma TCLoopQueue_front_variants:
  "TCLoopQueue_get_front q = fst (TCLoopQueue_pop_front q)"
  "TCLoopQueue_pop_front_drop q = (fst (TCLoopQueue_pop_front q) \<noteq> None, snd (TCLoopQueue_pop_front q))"
  "TCLoopQueue_empty q = (fst (TCLoopQueue_pop_front q) = None)"
  by (simp_all add: TCLoopQueue_get_front_def TCLoopQueue_pop_front_def TCLoopQueue_pop_front_drop_def
      TCLoopQueue_empty_def)

text \<open>
  The overloads agree: \<open>push_back(t, bEmpty, iBegin, iEnd)\<close> and
  \<open>push_back(t, bEmpty)\<close> make the same decision and the same change as \<open>push_back(t)\<close>,
  report in \<open>bEmpty\<close> whether an accepted element went into an empty queue, and
  \<open>iBegin\<close>/\<open>iEnd\<close> are the indices before the call; \<open>get_front\<close>,
  \<open>pop_front()\<close> and \<open>empty()\<close> agree with \<open>pop_front(t)\<close>.
\<close>
theorem TCLoopQueue_overloads_agree:
  assumes "lq_inv n q"
  shows "TCLoopQueue_push_back_pos t q
      = (TCLoopQueue_size q < n, TCLoopQueue_size q = 0, lq_iBegin q, lq_iEnd q,
         snd (TCLoopQueue_push_back t q))
    \<and> TCLoopQueue_push_back_flag t q
      = (TCLoopQueue_size q < n, TCLoopQueue_size q = 0, snd (TCLoopQueue_push_back t q))
    \<and> TCLoopQueue_get_front q = fst (TCLoopQueue_pop_front q)
    \<and> TCLoopQueue_pop_front_drop q
      = (\<not> TCLoopQueue_empty q, snd (TCLoopQueue_pop_front q))"
proof -
  have le: "TCLoopQueue_size q \<le> n" "n \<noteq> 0" using assms lq_size_le [OF assms] by (auto simp: lq_inv_def)
  have one: "TCLoopQueue_size q < n \<Longrightarrow> 1 = TCLoopQueue_size (lq_put t q) \<longleftrightarrow> TCLoopQueue_size q = 0"
    using lq_put_spec(2) [OF assms] by auto
  show ?thesis
    using le one lq_full_iff [OF assms] lq_empty_iff [OF assms] TCLoopQueue_push_back_spec [OF assms, of t]
    by (auto simp: TCLoopQueue_push_back_pos_def TCLoopQueue_push_back_flag_def Let_def
        TCLoopQueue_front_variants)
qed

theorem TCLoopQueue_overloads_agree_witness:
  "lq_inv 2 lq_example \<and> fst (snd (TCLoopQueue_push_back_flag 8 lq_example)) = False"
proof -
  have inv: "lq_inv 2 lq_example" by (simp add: lq_inv_def lq_example_def)
  then show ?thesis using TCLoopQueue_overloads_agree [OF inv, of 8]
    by (simp add: TCLoopQueue_size_def lq_example_def)
qed

text \<open>
  With \<open>iSize = 0\<close> the constructor succeeds but the queue is not a queue of capacity 0:
  \<open>_iCapacity - 2\<close> wraps to \<open>2^32 - 1\<close>, \<open>push_back\<close> reports success, and the
  element is gone: the queue is empty and \<open>pop_front\<close> fails.
\<close>
theorem TCLoopQueue_zero_capacity_loses:
  "\<exists>q q'. TCLoopQueue_new 0 [m] = Inr q \<and> TCLoopQueue_push_back t q = (True, q')
    \<and> TCLoopQueue_empty q' \<and> TCLoopQueue_size q' = 0 \<and> TCLoopQueue_pop_front q' = (None, q')"
  by (simp add: TCLoopQueue_new_def TCLoopQueue_push_back_def TCLoopQueue_push_back_flag_def lq_put_def
      TCLoopQueue_empty_def TCLoopQueue_size_def TCLoopQueue_pop_front_def)

end
