(* ===== verification/Monitor.thy ===== *)
theory Monitor
  imports Prelude
begin

text \<open>
  Threads that share an object protected by one mutex and its condition variables.  A method is
  given by its critical section \<open>run m ph s\<close>: what the thread does once it holds the
  mutex in state \<open>s\<close>, either for the first time (\<open>ph = First\<close>) or after a return from its wait,
  which for a timed wait may be the end of its time (\<open>TimedOut\<close>).  It waits on a condition variable, or completes with a result, a
  new state and the notifications it sends.  Notifications are separate steps after the critical
  section, so every position of the \<open>signal\<close> call relative to the unlock is covered.  A
  blocked thread may also wake up on its own (a spurious wake-up or the end of a timed wait).
\<close>

datatype phase = First | Woken | TimedOut

datatype 'c notify = Signal 'c | Broadcast 'c

datatype ('s, 'r, 'c) outcome = Wait 'c 's | Done 'r 's "'c notify list"

datatype ('m, 'r, 'c) tpc =
    Idle
  | Start 'm
  | Blocked 'c 'm
  | Resumed 'c 'm
  | Notifying "'c notify list" 'r

record ('s, 'm, 'r, 'c) monitor =
  mon_state :: 's
  mon_pc :: "nat \<Rightarrow> ('m, 'r, 'c) tpc"

definition wake_all :: "'c \<Rightarrow> (nat \<Rightarrow> ('m, 'r, 'c) tpc) \<Rightarrow> nat \<Rightarrow> ('m, 'r, 'c) tpc" where
  "wake_all c pc u = (case pc u of Blocked c' m \<Rightarrow> if c' = c then Resumed c m else Blocked c' m | p \<Rightarrow> p)"

inductive mon_step :: "('m \<Rightarrow> phase \<Rightarrow> 's \<Rightarrow> ('s, 'r, 'c) outcome)
    \<Rightarrow> ('s, 'm, 'r, 'c) monitor \<Rightarrow> ('s, 'm, 'r, 'c) monitor \<Rightarrow> bool" for run where
  call: "pc t = Idle \<Longrightarrow>
     mon_step run \<lparr>mon_state = s, mon_pc = pc\<rparr> \<lparr>mon_state = s, mon_pc = pc(t := Start m)\<rparr>"
| enter_wait: "pc t = Start m \<Longrightarrow> run m First s = Wait c s' \<Longrightarrow>
     mon_step run \<lparr>mon_state = s, mon_pc = pc\<rparr> \<lparr>mon_state = s', mon_pc = pc(t := Blocked c m)\<rparr>"
| enter_done: "pc t = Start m \<Longrightarrow> run m First s = Done r s' ns \<Longrightarrow>
     mon_step run \<lparr>mon_state = s, mon_pc = pc\<rparr> \<lparr>mon_state = s', mon_pc = pc(t := Notifying ns r)\<rparr>"
| resume_wait: "pc t = Resumed c0 m \<Longrightarrow> ph \<noteq> First \<Longrightarrow> run m ph s = Wait c s' \<Longrightarrow>
     mon_step run \<lparr>mon_state = s, mon_pc = pc\<rparr> \<lparr>mon_state = s', mon_pc = pc(t := Blocked c m)\<rparr>"
| resume_done: "pc t = Resumed c0 m \<Longrightarrow> ph \<noteq> First \<Longrightarrow> run m ph s = Done r s' ns \<Longrightarrow>
     mon_step run \<lparr>mon_state = s, mon_pc = pc\<rparr> \<lparr>mon_state = s', mon_pc = pc(t := Notifying ns r)\<rparr>"
| wake_self: "pc t = Blocked c m \<Longrightarrow>
     mon_step run \<lparr>mon_state = s, mon_pc = pc\<rparr> \<lparr>mon_state = s, mon_pc = pc(t := Resumed c m)\<rparr>"
| signal_one: "pc t = Notifying (Signal c # ns) r \<Longrightarrow> pc u = Blocked c m \<Longrightarrow>
     mon_step run \<lparr>mon_state = s, mon_pc = pc\<rparr>
       \<lparr>mon_state = s, mon_pc = pc(t := Notifying ns r, u := Resumed c m)\<rparr>"
| signal_none: "pc t = Notifying (Signal c # ns) r \<Longrightarrow> (\<And>u m. pc u \<noteq> Blocked c m) \<Longrightarrow>
     mon_step run \<lparr>mon_state = s, mon_pc = pc\<rparr> \<lparr>mon_state = s, mon_pc = pc(t := Notifying ns r)\<rparr>"
| signal_all: "pc t = Notifying (Broadcast c # ns) r \<Longrightarrow>
     mon_step run \<lparr>mon_state = s, mon_pc = pc\<rparr>
       \<lparr>mon_state = s, mon_pc = wake_all c (pc(t := Notifying ns r))\<rparr>"
| finish: "pc t = Notifying [] r \<Longrightarrow>
     mon_step run \<lparr>mon_state = s, mon_pc = pc\<rparr> \<lparr>mon_state = s, mon_pc = pc(t := Idle)\<rparr>"

definition mon_init :: "'s \<Rightarrow> ('s, 'm, 'r, 'c) monitor" where
  "mon_init s = \<lparr>mon_state = s, mon_pc = (\<lambda>_. Idle)\<rparr>"

inductive mon_reach :: "('m \<Rightarrow> phase \<Rightarrow> 's \<Rightarrow> ('s, 'r, 'c) outcome) \<Rightarrow> 's
    \<Rightarrow> ('s, 'm, 'r, 'c) monitor \<Rightarrow> bool" for run s0 where
  init: "mon_reach run s0 (mon_init s0)"
| step: "mon_reach run s0 x \<Longrightarrow> mon_step run x y \<Longrightarrow> mon_reach run s0 y"

text \<open>Nothing can happen any more except new calls and spontaneous wake-ups.\<close>

definition quiescent :: "('s, 'm, 'r, 'c) monitor \<Rightarrow> bool" where
  "quiescent x \<longleftrightarrow> (\<forall>t. mon_pc x t = Idle \<or> (\<exists>c m. mon_pc x t = Blocked c m))"

text \<open>
  The absence of lost wake-ups: in every quiescent state that the threads can reach, a thread that
  sleeps on a condition does so for the reason \<open>P\<close>.
\<close>

definition sound_sleep :: "('m \<Rightarrow> phase \<Rightarrow> 's \<Rightarrow> ('s, 'r, 'c) outcome) \<Rightarrow> 's \<Rightarrow> ('c \<Rightarrow> 's \<Rightarrow> bool) \<Rightarrow> bool" where
  "sound_sleep run s0 P \<longleftrightarrow>
     (\<forall>x t c m. mon_reach run s0 x \<longrightarrow> quiescent x \<longrightarrow> mon_pc x t = Blocked c m \<longrightarrow> P c (mon_state x))"

text \<open>Whole calls as sequences of steps.\<close>

lemma reach_sleep:
  assumes "mon_reach run s0 \<lparr>mon_state = s, mon_pc = pc\<rparr>" and "pc t = Idle" and "run m First s = Wait c s'"
  shows "mon_reach run s0 \<lparr>mon_state = s', mon_pc = pc(t := Blocked c m)\<rparr>"
proof -
  have "mon_reach run s0 \<lparr>mon_state = s, mon_pc = pc(t := Start m)\<rparr>"
    by (rule mon_reach.step [OF assms(1) mon_step.call [of pc t run s m]]) (rule assms(2))
  from mon_reach.step [OF this mon_step.enter_wait [of "pc(t := Start m)" t m run s c s']]
  show ?thesis using assms(3) by simp
qed

lemma reach_done:
  assumes "mon_reach run s0 \<lparr>mon_state = s, mon_pc = pc\<rparr>" and "pc t = Idle" and "run m First s = Done r s' ns"
  shows "mon_reach run s0 \<lparr>mon_state = s', mon_pc = pc(t := Notifying ns r)\<rparr>"
proof -
  have "mon_reach run s0 \<lparr>mon_state = s, mon_pc = pc(t := Start m)\<rparr>"
    by (rule mon_reach.step [OF assms(1) mon_step.call [of pc t run s m]]) (rule assms(2))
  from mon_reach.step [OF this mon_step.enter_done [of "pc(t := Start m)" t m run s r s' ns]]
  show ?thesis using assms(3) by simp
qed

lemma reach_return:
  assumes "mon_reach run s0 \<lparr>mon_state = s, mon_pc = pc\<rparr>" and "pc t = Idle" and "run m First s = Done r s' []"
  shows "mon_reach run s0 \<lparr>mon_state = s', mon_pc = pc\<rparr>"
  using mon_reach.step [OF reach_done [OF assms] mon_step.finish [of "pc(t := Notifying [] r)" t r run s']] assms(2)
  by (simp add: fun_upd_idem)

section \<open>Counting threads\<close>

definition cnt :: "('p \<Rightarrow> bool) \<Rightarrow> (nat \<Rightarrow> 'p) \<Rightarrow> nat" where
  "cnt P pc = card {t. P (pc t)}"

lemma cnt_upd:
  assumes "finite {t. P (pc t)}"
  shows "cnt P (pc(t := p)) + of_bool (P (pc t)) = cnt P pc + of_bool (P p)"
proof -
  let ?A = "{u. P (pc u)}"
  have eq: "{u. P ((pc(t := p)) u)} = (if P p then insert t (?A - {t}) else ?A - {t})" by auto
  show ?thesis
  proof (cases "t \<in> ?A")
    case True
    then have "card ?A = Suc (card (?A - {t}))" by (rule card.remove [OF assms])
    moreover from True have "insert t (?A - {t}) = ?A" by blast
    ultimately show ?thesis unfolding cnt_def eq using True by simp
  next
    case False
    then show ?thesis unfolding cnt_def eq using assms by simp
  qed
qed

lemma finite_upd: "finite {t. P (pc t)} \<Longrightarrow> finite {u. P ((pc(t := p)) u)}"
  by (rule finite_subset [of _ "insert t {u. P (pc u)}"]) auto

lemma cnt_pos: "finite {t. P (pc t)} \<Longrightarrow> P (pc t) \<Longrightarrow> 0 < cnt P pc"
  unfolding cnt_def by (subst card_gt_0_iff) auto

lemma cnt_0: "(\<And>t. \<not> P (pc t)) \<Longrightarrow> cnt P pc = 0"
  by (simp add: cnt_def)

definition woken :: "'c \<Rightarrow> ('m, 'r, 'c) tpc \<Rightarrow> bool" where
  "woken c p = (case p of Resumed c' _ \<Rightarrow> c' = c | _ \<Rightarrow> False)"

definition sending :: "'c notify \<Rightarrow> ('m, 'r, 'c) tpc \<Rightarrow> bool" where
  "sending n p = (case p of Notifying ns _ \<Rightarrow> n \<in> set ns | _ \<Rightarrow> False)"

definition asleep :: "'c \<Rightarrow> (nat \<Rightarrow> ('m, 'r, 'c) tpc) \<Rightarrow> bool" where
  "asleep c pc \<longleftrightarrow> (\<exists>t m. pc t = Blocked c m)"

lemma woken_simps [simp]:
  "\<not> woken c Idle" "\<not> woken c (Start m)" "\<not> woken c (Blocked c' m)" "\<not> woken c (Notifying ns r)"
  "woken c (Resumed c' m) \<longleftrightarrow> c' = c"
  by (simp_all add: woken_def)

lemma sending_simps [simp]:
  "\<not> sending n Idle" "\<not> sending n (Start m)" "\<not> sending n (Blocked c' m)" "\<not> sending n (Resumed c' m)"
  "sending n (Notifying ns r) \<longleftrightarrow> n \<in> set ns"
  by (simp_all add: sending_def)

lemma cnt_cong: "(\<And>t. P (pc t) \<longleftrightarrow> P (pc' t)) \<Longrightarrow> cnt P pc = cnt P pc'"
  by (simp add: cnt_def)

lemma wake_all_other:
  "wake_all c pc t = Blocked d m \<longleftrightarrow> pc t = Blocked d m \<and> d \<noteq> c"
  "wake_all c pc t = Resumed d m \<longleftrightarrow> pc t = Resumed d m \<or> (d = c \<and> pc t = Blocked c m)"
  "wake_all c pc t = Idle \<longleftrightarrow> pc t = Idle"
  "sending n (wake_all c pc t) \<longleftrightarrow> sending n (pc t)"
  "d \<noteq> c \<Longrightarrow> woken d (wake_all c pc t) \<longleftrightarrow> woken d (pc t)"
  by (auto simp: wake_all_def split: tpc.splits)

section \<open>No lost wake-ups\<close>

text \<open>
  \<open>avail c s\<close> is the number of waiters on \<open>c\<close> that could proceed in state \<open>s\<close>, and
  \<open>plenty c s\<close> says that all of them could (a latch that has opened).  A class must signal
  for each unit it makes available and broadcast when it makes more available than it signals.
\<close>

locale counting_monitor =
  fixes run :: "'m \<Rightarrow> phase \<Rightarrow> 's \<Rightarrow> ('s, 'r, 'c) outcome"
    and sinv :: "'s \<Rightarrow> bool"
    and waits :: "'m \<Rightarrow> 'c \<Rightarrow> bool"
    and avail :: "'c \<Rightarrow> 's \<Rightarrow> nat"
    and plenty :: "'c \<Rightarrow> 's \<Rightarrow> bool"
  assumes wait_inv: "sinv s \<Longrightarrow> run m ph s = Wait c s' \<Longrightarrow> sinv s'"
    and wait_on: "sinv s \<Longrightarrow> run m ph s = Wait c s' \<Longrightarrow> waits m c"
    and wait_none: "sinv s \<Longrightarrow> run m ph s = Wait c s' \<Longrightarrow>
      avail c s' = 0 \<and> \<not> plenty c s' \<and> (\<forall>d. avail d s' \<le> avail d s \<and> (plenty d s' \<longrightarrow> plenty d s))"
    and wait_again: "sinv s \<Longrightarrow> waits m c0 \<Longrightarrow> ph \<noteq> First \<Longrightarrow> run m ph s = Wait c s' \<Longrightarrow> c = c0"
    and done_inv: "sinv s \<Longrightarrow> run m ph s = Done r s' ns \<Longrightarrow> sinv s'"
    and done_avail: "sinv s \<Longrightarrow> run m ph s = Done r s' ns \<Longrightarrow>
      Broadcast c \<in> set ns \<or> (avail c s' \<le> avail c s + of_bool (Signal c \<in> set ns) \<and> (plenty c s' \<longrightarrow> plenty c s))"
    and done_uses: "sinv s \<Longrightarrow> waits m c \<Longrightarrow> ph \<noteq> First \<Longrightarrow> run m ph s = Done r s' ns \<Longrightarrow>
      Broadcast c \<in> set ns \<or> avail c s' \<le> avail c s - 1 + of_bool (Signal c \<in> set ns)"
begin

definition mon_inv :: "('s, 'm, 'r, 'c) monitor \<Rightarrow> bool" where
  "mon_inv x \<longleftrightarrow> sinv (mon_state x) \<and> finite {t. mon_pc x t \<noteq> Idle}
     \<and> (\<forall>t c m. mon_pc x t = Blocked c m \<or> mon_pc x t = Resumed c m \<longrightarrow> waits m c)
     \<and> (\<forall>c. asleep c (mon_pc x) \<longrightarrow> 0 < cnt (sending (Broadcast c)) (mon_pc x)
          \<or> (\<not> plenty c (mon_state x) \<and> avail c (mon_state x)
               \<le> cnt (woken c) (mon_pc x) + cnt (sending (Signal c)) (mon_pc x)))"

lemma active_finite: "finite {t. pc t \<noteq> Idle} \<Longrightarrow> \<not> P Idle \<Longrightarrow> finite {t. P (pc t)}"
  by (rule finite_subset [of _ "{t. pc t \<noteq> Idle}"]) auto

lemma mon_invD:
  assumes "mon_inv \<lparr>mon_state = s, mon_pc = pc\<rparr>"
  shows "sinv s" and "finite {t. pc t \<noteq> Idle}" and "pc t = Blocked c m \<Longrightarrow> waits m c"
    and "pc t = Resumed c m \<Longrightarrow> waits m c"
    and "asleep c pc \<Longrightarrow> 0 < cnt (sending (Broadcast c)) pc
      \<or> (\<not> plenty c s \<and> avail c s \<le> cnt (woken c) pc + cnt (sending (Signal c)) pc)"
  using assms unfolding mon_inv_def by auto

text \<open>What a step of one thread has to guarantee for the condition \<open>c\<close>.\<close>

definition supplies :: "'c \<Rightarrow> 's \<Rightarrow> 's \<Rightarrow> ('m, 'r, 'c) tpc \<Rightarrow> ('m, 'r, 'c) tpc \<Rightarrow> bool" where
  "supplies c s s' p p' \<longleftrightarrow> sending (Broadcast c) p' \<or> (avail c s' = 0 \<and> \<not> plenty c s')
     \<or> ((\<forall>m. p' \<noteq> Blocked c m) \<and> (sending (Broadcast c) p \<longrightarrow> sending (Broadcast c) p')
        \<and> (plenty c s' \<longrightarrow> plenty c s)
        \<and> (avail c s' + of_bool (woken c p) + of_bool (sending (Signal c) p)
              \<le> avail c s + of_bool (woken c p') + of_bool (sending (Signal c) p')
            \<or> avail c s' \<le> of_bool (sending (Signal c) p')))"

lemma mon_inv_upd:
  assumes inv: "mon_inv \<lparr>mon_state = s, mon_pc = pc\<rparr>" and "sinv s'"
    and w: "\<And>c m. p = Blocked c m \<or> p = Resumed c m \<Longrightarrow> waits m c"
    and sup: "\<And>c. asleep c (pc(t := p)) \<Longrightarrow> supplies c s s' (pc t) p"
  shows "mon_inv \<lparr>mon_state = s', mon_pc = pc(t := p)\<rparr>"
proof -
  let ?pc = "pc(t := p)"
  have fin: "finite {t. P (pc t)}" if "\<not> P Idle" for P
    by (rule active_finite [where P = P and pc = pc]) (use mon_invD(2) [OF inv] that in simp_all)
  have finu: "finite {u. P (?pc u)}" if "\<not> P Idle" for P
    by (rule finite_upd [where P = P and pc = pc], rule fin [where P = P], rule that)
  have clause: "0 < cnt (sending (Broadcast c)) ?pc
      \<or> (\<not> plenty c s' \<and> avail c s' \<le> cnt (woken c) ?pc + cnt (sending (Signal c)) ?pc)"
    if sl: "asleep c ?pc" for c
  proof -
    have B: "cnt (sending (Broadcast c)) ?pc + of_bool (sending (Broadcast c) (pc t))
        = cnt (sending (Broadcast c)) pc + of_bool (sending (Broadcast c) p)"
      and W: "cnt (woken c) ?pc + of_bool (woken c (pc t)) = cnt (woken c) pc + of_bool (woken c p)"
      and S: "cnt (sending (Signal c)) ?pc + of_bool (sending (Signal c) (pc t))
        = cnt (sending (Signal c)) pc + of_bool (sending (Signal c) p)"
      by (rule cnt_upd, rule fin, simp)+
    have sig: "of_bool (sending (Signal c) p) \<le> cnt (sending (Signal c)) ?pc"
      using cnt_pos [where P = "sending (Signal c)" and pc = ?pc and t = t] finu [of "sending (Signal c)"] by auto
    have bc: "sending (Broadcast c) p \<Longrightarrow> 0 < cnt (sending (Broadcast c)) ?pc"
      using cnt_pos [where P = "sending (Broadcast c)" and pc = ?pc and t = t] finu [of "sending (Broadcast c)"] by auto
    have old: "(\<forall>m. p \<noteq> Blocked c m) \<Longrightarrow> asleep c pc"
      using sl by (auto simp: asleep_def split: if_splits)
    show ?thesis
      using sup [OF sl] mon_invD(5) [OF inv, of c] old bc sig B W S
      unfolding supplies_def by (auto split: if_splits)
  qed
  have "finite {u. ?pc u \<noteq> Idle}"
    by (rule finite_subset [of _ "insert t {u. pc u \<noteq> Idle}"]) (use mon_invD(2) [OF inv] in auto)
  then show ?thesis
    using clause \<open>sinv s'\<close> w mon_invD(3,4) [OF inv] unfolding mon_inv_def by auto
qed

lemma mon_inv_signal_one:
  assumes inv: "mon_inv \<lparr>mon_state = s, mon_pc = pc\<rparr>"
    and t: "pc t = Notifying (Signal c # ns) r" and u: "pc u = Blocked c m"
  shows "mon_inv \<lparr>mon_state = s, mon_pc = pc(t := Notifying ns r, u := Resumed c m)\<rparr>"
proof -
  let ?pc1 = "pc(t := Notifying ns r)"
  let ?pc2 = "?pc1(u := Resumed c m)"
  have tu: "t \<noteq> u" using t u by auto
  have fin: "finite {t. P (pc t)}" if "\<not> P Idle" for P
    by (rule active_finite [where P = P and pc = pc]) (use mon_invD(2) [OF inv] that in simp_all)
  have fin1: "finite {v. P (?pc1 v)}" if "\<not> P Idle" for P
    by (rule finite_upd [where P = P and pc = pc], rule fin [where P = P], rule that)
  have clause: "0 < cnt (sending (Broadcast d)) ?pc2
      \<or> (\<not> plenty d s \<and> avail d s \<le> cnt (woken d) ?pc2 + cnt (sending (Signal d)) ?pc2)"
    if sl: "asleep d ?pc2" for d
  proof -
    have up: "cnt P ?pc2 + of_bool (P (pc u)) + of_bool (P (pc t))
        = cnt P pc + of_bool (P (Resumed c m)) + of_bool (P (Notifying ns r))" if "\<not> P Idle" for P
      using cnt_upd [where P = P and pc = pc and t = t and p = "Notifying ns r"]
        cnt_upd [where P = P and pc = ?pc1 and t = u and p = "Resumed c m"]
        fin [where P = P] fin1 [where P = P] that tu by simp
    have "asleep d pc" using sl u by (auto simp: asleep_def split: if_splits)
    from mon_invD(5) [OF inv this] show ?thesis
      using up [of "sending (Broadcast d)"] up [of "woken d"] up [of "sending (Signal d)"] t u
      by (auto split: if_splits)
  qed
  have "finite {v. ?pc2 v \<noteq> Idle}"
    by (rule finite_subset [of _ "insert u (insert t {v. pc v \<noteq> Idle})"]) (use mon_invD(2) [OF inv] in auto)
  then show ?thesis
    using clause mon_invD(1,3,4) [OF inv] u unfolding mon_inv_def by auto
qed

lemma mon_inv_signal_all:
  assumes inv: "mon_inv \<lparr>mon_state = s, mon_pc = pc\<rparr>" and t: "pc t = Notifying (Broadcast c # ns) r"
  shows "mon_inv \<lparr>mon_state = s, mon_pc = wake_all c (pc(t := Notifying ns r))\<rparr>"
proof -
  let ?pc1 = "pc(t := Notifying ns r)"
  let ?pc2 = "wake_all c ?pc1"
  have fin: "finite {t. P (pc t)}" if "\<not> P Idle" for P
    by (rule active_finite [where P = P and pc = pc]) (use mon_invD(2) [OF inv] that in simp_all)
  have clause: "0 < cnt (sending (Broadcast d)) ?pc2
      \<or> (\<not> plenty d s \<and> avail d s \<le> cnt (woken d) ?pc2 + cnt (sending (Signal d)) ?pc2)"
    if sl: "asleep d ?pc2" for d
  proof -
    from sl have d: "d \<noteq> c" "asleep d pc" by (auto simp: asleep_def wake_all_other split: if_splits)
    have eq: "cnt (sending n) ?pc2 = cnt (sending n) ?pc1" "cnt (woken d) ?pc2 = cnt (woken d) ?pc1" for n
      by (rule cnt_cong, simp add: wake_all_other d(1) del: fun_upd_apply)+
    have up: "cnt P ?pc1 + of_bool (P (pc t)) = cnt P pc + of_bool (P (Notifying ns r))" if "\<not> P Idle" for P
      by (rule cnt_upd [where P = P and pc = pc], rule fin [where P = P], rule that)
    show ?thesis unfolding eq
      using mon_invD(5) [OF inv d(2)] up [of "sending (Broadcast d)"] up [of "woken d"] up [of "sending (Signal d)"] t d
      by (auto split: if_splits)
  qed
  have "finite {v. ?pc2 v \<noteq> Idle}"
    by (rule finite_subset [of _ "insert t {v. pc v \<noteq> Idle}"])
      (use mon_invD(2) [OF inv] in \<open>auto simp: wake_all_other\<close>)
  then show ?thesis
    using clause mon_invD(1,3,4) [OF inv] unfolding mon_inv_def by (auto simp: wake_all_other split: if_splits)
qed

lemma mon_step_inv: "mon_step run x y \<Longrightarrow> mon_inv x \<Longrightarrow> mon_inv y"
proof (induction rule: mon_step.induct)
  case (call pc t s m)
  show ?case by (rule mon_inv_upd [OF call(2)]) (use call mon_invD(1) [OF call(2)] in \<open>auto simp: supplies_def\<close>)
next
  case (enter_wait pc t m s c s')
  note sv = mon_invD(1) [OF enter_wait(3)]
  show ?case by (rule mon_inv_upd [OF enter_wait(3)])
      (use enter_wait(1) wait_inv [OF sv enter_wait(2)] wait_on [OF sv enter_wait(2)]
         wait_none [OF sv enter_wait(2)] in \<open>auto simp: supplies_def\<close>)
next
  case (enter_done pc t m s r s' ns)
  note sv = mon_invD(1) [OF enter_done(3)]
  show ?case
  proof (rule mon_inv_upd [OF enter_done(3)])
    show "supplies c s s' (pc t) (Notifying ns r)" for c
      using enter_done(1) done_avail [OF sv enter_done(2), of c] by (auto simp: supplies_def)
  qed (use done_inv [OF sv enter_done(2)] in auto)
next
  case (resume_wait pc t c0 m ph s c s')
  note sv = mon_invD(1) [OF resume_wait(4)]
  have "c = c0" by (rule wait_again [OF sv mon_invD(4) [OF resume_wait(4,1)] resume_wait(2,3)])
  then show ?case by (intro mon_inv_upd [OF resume_wait(4)])
      (use resume_wait(1) wait_inv [OF sv resume_wait(3)] wait_on [OF sv resume_wait(3)]
         wait_none [OF sv resume_wait(3)] in \<open>auto simp: supplies_def\<close>)
next
  case (resume_done pc t c0 m ph s r s' ns)
  note sv = mon_invD(1) [OF resume_done(4)]
  have use0: "Broadcast c0 \<in> set ns \<or> avail c0 s' \<le> avail c0 s - 1 + of_bool (Signal c0 \<in> set ns)"
    by (rule done_uses [OF sv mon_invD(4) [OF resume_done(4,1)] resume_done(2,3)])
  show ?case
  proof (rule mon_inv_upd [OF resume_done(4)])
    show "supplies c s s' (pc t) (Notifying ns r)" for c
      using resume_done(1) use0 done_avail [OF sv resume_done(3), of c]
      by (cases "c = c0"; cases "avail c s") (auto simp: supplies_def)
  qed (use done_inv [OF sv resume_done(3)] in auto)
next
  case (wake_self pc t c m s)
  show ?case by (rule mon_inv_upd [OF wake_self(2)])
      (use wake_self mon_invD(1,3) [OF wake_self(2)] in \<open>auto simp: supplies_def\<close>)
next
  case (signal_one pc t c ns r u m s)
  show ?case by (rule mon_inv_signal_one [OF signal_one(3,1,2)])
next
  case (signal_none pc t c ns r s)
  show ?case
  proof (rule mon_inv_upd [OF signal_none(3)])
    fix d assume "asleep d (pc(t := Notifying ns r))"
    then have "d \<noteq> c" using signal_none(2) by (auto simp: asleep_def split: if_splits)
    then show "supplies d s s (pc t) (Notifying ns r)" using signal_none(1) by (auto simp: supplies_def)
  qed (use mon_invD(1) [OF signal_none(3)] in auto)
next
  case (signal_all pc t c ns r s)
  show ?case by (rule mon_inv_signal_all [OF signal_all(2,1)])
next
  case (finish pc t r s)
  show ?case by (rule mon_inv_upd [OF finish(2)]) (use finish mon_invD(1) [OF finish(2)] in \<open>auto simp: supplies_def\<close>)
qed

lemma mon_reach_inv: "mon_reach run s0 x \<Longrightarrow> sinv s0 \<Longrightarrow> mon_inv x"
proof (induction rule: mon_reach.induct)
  case init
  then show ?case by (simp add: mon_inv_def mon_init_def asleep_def)
next
  case (step x y)
  then show ?case by (blast intro: mon_step_inv)
qed

lemma reach_sinv: "mon_reach run s0 x \<Longrightarrow> sinv s0 \<Longrightarrow> sinv (mon_state x)"
  using mon_reach_inv by (simp add: mon_inv_def)

text \<open>When the system is quiescent, a thread that sleeps on \<open>c\<close> cannot proceed.\<close>

lemma no_lost_wakeup:
  assumes "mon_reach run s0 x" and "sinv s0" and q: "quiescent x" and "mon_pc x t = Blocked c m"
  shows "avail c (mon_state x) = 0 \<and> \<not> plenty c (mon_state x)"
proof -
  have p: "mon_pc x u = Idle \<or> (\<exists>c m. mon_pc x u = Blocked c m)" for u
    using q by (simp add: quiescent_def)
  have "\<not> sending n (mon_pc x u)" "\<not> woken d (mon_pc x u)" for n d u
    using p [of u] by auto
  then have "cnt (sending n) (mon_pc x) = 0" "cnt (woken d) (mon_pc x) = 0" for n d
    by (auto intro: cnt_0)
  moreover have "asleep c (mon_pc x)" using assms(4) by (auto simp: asleep_def)
  ultimately show ?thesis using mon_reach_inv [OF assms(1,2)] unfolding mon_inv_def by auto
qed

lemma sound_sleepI:
  assumes "sinv s0" and "\<And>c s. sinv s \<Longrightarrow> avail c s = 0 \<Longrightarrow> \<not> plenty c s \<Longrightarrow> P c s"
  shows "sound_sleep run s0 P"
  unfolding sound_sleep_def using no_lost_wakeup [OF _ assms(1)] reach_sinv [OF _ assms(1)] assms(2) by blast

end

section \<open>Progress\<close>

text \<open>
  \<open>mon_work\<close> is a step in which no thread makes a new call.  \<open>work_left\<close> bounds the number of such steps
  that the threads can still make when no method waits any more.
\<close>

definition mon_work :: "('m \<Rightarrow> phase \<Rightarrow> 's \<Rightarrow> ('s, 'r, 'c) outcome)
    \<Rightarrow> ('s, 'm, 'r, 'c) monitor \<Rightarrow> ('s, 'm, 'r, 'c) monitor \<Rightarrow> bool" where
  "mon_work run x y \<longleftrightarrow> mon_step run x y \<and> (\<forall>t. mon_pc x t = Idle \<longrightarrow> mon_pc y t = Idle)"

primrec weight :: "nat \<Rightarrow> ('m, 'r, 'c) tpc \<Rightarrow> nat" where
  "weight k Idle = 0"
| "weight k (Start m) = k + 2"
| "weight k (Blocked c m) = k + 3"
| "weight k (Resumed c m) = k + 2"
| "weight k (Notifying ns r) = Suc (length ns)"

definition work_left :: "nat \<Rightarrow> (nat \<Rightarrow> ('m, 'r, 'c) tpc) \<Rightarrow> nat" where
  "work_left k pc = (\<Sum>t | pc t \<noteq> Idle. weight k (pc t))"

definition pending :: "('m, 'r, 'c) tpc \<Rightarrow> 'm \<Rightarrow> bool" where
  "pending p m \<longleftrightarrow> p = Start m \<or> (\<exists>c. p = Blocked c m \<or> p = Resumed c m)"

lemma work_left_superset: "finite A \<Longrightarrow> {t. pc t \<noteq> Idle} \<subseteq> A \<Longrightarrow> work_left k pc = (\<Sum>t\<in>A. weight k (pc t))"
  unfolding work_left_def by (rule sum.mono_neutral_left) auto

lemma work_left_upd:
  assumes "finite {t. pc t \<noteq> Idle}"
  shows "work_left k (pc(t := p)) + weight k (pc t) = work_left k pc + weight k p"
proof -
  let ?A = "insert t {u. pc u \<noteq> Idle}"
  have "(\<Sum>u\<in>?A - {t}. weight k ((pc(t := p)) u)) = (\<Sum>u\<in>?A - {t}. weight k (pc u))"
    by (rule sum.cong) auto
  moreover have "work_left k (pc(t := p)) = (\<Sum>u\<in>?A. weight k ((pc(t := p)) u))"
    by (rule work_left_superset) (use assms in auto)
  moreover have "work_left k pc = (\<Sum>u\<in>?A. weight k (pc u))" by (rule work_left_superset) (use assms in auto)
  ultimately show ?thesis using assms by (simp add: sum.remove [of ?A t])
qed

lemma work_left_wake_all: "finite {t. pc t \<noteq> Idle} \<Longrightarrow> work_left k (wake_all c pc) \<le> work_left k pc"
proof -
  assume fin: "finite {t. pc t \<noteq> Idle}"
  have "work_left k (wake_all c pc) = (\<Sum>t | pc t \<noteq> Idle. weight k (wake_all c pc t))"
    by (rule work_left_superset [OF fin]) (auto simp: wake_all_def)
  also have "\<dots> \<le> work_left k pc"
    unfolding work_left_def by (rule sum_mono) (auto simp: wake_all_def split: tpc.split)
  finally show ?thesis .
qed

text \<open>
  The liveness property of a latch: from every reachable state in which it is open, and in which only
  \<open>legal\<close> methods are being executed, the threads make at most \<open>N\<close> steps without a new call; the
  latch stays open; threads that run can always move on; and when they have, every call has returned.
\<close>

definition releases_all :: "('m \<Rightarrow> phase \<Rightarrow> 's \<Rightarrow> ('s, 'r, 'c) outcome) \<Rightarrow> 's \<Rightarrow> ('s \<Rightarrow> bool) \<Rightarrow> ('m \<Rightarrow> bool) \<Rightarrow> bool" where
  "releases_all run s0 opened legal \<longleftrightarrow>
     (\<forall>x. mon_reach run s0 x \<longrightarrow> opened (mon_state x) \<longrightarrow> (\<forall>t m. pending (mon_pc x t) m \<longrightarrow> legal m) \<longrightarrow>
       (\<exists>N. \<forall>n y. (mon_work run ^^ n) x y \<longrightarrow> n \<le> N \<and> opened (mon_state y)
          \<and> (quiescent y \<longrightarrow> (\<forall>t. mon_pc y t = Idle)) \<and> (\<not> quiescent y \<longrightarrow> (\<exists>z. mon_work run y z))))"

text \<open>
  A class with states in which none of its methods waits (an opened latch), kept by the methods that
  are \<open>legal\<close>.  Once such a state is reached, the calls in progress all return within a bounded
  number of steps, however the threads are scheduled.
\<close>

locale opening_monitor = counting_monitor run sinv waits avail plenty
  for run :: "'m \<Rightarrow> phase \<Rightarrow> 's \<Rightarrow> ('s, 'r, 'c) outcome" and sinv waits avail plenty +
  fixes opened :: "'s \<Rightarrow> bool"
    and legal :: "'m \<Rightarrow> bool"
    and k :: nat
  assumes opened_plenty: "sinv s \<Longrightarrow> opened s \<Longrightarrow> waits m c \<Longrightarrow> plenty c s"
    and opened_done: "sinv s \<Longrightarrow> opened s \<Longrightarrow> legal m \<Longrightarrow>
      \<exists>r s' ns. run m ph s = Done r s' ns \<and> opened s' \<and> length ns \<le> k"
begin

definition calm :: "('s, 'm, 'r, 'c) monitor \<Rightarrow> bool" where
  "calm x \<longleftrightarrow> mon_inv x \<and> opened (mon_state x) \<and> (\<forall>t m. pending (mon_pc x t) m \<longrightarrow> legal m)"

lemma calm_upd:
  assumes "calm \<lparr>mon_state = s, mon_pc = pc\<rparr>" and "mon_inv \<lparr>mon_state = s', mon_pc = pc(t := p)\<rparr>"
    and "opened s'" and "\<And>m. pending p m \<Longrightarrow> legal m" and "weight k p < weight k (pc t)"
  shows "calm \<lparr>mon_state = s', mon_pc = pc(t := p)\<rparr> \<and> work_left k (pc(t := p)) < work_left k pc"
proof -
  have "finite {t. pc t \<noteq> Idle}" using assms(1) by (auto simp: calm_def mon_inv_def)
  from work_left_upd [OF this, where k = k and t = t and p = p] show ?thesis
    using assms by (auto simp: calm_def)
qed

lemma calm_step:
  assumes "mon_step run x y" and "calm x" and "\<forall>t. mon_pc x t = Idle \<longrightarrow> mon_pc y t = Idle"
  shows "calm y \<and> work_left k (mon_pc y) < work_left k (mon_pc x)"
proof -
  have inv: "mon_inv y" using mon_step_inv [OF assms(1)] assms(2) by (simp add: calm_def)
  have fin: "finite {t. mon_pc x t \<noteq> Idle}" and sv: "sinv (mon_state x)" and op: "opened (mon_state x)"
    and lg: "pending (mon_pc x t) m \<Longrightarrow> legal m" for t m
    using assms(2) by (auto simp: calm_def mon_inv_def)
  note done' = opened_done [OF sv op]
  from assms(1) show ?thesis
  proof cases
    case (call pc t s m)
    then show ?thesis using spec [OF assms(3), of t] by simp
  next
    case (enter_wait pc t m s c s')
    then show ?thesis using done' [of m First] lg [of t m] by (auto simp: pending_def)
  next
    case (resume_wait pc t c0 m ph s c s')
    then show ?thesis using done' [of m ph] lg [of t m] by (auto simp: pending_def)
  next
    case (enter_done pc t m s r s' ns)
    then have "opened s'" "length ns \<le> k" using done' [of m First] lg [of t m] by (auto simp: pending_def)
    then show ?thesis using calm_upd [of s pc s' t "Notifying ns r"] enter_done assms(2) inv
      by (auto simp: pending_def)
  next
    case (resume_done pc t c0 m ph s r s' ns)
    then have "opened s'" "length ns \<le> k" using done' [of m ph] lg [of t m] by (auto simp: pending_def)
    then show ?thesis using calm_upd [of s pc s' t "Notifying ns r"] resume_done assms(2) inv
      by (auto simp: pending_def)
  next
    case (wake_self pc t c m s)
    then show ?thesis using calm_upd [of s pc s t "Resumed c m"] assms(2) inv lg [of t m] op
      by (auto simp: pending_def)
  next
    case (signal_one pc t c ns r u m s)
    let ?pc1 = "pc(t := Notifying ns r)"
    have f: "finite {v. pc v \<noteq> Idle}" using fin signal_one by simp
    have f1: "finite {v. ?pc1 v \<noteq> Idle}" by (rule finite_subset [of _ "insert t {v. pc v \<noteq> Idle}"]) (use f in auto)
    have "work_left k (?pc1(u := Resumed c m)) + weight k (?pc1 u) = work_left k ?pc1 + (k + 2)"
      using work_left_upd [where pc = ?pc1 and p = "Resumed c m", OF f1] by simp
    moreover have "work_left k ?pc1 + weight k (pc t) = work_left k pc + Suc (length ns)"
      using work_left_upd [where pc = pc and p = "Notifying ns r", OF f] by simp
    ultimately have "work_left k (?pc1(u := Resumed c m)) < work_left k pc" using signal_one by (auto split: if_splits)
    moreover have "legal m'" if "pending ((?pc1(u := Resumed c m)) v) m'" for v m'
      using that signal_one lg [of v m'] by (auto simp: pending_def split: if_splits)
    ultimately show ?thesis using signal_one inv op by (auto simp: calm_def)
  next
    case (signal_none pc t c ns r s)
    then show ?thesis using calm_upd [of s pc s t "Notifying ns r"] assms(2) inv op by (auto simp: pending_def)
  next
    case (signal_all pc t c ns r s)
    let ?pc1 = "pc(t := Notifying ns r)"
    have f: "finite {v. pc v \<noteq> Idle}" using fin signal_all by simp
    have f1: "finite {v. ?pc1 v \<noteq> Idle}" by (rule finite_subset [of _ "insert t {v. pc v \<noteq> Idle}"]) (use f in auto)
    have "work_left k ?pc1 + weight k (pc t) = work_left k pc + Suc (length ns)"
      using work_left_upd [where pc = pc and p = "Notifying ns r", OF f] by simp
    then have "work_left k (wake_all c ?pc1) < work_left k pc" using work_left_wake_all [where pc = ?pc1 and k = k and c = c, OF f1] signal_all by simp
    moreover have "legal m'" if "pending (wake_all c ?pc1 v) m'" for v m'
      using that signal_all lg [of v m'] by (auto simp: pending_def wake_all_def split: tpc.splits if_splits)
    ultimately show ?thesis using signal_all inv op by (auto simp: calm_def)
  next
    case (finish pc t r s)
    then show ?thesis using calm_upd [of s pc s t Idle] assms(2) inv op by (auto simp: pending_def)
  qed
qed

lemma calm_work: "(mon_work run ^^ n) x y \<Longrightarrow> calm x \<Longrightarrow> calm y \<and> n + work_left k (mon_pc y) \<le> work_left k (mon_pc x)"
proof (induction n arbitrary: y)
  case (Suc n)
  then obtain z where z: "(mon_work run ^^ n) x z" "mon_work run z y" by auto
  then show ?case using Suc.IH [OF z(1) Suc.prems(2)] calm_step [of z y] by (auto simp: mon_work_def)
qed simp

text \<open>A thread that is neither idle nor asleep can move on.\<close>

lemma calm_moves:
  assumes "calm x" and "\<not> quiescent x"
  shows "\<exists>y. mon_work run x y"
proof -
  obtain s pc where x: "x = \<lparr>mon_state = s, mon_pc = pc\<rparr>" by (cases x) auto
  obtain t where t: "pc t \<noteq> Idle" "\<And>c m. pc t \<noteq> Blocked c m"
    using assms(2) unfolding quiescent_def x by auto
  have don: "\<exists>r s' ns. run m ph s = Done r s' ns" if "pending (pc t) m" for m ph
    using assms(1) that opened_done [of s m ph] by (auto simp: calm_def mon_inv_def x)
  show ?thesis
  proof (cases "pc t")
    case (Start m)
    then obtain r s' ns where "run m First s = Done r s' ns" using don [of m First] by (auto simp: pending_def)
    then show ?thesis using mon_step.enter_done [of pc t m run s r s' ns] Start unfolding x mon_work_def by fastforce
  next
    case (Resumed c m)
    then obtain r s' ns where "run m Woken s = Done r s' ns" using don [of m Woken] by (auto simp: pending_def)
    then show ?thesis using mon_step.resume_done [of pc t c m Woken run s r s' ns] Resumed unfolding x mon_work_def by fastforce
  next
    case (Notifying ns r)
    show ?thesis
    proof (cases ns)
      case Nil
      then show ?thesis using mon_step.finish [of pc t r run s] Notifying unfolding x mon_work_def by fastforce
    next
      case (Cons n ns')
      then show ?thesis
      proof (cases n)
        case (Signal c)
        show ?thesis
        proof (cases "\<exists>u m. pc u = Blocked c m")
          case True
          then obtain u m where "pc u = Blocked c m" by blast
          then show ?thesis using mon_step.signal_one [of pc t c ns' r u m run s] Notifying Cons Signal
            unfolding x mon_work_def by fastforce
        next
          case False
          then show ?thesis using mon_step.signal_none [of pc t c ns' r run s] Notifying Cons Signal
            unfolding x mon_work_def by fastforce
        qed
      next
        case (Broadcast c)
        then have "mon_step run x \<lparr>mon_state = s, mon_pc = wake_all c (pc(t := Notifying ns' r))\<rparr>"
          using mon_step.signal_all [of pc t c ns' r run s] Notifying Cons by (simp add: x)
        then show ?thesis using Notifying unfolding x mon_work_def by (intro exI) (auto simp: wake_all_def)
      qed
    qed
  qed (use t in auto)
qed

lemma all_return:
  assumes reach: "mon_reach run s0 x" and init: "sinv s0" and op: "opened (mon_state x)"
    and legal: "\<And>t m. pending (mon_pc x t) m \<Longrightarrow> legal m"
    and work: "(mon_work run ^^ n) x y"
  shows "n \<le> work_left k (mon_pc x)" and "opened (mon_state y)"
    and "quiescent y \<Longrightarrow> mon_pc y t = Idle" and "\<not> quiescent y \<Longrightarrow> \<exists>z. mon_work run y z"
proof -
  have "calm x" using mon_reach_inv [OF reach init] op legal by (auto simp: calm_def)
  from calm_work [OF work this] have y: "calm y" and le: "n + work_left k (mon_pc y) \<le> work_left k (mon_pc x)" by auto
  show "n \<le> work_left k (mon_pc x)" using le by simp
  show "opened (mon_state y)" using y by (simp add: calm_def)
  show "\<not> quiescent y \<Longrightarrow> \<exists>z. mon_work run y z" by (rule calm_moves [OF y])
  assume q: "quiescent y"
  have "mon_reach run s0 z \<Longrightarrow> (mon_work run ^^ i) z w \<Longrightarrow> mon_reach run s0 w" for i z w
  proof (induction i arbitrary: w)
    case (Suc i)
    then show ?case by (auto simp: mon_work_def) (meson mon_reach.step)
  qed simp
  then have ry: "mon_reach run s0 y" using reach work by blast
  show "mon_pc y t = Idle"
  proof (rule ccontr)
    assume "mon_pc y t \<noteq> Idle"
    then obtain c m where b: "mon_pc y t = Blocked c m" using q by (auto simp: quiescent_def)
    have "waits m c" "sinv (mon_state y)" using y b by (auto simp: calm_def mon_inv_def)
    then have "plenty c (mon_state y)" using opened_plenty y by (auto simp: calm_def)
    then show False using no_lost_wakeup [OF ry init q b] by simp
  qed
qed

lemma releases_allI: "sinv s0 \<Longrightarrow> releases_all run s0 opened legal"
  unfolding releases_all_def using all_return by (intro allI impI exI [of _ "work_left k (mon_pc _)"]) blast

end

text \<open>
  The simplest such class is a gate: one condition variable, on which a thread waits exactly while the
  gate is shut, and a broadcast by every method that opens it.
\<close>

locale gate =
  fixes run :: "'m \<Rightarrow> phase \<Rightarrow> 's \<Rightarrow> ('s, 'r, 'c) outcome"
    and cv :: 'c
    and waits :: "'m \<Rightarrow> bool"
    and opened :: "'s \<Rightarrow> bool"
    and legal :: "'m \<Rightarrow> bool"
  assumes gate_wait: "run m ph s = Wait c s' \<Longrightarrow> c = cv \<and> s' = s \<and> waits m \<and> \<not> opened s"
    and gate_done: "run m ph s = Done r s' ns \<Longrightarrow> Broadcast cv \<in> set ns \<or> (opened s' \<longrightarrow> opened s)"
    and gate_legal: "run m ph s = Done r s' ns \<Longrightarrow> opened s \<Longrightarrow> legal m \<Longrightarrow> opened s' \<and> length ns \<le> 1"

sublocale gate \<subseteq> opening_monitor run "\<lambda>_. True" "\<lambda>m c. waits m \<and> c = cv" "\<lambda>_ _. 0" "\<lambda>c s. c = cv \<and> opened s"
    opened legal 1
proof unfold_locales
  fix s m ph
  assume "opened s" "legal m"
  then show "\<exists>r s' ns. run m ph s = Done r s' ns \<and> opened s' \<and> length ns \<le> 1"
    using gate_wait gate_legal by (cases "run m ph s") fastforce+
qed (auto dest: gate_wait gate_done)

end
