(* ===== verification/Blocking_Queue.thy ===== *)
theory Blocking_Queue
  imports Monitor
begin

text \<open>
  \<open>BlockingQueue<T>\<close> of \<open>blocking_queue.h\<close>: a bounded deque under one mutex with the
  condition variables \<open>m_cond_not_empty\<close> and \<open>m_cond_not_full\<close>.  Each method is its
  critical section over the deque; \<open>resumed\<close> tells the first attempt of the timed methods
  from the second, after their single wait.  The class satisfies the contract of
  \<open>counting_monitor\<close>, so no wake-up is lost.
\<close>

datatype bq_cond = NotEmpty | NotFull

record 'a BlockingQueue =
  m_max_elements :: nat
  m_queue :: "'a list"

datatype 'a bq_ret = RVoid | RBool bool | RElem "'a option" | RAll "'a list option" | RSize nat

type_synonym 'a bq_outcome = "('a BlockingQueue, 'a bq_ret, bq_cond) outcome"

definition BlockingQueue_new :: "nat \<Rightarrow> 'a BlockingQueue result" where
  "BlockingQueue_new max_elements =
     (if max_elements > 0 then Inr \<lparr>m_max_elements = max_elements, m_queue = []\<rparr> else Inl AssertFailed)"

definition UnlockedIsFull :: "'a BlockingQueue \<Rightarrow> bool" where
  "UnlockedIsFull q \<longleftrightarrow> length (m_queue q) \<ge> m_max_elements q"

definition BlockingQueue_PushFront :: "'a \<Rightarrow> 'a BlockingQueue \<Rightarrow> 'a bq_outcome" where
  "BlockingQueue_PushFront value q =
     (if UnlockedIsFull q then Wait NotFull q
      else Done RVoid (q\<lparr>m_queue := value # m_queue q\<rparr>) [Signal NotEmpty])"

definition BlockingQueue_TryPushFront :: "'a \<Rightarrow> 'a BlockingQueue \<Rightarrow> 'a bq_outcome" where
  "BlockingQueue_TryPushFront value q =
     (if UnlockedIsFull q then Done (RBool False) q []
      else Done (RBool True) (q\<lparr>m_queue := value # m_queue q\<rparr>) [Signal NotEmpty])"

definition BlockingQueue_PushBack :: "'a \<Rightarrow> 'a BlockingQueue \<Rightarrow> 'a bq_outcome" where
  "BlockingQueue_PushBack value q =
     (if UnlockedIsFull q then Wait NotFull q
      else Done RVoid (q\<lparr>m_queue := m_queue q @ [value]\<rparr>) [Signal NotEmpty])"

definition BlockingQueue_TryPushBack :: "'a \<Rightarrow> 'a BlockingQueue \<Rightarrow> 'a bq_outcome" where
  "BlockingQueue_TryPushBack value q =
     (if UnlockedIsFull q then Done (RBool False) q []
      else Done (RBool True) (q\<lparr>m_queue := m_queue q @ [value]\<rparr>) [Signal NotEmpty])"

definition BlockingQueue_PopFront :: "'a BlockingQueue \<Rightarrow> 'a bq_outcome" where
  "BlockingQueue_PopFront q =
     (case m_queue q of [] \<Rightarrow> Wait NotEmpty q
      | x # xs \<Rightarrow> Done (RElem (Some x)) (q\<lparr>m_queue := xs\<rparr>) [Signal NotFull])"

definition BlockingQueue_TryPopFront :: "'a BlockingQueue \<Rightarrow> 'a bq_outcome" where
  "BlockingQueue_TryPopFront q =
     (case m_queue q of [] \<Rightarrow> Done (RElem None) q []
      | x # xs \<Rightarrow> Done (RElem (Some x)) (q\<lparr>m_queue := xs\<rparr>) [Signal NotFull])"

definition BlockingQueue_PopBack :: "'a BlockingQueue \<Rightarrow> 'a bq_outcome" where
  "BlockingQueue_PopBack q =
     (if m_queue q = [] then Wait NotEmpty q
      else Done (RElem (Some (last (m_queue q)))) (q\<lparr>m_queue := butlast (m_queue q)\<rparr>) [Signal NotFull])"

definition BlockingQueue_TryPopBack :: "'a BlockingQueue \<Rightarrow> 'a bq_outcome" where
  "BlockingQueue_TryPopBack q =
     (if m_queue q = [] then Done (RElem None) q []
      else Done (RElem (Some (last (m_queue q)))) (q\<lparr>m_queue := butlast (m_queue q)\<rparr>) [Signal NotFull])"

definition BlockingQueue_TimedPushFront :: "'a \<Rightarrow> bool \<Rightarrow> 'a BlockingQueue \<Rightarrow> 'a bq_outcome" where
  "BlockingQueue_TimedPushFront value resumed q =
     (if UnlockedIsFull q \<and> \<not> resumed then Wait NotFull q
      else if \<not> UnlockedIsFull q
      then Done (RBool True) (q\<lparr>m_queue := value # m_queue q\<rparr>) [Signal NotEmpty]
      else Done (RBool False) q [])"

definition BlockingQueue_TimedPushBack :: "'a \<Rightarrow> bool \<Rightarrow> 'a BlockingQueue \<Rightarrow> 'a bq_outcome" where
  "BlockingQueue_TimedPushBack value resumed q =
     (if UnlockedIsFull q \<and> \<not> resumed then Wait NotFull q
      else if \<not> UnlockedIsFull q
      then Done (RBool True) (q\<lparr>m_queue := m_queue q @ [value]\<rparr>) [Signal NotEmpty]
      else Done (RBool False) q [])"

definition BlockingQueue_TimedPopFront :: "bool \<Rightarrow> 'a BlockingQueue \<Rightarrow> 'a bq_outcome" where
  "BlockingQueue_TimedPopFront resumed q =
     (if m_queue q = [] \<and> \<not> resumed then Wait NotEmpty q
      else if m_queue q \<noteq> []
      then Done (RElem (Some (hd (m_queue q)))) (q\<lparr>m_queue := tl (m_queue q)\<rparr>) [Signal NotFull]
      else Done (RElem None) q [])"

definition BlockingQueue_TimedPopBack :: "bool \<Rightarrow> 'a BlockingQueue \<Rightarrow> 'a bq_outcome" where
  "BlockingQueue_TimedPopBack resumed q =
     (if m_queue q = [] \<and> \<not> resumed then Wait NotEmpty q
      else if m_queue q \<noteq> []
      then Done (RElem (Some (last (m_queue q)))) (q\<lparr>m_queue := butlast (m_queue q)\<rparr>) [Signal NotFull]
      else Done (RElem None) q [])"

definition BlockingQueue_PopAll :: "'a BlockingQueue \<Rightarrow> 'a bq_outcome" where
  "BlockingQueue_PopAll q =
     (if m_queue q = [] then Wait NotEmpty q
      else Done (RAll (Some (m_queue q))) (q\<lparr>m_queue := []\<rparr>) [Broadcast NotFull])"

definition BlockingQueue_TryPopAll :: "'a BlockingQueue \<Rightarrow> 'a bq_outcome" where
  "BlockingQueue_TryPopAll q =
     (if m_queue q = [] then Done (RAll None) q []
      else Done (RAll (Some (m_queue q))) (q\<lparr>m_queue := []\<rparr>) [Broadcast NotFull])"

definition BlockingQueue_TimedPopAll :: "bool \<Rightarrow> 'a BlockingQueue \<Rightarrow> 'a bq_outcome" where
  "BlockingQueue_TimedPopAll resumed q =
     (if m_queue q = [] \<and> \<not> resumed then Wait NotEmpty q
      else if m_queue q \<noteq> []
      then Done (RAll (Some (m_queue q))) (q\<lparr>m_queue := []\<rparr>) [Broadcast NotFull, Signal NotFull]
      else Done (RAll None) q [])"

definition BlockingQueue_Size :: "'a BlockingQueue \<Rightarrow> 'a bq_outcome" where
  "BlockingQueue_Size q = Done (RSize (length (m_queue q))) q []"

definition BlockingQueue_IsEmpty :: "'a BlockingQueue \<Rightarrow> 'a bq_outcome" where
  "BlockingQueue_IsEmpty q = Done (RBool (m_queue q = [])) q []"

definition BlockingQueue_IsFull :: "'a BlockingQueue \<Rightarrow> 'a bq_outcome" where
  "BlockingQueue_IsFull q = Done (RBool (UnlockedIsFull q)) q []"

definition BlockingQueue_Clear :: "'a BlockingQueue \<Rightarrow> 'a bq_outcome" where
  "BlockingQueue_Clear q = Done RVoid (q\<lparr>m_queue := []\<rparr>) [Broadcast NotFull]"

lemmas BlockingQueue_defs = BlockingQueue_PushFront_def BlockingQueue_TryPushFront_def
  BlockingQueue_PushBack_def BlockingQueue_TryPushBack_def BlockingQueue_PopFront_def
  BlockingQueue_TryPopFront_def BlockingQueue_PopBack_def BlockingQueue_TryPopBack_def
  BlockingQueue_TimedPushFront_def BlockingQueue_TimedPushBack_def BlockingQueue_TimedPopFront_def
  BlockingQueue_TimedPopBack_def BlockingQueue_PopAll_def BlockingQueue_TryPopAll_def
  BlockingQueue_TimedPopAll_def BlockingQueue_Size_def BlockingQueue_IsEmpty_def
  BlockingQueue_IsFull_def BlockingQueue_Clear_def

datatype 'a bq_method =
    PushFront 'a | TryPushFront 'a | PushBack 'a | TryPushBack 'a
  | PopFront | TryPopFront | PopBack | TryPopBack
  | TimedPushFront 'a | TimedPushBack 'a | TimedPopFront | TimedPopBack
  | PopAll | TryPopAll | TimedPopAll | Size | IsEmpty | IsFull | Clear

fun BlockingQueue_call :: "'a bq_method \<Rightarrow> phase \<Rightarrow> 'a BlockingQueue \<Rightarrow> 'a bq_outcome" where
  "BlockingQueue_call (PushFront v) ph q = BlockingQueue_PushFront v q"
| "BlockingQueue_call (TryPushFront v) ph q = BlockingQueue_TryPushFront v q"
| "BlockingQueue_call (PushBack v) ph q = BlockingQueue_PushBack v q"
| "BlockingQueue_call (TryPushBack v) ph q = BlockingQueue_TryPushBack v q"
| "BlockingQueue_call PopFront ph q = BlockingQueue_PopFront q"
| "BlockingQueue_call TryPopFront ph q = BlockingQueue_TryPopFront q"
| "BlockingQueue_call PopBack ph q = BlockingQueue_PopBack q"
| "BlockingQueue_call TryPopBack ph q = BlockingQueue_TryPopBack q"
| "BlockingQueue_call (TimedPushFront v) ph q = BlockingQueue_TimedPushFront v (ph \<noteq> First) q"
| "BlockingQueue_call (TimedPushBack v) ph q = BlockingQueue_TimedPushBack v (ph \<noteq> First) q"
| "BlockingQueue_call TimedPopFront ph q = BlockingQueue_TimedPopFront (ph \<noteq> First) q"
| "BlockingQueue_call TimedPopBack ph q = BlockingQueue_TimedPopBack (ph \<noteq> First) q"
| "BlockingQueue_call PopAll ph q = BlockingQueue_PopAll q"
| "BlockingQueue_call TryPopAll ph q = BlockingQueue_TryPopAll q"
| "BlockingQueue_call TimedPopAll ph q = BlockingQueue_TimedPopAll (ph \<noteq> First) q"
| "BlockingQueue_call Size ph q = BlockingQueue_Size q"
| "BlockingQueue_call IsEmpty ph q = BlockingQueue_IsEmpty q"
| "BlockingQueue_call IsFull ph q = BlockingQueue_IsFull q"
| "BlockingQueue_call Clear ph q = BlockingQueue_Clear q"

section \<open>The monitor contract\<close>

definition bq_ok :: "nat \<Rightarrow> 'a BlockingQueue \<Rightarrow> bool" where
  "bq_ok n q \<longleftrightarrow> 0 < n \<and> m_max_elements q = n \<and> length (m_queue q) \<le> n"

fun bq_waits :: "'a bq_method \<Rightarrow> bq_cond \<Rightarrow> bool" where
  "bq_waits (PushFront _) c = (c = NotFull)"
| "bq_waits (PushBack _) c = (c = NotFull)"
| "bq_waits (TimedPushFront _) c = (c = NotFull)"
| "bq_waits (TimedPushBack _) c = (c = NotFull)"
| "bq_waits PopFront c = (c = NotEmpty)"
| "bq_waits PopBack c = (c = NotEmpty)"
| "bq_waits TimedPopFront c = (c = NotEmpty)"
| "bq_waits TimedPopBack c = (c = NotEmpty)"
| "bq_waits PopAll c = (c = NotEmpty)"
| "bq_waits TimedPopAll c = (c = NotEmpty)"
| "bq_waits _ c = False"

text \<open>Elements for the consumers, free places for the producers.\<close>

fun bq_avail :: "bq_cond \<Rightarrow> 'a BlockingQueue \<Rightarrow> nat" where
  "bq_avail NotEmpty q = length (m_queue q)"
| "bq_avail NotFull q = m_max_elements q - length (m_queue q)"

lemmas bq_unfold = BlockingQueue_defs UnlockedIsFull_def bq_ok_def

interpretation bq: counting_monitor BlockingQueue_call "bq_ok n" bq_waits bq_avail "\<lambda>_ _. False" for n
proof unfold_locales
  fix s s' :: "'a BlockingQueue" and m ph c r ns
  assume s: "bq_ok n s"
  show "BlockingQueue_call m ph s = Wait c s' \<Longrightarrow> bq_ok n s'"
    "BlockingQueue_call m ph s = Wait c s' \<Longrightarrow> bq_waits m c"
    "BlockingQueue_call m ph s = Wait c s' \<Longrightarrow>
      bq_avail c s' = 0 \<and> \<not> False \<and> (\<forall>d. bq_avail d s' \<le> bq_avail d s \<and> (False \<longrightarrow> False))"
    using s by (cases m; auto simp: bq_unfold split: if_splits list.splits)+
  show "BlockingQueue_call m ph s = Done r s' ns \<Longrightarrow> bq_ok n s'"
    using s by (cases m) (auto simp: bq_unfold split: if_splits list.splits)
  show "BlockingQueue_call m ph s = Done r s' ns \<Longrightarrow>
      Broadcast c \<in> set ns
      \<or> (bq_avail c s' \<le> bq_avail c s + of_bool (Signal c \<in> set ns) \<and> (False \<longrightarrow> False))"
    using s by (cases m; cases c) (auto simp: bq_unfold split: if_splits list.splits)
  show "bq_waits m c \<Longrightarrow> ph \<noteq> First \<Longrightarrow> BlockingQueue_call m ph s = Done r s' ns \<Longrightarrow>
      Broadcast c \<in> set ns \<or> bq_avail c s' \<le> bq_avail c s - 1 + of_bool (Signal c \<in> set ns)"
    using s by (cases m; cases c) (auto simp: bq_unfold split: if_splits list.splits)
next
  fix s s' :: "'a BlockingQueue" and m ph c c0
  assume "bq_ok n s" "bq_waits m c0" "ph \<noteq> First" "BlockingQueue_call m ph s = Wait c s'"
  then show "c = c0"
    by (cases m) (auto simp: bq_unfold split: if_splits list.splits)
qed

lemma BlockingQueue_new_ok: "BlockingQueue_new n = Inr q \<Longrightarrow> bq_ok n q"
  by (auto simp: BlockingQueue_new_def bq_ok_def split: if_splits)

text \<open>
  C1. In every state that any number of threads can reach by interleaving the nineteen methods of
  a \<open>BlockingQueue\<close> of capacity \<open>n\<close>, the queue never holds more than \<open>n\<close>
  elements, and no wake-up is lost: once no thread is running, being woken or about to signal, a
  thread that still sleeps in a pop finds the queue empty and one that sleeps in a push finds it full.
\<close>
theorem BlockingQueue_no_lost_wakeup:
  assumes "BlockingQueue_new n = Inr q0" and "mon_reach BlockingQueue_call q0 x"
  shows "length (m_queue (mon_state x)) \<le> n
    \<and> (quiescent x \<longrightarrow> (\<forall>t m. (mon_pc x t = Blocked NotEmpty m \<longrightarrow> m_queue (mon_state x) = [])
         \<and> (mon_pc x t = Blocked NotFull m \<longrightarrow> length (m_queue (mon_state x)) = n)))"
proof -
  note ok = BlockingQueue_new_ok [OF assms(1)]
  have inv: "bq_ok n (mon_state x)" by (rule bq.reach_sinv [OF assms(2) ok])
  have "m_queue (mon_state x) = []" if "quiescent x" "mon_pc x t = Blocked NotEmpty m" for t m
    using bq.no_lost_wakeup [OF assms(2) ok that] by simp
  moreover have "length (m_queue (mon_state x)) = n" if "quiescent x" "mon_pc x t = Blocked NotFull m" for t m
    using bq.no_lost_wakeup [OF assms(2) ok that] inv by (simp add: bq_ok_def)
  ultimately show ?thesis using inv by (auto simp: bq_ok_def)
qed

definition one_place :: "nat BlockingQueue" where
  "one_place = \<lparr>m_max_elements = 1, m_queue = []\<rparr>"

definition sleeping_consumer :: "(nat BlockingQueue, nat bq_method, nat bq_ret, bq_cond) monitor" where
  "sleeping_consumer = \<lparr>mon_state = one_place, mon_pc = (\<lambda>_. Idle)(0 := Blocked NotEmpty PopFront)\<rparr>"

lemma sleeping_consumer_reach: "mon_reach BlockingQueue_call one_place sleeping_consumer"
proof -
  let ?pc = "(\<lambda>_. Idle)(0 := Start PopFront) :: nat \<Rightarrow> (nat bq_method, nat bq_ret, bq_cond) tpc"
  have "mon_reach BlockingQueue_call one_place \<lparr>mon_state = one_place, mon_pc = ?pc\<rparr>"
    by (rule mon_reach.step [OF mon_reach.init]) (simp add: mon_init_def mon_step.call)
  moreover have "mon_step BlockingQueue_call \<lparr>mon_state = one_place, mon_pc = ?pc\<rparr>
      \<lparr>mon_state = one_place, mon_pc = ?pc(0 := Blocked NotEmpty PopFront)\<rparr>"
    by (rule mon_step.enter_wait) (simp_all add: BlockingQueue_PopFront_def one_place_def)
  ultimately show ?thesis by (simp add: sleeping_consumer_def mon_reach.step)
qed

theorem BlockingQueue_no_lost_wakeup_witness:
  "mon_reach BlockingQueue_call one_place sleeping_consumer \<and> quiescent sleeping_consumer
   \<and> mon_pc sleeping_consumer 0 = Blocked NotEmpty PopFront \<and> m_queue (mon_state sleeping_consumer) = []"
proof -
  have new: "BlockingQueue_new 1 = Inr one_place" by (simp add: BlockingQueue_new_def one_place_def)
  have q: "quiescent sleeping_consumer" by (simp add: quiescent_def sleeping_consumer_def)
  have b: "mon_pc sleeping_consumer 0 = Blocked NotEmpty PopFront" by (simp add: sleeping_consumer_def)
  show ?thesis
    using BlockingQueue_no_lost_wakeup [OF new sleeping_consumer_reach] sleeping_consumer_reach q b by blast
qed

section \<open>What the methods do to the elements\<close>

fun given :: "'a bq_method \<Rightarrow> 'a bq_ret \<Rightarrow> 'a list" where
  "given (PushFront v) _ = [v]"
| "given (PushBack v) _ = [v]"
| "given (TryPushFront v) (RBool True) = [v]"
| "given (TryPushBack v) (RBool True) = [v]"
| "given (TimedPushFront v) (RBool True) = [v]"
| "given (TimedPushBack v) (RBool True) = [v]"
| "given _ _ = []"

fun taken :: "'a bq_ret \<Rightarrow> 'a list" where
  "taken (RElem (Some v)) = [v]"
| "taken (RAll (Some vs)) = vs"
| "taken _ = []"

fun front_side :: "'a bq_method \<Rightarrow> bool" where
  "front_side (PushFront _) = True"
| "front_side (TryPushFront _) = True"
| "front_side (TimedPushFront _) = True"
| "front_side PopFront = True"
| "front_side TryPopFront = True"
| "front_side TimedPopFront = True"
| "front_side PopAll = True"
| "front_side TryPopAll = True"
| "front_side TimedPopAll = True"
| "front_side _ = False"



end
