(* ===== verification/Auto_Vector.thy ===== *)
theory Auto_Vector
  imports Prelude
begin

text \<open>
  \<open>autovector<T, kSize>\<close> of \<open>small_container.h\<close>: the first \<open>kSize\<close> elements in
  an in-object array, the rest in a \<open>std::vector\<close>.  The vector's capacity matters only for
  \<open>only_in_stack()\<close> and is the flag \<open>av_heap\<close> (capacity not 0).  \<open>assert\<close>s are
  errors.  The class is a random-access sequence; \<open>SmallHashMap\<close> uses it for its buckets.
\<close>

record 'a autovector =
  av_num_stack_items :: nat
  av_values :: "'a list"
  av_vect :: "'a list"
  av_heap :: bool

definition autovector_new :: "'a list \<Rightarrow> 'a autovector" where
  "autovector_new mem = \<lparr>av_num_stack_items = 0, av_values = mem, av_vect = [], av_heap = False\<rparr>"

definition autovector_only_in_stack :: "'a autovector \<Rightarrow> bool" where
  "autovector_only_in_stack v \<longleftrightarrow> \<not> av_heap v"

definition autovector_size :: "'a autovector \<Rightarrow> nat" where
  "autovector_size v = av_num_stack_items v + length (av_vect v)"

definition autovector_empty :: "'a autovector \<Rightarrow> bool" where
  "autovector_empty v \<longleftrightarrow> autovector_size v = 0"

text \<open>\<open>std::vector::resize(m)\<close> truncates or appends value-initialised elements.\<close>

definition vector_resize :: "'a \<Rightarrow> nat \<Rightarrow> 'a list \<Rightarrow> 'a list" where
  "vector_resize dflt m xs = take m xs @ replicate (m - length xs) dflt"

definition autovector_resize :: "nat \<Rightarrow> 'a \<Rightarrow> nat \<Rightarrow> 'a autovector \<Rightarrow> 'a autovector" where
  "autovector_resize kSize dflt n v =
     (if n > kSize
      then v\<lparr>av_vect := vector_resize dflt (n - kSize) (av_vect v), av_num_stack_items := kSize, av_heap := True\<rparr>
      else v\<lparr>av_vect := [], av_num_stack_items := n\<rparr>)"

definition autovector_get :: "nat \<Rightarrow> nat \<Rightarrow> 'a autovector \<Rightarrow> 'a result" where
  "autovector_get kSize n v =
     (if n < autovector_size v
      then Inr (if n < kSize then av_values v ! n else av_vect v ! (n - kSize))
      else Inl AssertFailed)"

text \<open>Assignment through the reference that the mutable \<open>operator[]\<close> returns.\<close>

definition autovector_set :: "nat \<Rightarrow> nat \<Rightarrow> 'a \<Rightarrow> 'a autovector \<Rightarrow> 'a autovector result" where
  "autovector_set kSize n x v =
     (if n < autovector_size v
      then Inr (if n < kSize then v\<lparr>av_values := (av_values v)[n := x]\<rparr>
                else v\<lparr>av_vect := (av_vect v)[n - kSize := x]\<rparr>)
      else Inl AssertFailed)"

definition autovector_front :: "nat \<Rightarrow> 'a autovector \<Rightarrow> 'a result" where
  "autovector_front kSize v =
     (if \<not> autovector_empty v then autovector_get kSize 0 v else Inl AssertFailed)"

definition autovector_back :: "nat \<Rightarrow> 'a autovector \<Rightarrow> 'a result" where
  "autovector_back kSize v =
     (if \<not> autovector_empty v then autovector_get kSize (autovector_size v - 1) v else Inl AssertFailed)"

definition autovector_push_back :: "nat \<Rightarrow> 'a \<Rightarrow> 'a autovector \<Rightarrow> 'a autovector" where
  "autovector_push_back kSize item v =
     (if av_num_stack_items v < kSize
      then v\<lparr>av_values := (av_values v)[av_num_stack_items v := item],
             av_num_stack_items := av_num_stack_items v + 1\<rparr>
      else v\<lparr>av_vect := av_vect v @ [item], av_heap := True\<rparr>)"

definition autovector_pop_back :: "'a autovector \<Rightarrow> 'a autovector result" where
  "autovector_pop_back v =
     (if \<not> autovector_empty v
      then Inr (if av_vect v \<noteq> [] then v\<lparr>av_vect := butlast (av_vect v)\<rparr>
                else v\<lparr>av_num_stack_items := av_num_stack_items v - 1\<rparr>)
      else Inl AssertFailed)"

definition autovector_clear :: "'a autovector \<Rightarrow> 'a autovector" where
  "autovector_clear v = v\<lparr>av_num_stack_items := 0, av_vect := []\<rparr>"

definition autovector_assign :: "'a autovector \<Rightarrow> 'a autovector \<Rightarrow> 'a autovector" where
  "autovector_assign other v =
     v\<lparr>av_vect := av_vect other,
       av_heap := (av_heap v \<or> av_vect other \<noteq> []),
       av_num_stack_items := av_num_stack_items other,
       av_values := take (av_num_stack_items other) (av_values other)
                    @ drop (av_num_stack_items other) (av_values v)\<rparr>"

definition autovector_init :: "nat \<Rightarrow> 'a list \<Rightarrow> 'a list \<Rightarrow> 'a autovector" where
  "autovector_init kSize mem init_list = fold (autovector_push_back kSize) init_list (autovector_new mem)"

section \<open>The random-access sequence interface\<close>

locale random_access =
  fixes invar :: "'v \<Rightarrow> bool"
    and elems :: "'v \<Rightarrow> 'a list"
    and len :: "'v \<Rightarrow> nat"
    and get :: "nat \<Rightarrow> 'v \<Rightarrow> 'a result"
    and upd :: "nat \<Rightarrow> 'a \<Rightarrow> 'v \<Rightarrow> 'v result"
    and push :: "'a \<Rightarrow> 'v \<Rightarrow> 'v"
    and pop :: "'v \<Rightarrow> 'v result"
  assumes len: "invar v \<Longrightarrow> len v = length (elems v)"
    and get: "invar v \<Longrightarrow> i < length (elems v) \<Longrightarrow> get i v = Inr (elems v ! i)"
    and upd: "invar v \<Longrightarrow> i < length (elems v) \<Longrightarrow>
      \<exists>v'. upd i x v = Inr v' \<and> invar v' \<and> elems v' = (elems v)[i := x]"
    and push: "invar v \<Longrightarrow> invar (push x v) \<and> elems (push x v) = elems v @ [x]"
    and pop: "invar v \<Longrightarrow> elems v \<noteq> [] \<Longrightarrow> \<exists>v'. pop v = Inr v' \<and> invar v' \<and> elems v' = butlast (elems v)"
begin

lemma push_all: "invar v \<Longrightarrow> invar (fold push xs v) \<and> elems (fold push xs v) = elems v @ xs"
  by (induction xs arbitrary: v) (simp_all add: push)

text \<open>Overwriting position \<open>i\<close> with the last element and dropping the last one.\<close>

lemma swap_remove:
  assumes "invar v" and "elems v = xs @ [y]" and "i < length xs"
  shows "\<exists>v1 v2. upd i y v = Inr v1 \<and> pop v1 = Inr v2 \<and> invar v2 \<and> elems v2 = xs[i := y]"
proof -
  obtain v1 where v1: "upd i y v = Inr v1" "invar v1" "elems v1 = (xs @ [y])[i := y]"
    using upd [OF assms(1), of i y] assms(2,3) by auto
  obtain v2 where v2: "pop v1 = Inr v2" "invar v2" "elems v2 = butlast (elems v1)"
    using pop [OF v1(2)] v1(3) assms(3) by auto
  have "butlast (elems v1) = xs[i := y]" using v1(3) assms(3) by (simp add: list_update_append)
  then show ?thesis using v1(1) v2 by auto
qed

end

section \<open>autovector implements it\<close>

definition av_inv :: "nat \<Rightarrow> 'a autovector \<Rightarrow> bool" where
  "av_inv k v \<longleftrightarrow> length (av_values v) = k \<and> av_num_stack_items v \<le> k
     \<and> (av_vect v \<noteq> [] \<longrightarrow> av_num_stack_items v = k) \<and> (av_vect v \<noteq> [] \<longrightarrow> av_heap v)"

definition av_elems :: "'a autovector \<Rightarrow> 'a list" where
  "av_elems v = take (av_num_stack_items v) (av_values v) @ av_vect v"

lemma av_length: "av_inv k v \<Longrightarrow> length (av_elems v) = autovector_size v"
  by (auto simp: av_inv_def av_elems_def autovector_size_def)

lemma take_list_update_Suc: "n < length xs \<Longrightarrow> take (Suc n) (xs[n := x]) = take n xs @ [x]"
  by (simp add: take_Suc_conv_app_nth)

interpretation av: random_access "av_inv k" av_elems autovector_size "autovector_get k" "autovector_set k"
    "autovector_push_back k" autovector_pop_back for k
proof unfold_locales
  fix v :: "'a autovector" and i x
  assume v: "av_inv k v"
  show "autovector_size v = length (av_elems v)" using av_length [OF v] by simp
  show "autovector_get k i v = Inr (av_elems v ! i)" if i: "i < length (av_elems v)"
    using v i av_length [OF v]
    by (cases "av_vect v = []") (auto simp: autovector_get_def av_elems_def av_inv_def nth_append)
  show "\<exists>v'. autovector_set k i x v = Inr v' \<and> av_inv k v' \<and> av_elems v' = (av_elems v)[i := x]"
    if i: "i < length (av_elems v)"
    using v i av_length [OF v]
    by (cases "av_vect v = []")
      (auto simp: autovector_set_def av_elems_def av_inv_def list_update_append take_update_swap)
  show "av_inv k (autovector_push_back k x v) \<and> av_elems (autovector_push_back k x v) = av_elems v @ [x]"
    using v by (auto simp: autovector_push_back_def av_elems_def av_inv_def take_list_update_Suc)
  show "\<exists>v'. autovector_pop_back v = Inr v' \<and> av_inv k v' \<and> av_elems v' = butlast (av_elems v)"
    if ne: "av_elems v \<noteq> []"
  proof (cases "av_vect v = []")
    case True
    then show ?thesis using v ne
      by (auto simp: autovector_pop_back_def autovector_empty_def autovector_size_def av_elems_def av_inv_def butlast_take)
  next
    case False
    then show ?thesis using v
      by (auto simp: autovector_pop_back_def autovector_empty_def autovector_size_def av_elems_def av_inv_def
          butlast_append dest: in_set_butlastD)
  qed
qed

lemma autovector_new_inv: "av_inv (length mem) (autovector_new mem)" "av_elems (autovector_new mem) = []"
  by (simp_all add: autovector_new_def av_inv_def av_elems_def)

lemma autovector_ends:
  assumes "av_inv k v" and "av_elems v \<noteq> []"
  shows "autovector_front k v = Inr (hd (av_elems v))" and "autovector_back k v = Inr (last (av_elems v))"
proof -
  have ne: "\<not> autovector_empty v" "0 < length (av_elems v)"
    using assms by (simp_all add: autovector_empty_def flip: av_length [OF assms(1)])
  show "autovector_front k v = Inr (hd (av_elems v))"
    using av.get [OF assms(1) ne(2)] ne assms(2) by (simp add: autovector_front_def hd_conv_nth)
  show "autovector_back k v = Inr (last (av_elems v))"
    using av.get [OF assms(1), of "length (av_elems v) - 1"] ne assms av_length [OF assms(1)]
    by (simp add: autovector_back_def last_conv_nth)
qed

lemma autovector_resize_spec:
  assumes "av_inv k v"
  shows "av_inv k (autovector_resize k d n v)" and "autovector_size (autovector_resize k d n v) = n"
    and "take (min n (autovector_size v)) (av_elems (autovector_resize k d n v))
       = take (min n (autovector_size v)) (av_elems v)"
proof -
  show "av_inv k (autovector_resize k d n v)" "autovector_size (autovector_resize k d n v) = n"
    using assms by (auto simp: autovector_resize_def av_inv_def autovector_size_def vector_resize_def)
  show "take (min n (autovector_size v)) (av_elems (autovector_resize k d n v))
       = take (min n (autovector_size v)) (av_elems v)"
    using assms by (cases "av_vect v = []")
      (auto simp: autovector_resize_def av_inv_def av_elems_def autovector_size_def vector_resize_def min_def)
qed



end
