(* ===== verification/Small_Hash_Map.thy ===== *)
theory Small_Hash_Map
  imports Auto_Vector
begin

text \<open>
  \<open>SmallHashMap<K, V, size>\<close> of \<open>small_container.h\<close>: a fixed table of
  \<open>autovector\<close> buckets (one in-object entry each), with \<open>key % size\<close> as the hash.
  Buckets are used through the random-access interface of \<open>autovector\<close>.  Keys are unsigned
  integers.  \<open>Insert\<close> does not look for an existing key, so the class is a map under the
  discipline that a key is inserted only when absent.
\<close>

type_synonym 'v SmallHashMap = "(nat \<times> 'v) autovector list"

text \<open>\<open>std::find_if\<close> from position \<open>i\<close>; the result is \<open>size()\<close> for \<open>end()\<close>.\<close>

fun find_key :: "nat \<Rightarrow> nat \<Rightarrow> (nat \<times> 'v) autovector \<Rightarrow> nat \<Rightarrow> nat result" where
  "find_key 0 key bucket i = Inr i"
| "find_key (Suc n) key bucket i =
     ub_bind (autovector_get 1 i bucket) (\<lambda>p.
       if fst p = key then Inr i else find_key n key bucket (Suc i))"

definition SmallHashMap_find :: "nat \<Rightarrow> nat \<Rightarrow> 'v SmallHashMap \<Rightarrow> nat result" where
  "SmallHashMap_find sz key m =
     (let bucket = m ! (key mod sz) in find_key (autovector_size bucket) key bucket 0)"

definition SmallHashMap_Contains :: "nat \<Rightarrow> nat \<Rightarrow> 'v SmallHashMap \<Rightarrow> bool result" where
  "SmallHashMap_Contains sz key m =
     ub_bind (SmallHashMap_find sz key m) (\<lambda>it. Inr (it \<noteq> autovector_size (m ! (key mod sz))))"

definition SmallHashMap_Insert :: "nat \<Rightarrow> nat \<Rightarrow> 'v \<Rightarrow> 'v SmallHashMap \<Rightarrow> 'v SmallHashMap" where
  "SmallHashMap_Insert sz key val m =
     m[key mod sz := autovector_push_back 1 (key, val) (m ! (key mod sz))]"

definition SmallHashMap_Delete :: "nat \<Rightarrow> nat \<Rightarrow> 'v SmallHashMap \<Rightarrow> 'v SmallHashMap result" where
  "SmallHashMap_Delete sz key m =
     (let i = key mod sz; bucket = m ! i in
      ub_bind (SmallHashMap_find sz key m) (\<lambda>it.
      if it \<noteq> autovector_size bucket then
        (let last = autovector_size bucket - 1 in
         ub_bind (if it \<noteq> last
                  then ub_bind (autovector_get 1 last bucket) (\<lambda>p. autovector_set 1 it p bucket)
                  else Inr bucket) (\<lambda>bucket.
         ub_bind (autovector_pop_back bucket) (\<lambda>bucket. Inr (m[i := bucket]))))
      else Inr m))"

text \<open>\<open>Get\<close> dereferences the iterator it found, also when that is \<open>end()\<close>.\<close>

definition SmallHashMap_Get :: "nat \<Rightarrow> nat \<Rightarrow> 'v SmallHashMap \<Rightarrow> 'v result" where
  "SmallHashMap_Get sz key m =
     ub_bind (SmallHashMap_find sz key m) (\<lambda>it.
     ub_bind (autovector_get 1 it (m ! (key mod sz))) (\<lambda>p. Inr (snd p)))"

section \<open>Invariant and abstraction\<close>

definition shm_bucket :: "nat \<Rightarrow> nat \<Rightarrow> 'v SmallHashMap \<Rightarrow> (nat \<times> 'v) list" where
  "shm_bucket sz key m = av_elems (m ! (key mod sz))"

definition shm_inv :: "nat \<Rightarrow> 'v SmallHashMap \<Rightarrow> bool" where
  "shm_inv sz m \<longleftrightarrow> 0 < sz \<and> length m = sz
     \<and> (\<forall>b \<in> set m. av_inv 1 b \<and> distinct (map fst (av_elems b)))"

definition shm_lookup :: "nat \<Rightarrow> 'v SmallHashMap \<Rightarrow> nat \<rightharpoonup> 'v" where
  "shm_lookup sz m key = map_of (shm_bucket sz key m) key"

text \<open>The position of a key in an association list, the length when it is absent.\<close>

fun kpos :: "'k \<Rightarrow> ('k \<times> 'v) list \<Rightarrow> nat" where
  "kpos k [] = 0"
| "kpos k (p # ps) = (if fst p = k then 0 else Suc (kpos k ps))"

lemma kpos_le: "kpos k ps \<le> length ps"
  by (induction ps) auto

lemma kpos_found: "kpos k ps < length ps \<longleftrightarrow> k \<in> fst ` set ps"
  by (induction ps) auto

lemma kpos_nth: "k \<in> fst ` set ps \<Longrightarrow> ps ! kpos k ps = (k, the (map_of ps k))"
  by (induction ps) auto

lemma kpos_absent: "k \<notin> fst ` set ps \<Longrightarrow> kpos k ps = length ps"
  using kpos_found [of k ps] kpos_le [of k ps] by auto

lemma kpos_split:
  "k \<in> fst ` set ps \<Longrightarrow> \<exists>as v bs. ps = as @ (k, v) # bs \<and> k \<notin> fst ` set as \<and> kpos k ps = length as"
proof (induction ps)
  case (Cons p ps)
  show ?case
  proof (cases "fst p = k")
    case True
    then show ?thesis by (intro exI [of _ "[]"] exI [of _ "snd p"] exI [of _ ps]) (auto simp: prod_eq_iff)
  next
    case False
    then obtain as v bs where "ps = as @ (k, v) # bs" "k \<notin> fst ` set as" "kpos k ps = length as"
      using Cons by auto
    then show ?thesis using False by (intro exI [of _ "p # as"] exI [of _ v] exI [of _ bs]) auto
  qed
qed simp

lemma find_key_kpos:
  "av_inv 1 b \<Longrightarrow> i + n = length (av_elems b) \<Longrightarrow> find_key n key b i = Inr (i + kpos key (drop i (av_elems b)))"
proof (induction n arbitrary: i)
  case 0
  then show ?case by simp
next
  case (Suc n)
  then have i: "i < length (av_elems b)" by simp
  then have "drop i (av_elems b) = av_elems b ! i # drop (Suc i) (av_elems b)" by (simp add: Cons_nth_drop_Suc)
  then show ?case using Suc av.get [OF Suc.prems(1) i] by simp
qed

lemma shm_bucket_inv:
  assumes "shm_inv sz m"
  shows "key mod sz < length m" and "av_inv 1 (m ! (key mod sz))"
    and "distinct (map fst (shm_bucket sz key m))"
  using assms nth_mem [of "key mod sz" m] by (auto simp: shm_inv_def shm_bucket_def)

lemma SmallHashMap_find_kpos:
  assumes "shm_inv sz m"
  shows "SmallHashMap_find sz key m = Inr (kpos key (shm_bucket sz key m))"
  using find_key_kpos [OF shm_bucket_inv(2) [OF assms, of key], of 0] av_length [OF shm_bucket_inv(2) [OF assms, of key]]
  by (simp add: SmallHashMap_find_def shm_bucket_def Let_def)

lemma shm_update_inv:
  assumes "shm_inv sz m" and "av_inv 1 b" and "distinct (map fst (av_elems b))"
  shows "shm_inv sz (m[i := b])"
  using assms set_update_subset_insert [of m i b] by (auto simp: shm_inv_def)

text \<open>Replacing the bucket of \<open>key\<close> by one that differs only at \<open>key\<close>.\<close>

lemma shm_update_lookup:
  assumes "shm_inv sz m" and "map_of (av_elems b) = (map_of (shm_bucket sz key m))(key := v)"
  shows "shm_lookup sz (m[key mod sz := b]) = (shm_lookup sz m)(key := v)"
proof
  fix k
  show "shm_lookup sz (m[key mod sz := b]) k = ((shm_lookup sz m)(key := v)) k"
    using assms shm_bucket_inv(1) [OF assms(1), of key]
    by (cases "k mod sz = key mod sz") (auto simp: shm_lookup_def shm_bucket_def)
qed

section \<open>The operations\<close>

lemma SmallHashMap_Get_spec:
  assumes "shm_inv sz m"
  shows "SmallHashMap_Get sz key m
    = (case shm_lookup sz m key of None \<Rightarrow> Inl AssertFailed | Some v \<Rightarrow> Inr v)"
proof (cases "key \<in> fst ` set (shm_bucket sz key m)")
  case True
  then have "kpos key (shm_bucket sz key m) < length (av_elems (m ! (key mod sz)))"
    by (simp add: kpos_found shm_bucket_def)
  from av.get [OF shm_bucket_inv(2) [OF assms, of key] this] True show ?thesis
    by (auto simp: SmallHashMap_Get_def SmallHashMap_find_kpos [OF assms] shm_lookup_def kpos_nth
        map_of_eq_None_iff shm_bucket_def split: option.split)
next
  case False
  then show ?thesis
    by (simp add: SmallHashMap_Get_def SmallHashMap_find_kpos [OF assms] kpos_absent shm_lookup_def
        map_of_eq_None_iff [THEN iffD2] autovector_get_def av_length [OF shm_bucket_inv(2) [OF assms, of key]]
        flip: shm_bucket_def) (simp add: shm_bucket_def av_length [OF shm_bucket_inv(2) [OF assms, of key]])
qed

lemma SmallHashMap_Contains_spec:
  assumes "shm_inv sz m"
  shows "SmallHashMap_Contains sz key m = Inr (shm_lookup sz m key \<noteq> None)"
proof -
  have "autovector_size (m ! (key mod sz)) = length (shm_bucket sz key m)"
    using av_length [OF shm_bucket_inv(2) [OF assms, of key]] by (simp add: shm_bucket_def)
  then show ?thesis
    using kpos_found [of key "shm_bucket sz key m"] kpos_le [of key "shm_bucket sz key m"]
    by (auto simp: SmallHashMap_Contains_def SmallHashMap_find_kpos [OF assms] shm_lookup_def
        map_of_eq_None_iff)
qed

lemma SmallHashMap_Insert_spec:
  assumes "shm_inv sz m" and "shm_lookup sz m key = None"
  shows "shm_inv sz (SmallHashMap_Insert sz key v m)"
    and "shm_lookup sz (SmallHashMap_Insert sz key v m) = (shm_lookup sz m)(key \<mapsto> v)"
proof -
  let ?b = "autovector_push_back 1 (key, v) (m ! (key mod sz))"
  have b: "av_inv 1 ?b" "av_elems ?b = shm_bucket sz key m @ [(key, v)]"
    using av.push [OF shm_bucket_inv(2) [OF assms(1), of key], of "(key, v)"] by (auto simp: shm_bucket_def)
  have fresh: "key \<notin> fst ` set (shm_bucket sz key m)"
    using assms(2) by (simp add: shm_lookup_def map_of_eq_None_iff)
  show "shm_inv sz (SmallHashMap_Insert sz key v m)" unfolding SmallHashMap_Insert_def
    using b fresh shm_bucket_inv(3) [OF assms(1), of key] by (intro shm_update_inv [OF assms(1)]) auto
  have "map_of (av_elems ?b) = (map_of (shm_bucket sz key m))(key \<mapsto> v)"
    unfolding b(2) using assms(2) by (auto simp: shm_lookup_def map_add_def fun_eq_iff split: option.split)
  then show "shm_lookup sz (SmallHashMap_Insert sz key v m) = (shm_lookup sz m)(key \<mapsto> v)"
    unfolding SmallHashMap_Insert_def by (rule shm_update_lookup [OF assms(1)])
qed

text \<open>Removing position \<open>i\<close> of an association list by moving the last entry there.\<close>

definition remove_at :: "nat \<Rightarrow> 'a list \<Rightarrow> 'a list" where
  "remove_at i xs = (if i = length xs - 1 then butlast xs else (butlast xs)[i := last xs])"

lemma remove_at_snoc:
  "remove_at i (xs @ [y]) = (if i = length xs then xs else xs[i := y])"
  by (simp add: remove_at_def)

lemma remove_at_kpos:
  assumes "distinct (map fst ps)" and "k \<in> fst ` set ps"
  shows "distinct (map fst (remove_at (kpos k ps) ps))"
    and "map_of (remove_at (kpos k ps) ps) = (map_of ps)(k := None)"
proof -
  obtain as v bs where ps: "ps = as @ (k, v) # bs" and as: "k \<notin> fst ` set as" and pos: "kpos k ps = length as"
    using kpos_split [OF assms(2)] by blast
  have rem: "remove_at (kpos k ps) ps = (if bs = [] then as else as @ last bs # butlast bs)"
    unfolding pos unfolding ps
    by (cases bs rule: rev_cases) (simp_all add: remove_at_snoc list_update_append
        flip: append_assoc append_Cons)
  have bs: "set (last bs # butlast bs) = set bs" "distinct (map fst (last bs # butlast bs))" if "bs \<noteq> []"
    using assms(1) that ps by (cases bs rule: rev_cases; auto)+
  show "distinct (map fst (remove_at (kpos k ps) ps))"
  proof (cases "bs = []")
    case True
    moreover have "distinct (map fst as)" using assms(1) unfolding ps by simp
    ultimately show ?thesis unfolding rem by simp
  next
    case False
    have "distinct (map fst as)" "fst ` set as \<inter> fst ` set (last bs # butlast bs) = {}"
      using assms(1) unfolding ps bs(1) [OF False] by auto
    with False bs(2) [OF False] show ?thesis unfolding rem by (simp only: if_False map_append distinct_append set_map)
  qed
  have perm: "map_of (last bs # butlast bs) = map_of bs" if "bs \<noteq> []"
    using assms(1) ps bs [OF that] by (intro map_of_inject_set [THEN iffD2]) auto
  have del: "map_of (as @ bs) = (map_of ps)(k := None)"
  proof -
    have "map_of as k = None" "map_of bs k = None"
      using as assms(1) unfolding ps by (simp_all add: map_of_eq_None_iff)
    then show ?thesis unfolding ps by (auto simp: map_add_def fun_eq_iff split: option.split)
  qed
  show "map_of (remove_at (kpos k ps) ps) = (map_of ps)(k := None)"
  proof (cases "bs = []")
    case True
    then show ?thesis unfolding rem del [symmetric] by simp
  next
    case False
    then show ?thesis unfolding rem del [symmetric] map_of_append perm [OF False, symmetric] by simp
  qed
qed

lemma SmallHashMap_Delete_bucket:
  assumes "shm_inv sz m" and "key \<in> fst ` set (shm_bucket sz key m)"
  shows "\<exists>b. SmallHashMap_Delete sz key m = Inr (m[key mod sz := b]) \<and> av_inv 1 b
    \<and> av_elems b = remove_at (kpos key (shm_bucket sz key m)) (shm_bucket sz key m)"
proof -
  let ?b = "m ! (key mod sz)" and ?ps = "shm_bucket sz key m"
  let ?i = "kpos key ?ps"
  have b: "av_inv 1 ?b" "av_elems ?b = ?ps" using shm_bucket_inv(2) [OF assms(1)] by (auto simp: shm_bucket_def)
  have len: "autovector_size ?b = length ?ps" using av_length [OF b(1)] b(2) by simp
  have i: "?i < length ?ps" using assms(2) by (simp add: kpos_found)
  obtain xs y where ps: "?ps = xs @ [y]" using i by (cases ?ps rule: rev_cases) auto
  have getl: "autovector_get 1 (length xs) ?b = Inr y"
    using av.get [OF b(1), of "length xs"] b(2) ps by simp
  show ?thesis
  proof (cases "?i = length xs")
    case True
    obtain b' where "autovector_pop_back ?b = Inr b'" "av_inv 1 b'" "av_elems b' = xs"
      using av.pop [OF b(1)] b(2) ps by auto
    then show ?thesis using True ps len i
      by (auto simp: SmallHashMap_Delete_def SmallHashMap_find_kpos [OF assms(1)] Let_def remove_at_snoc)
  next
    case False
    then obtain b1 b2 where "autovector_set 1 ?i y ?b = Inr b1" "autovector_pop_back b1 = Inr b2"
        "av_inv 1 b2" "av_elems b2 = xs[?i := y]"
      using av.swap_remove [OF b(1), of xs y ?i] b(2) ps i by auto
    then show ?thesis using False ps len i getl
      by (auto simp: SmallHashMap_Delete_def SmallHashMap_find_kpos [OF assms(1)] Let_def remove_at_snoc)
  qed
qed

lemma SmallHashMap_Delete_spec:
  assumes "shm_inv sz m"
  shows "\<exists>m'. SmallHashMap_Delete sz key m = Inr m' \<and> shm_inv sz m'
    \<and> shm_lookup sz m' = (shm_lookup sz m)(key := None)"
proof (cases "key \<in> fst ` set (shm_bucket sz key m)")
  case True
  obtain b where b: "SmallHashMap_Delete sz key m = Inr (m[key mod sz := b])" "av_inv 1 b"
      "av_elems b = remove_at (kpos key (shm_bucket sz key m)) (shm_bucket sz key m)"
    using SmallHashMap_Delete_bucket [OF assms True] by blast
  note rem = remove_at_kpos [OF shm_bucket_inv(3) [OF assms, of key] True]
  have "shm_inv sz (m[key mod sz := b])"
    using shm_update_inv [OF assms b(2)] rem(1) b(3) by simp
  moreover have "shm_lookup sz (m[key mod sz := b]) = (shm_lookup sz m)(key := None)"
    by (rule shm_update_lookup [OF assms]) (simp add: b(3) rem(2))
  ultimately show ?thesis using b(1) by blast
next
  case False
  have "autovector_size (m ! (key mod sz)) = length (shm_bucket sz key m)"
    using av_length [OF shm_bucket_inv(2) [OF assms, of key]] by (simp add: shm_bucket_def)
  moreover have "shm_lookup sz m key = None" using False by (simp add: shm_lookup_def map_of_eq_None_iff)
  then have "shm_lookup sz m = (shm_lookup sz m)(key := None)" by auto
  ultimately show ?thesis using assms False
    by (simp add: SmallHashMap_Delete_def SmallHashMap_find_kpos [OF assms] kpos_absent Let_def)
qed

interpretation shm: map_impl "shm_inv sz" "shm_lookup sz"
    "\<lambda>k v m. Inr (SmallHashMap_Insert sz k v m)" "SmallHashMap_Delete sz" for sz
  by unfold_locales (use SmallHashMap_Insert_spec SmallHashMap_Delete_spec in auto)

lemma SmallHashMap_empty:
  assumes "0 < sz"
  shows "shm_inv sz (replicate sz (autovector_new [p]))"
    and "shm_lookup sz (replicate sz (autovector_new [p])) = Map.empty"
  using assms autovector_new_inv [of "[p]"]
  by (auto simp: shm_inv_def shm_lookup_def shm_bucket_def)

text \<open>
  C22. Used with the discipline that a key is deleted before it is inserted again, a
  \<open>SmallHashMap\<close> is a finite map: after any sequence of insertions and deletions from the empty
  table no bucket access fails, \<open>Contains\<close> and \<open>Get\<close> answer as the map does (an absent
  key makes \<open>Get\<close> fail the bucket's \<open>assert\<close>).
\<close>
theorem SmallHashMap_is_map:
  assumes "0 < sz"
  shows "\<exists>m. map_run (\<lambda>k v m. Inr (SmallHashMap_Insert sz k v m)) (SmallHashMap_Delete sz) ops
        (replicate sz (autovector_new [p])) = Inr m
    \<and> (\<forall>k. SmallHashMap_Contains sz k m = Inr (spec_run ops Map.empty k \<noteq> None))
    \<and> (\<forall>k. SmallHashMap_Get sz k m
         = (case spec_run ops Map.empty k of None \<Rightarrow> Inl AssertFailed | Some v \<Rightarrow> Inr v))"
  using shm.run_spec [OF SmallHashMap_empty(1) [OF assms, of p], of ops]
  by (auto simp: SmallHashMap_empty(2) [OF assms, of p] SmallHashMap_Contains_spec SmallHashMap_Get_spec)

definition shm_ops :: "(nat, nat) mop list" where
  "shm_ops = [Put 1 10, Put 3 30, Put 5 50, Remove 1]"

theorem SmallHashMap_is_map_witness:
  "\<exists>m. map_run (\<lambda>k v m. Inr (SmallHashMap_Insert 2 k v m)) (SmallHashMap_Delete 2) shm_ops
        (replicate 2 (autovector_new [(0, 0)])) = Inr m
    \<and> SmallHashMap_Get 2 5 m = Inr 50 \<and> SmallHashMap_Contains 2 1 m = Inr False"
proof -
  have "spec_run shm_ops Map.empty 5 = Some 50" "spec_run shm_ops Map.empty 1 = None"
    by (simp_all add: shm_ops_def)
  then show ?thesis using SmallHashMap_is_map [of 2 shm_ops "(0, 0)"] by force
qed

end
