(* ===== verification/Binary_Heap.thy ===== *)
theory Binary_Heap
  imports Prelude "HOL-Library.Multiset"
begin

text \<open>
  \<open>BinaryHeap<T, Compare>\<close> of \<open>small_container.h\<close>: an array heap whose \<open>top()\<close> is a
  maximum, with \<open>replace_top\<close> and a cache of the larger child of the root.  \<open>data_\<close> (an
  \<open>autovector\<close>, a sequence by theory \<open>Auto_Vector\<close>) is its list of elements.  The
  comparison is a parameter that must be a strict weak order, as the standard requires of
  \<open>Compare\<close>.  The sift-down loop may use the cached child, and it ends only if the cache is
  sound; not returning is \<open>None\<close>.
\<close>

section \<open>Comparisons\<close>

locale strict_weak =
  fixes cmp :: "'a \<Rightarrow> 'a \<Rightarrow> bool"
  assumes asym: "cmp x y \<Longrightarrow> \<not> cmp y x"
    and neg_trans: "\<not> cmp x y \<Longrightarrow> \<not> cmp y z \<Longrightarrow> \<not> cmp x z"

interpretation std_less: strict_weak "(<) :: 'a :: linorder \<Rightarrow> 'a \<Rightarrow> bool"
  by unfold_locales auto

interpretation std_greater: strict_weak "(>) :: 'a :: linorder \<Rightarrow> 'a \<Rightarrow> bool"
  by unfold_locales auto

section \<open>The class\<close>

definition kMaxSizet :: nat where
  "kMaxSizet = 18446744073709551615"

record 'a BinaryHeap =
  bh_data :: "'a list"
  bh_root_cmp_cache :: nat

definition BinaryHeap_new :: "'a BinaryHeap" where
  "BinaryHeap_new = \<lparr>bh_data = [], bh_root_cmp_cache = kMaxSizet\<rparr>"

definition get_root :: nat where
  "get_root = 0"

definition get_parent :: "nat \<Rightarrow> nat" where
  "get_parent index = (index - 1) div 2"

definition get_left :: "nat \<Rightarrow> nat" where
  "get_left index = 2 * index + 1"

definition get_right :: "nat \<Rightarrow> nat" where
  "get_right index = 2 * index + 2"

definition reset_root_cmp_cache :: "'a BinaryHeap \<Rightarrow> 'a BinaryHeap" where
  "reset_root_cmp_cache h = h\<lparr>bh_root_cmp_cache := kMaxSizet\<rparr>"

definition BinaryHeap_empty :: "'a BinaryHeap \<Rightarrow> bool" where
  "BinaryHeap_empty h \<longleftrightarrow> bh_data h = []"

function upheap_loop :: "('a \<Rightarrow> 'a \<Rightarrow> bool) \<Rightarrow> 'a \<Rightarrow> 'a list \<Rightarrow> nat \<Rightarrow> 'a list \<times> nat" where
  "upheap_loop cmp v data index =
     (if index > get_root then
        (let parent = get_parent index in
         if \<not> cmp (data ! parent) v then (data, index)
         else upheap_loop cmp v (data[index := data ! parent]) parent)
      else (data, index))"
  by pat_completeness auto
termination
  by (relation "measure (\<lambda>(cmp, v, data, index). index)") (auto simp: get_root_def get_parent_def)

declare upheap_loop.simps [simp del]

definition upheap :: "('a \<Rightarrow> 'a \<Rightarrow> bool) \<Rightarrow> nat \<Rightarrow> 'a BinaryHeap \<Rightarrow> 'a BinaryHeap" where
  "upheap cmp index h =
     (let v = bh_data h ! index;
          (data, index) = upheap_loop cmp v (bh_data h) index
      in reset_root_cmp_cache (h\<lparr>bh_data := data[index := v]\<rparr>))"

partial_function (option) downheap_loop ::
    "('a \<Rightarrow> 'a \<Rightarrow> bool) \<Rightarrow> 'a \<Rightarrow> nat \<Rightarrow> 'a list \<Rightarrow> nat \<Rightarrow> nat \<Rightarrow> ('a list \<times> nat \<times> nat) option" where
  "downheap_loop cmp v cache data index picked_child =
     (let left_child = get_left index in
      if left_child \<ge> length data then Some (data, index, picked_child)
      else
        (let right_child = left_child + 1;
             picked_child =
               (if index = 0 \<and> cache < length data then cache
                else if right_child < length data \<and> cmp (data ! left_child) (data ! right_child)
                then right_child else left_child)
         in if \<not> cmp v (data ! picked_child) then Some (data, index, picked_child)
            else downheap_loop cmp v cache (data[index := data ! picked_child]) picked_child picked_child))"

definition downheap :: "('a \<Rightarrow> 'a \<Rightarrow> bool) \<Rightarrow> nat \<Rightarrow> 'a BinaryHeap \<Rightarrow> 'a BinaryHeap option" where
  "downheap cmp index h =
     (let v = bh_data h ! index in
      map_option
        (\<lambda>(data, index, picked_child).
           let h = (if index = 0 then h\<lparr>bh_root_cmp_cache := picked_child\<rparr> else reset_root_cmp_cache h)
           in h\<lparr>bh_data := data[index := v]\<rparr>)
        (downheap_loop cmp v (bh_root_cmp_cache h) (bh_data h) index kMaxSizet))"

definition BinaryHeap_push :: "('a \<Rightarrow> 'a \<Rightarrow> bool) \<Rightarrow> 'a \<Rightarrow> 'a BinaryHeap \<Rightarrow> 'a BinaryHeap" where
  "BinaryHeap_push cmp val h =
     (let h = h\<lparr>bh_data := bh_data h @ [val]\<rparr> in upheap cmp (length (bh_data h) - 1) h)"

definition lift_loop :: "'b option \<Rightarrow> 'b result" where
  "lift_loop r = (case r of None \<Rightarrow> Inl Diverges | Some x \<Rightarrow> Inr x)"

definition BinaryHeap_top :: "'a BinaryHeap \<Rightarrow> 'a result" where
  "BinaryHeap_top h = (if BinaryHeap_empty h then Inl AssertFailed else Inr (hd (bh_data h)))"

definition BinaryHeap_replace_top :: "('a \<Rightarrow> 'a \<Rightarrow> bool) \<Rightarrow> 'a \<Rightarrow> 'a BinaryHeap \<Rightarrow> 'a BinaryHeap result" where
  "BinaryHeap_replace_top cmp val h =
     (if BinaryHeap_empty h then Inl AssertFailed
      else lift_loop (downheap cmp get_root (h\<lparr>bh_data := (bh_data h)[0 := val]\<rparr>)))"

definition BinaryHeap_pop :: "('a \<Rightarrow> 'a \<Rightarrow> bool) \<Rightarrow> 'a BinaryHeap \<Rightarrow> 'a BinaryHeap result" where
  "BinaryHeap_pop cmp h =
     (if BinaryHeap_empty h then Inl AssertFailed
      else
        (let h = h\<lparr>bh_data := butlast ((bh_data h)[0 := last (bh_data h)])\<rparr> in
         if \<not> BinaryHeap_empty h then lift_loop (downheap cmp get_root h)
         else Inr (reset_root_cmp_cache h)))"

definition BinaryHeap_clear :: "'a BinaryHeap \<Rightarrow> 'a BinaryHeap" where
  "BinaryHeap_clear h = reset_root_cmp_cache (h\<lparr>bh_data := []\<rparr>)"

section \<open>Heap order\<close>

abbreviation par :: "nat \<Rightarrow> nat" where
  "par \<equiv> get_parent"

definition heap_from :: "('a \<Rightarrow> 'a \<Rightarrow> bool) \<Rightarrow> 'a list \<Rightarrow> bool" where
  "heap_from cmp d \<longleftrightarrow> (\<forall>j. 0 < j \<and> j < length d \<longrightarrow> \<not> cmp (d ! par j) (d ! j))"

text \<open>Heap order except between \<open>i\<close> and its parent.\<close>

definition heap_but_up :: "('a \<Rightarrow> 'a \<Rightarrow> bool) \<Rightarrow> 'a list \<Rightarrow> nat \<Rightarrow> bool" where
  "heap_but_up cmp d i \<longleftrightarrow>
     (\<forall>j. 0 < j \<and> j < length d \<and> j \<noteq> i \<longrightarrow> \<not> cmp (d ! par j) (d ! j))
     \<and> (\<forall>j. 0 < i \<and> 0 < j \<and> j < length d \<and> par j = i \<longrightarrow> \<not> cmp (d ! par i) (d ! j))"

text \<open>Heap order except between \<open>i\<close> and its children.\<close>

definition heap_but_down :: "('a \<Rightarrow> 'a \<Rightarrow> bool) \<Rightarrow> 'a list \<Rightarrow> nat \<Rightarrow> bool" where
  "heap_but_down cmp d i \<longleftrightarrow>
     (\<forall>j. 0 < j \<and> j < length d \<and> par j \<noteq> i \<longrightarrow> \<not> cmp (d ! par j) (d ! j))
     \<and> (\<forall>j. 0 < i \<and> 0 < j \<and> j < length d \<and> par j = i \<longrightarrow> \<not> cmp (d ! par i) (d ! j))"

text \<open>A cached child of the root is its largest child; an index outside the array is no cache.\<close>

definition cache_ok :: "('a \<Rightarrow> 'a \<Rightarrow> bool) \<Rightarrow> 'a list \<Rightarrow> nat \<Rightarrow> bool" where
  "cache_ok cmp d c \<longleftrightarrow>
     (c < length d \<longrightarrow> (c = 1 \<or> c = 2) \<and> (\<forall>j. 0 < j \<and> j < length d \<and> par j = 0 \<longrightarrow> \<not> cmp (d ! c) (d ! j)))"

lemma par_less: "0 < i \<Longrightarrow> par i < i"
  by (auto simp: get_parent_def)

lemma par_child: "0 < j \<Longrightarrow> par j = i \<longleftrightarrow> j = get_left i \<or> j = get_right i"
  by (auto simp: get_parent_def get_left_def get_right_def)

lemma par_facts: "par (get_left i) = i" "par (get_right i) = i" "0 < get_left i" "0 < get_right i" "i < get_left i" "i < get_right i"
  by (auto simp: get_parent_def get_left_def get_right_def)

text \<open>Moving the hole from \<open>i\<close> to \<open>j\<close> swaps two elements of the filled array.\<close>

lemma hole_move:
  assumes "i < length d" and "j < length d" and "i \<noteq> j"
  shows "d[i := d ! j, j := v] = (d[i := v])[i := (d[i := v]) ! j, j := (d[i := v]) ! i]"
  using assms by simp

lemma mset_hole:
  assumes "i < length d" and "j < length d" and "i \<noteq> j"
  shows "mset (d[i := d ! j, j := v]) = mset (d[i := v])"
  unfolding hole_move [OF assms] using assms by (intro mset_swap) simp_all

context strict_weak
begin

lemma irrefl: "\<not> cmp x x"
  using asym by blast

lemma heap_top_max: "heap_from cmp d \<Longrightarrow> j < length d \<Longrightarrow> \<not> cmp (d ! 0) (d ! j)"
proof (induction j rule: less_induct)
  case (less j)
  show ?case
  proof (cases "j = 0")
    case True
    then show ?thesis by (simp add: irrefl)
  next
    case False
    then have "\<not> cmp (d ! 0) (d ! par j)" "\<not> cmp (d ! par j) (d ! j)"
      using less par_less [of j] by (auto simp: heap_from_def)
    then show ?thesis by (rule neg_trans)
  qed
qed

lemma heap_but_up_0: "heap_but_up cmp d 0 \<Longrightarrow> heap_from cmp d"
  by (auto simp: heap_but_up_def heap_from_def)

lemma heap_but_up_stop: "heap_but_up cmp d i \<Longrightarrow> \<not> cmp (d ! par i) (d ! i) \<Longrightarrow> heap_from cmp d"
  by (auto simp: heap_but_up_def heap_from_def)

lemma heap_but_up_step:
  assumes h: "heap_but_up cmp d i" and i: "0 < i" "i < length d" and c: "cmp (d ! par i) (d ! i)"
  shows "heap_but_up cmp (d[i := d ! par i, par i := d ! i]) (par i)"
proof -
  let ?p = "par i" and ?e = "d[i := d ! par i, par i := d ! i]"
  have p: "?p < i" using i par_less by simp
  have ord: "\<not> cmp (d ! par j) (d ! j)" if "0 < j" "j < length d" "j \<noteq> i" for j
    using h that by (simp add: heap_but_up_def)
  have ge: "\<not> cmp (d ! i) (d ! ?p)" using asym [OF c] .
  have "\<not> cmp (?e ! par j) (?e ! j)" if j: "0 < j" "j < length d" "j \<noteq> ?p" for j
  proof -
    consider "j = i" | "j \<noteq> i" "par j = i" | "j \<noteq> i" "par j = ?p" | "j \<noteq> i" "par j \<noteq> i" "par j \<noteq> ?p" by blast
    then show ?thesis
    proof cases
      case 1
      then show ?thesis using ge i p by simp
    next
      case 2
      then have "\<not> cmp (d ! ?p) (d ! j)" using h j i by (simp add: heap_but_up_def)
      then show ?thesis using 2 j i p by simp
    next
      case 3
      then have "\<not> cmp (d ! ?p) (d ! j)" using ord [of j] j by simp
      then have "\<not> cmp (d ! i) (d ! j)" using ge neg_trans by blast
      then show ?thesis using 3 j i p by simp
    next
      case 4
      then show ?thesis using ord [of j] j by simp
    qed
  qed
  moreover have "\<not> cmp (?e ! par ?p) (?e ! j)" if j: "0 < ?p" "0 < j" "j < length d" "par j = ?p" for j
  proof -
    have pp: "par ?p < ?p" using j(1) par_less by simp
    have up: "\<not> cmp (d ! par ?p) (d ! ?p)" using ord [of ?p] j(1) p i by simp
    show ?thesis
    proof (cases "j = i")
      case True
      then show ?thesis using up pp p i by simp
    next
      case False
      then have "\<not> cmp (d ! ?p) (d ! j)" using ord [of j] j by simp
      then have "\<not> cmp (d ! par ?p) (d ! j)" using up neg_trans by blast
      moreover have "j \<noteq> ?p" using j par_less [of j] by auto
      ultimately show ?thesis using False pp p by simp
    qed
  qed
  ultimately show ?thesis by (simp add: heap_but_up_def)
qed

lemma upheap_loop_ok:
  assumes "i < length d" and "heap_but_up cmp (d[i := v]) i"
  shows "case upheap_loop cmp v d i of (d', i') \<Rightarrow>
           i' < length d' \<and> length d' = length d \<and> mset (d'[i' := v]) = mset (d[i := v])
           \<and> heap_from cmp (d'[i' := v])"
  using assms
proof (induction i arbitrary: d rule: less_induct)
  case (less i)
  let ?p = "par i"
  show ?case
  proof (cases "0 < i \<and> cmp (d ! ?p) v")
    case True
    then have p: "?p < i" using par_less by simp
    have "heap_but_up cmp (d[i := d ! ?p, ?p := v]) ?p"
      unfolding hole_move [OF less.prems(1) less_trans [OF p less.prems(1)] less_imp_neq [OF p, symmetric]]
      using less.prems True p by (intro heap_but_up_step) simp_all
    from less.IH [OF p, of "d[i := d ! ?p]"] this
    show ?thesis
      using True p less.prems mset_hole [of i d ?p v]
      by (subst upheap_loop.simps) (auto simp: get_root_def Let_def)
  next
    case False
    then have "heap_from cmp (d[i := v])"
      using less.prems heap_but_up_0 heap_but_up_stop [of "d[i := v]" i] par_less [of i] by (cases "i = 0") auto
    then show ?thesis
      using False less.prems by (subst upheap_loop.simps) (auto simp: get_root_def Let_def)
  qed
qed

lemma heap_but_down_stop:
  assumes "heap_but_down cmp d i" and "\<And>j. 0 < j \<Longrightarrow> j < length d \<Longrightarrow> par j = i \<Longrightarrow> \<not> cmp (d ! i) (d ! j)"
  shows "heap_from cmp d"
  using assms by (auto simp: heap_but_down_def heap_from_def)

lemma heap_but_down_step:
  assumes h: "heap_but_down cmp d i" and p: "0 < p" "p < length d" "par p = i" and c: "cmp (d ! i) (d ! p)"
    and mx: "\<And>j. 0 < j \<Longrightarrow> j < length d \<Longrightarrow> par j = i \<Longrightarrow> \<not> cmp (d ! p) (d ! j)"
  shows "heap_but_down cmp (d[i := d ! p, p := d ! i]) p"
proof -
  let ?e = "d[i := d ! p, p := d ! i]"
  have ip: "i < p" "i < length d" using p par_less [of p] by auto
  have ord: "\<not> cmp (d ! par j) (d ! j)" if "0 < j" "j < length d" "par j \<noteq> i" for j
    using h that by (simp add: heap_but_down_def)
  have "\<not> cmp (?e ! par j) (?e ! j)" if j: "0 < j" "j < length d" "par j \<noteq> p" for j
  proof -
    consider "j = p" | "j \<noteq> p" "par j = i" | "j = i" | "j \<noteq> p" "par j \<noteq> i" "j \<noteq> i" by blast
    then show ?thesis
    proof cases
      case 1
      then show ?thesis using asym [OF c] p ip by simp
    next
      case 2
      then have "j \<noteq> i" using j par_less [of j] by auto
      then show ?thesis using 2 mx [of j] j ip by simp
    next
      case 3
      then have "par j < i" using j par_less by simp
      moreover have "\<not> cmp (d ! par i) (d ! p)" using h 3 j p by (simp add: heap_but_down_def)
      ultimately show ?thesis using 3 ip by simp
    next
      case 4
      then show ?thesis using ord [of j] j by simp
    qed
  qed
  moreover have "\<not> cmp (?e ! par p) (?e ! j)" if j: "0 < j" "j < length d" "par j = p" for j
  proof -
    have "j \<noteq> p" "j \<noteq> i" using j par_less [of j] ip by auto
    then show ?thesis using ord [of j] j p ip by simp
  qed
  ultimately show ?thesis by (simp add: heap_but_down_def)
qed

lemma picked_child_max:
  assumes "get_left i < length d" and "i = 0 \<longrightarrow> cache_ok cmp d c"
    and "p = (if i = 0 \<and> c < length d then c
              else if get_left i + 1 < length d \<and> cmp (d ! get_left i) (d ! (get_left i + 1))
              then get_left i + 1 else get_left i)"
  shows "0 < p \<and> p < length d \<and> par p = i
         \<and> (\<forall>j. 0 < j \<and> j < length d \<and> par j = i \<longrightarrow> \<not> cmp (d ! p) (d ! j))"
proof (cases "i = 0 \<and> c < length d")
  case True
  then show ?thesis using assms by (auto simp: cache_ok_def get_parent_def)
next
  case False
  have r: "get_left i + 1 = get_right i" by (simp add: get_left_def get_right_def)
  have p: "p = (if get_right i < length d \<and> cmp (d ! get_left i) (d ! get_right i) then get_right i else get_left i)"
    using assms(3) False unfolding r by (simp only: if_False)
  have "\<not> cmp (d ! p) (d ! j)" if "j = get_left i \<or> j = get_right i \<and> get_right i < length d" for j
    using that unfolding p by (auto simp: irrefl dest: asym)
  moreover have "j = get_left i \<or> j = get_right i \<and> get_right i < length d"
    if "0 < j" "j < length d" "par j = i" for j
    using that par_child [of j i] by auto
  moreover have "0 < p" "p < length d" "par p = i"
    using assms(1) unfolding p by (auto simp: par_facts)
  ultimately show ?thesis by blast
qed

lemma downheap_loop_ok:
  assumes "i < length d" and "heap_but_down cmp (d[i := v]) i" and "i = 0 \<longrightarrow> cache_ok cmp d c \<and> 0 < p"
  shows "\<exists>d' i' p'. downheap_loop cmp v c d i p = Some (d', i', p')
           \<and> i' < length d' \<and> length d' = length d \<and> mset (d'[i' := v]) = mset (d[i := v])
           \<and> heap_from cmp (d'[i' := v]) \<and> (i' = 0 \<longrightarrow> cache_ok cmp d' p')"
  using assms
proof (induction "length d - i" arbitrary: d i p rule: less_induct)
  case less
  show ?case
  proof (cases "get_left i < length d")
    case False
    then have "heap_from cmp (d[i := v])"
      using less.prems by (intro heap_but_down_stop) (auto simp: par_child get_left_def get_right_def)
    moreover have "cache_ok cmp d p" if "i = 0"
      using False less.prems(3) that by (auto simp: cache_ok_def get_left_def)
    ultimately show ?thesis
      using False less.prems by (subst downheap_loop.simps) (auto simp: Let_def)
  next
    case True
    define q where "q = (if i = 0 \<and> c < length d then c
              else if get_left i + 1 < length d \<and> cmp (d ! get_left i) (d ! (get_left i + 1))
              then get_left i + 1 else get_left i)"
    have step: "downheap_loop cmp v c d i p =
        (if \<not> cmp v (d ! q) then Some (d, i, q) else downheap_loop cmp v c (d[i := d ! q]) q q)"
      using True by (subst downheap_loop.simps) (simp add: Let_def q_def)
    have q: "0 < q" "q < length d" "par q = i"
        "\<And>j. 0 < j \<Longrightarrow> j < length d \<Longrightarrow> par j = i \<Longrightarrow> \<not> cmp (d ! q) (d ! j)"
      using picked_child_max [of i d c q] True less.prems(3) q_def by auto
    then have iq: "i < q" using par_less by auto
    have ni: "j \<noteq> i" if "0 < j" "par j = i" for j using that par_less [of j] by auto
    have upd: "d[i := v] ! j = d ! j" if "0 < j" "par j = i" for j using ni [OF that] by simp
    show ?thesis
    proof (cases "cmp v (d ! q)")
      case c: True
      have "heap_but_down cmp (d[i := d ! q, q := v]) q"
        unfolding hole_move [OF less.prems(1) q(2) less_imp_neq [OF iq]]
        using less.prems q c iq upd by (intro heap_but_down_step) simp_all
      then have "\<exists>d' i' p'. downheap_loop cmp v c (d[i := d ! q]) q q = Some (d', i', p')
           \<and> i' < length d' \<and> length d' = length (d[i := d ! q]) \<and> mset (d'[i' := v]) = mset (d[i := d ! q, q := v])
           \<and> heap_from cmp (d'[i' := v]) \<and> (i' = 0 \<longrightarrow> cache_ok cmp d' p')"
        using q iq less.prems(1) by (intro less.hyps) auto
      then show ?thesis using c step mset_hole [of i d q v] less.prems(1) q(2) iq by simp
    next
      case c: False
      have "\<not> cmp (d[i := v] ! i) (d[i := v] ! j)" if "0 < j" "j < length d" "par j = i" for j
        using c q(4) [OF that] neg_trans upd [OF that(1,3)] less.prems(1) by simp
      then have "heap_from cmp (d[i := v])"
        using less.prems(2) heap_but_down_stop [of "d[i := v]" i] by simp
      moreover have "cache_ok cmp d q" if "i = 0"
        using q that by (auto simp: cache_ok_def par_child get_left_def get_right_def)
      ultimately show ?thesis using step c less.prems(1) by simp
    qed
  qed
qed

end

section \<open>The operations keep the heap\<close>

definition heap_ok :: "('a \<Rightarrow> 'a \<Rightarrow> bool) \<Rightarrow> 'a BinaryHeap \<Rightarrow> bool" where
  "heap_ok cmp h \<longleftrightarrow> heap_from cmp (bh_data h) \<and> cache_ok cmp (bh_data h) (bh_root_cmp_cache h)
     \<and> length (bh_data h) \<le> kMaxSizet"

definition elems :: "'a BinaryHeap \<Rightarrow> 'a multiset" where
  "elems h = mset (bh_data h)"

lemma kMaxSizet_pos: "0 < kMaxSizet"
  by (simp add: kMaxSizet_def)

lemma cache_ok_none: "length d \<le> kMaxSizet \<Longrightarrow> cache_ok cmp d kMaxSizet"
  by (simp add: cache_ok_def)

context strict_weak
begin

lemma new_ok: "heap_ok cmp BinaryHeap_new \<and> elems (BinaryHeap_new :: 'a BinaryHeap) = {#}"
  by (simp add: heap_ok_def BinaryHeap_new_def heap_from_def cache_ok_def elems_def)

lemma clear_ok: "heap_ok cmp (BinaryHeap_clear h) \<and> elems (BinaryHeap_clear h) = {#}"
  by (simp add: heap_ok_def BinaryHeap_clear_def reset_root_cmp_cache_def heap_from_def cache_ok_def elems_def)

lemma push_ok:
  assumes "heap_ok cmp h" and "size (elems h) < kMaxSizet"
  shows "heap_ok cmp (BinaryHeap_push cmp x h) \<and> elems (BinaryHeap_push cmp x h) = add_mset x (elems h)"
proof -
  let ?d = "bh_data h @ [x]" and ?n = "length (bh_data h)"
  have "\<not> cmp (?d ! par j) (?d ! j)" if "0 < j" "j < length ?d" "j \<noteq> ?n" for j
    using assms(1) that par_less [of j] by (auto simp: heap_ok_def heap_from_def nth_append)
  moreover have "\<not> (0 < j \<and> j < length ?d \<and> par j = ?n)" for j
    using par_less [of j] by auto
  ultimately have "heap_but_up cmp (?d[?n := x]) ?n"
    by (auto simp: heap_but_up_def)
  from upheap_loop_ok [OF _ this] obtain d' i' where
    "upheap_loop cmp x ?d ?n = (d', i')" "i' < length d'" "length d' = Suc ?n"
    "mset (d'[i' := x]) = add_mset x (mset (bh_data h))" "heap_from cmp (d'[i' := x])"
    by (auto split: prod.splits)
  then show ?thesis
    using assms(2) by (auto simp: BinaryHeap_push_def upheap_def heap_ok_def elems_def reset_root_cmp_cache_def cache_ok_none)
qed

lemma downheap_root_ok:
  assumes "bh_data h \<noteq> []" and "length (bh_data h) \<le> kMaxSizet" and "heap_but_down cmp (bh_data h) 0"
    and "cache_ok cmp (bh_data h) (bh_root_cmp_cache h)"
  shows "\<exists>h'. downheap cmp get_root h = Some h' \<and> heap_ok cmp h' \<and> elems h' = elems h"
proof -
  let ?d = "bh_data h"
  have "\<exists>d' i' p'. downheap_loop cmp (?d ! 0) (bh_root_cmp_cache h) ?d 0 kMaxSizet = Some (d', i', p')
           \<and> i' < length d' \<and> length d' = length ?d \<and> mset (d'[i' := ?d ! 0]) = mset (?d[0 := ?d ! 0])
           \<and> heap_from cmp (d'[i' := ?d ! 0]) \<and> (i' = 0 \<longrightarrow> cache_ok cmp d' p')"
    using assms kMaxSizet_pos by (intro downheap_loop_ok) auto
  then obtain d' i' p' where r: "downheap_loop cmp (?d ! 0) (bh_root_cmp_cache h) ?d 0 kMaxSizet = Some (d', i', p')"
    "length d' = length ?d" "mset (d'[i' := ?d ! 0]) = mset ?d"
    "heap_from cmp (d'[i' := ?d ! 0])" "i' = 0 \<longrightarrow> cache_ok cmp d' p'" by auto
  moreover have "i' = 0 \<longrightarrow> cache_ok cmp (d'[i' := ?d ! 0]) p'"
    using r(5) by (auto simp: cache_ok_def)
  ultimately show ?thesis
    using assms(2) by (auto simp: downheap_def get_root_def heap_ok_def elems_def reset_root_cmp_cache_def cache_ok_none)
qed

lemma heap_root_replaced:
  assumes "heap_from cmp d" and "n \<le> length d"
  shows "heap_but_down cmp (take n (d[0 := v])) 0"
proof -
  have "take n (d[0 := v]) ! par j = d ! par j \<and> take n (d[0 := v]) ! j = d ! j"
    if "0 < j" "j < n" "0 < par j" for j
    using that assms(2) par_less [of j] by simp
  then show ?thesis using assms by (auto simp: heap_from_def heap_but_down_def)
qed

lemma cache_root_replaced:
  assumes "cache_ok cmp d c" and "n \<le> length d"
  shows "cache_ok cmp (take n (d[0 := v])) c"
  using assms by (auto simp: cache_ok_def)

lemma top_ok:
  assumes "heap_ok cmp h" and "elems h \<noteq> {#}"
  shows "\<exists>t. BinaryHeap_top h = Inr t \<and> t \<in># elems h \<and> (\<forall>y \<in># elems h. \<not> cmp t y)"
proof -
  have ne: "bh_data h \<noteq> []" using assms(2) by (simp add: elems_def)
  have "\<not> cmp (hd (bh_data h)) y" if "y \<in> set (bh_data h)" for y
    using that heap_top_max [of "bh_data h"] assms(1) ne by (auto simp: heap_ok_def in_set_conv_nth hd_conv_nth)
  then show ?thesis using ne by (auto simp: BinaryHeap_top_def BinaryHeap_empty_def elems_def)
qed

lemma replace_top_ok:
  assumes "heap_ok cmp h" and "BinaryHeap_top h = Inr t"
  shows "\<exists>h'. BinaryHeap_replace_top cmp x h = Inr h' \<and> heap_ok cmp h' \<and> elems h' = add_mset x (elems h - {#t#})"
proof -
  let ?h = "h\<lparr>bh_data := (bh_data h)[0 := x]\<rparr>"
  have ne: "bh_data h \<noteq> []" and t: "t = hd (bh_data h)"
    using assms(2) by (auto simp: BinaryHeap_top_def BinaryHeap_empty_def split: if_splits)
  have "\<exists>h'. downheap cmp get_root ?h = Some h' \<and> heap_ok cmp h' \<and> elems h' = elems ?h"
    using assms(1) ne heap_root_replaced [of "bh_data h" "length (bh_data h)" x]
      cache_root_replaced [of "bh_data h" "bh_root_cmp_cache h" "length (bh_data h)" x]
    by (intro downheap_root_ok) (auto simp: heap_ok_def)
  moreover have "elems ?h = add_mset x (elems h - {#t#})"
    using ne t by (cases "bh_data h") (auto simp: elems_def)
  ultimately show ?thesis
    using ne by (auto simp: BinaryHeap_replace_top_def BinaryHeap_empty_def lift_loop_def)
qed

lemma pop_ok:
  assumes "heap_ok cmp h" and "BinaryHeap_top h = Inr t"
  shows "\<exists>h'. BinaryHeap_pop cmp h = Inr h' \<and> heap_ok cmp h' \<and> elems h' = elems h - {#t#}"
proof -
  let ?d = "butlast ((bh_data h)[0 := last (bh_data h)])" and ?h = "h\<lparr>bh_data := butlast ((bh_data h)[0 := last (bh_data h)])\<rparr>"
  have ne: "bh_data h \<noteq> []" and t: "t = hd (bh_data h)"
    using assms(2) by (auto simp: BinaryHeap_top_def BinaryHeap_empty_def split: if_splits)
  have e: "elems ?h = elems h - {#t#}"
    using ne t by (cases "bh_data h" rule: rev_cases; cases "butlast (bh_data h)") (auto simp: elems_def butlast_append)
  show ?thesis
  proof (cases "?d = []")
    case True
    then show ?thesis
      using ne e by (auto simp: BinaryHeap_pop_def BinaryHeap_empty_def reset_root_cmp_cache_def heap_ok_def
          heap_from_def cache_ok_def elems_def)
  next
    case False
    have "\<exists>h'. downheap cmp get_root ?h = Some h' \<and> heap_ok cmp h' \<and> elems h' = elems ?h"
      using assms(1) False heap_root_replaced [of "bh_data h" "length (bh_data h) - 1" "last (bh_data h)"]
        cache_root_replaced [of "bh_data h" "bh_root_cmp_cache h" "length (bh_data h) - 1" "last (bh_data h)"]
      by (intro downheap_root_ok) (auto simp: heap_ok_def butlast_conv_take)
    then show ?thesis
      using ne False e by (auto simp: BinaryHeap_pop_def BinaryHeap_empty_def lift_loop_def)
  qed
qed

end

section \<open>The contract of a priority queue\<close>

locale priority_queue = strict_weak cmp
  for cmp :: "'a \<Rightarrow> 'a \<Rightarrow> bool" +
  fixes ok :: "'h \<Rightarrow> bool" and els :: "'h \<Rightarrow> 'a multiset" and cap :: nat
    and new :: 'h and push :: "'a \<Rightarrow> 'h \<Rightarrow> 'h" and topf :: "'h \<Rightarrow> 'a result" and popf :: "'h \<Rightarrow> 'h result"
  assumes new: "ok new \<and> els new = {#}"
    and push: "ok h \<Longrightarrow> size (els h) < cap \<Longrightarrow> ok (push x h) \<and> els (push x h) = add_mset x (els h)"
    and topf: "ok h \<Longrightarrow> els h \<noteq> {#} \<Longrightarrow> \<exists>t. topf h = Inr t \<and> t \<in># els h \<and> (\<forall>y \<in># els h. \<not> cmp t y)"
    and popf: "ok h \<Longrightarrow> topf h = Inr t \<Longrightarrow> \<exists>h'. popf h = Inr h' \<and> ok h' \<and> els h' = els h - {#t#}"

primrec heap_drain :: "('h \<Rightarrow> 'a result) \<Rightarrow> ('h \<Rightarrow> 'h result) \<Rightarrow> nat \<Rightarrow> 'h \<Rightarrow> ('a list \<times> 'h) result" where
  "heap_drain topf popf 0 h = Inr ([], h)"
| "heap_drain topf popf (Suc n) h =
     ub_bind (topf h) (\<lambda>t. ub_bind (popf h) (\<lambda>h'.
       ub_bind (heap_drain topf popf n h') (\<lambda>(ts, h''). Inr (t # ts, h''))))"

context priority_queue
begin

lemma push_all:
  assumes "ok h" and "size (els h) + length xs \<le> cap"
  shows "ok (fold push xs h) \<and> els (fold push xs h) = els h + mset xs"
  using assms
proof (induction xs arbitrary: h)
  case (Cons x xs)
  then show ?case using push [of h x] Cons.IH [of "push x h"] by auto
qed simp

lemma drain_sorted:
  assumes "ok h" and "n \<le> size (els h)"
  shows "\<exists>ts h'. heap_drain topf popf n h = Inr (ts, h') \<and> ok h' \<and> length ts = n
           \<and> mset ts + els h' = els h \<and> sorted_wrt (\<lambda>x y. \<not> cmp x y) ts
           \<and> (\<forall>t \<in> set ts. \<forall>y \<in># els h'. \<not> cmp t y)"
  using assms
proof (induction n arbitrary: h)
  case (Suc n)
  obtain t where t: "topf h = Inr t" "t \<in># els h" "\<forall>y \<in># els h. \<not> cmp t y"
    using topf [of h] Suc.prems by force
  obtain h1 where h1: "popf h = Inr h1" "ok h1" "els h1 = els h - {#t#}"
    using popf [of h t] Suc.prems t by blast
  then have "n \<le> size (els h1)" using Suc.prems t by (simp add: size_Diff_singleton)
  from Suc.IH [OF h1(2) this] obtain ts h' where
    r: "heap_drain topf popf n h1 = Inr (ts, h')" "ok h'" "length ts = n" "mset ts + els h' = els h1"
      "sorted_wrt (\<lambda>x y. \<not> cmp x y) ts" "\<forall>t \<in> set ts. \<forall>y \<in># els h'. \<not> cmp t y" by blast
  have sub: "y \<in># els h" if "y \<in> set ts \<or> y \<in># els h'" for y
    using that r(4) h1(3) by (metis in_diffD set_mset_mset union_iff)
  have "mset (t # ts) + els h' = els h" using r(4) h1(3) t(2) by simp
  then show ?case using t h1 r sub by (simp add: ub_bind_def)
qed simp

lemma heapsort:
  assumes "length xs \<le> cap"
  shows "\<exists>ts h. heap_drain topf popf (length xs) (fold push xs new) = Inr (ts, h) \<and> mset ts = mset xs
           \<and> sorted_wrt (\<lambda>x y. \<not> cmp x y) ts \<and> els h = {#}"
proof -
  have p: "ok (fold push xs new) \<and> els (fold push xs new) = mset xs"
    using push_all [of new xs] new assms by simp
  then obtain ts h where r: "heap_drain topf popf (length xs) (fold push xs new) = Inr (ts, h)"
    "length ts = length xs" "mset ts + els h = mset xs" "sorted_wrt (\<lambda>x y. \<not> cmp x y) ts"
    using drain_sorted [of "fold push xs new" "length xs"] by auto
  have "size (mset ts + els h) = length xs" using r(3) by simp
  then have "els h = {#}" using r(2) by simp
  then show ?thesis using r by simp
qed

end

sublocale strict_weak \<subseteq> bh: priority_queue cmp "heap_ok cmp" elems kMaxSizet BinaryHeap_new "BinaryHeap_push cmp"
    BinaryHeap_top "BinaryHeap_pop cmp"
  by unfold_locales (use new_ok push_ok top_ok pop_ok in blast)+

section \<open>Properties\<close>

text \<open>
  C5. \<open>BinaryHeap\<close> is a priority queue for every strict weak order: \<open>push\<close> adds one element,
  \<open>top\<close> returns a largest element, \<open>pop\<close> removes exactly that element, \<open>replace_top\<close> exchanges
  it, \<open>clear\<close> empties the heap; each returns (the sift-down loop ends, also when it trusts
  the cached child of the root) and re-establishes heap order and a sound cache; on an empty
  heap \<open>top\<close>, \<open>pop\<close> and \<open>replace_top\<close> fail their assertion.
\<close>

theorem BinaryHeap_is_priority_queue:
  assumes "strict_weak cmp" and "heap_ok cmp h"
  shows "heap_ok cmp BinaryHeap_new
    \<and> (size (elems h) < kMaxSizet \<longrightarrow>
         heap_ok cmp (BinaryHeap_push cmp x h) \<and> elems (BinaryHeap_push cmp x h) = add_mset x (elems h))
    \<and> (elems h \<noteq> {#} \<longrightarrow>
         (\<exists>t h1 h2. BinaryHeap_top h = Inr t \<and> t \<in># elems h \<and> (\<forall>y \<in># elems h. \<not> cmp t y)
           \<and> BinaryHeap_pop cmp h = Inr h1 \<and> heap_ok cmp h1 \<and> elems h1 = elems h - {#t#}
           \<and> BinaryHeap_replace_top cmp x h = Inr h2 \<and> heap_ok cmp h2 \<and> elems h2 = add_mset x (elems h - {#t#})))
    \<and> (elems h = {#} \<longrightarrow>
         BinaryHeap_top h = Inl AssertFailed \<and> BinaryHeap_pop cmp h = Inl AssertFailed
         \<and> BinaryHeap_replace_top cmp x h = Inl AssertFailed)
    \<and> heap_ok cmp (BinaryHeap_clear h) \<and> elems (BinaryHeap_clear h) = {#}"
proof -
  note sw = strict_weak.new_ok strict_weak.push_ok strict_weak.clear_ok
  have "\<exists>t h1 h2. BinaryHeap_top h = Inr t \<and> t \<in># elems h \<and> (\<forall>y \<in># elems h. \<not> cmp t y)
           \<and> BinaryHeap_pop cmp h = Inr h1 \<and> heap_ok cmp h1 \<and> elems h1 = elems h - {#t#}
           \<and> BinaryHeap_replace_top cmp x h = Inr h2 \<and> heap_ok cmp h2 \<and> elems h2 = add_mset x (elems h - {#t#})"
    if "elems h \<noteq> {#}"
    using strict_weak.top_ok [OF assms that] strict_weak.pop_ok [OF assms] strict_weak.replace_top_ok [OF assms] by meson
  then show ?thesis
    using sw [OF assms(1)] assms(2)
    by (auto simp: BinaryHeap_top_def BinaryHeap_pop_def BinaryHeap_replace_top_def BinaryHeap_empty_def elems_def)
qed

lemma BinaryHeap_is_priority_queue_witness:
  "elems (BinaryHeap_push (<) (5 :: nat) \<lparr>bh_data = [7, 3, 6], bh_root_cmp_cache = 2\<rparr>) = {#5, 7, 3, 6#}"
proof -
  have "heap_ok (<) \<lparr>bh_data = [7, 3, 6 :: nat], bh_root_cmp_cache = 2\<rparr>"
    by (auto simp: heap_ok_def heap_from_def cache_ok_def kMaxSizet_def get_parent_def nth_Cons' less_Suc_eq)
  from BinaryHeap_is_priority_queue [OF std_less.strict_weak_axioms this, of 5]
  show ?thesis by (simp add: elems_def kMaxSizet_def)
qed

text \<open>
  Pushing any list onto a new heap and then reading and popping it as often returns
  every pushed element, in non-increasing order, and leaves the heap empty.
\<close>

theorem BinaryHeap_drains_sorted:
  assumes "length xs \<le> kMaxSizet"
  shows "\<exists>h. heap_drain BinaryHeap_top (BinaryHeap_pop (<)) (length xs) (fold (BinaryHeap_push (<)) xs BinaryHeap_new)
           = Inr (rev (sort (xs :: 'a :: linorder list)), h) \<and> elems h = {#}"
proof -
  obtain ts h where r: "heap_drain BinaryHeap_top (BinaryHeap_pop (<)) (length xs)
      (fold (BinaryHeap_push (<)) xs BinaryHeap_new) = Inr (ts, h)" "mset ts = mset xs"
      "sorted_wrt (\<lambda>x y. \<not> x < y) ts" "elems h = {#}"
    using std_less.bh.heapsort [OF assms] by blast
  have "sorted (rev ts)" using r(3) by (simp add: sorted_wrt_rev not_less)
  then have "rev ts = sort xs" using r(2) by (metis mset_rev properties_for_sort)
  then show ?thesis using r by (metis rev_swap)
qed

lemma BinaryHeap_drains_sorted_witness:
  "\<exists>h. heap_drain BinaryHeap_top (BinaryHeap_pop (<)) 4 (fold (BinaryHeap_push (<)) [2, 9, 4, 9 :: nat] BinaryHeap_new)
     = Inr ([9, 9, 4, 2], h) \<and> elems h = {#}"
proof -
  have len: "length [2, 9, 4, 9 :: nat] = 4" by simp
  show ?thesis
    using BinaryHeap_drains_sorted [of "[2, 9, 4, 9 :: nat]", unfolded len] by (simp add: kMaxSizet_def)
qed

end
