(* ===== verification/Top_N_Heap.thy ===== *)
theory Top_N_Heap
  imports Binary_Heap
begin

text \<open>
  \<open>TopNHeap<T, Cmp>\<close> of \<open>small_container.h\<close>: keeps the \<open>limit\<close> greatest of the elements pushed,
  as an unordered vector until \<open>limit + 1\<close> elements have arrived and as an STL heap from
  then on.  The standard algorithms it calls (\<open>std::make_heap\<close>, \<open>push_heap\<close>, \<open>pop_heap\<close>,
  \<open>sort_heap\<close>, \<open>sort\<close>) are a record of functions; the locale \<open>std_heap\<close> states what the C++
  standard promises of them, and an implementation by sift-ups is shown to meet it.  A
  moved-from element is modelled as a copy: the class never reads one.
\<close>

section \<open>The standard heap algorithms\<close>

record 'a heap_alg =
  alg_make_heap :: "'a list \<Rightarrow> 'a list"
  alg_push_heap :: "'a list \<Rightarrow> 'a list"
  alg_pop_heap :: "'a list \<Rightarrow> 'a list"
  alg_sort_heap :: "'a list \<Rightarrow> 'a list"
  alg_sort :: "'a list \<Rightarrow> 'a list"

locale std_heap = strict_weak cmp
  for cmp :: "'a \<Rightarrow> 'a \<Rightarrow> bool" +
  fixes alg :: "'a heap_alg"
  assumes make: "heap_from cmp (alg_make_heap alg d) \<and> mset (alg_make_heap alg d) = mset d"
    and push: "heap_from cmp d \<Longrightarrow>
      heap_from cmp (alg_push_heap alg (d @ [x])) \<and> mset (alg_push_heap alg (d @ [x])) = add_mset x (mset d)"
    and pop: "heap_from cmp (x # d) \<Longrightarrow>
      \<exists>d'. alg_pop_heap alg (x # d) = d' @ [x] \<and> heap_from cmp d' \<and> mset d' = mset d"
    and sort_heap: "heap_from cmp d \<Longrightarrow>
      sorted_wrt (\<lambda>x y. \<not> cmp y x) (alg_sort_heap alg d) \<and> mset (alg_sort_heap alg d) = mset d"
    and sort: "sorted_wrt (\<lambda>x y. \<not> cmp y x) (alg_sort alg d) \<and> mset (alg_sort alg d) = mset d"

definition std_push_heap :: "('a \<Rightarrow> 'a \<Rightarrow> bool) \<Rightarrow> 'a list \<Rightarrow> 'a list" where
  "std_push_heap cmp d = (case upheap_loop cmp (last d) d (length d - 1) of (d', i) \<Rightarrow> d'[i := last d])"

definition std_make_heap :: "('a \<Rightarrow> 'a \<Rightarrow> bool) \<Rightarrow> 'a list \<Rightarrow> 'a list" where
  "std_make_heap cmp d = fold (\<lambda>x h. std_push_heap cmp (h @ [x])) d []"

definition std_pop_heap :: "('a \<Rightarrow> 'a \<Rightarrow> bool) \<Rightarrow> 'a list \<Rightarrow> 'a list" where
  "std_pop_heap cmp d = (case d of [] \<Rightarrow> [] | x # xs \<Rightarrow> std_make_heap cmp xs @ [x])"

primrec std_insert :: "('a \<Rightarrow> 'a \<Rightarrow> bool) \<Rightarrow> 'a \<Rightarrow> 'a list \<Rightarrow> 'a list" where
  "std_insert cmp x [] = [x]"
| "std_insert cmp x (y # ys) = (if cmp y x then y # std_insert cmp x ys else x # y # ys)"

definition std_sort :: "('a \<Rightarrow> 'a \<Rightarrow> bool) \<Rightarrow> 'a list \<Rightarrow> 'a list" where
  "std_sort cmp d = foldr (std_insert cmp) d []"

definition std_alg :: "('a \<Rightarrow> 'a \<Rightarrow> bool) \<Rightarrow> 'a heap_alg" where
  "std_alg cmp = \<lparr>alg_make_heap = std_make_heap cmp, alg_push_heap = std_push_heap cmp,
     alg_pop_heap = std_pop_heap cmp, alg_sort_heap = std_sort cmp, alg_sort = std_sort cmp\<rparr>"

context strict_weak
begin

lemma append_but_up:
  assumes "heap_from cmp d"
  shows "heap_but_up cmp (d @ [x]) (length d)"
proof -
  have "\<not> cmp ((d @ [x]) ! par j) ((d @ [x]) ! j)" if "0 < j" "j < length (d @ [x])" "j \<noteq> length d" for j
    using assms that par_less [of j] by (auto simp: heap_from_def nth_append)
  moreover have "\<not> (0 < j \<and> j < length (d @ [x]) \<and> par j = length d)" for j
    using par_less [of j] by auto
  ultimately show ?thesis by (auto simp: heap_but_up_def)
qed

lemma std_push_heap_ok:
  assumes "heap_from cmp d"
  shows "heap_from cmp (std_push_heap cmp (d @ [x])) \<and> mset (std_push_heap cmp (d @ [x])) = add_mset x (mset d)"
  using upheap_loop_ok [of "length d" "d @ [x]" x] append_but_up [OF assms, of x]
  by (auto simp: std_push_heap_def split: prod.splits)

lemma std_make_heap_ok: "heap_from cmp (std_make_heap cmp d) \<and> mset (std_make_heap cmp d) = mset d"
proof -
  have "heap_from cmp h \<Longrightarrow> heap_from cmp (fold (\<lambda>x h. std_push_heap cmp (h @ [x])) d h)
      \<and> mset (fold (\<lambda>x h. std_push_heap cmp (h @ [x])) d h) = mset h + mset d" for h
    by (induction d arbitrary: h) (simp_all add: std_push_heap_ok)
  from this [of "[]"] show ?thesis by (simp add: std_make_heap_def heap_from_def)
qed

lemma std_sort_ok: "sorted_wrt (\<lambda>x y. \<not> cmp y x) (std_sort cmp d) \<and> mset (std_sort cmp d) = mset d"
proof -
  have mi: "mset (std_insert cmp x ys) = add_mset x (mset ys)" for x ys
    by (induction ys) auto
  have si: "set (std_insert cmp x ys) = insert x (set ys)" for x ys
    by (induction ys) auto
  have so: "sorted_wrt (\<lambda>x y. \<not> cmp y x) ys \<Longrightarrow> sorted_wrt (\<lambda>x y. \<not> cmp y x) (std_insert cmp x ys)" for x ys
    by (induction ys) (auto simp: si dest: asym, use neg_trans in blast)
  show ?thesis by (induction d) (auto simp: std_sort_def mi so)
qed

end

sublocale strict_weak \<subseteq> alg: std_heap cmp "std_alg cmp"
  by unfold_locales
    (use std_make_heap_ok std_push_heap_ok std_sort_ok in \<open>auto simp: std_alg_def std_pop_heap_def\<close>)

section \<open>The class\<close>

datatype State = UNORDERED | BOTTOM_KNOWN | HEAP_SORTED

record 'a TopNHeap =
  tn_elements :: "'a list"
  tn_limit :: nat
  tn_state :: State

definition TopNHeap_new :: "nat \<Rightarrow> 'a TopNHeap" where
  "TopNHeap_new limit = \<lparr>tn_elements = [], tn_limit = limit, tn_state = UNORDERED\<rparr>"

definition TopNHeap_size :: "'a TopNHeap \<Rightarrow> nat" where
  "TopNHeap_size t = min (length (tn_elements t)) (tn_limit t)"

definition TopNHeap_empty :: "'a TopNHeap \<Rightarrow> bool" where
  "TopNHeap_empty t \<longleftrightarrow> TopNHeap_size t = 0"

definition swap_front_back :: "'a list \<Rightarrow> 'a list" where
  "swap_front_back d = d[0 := last d, length d - 1 := hd d]"

definition PushInternal ::
    "'a heap_alg \<Rightarrow> ('a \<Rightarrow> 'a \<Rightarrow> bool) \<Rightarrow> 'a \<Rightarrow> 'a TopNHeap \<Rightarrow> ('a TopNHeap \<times> 'a option) result" where
  "PushInternal alg cmp v t =
     (if tn_limit t = 0 then Inr (t, Some v)
      else if tn_state t \<noteq> HEAP_SORTED then
        (let els = tn_elements t @ [v];
             els = (if tn_state t = UNORDERED \<or> cmp (last els) (hd els) then els else swap_front_back els)
         in if length els = (tn_limit t + 1) mod 2 ^ 64 then
              (let els = alg_make_heap alg els;
                   dropped = hd els
               in Inr (t\<lparr>tn_elements := alg_pop_heap alg els, tn_state := HEAP_SORTED\<rparr>, Some dropped))
            else Inr (t\<lparr>tn_elements := els\<rparr>, None))
      else if tn_elements t = [] then Inl OutOfBounds
      else if cmp v (hd (tn_elements t)) then
        (let els = alg_push_heap alg (butlast (tn_elements t) @ [v]);
             dropped = hd els
         in Inr (t\<lparr>tn_elements := alg_pop_heap alg els\<rparr>, Some dropped))
      else Inr (t, Some v))"

definition int32_of :: "nat \<Rightarrow> int" where
  "int32_of i = (int i + 2 ^ 31) mod 2 ^ 32 - 2 ^ 31"

primrec peek_scan :: "('a \<Rightarrow> 'a \<Rightarrow> bool) \<Rightarrow> 'a list \<Rightarrow> nat list \<Rightarrow> int \<Rightarrow> int result" where
  "peek_scan cmp els [] min_candidate = Inr min_candidate"
| "peek_scan cmp els (i # is) min_candidate =
     (if min_candidate < 0 \<or> int (length els) \<le> min_candidate then Inl OutOfBounds
      else if cmp (els ! nat min_candidate) (els ! i) then peek_scan cmp els is (int32_of i)
      else peek_scan cmp els is min_candidate)"

definition peek_bottom :: "('a \<Rightarrow> 'a \<Rightarrow> bool) \<Rightarrow> 'a TopNHeap \<Rightarrow> ('a \<times> 'a TopNHeap) result" where
  "peek_bottom cmp t =
     (let els = tn_elements t in
      if els = [] then Inl OutOfBounds
      else if tn_state t = UNORDERED then
        ub_bind (peek_scan cmp els [1..<length els] 0) (\<lambda>min_candidate.
          let els = (if min_candidate \<noteq> 0
                     then els[0 := els ! nat min_candidate, nat min_candidate := els ! 0] else els)
          in Inr (hd els, t\<lparr>tn_elements := els, tn_state := BOTTOM_KNOWN\<rparr>))
      else Inr (hd els, t))"

definition Extract :: "'a heap_alg \<Rightarrow> 'a TopNHeap \<Rightarrow> 'a list \<times> 'a TopNHeap" where
  "Extract alg t =
     (let out = tn_elements t; t = t\<lparr>tn_elements := []\<rparr> in
      if tn_state t \<noteq> HEAP_SORTED then (alg_sort alg out, t)
      else (alg_sort_heap alg (butlast out), t))"

definition ExtractUnsorted :: "'a TopNHeap \<Rightarrow> 'a list \<times> 'a TopNHeap" where
  "ExtractUnsorted t =
     (let out = tn_elements t; t = t\<lparr>tn_elements := []\<rparr> in
      if tn_state t = HEAP_SORTED then (butlast out, t) else (out, t))"

definition ExtractNondestructive :: "'a heap_alg \<Rightarrow> 'a TopNHeap \<Rightarrow> 'a list" where
  "ExtractNondestructive alg t =
     (if tn_state t \<noteq> HEAP_SORTED then alg_sort alg (tn_elements t)
      else alg_sort_heap alg (butlast (tn_elements t)))"

definition ExtractUnsortedNondestructive :: "'a TopNHeap \<Rightarrow> 'a list" where
  "ExtractUnsortedNondestructive t =
     (if tn_state t = HEAP_SORTED then butlast (tn_elements t) else tn_elements t)"

definition TopNHeap_Reset :: "'a TopNHeap \<Rightarrow> 'a TopNHeap" where
  "TopNHeap_Reset t = t\<lparr>tn_elements := [], tn_state := UNORDERED\<rparr>"

section \<open>The state machine's invariant\<close>

definition topn_ok :: "('a \<Rightarrow> 'a \<Rightarrow> bool) \<Rightarrow> 'a TopNHeap \<Rightarrow> bool" where
  "topn_ok cmp t \<longleftrightarrow> tn_limit t < 2 ^ 31 \<and>
     (case tn_state t of
        UNORDERED \<Rightarrow> length (tn_elements t) \<le> tn_limit t
      | BOTTOM_KNOWN \<Rightarrow> tn_elements t \<noteq> [] \<and> length (tn_elements t) \<le> tn_limit t
                         \<and> (\<forall>y \<in> set (tn_elements t). \<not> cmp (hd (tn_elements t)) y)
      | HEAP_SORTED \<Rightarrow> 0 < tn_limit t \<and> length (tn_elements t) = tn_limit t + 1
                         \<and> heap_from cmp (butlast (tn_elements t)))"

abbreviation kept :: "'a TopNHeap \<Rightarrow> 'a multiset" where
  "kept t \<equiv> mset (ExtractUnsortedNondestructive t)"

definition dropped_mset :: "'a option \<Rightarrow> 'a multiset" where
  "dropped_mset d = (case d of None \<Rightarrow> {#} | Some x \<Rightarrow> {#x#})"

lemma mset_swap_front_back: "d \<noteq> [] \<Longrightarrow> mset (swap_front_back d) = mset d"
  using mset_swap [of "length d - 1" d 0] by (simp add: swap_front_back_def hd_conv_nth last_conv_nth)

lemma hd_swap_front_back: "d \<noteq> [] \<Longrightarrow> hd (swap_front_back d) = last d"
  by (cases d rule: rev_cases) (auto simp: swap_front_back_def hd_conv_nth nth_list_update)

lemma length_swap_front_back [simp]: "length (swap_front_back d) = length d"
  by (simp add: swap_front_back_def)

context std_heap
begin

lemma heap_hd_lowest: "heap_from cmp d \<Longrightarrow> y \<in> set d \<Longrightarrow> \<not> cmp (hd d) y"
  using heap_top_max [of d] by (auto simp: in_set_conv_nth) (metis hd_conv_nth length_greater_0_conv list.size(3) not_less0)

lemma pop_drops:
  assumes "heap_from cmp d" and "mset d = add_mset v M" and "length d = tn_limit t + 1" and "0 < tn_limit t"
    and "tn_limit t < 2 ^ 31"
  shows "topn_ok cmp (t\<lparr>tn_elements := alg_pop_heap alg d, tn_state := HEAP_SORTED\<rparr>)
    \<and> kept (t\<lparr>tn_elements := alg_pop_heap alg d, tn_state := HEAP_SORTED\<rparr>) + {#hd d#} = add_mset v M
    \<and> (\<forall>y \<in># kept (t\<lparr>tn_elements := alg_pop_heap alg d, tn_state := HEAP_SORTED\<rparr>). \<not> cmp (hd d) y)"
proof -
  obtain x d0 where d: "d = x # d0" using assms(3) by (cases d) auto
  obtain d' where d': "alg_pop_heap alg d = d' @ [x]" "heap_from cmp d'" "mset d' = mset d0"
    using pop assms(1) d by metis
  have len: "length d' = length d0" using d'(3) by (metis size_mset)
  have "set d' = set d0" using d'(3) by (rule mset_eq_setD)
  moreover have "\<not> cmp x y" if "y \<in> set d0" for y
    using that heap_hd_lowest [OF assms(1), of y] d by simp
  ultimately show ?thesis
    using d d' len assms by (simp add: topn_ok_def ExtractUnsortedNondestructive_def)
qed

lemma push_bottom_lowest:
  assumes "topn_ok cmp t" and "tn_state t = BOTTOM_KNOWN" and "els = tn_elements t @ [v]"
    and "els' = (if cmp v (hd els) then els else swap_front_back els)" and "y \<in> set els'"
  shows "\<not> cmp (hd els') y"
proof -
  have low: "\<not> cmp (hd (tn_elements t)) y" if "y \<in> set (tn_elements t)" for y
    using assms(1,2) that by (simp add: topn_ok_def)
  have y: "y = v \<or> y \<in> set (tn_elements t)"
    using assms(3,4,5) mset_swap_front_back [of els, THEN mset_eq_setD] by (auto split: if_splits)
  have h: "hd els = hd (tn_elements t)" using assms(1-3) by (simp add: topn_ok_def)
  show ?thesis
  proof (cases "cmp v (hd els)")
    case True
    then show ?thesis using y low assms(4) h asym by auto
  next
    case False
    then have "hd els' = v" using assms(3,4) hd_swap_front_back [of els] by simp
    moreover have "\<not> cmp v y" using False y low h irrefl neg_trans by metis
    ultimately show ?thesis by simp
  qed
qed

lemma push_unsorted_ok:
  assumes ok: "topn_ok cmp t" and lim: "tn_limit t \<noteq> 0" and st: "tn_state t \<noteq> HEAP_SORTED"
  shows "\<exists>t' d. PushInternal alg cmp v t = Inr (t', d) \<and> topn_ok cmp t' \<and> tn_limit t' = tn_limit t
    \<and> kept t' + dropped_mset d = add_mset v (kept t)
    \<and> (d = None \<longleftrightarrow> size (kept t) < tn_limit t) \<and> (\<forall>x. d = Some x \<longrightarrow> (\<forall>y \<in># kept t'. \<not> cmp x y))"
proof -
  define els where "els = (if tn_state t = UNORDERED \<or> cmp v (hd (tn_elements t @ [v]))
    then tn_elements t @ [v] else swap_front_back (tn_elements t @ [v]))"
  have m: "mset els = add_mset v (mset (tn_elements t))" and l: "length els = Suc (length (tn_elements t))"
    by (simp_all add: els_def mset_swap_front_back)
  have le: "length (tn_elements t) \<le> tn_limit t" and lim': "tn_limit t < 2 ^ 31"
    using ok st by (cases "tn_state t"; simp add: topn_ok_def)+
  have k: "kept t = mset (tn_elements t)" using st by (simp add: ExtractUnsortedNondestructive_def)
  have mod: "(tn_limit t + 1) mod 2 ^ 64 = tn_limit t + 1" using lim' by simp
  show ?thesis
  proof (cases "length els = tn_limit t + 1")
    case True
    have h: "heap_from cmp (alg_make_heap alg els)" "mset (alg_make_heap alg els) = add_mset v (mset (tn_elements t))"
      using make [of els] m by auto
    have "length (alg_make_heap alg els) = tn_limit t + 1"
      using h(2) True l by (metis add.commute plus_1_eq_Suc size_add_mset size_mset)
    from pop_drops [OF h this _ lim'] lim
    have "topn_ok cmp (t\<lparr>tn_elements := alg_pop_heap alg (alg_make_heap alg els), tn_state := HEAP_SORTED\<rparr>)
      \<and> kept (t\<lparr>tn_elements := alg_pop_heap alg (alg_make_heap alg els), tn_state := HEAP_SORTED\<rparr>)
          + {#hd (alg_make_heap alg els)#} = add_mset v (mset (tn_elements t))
      \<and> (\<forall>y \<in># kept (t\<lparr>tn_elements := alg_pop_heap alg (alg_make_heap alg els), tn_state := HEAP_SORTED\<rparr>).
           \<not> cmp (hd (alg_make_heap alg els)) y)" by simp
    moreover have "PushInternal alg cmp v t = Inr (t\<lparr>tn_elements := alg_pop_heap alg (alg_make_heap alg els),
        tn_state := HEAP_SORTED\<rparr>, Some (hd (alg_make_heap alg els)))"
      using lim st True mod by (simp add: PushInternal_def Let_def els_def)
    ultimately show ?thesis using True l k by (simp add: dropped_mset_def)
  next
    case False
    have "topn_ok cmp (t\<lparr>tn_elements := els\<rparr>)"
      using ok st False l le push_bottom_lowest [OF ok, of "tn_elements t @ [v]" v els]
      by (cases "tn_state t") (simp_all add: topn_ok_def els_def, auto)
    moreover have "PushInternal alg cmp v t = Inr (t\<lparr>tn_elements := els\<rparr>, None)"
      using lim st False mod by (simp add: PushInternal_def Let_def els_def)
    moreover have "kept (t\<lparr>tn_elements := els\<rparr>) = mset els"
      using st by (simp add: ExtractUnsortedNondestructive_def)
    ultimately show ?thesis using m k False l le by (auto simp: dropped_mset_def)
  qed
qed

lemma push_sorted_ok:
  assumes ok: "topn_ok cmp t" and st: "tn_state t = HEAP_SORTED"
  shows "\<exists>t' d. PushInternal alg cmp v t = Inr (t', Some d) \<and> topn_ok cmp t' \<and> tn_limit t' = tn_limit t
    \<and> kept t' + {#d#} = add_mset v (kept t) \<and> (\<forall>y \<in># kept t'. \<not> cmp d y)"
proof -
  obtain ks z where els: "tn_elements t = ks @ [z]" and ks: "heap_from cmp ks" "length ks = tn_limit t" "ks \<noteq> []"
    using ok st by (cases "tn_elements t" rule: rev_cases) (fastforce simp: topn_ok_def)+
  have lim: "tn_limit t \<noteq> 0" "tn_limit t < 2 ^ 31" using ok st by (auto simp: topn_ok_def)
  have k: "kept t = mset ks" using st els by (simp add: ExtractUnsortedNondestructive_def)
  show ?thesis
  proof (cases "cmp v (hd ks)")
    case True
    let ?d = "alg_push_heap alg (ks @ [v])"
    have h: "heap_from cmp ?d" "mset ?d = add_mset v (mset ks)" using push [OF ks(1)] by auto
    have "length ?d = tn_limit t + 1" using h(2) ks(2) by (metis add.commute plus_1_eq_Suc size_add_mset size_mset)
    from pop_drops [OF h this _ lim(2)] lim(1) st
    have "topn_ok cmp (t\<lparr>tn_elements := alg_pop_heap alg ?d\<rparr>)
      \<and> kept (t\<lparr>tn_elements := alg_pop_heap alg ?d\<rparr>) + {#hd ?d#} = add_mset v (mset ks)
      \<and> (\<forall>y \<in># kept (t\<lparr>tn_elements := alg_pop_heap alg ?d\<rparr>). \<not> cmp (hd ?d) y)"
      by (simp add: topn_ok_def ExtractUnsortedNondestructive_def)
    then show ?thesis using True st lim els ks(3) k by (simp add: PushInternal_def Let_def)
  next
    case False
    have "\<not> cmp v y" if "y \<in> set ks" for y
      using that False heap_hd_lowest [OF ks(1)] neg_trans by blast
    then show ?thesis
      using False st lim els ks(3) ok by (auto simp: PushInternal_def ExtractUnsortedNondestructive_def)
  qed
qed

lemma push_topn_ok:
  assumes "topn_ok cmp t"
  shows "\<exists>t' d. PushInternal alg cmp v t = Inr (t', d) \<and> topn_ok cmp t' \<and> tn_limit t' = tn_limit t
    \<and> kept t' + dropped_mset d = add_mset v (kept t)
    \<and> (d = None \<longleftrightarrow> size (kept t) < tn_limit t) \<and> (\<forall>x. d = Some x \<longrightarrow> (\<forall>y \<in># kept t'. \<not> cmp x y))"
proof -
  consider "tn_limit t = 0" | "tn_limit t \<noteq> 0" "tn_state t \<noteq> HEAP_SORTED" | "tn_state t = HEAP_SORTED" by blast
  then show ?thesis
  proof cases
    case 1
    then have "kept t = {#}"
      using assms by (cases "tn_state t") (auto simp: topn_ok_def ExtractUnsortedNondestructive_def)
    then show ?thesis using 1 assms by (simp add: PushInternal_def dropped_mset_def)
  next
    case 2
    then show ?thesis using push_unsorted_ok [OF assms] by simp
  next
    case 3
    moreover have "\<not> size (kept t) < tn_limit t"
      using 3 assms by (simp add: topn_ok_def ExtractUnsortedNondestructive_def)
    ultimately show ?thesis using push_sorted_ok [OF assms 3, of v] by (auto simp: dropped_mset_def)
  qed
qed

lemma int32_of_small: "i < 2 ^ 31 \<Longrightarrow> int32_of i = int i"
  by (simp add: int32_of_def)

lemma peek_scan_ok:
  assumes "length els \<le> 2 ^ 31" and "m < length els" and "sorted (is :: nat list)" and "set is \<subseteq> {..<length els}"
    and "\<And>j. j < length els \<Longrightarrow> j \<notin> set is \<Longrightarrow> \<not> cmp (els ! m) (els ! j)"
  shows "\<exists>m'. peek_scan cmp els is (int m) = Inr (int m') \<and> m' < length els
           \<and> (\<forall>j < length els. \<not> cmp (els ! m') (els ! j))"
  using assms
proof (induction "is" arbitrary: m)
  case (Cons i "is")
  have i: "i < length els" "int32_of i = int i"
    using Cons.prems(1,4) by (auto intro!: int32_of_small)
  have "sorted is" "set is \<subseteq> {..<length els}" using Cons.prems(3,4) by auto
  note IH = Cons.IH [OF Cons.prems(1) _ this]
  have far: "\<not> cmp (els ! m) (els ! j)" if "j < length els" "j \<notin> set is" "j \<noteq> i" for j
    using that Cons.prems(5) [of j] by simp
  show ?case
  proof (cases "cmp (els ! m) (els ! i)")
    case True
    have "\<not> cmp (els ! i) (els ! j)" if "j < length els" "j \<notin> set is" for j
      using far [OF that] True irrefl neg_trans asym by metis
    from IH [OF i(1) this] show ?thesis using True i Cons.prems(2) by simp
  next
    case False
    have "\<not> cmp (els ! m) (els ! j)" if "j < length els" "j \<notin> set is" for j
      using far [OF that] False by metis
    from IH [OF Cons.prems(2) this] show ?thesis using False Cons.prems(2) by simp
  qed
qed auto

lemma peek_bottom_ok:
  assumes ok: "topn_ok cmp t" and ne: "\<not> TopNHeap_empty t"
  shows "\<exists>b t'. peek_bottom cmp t = Inr (b, t') \<and> topn_ok cmp t' \<and> tn_limit t' = tn_limit t \<and> kept t' = kept t
    \<and> b \<in># kept t \<and> (\<forall>y \<in># kept t. \<not> cmp b y)"
proof (cases "tn_state t")
  case UNORDERED
  let ?e = "tn_elements t"
  have len: "0 < length ?e" "length ?e \<le> tn_limit t" "tn_limit t < 2 ^ 31"
    using ok ne UNORDERED by (auto simp: topn_ok_def TopNHeap_empty_def TopNHeap_size_def)
  have "j \<in> set [1..<length ?e]" if "j < length ?e" "j \<noteq> 0" for j using that by auto
  then have "\<exists>m. peek_scan cmp ?e [1..<length ?e] (int 0) = Inr (int m) \<and> m < length ?e
           \<and> (\<forall>j < length ?e. \<not> cmp (?e ! m) (?e ! j))"
    using len by (intro peek_scan_ok) (auto simp: irrefl Suc_le_eq)
  then obtain m where m: "peek_scan cmp ?e [1..<length ?e] 0 = Inr (int m)" "m < length ?e"
    "\<forall>j < length ?e. \<not> cmp (?e ! m) (?e ! j)" by auto
  let ?e' = "if m \<noteq> 0 then ?e[0 := ?e ! m, m := ?e ! 0] else ?e"
  have me: "mset ?e' = mset ?e" using m(2) len(1) mset_swap [of m ?e 0] by simp
  have hd: "hd ?e' = ?e ! m" using len(1) m(2) by (auto simp: hd_conv_nth)
  have low: "\<not> cmp (?e ! m) y" if "y \<in> set ?e" for y using m(3) that by (auto simp: in_set_conv_nth)
  have "peek_bottom cmp t = Inr (?e ! m, t\<lparr>tn_elements := ?e', tn_state := BOTTOM_KNOWN\<rparr>)"
    using UNORDERED len(1) m(1) hd by (auto simp: peek_bottom_def Let_def ub_bind_def)
  moreover have "topn_ok cmp (t\<lparr>tn_elements := ?e', tn_state := BOTTOM_KNOWN\<rparr>)"
    using len hd low mset_eq_setD [OF me] by (auto simp: topn_ok_def)
  moreover have "kept (t\<lparr>tn_elements := ?e', tn_state := BOTTOM_KNOWN\<rparr>) = mset ?e" "kept t = mset ?e"
    using UNORDERED me by (auto simp: ExtractUnsortedNondestructive_def)
  ultimately show ?thesis using low m(2) by auto
next
  case BOTTOM_KNOWN
  then show ?thesis
    using ok by (auto simp: topn_ok_def peek_bottom_def ExtractUnsortedNondestructive_def Let_def)
next
  case HEAP_SORTED
  then obtain ks z where els: "tn_elements t = ks @ [z]" and ks: "heap_from cmp ks" "ks \<noteq> []"
    using ok by (cases "tn_elements t" rule: rev_cases) (fastforce simp: topn_ok_def)+
  then show ?thesis
    using ok HEAP_SORTED heap_hd_lowest [OF ks(1)]
    by (auto simp: peek_bottom_def ExtractUnsortedNondestructive_def Let_def)
qed

end

section \<open>Any use of the class\<close>

text \<open>A client pushes elements and peeks at the bottom only when the container is not empty.\<close>

datatype 'a topn_op = TPush 'a | TPeek

primrec topn_run :: "'a heap_alg \<Rightarrow> ('a \<Rightarrow> 'a \<Rightarrow> bool) \<Rightarrow> 'a topn_op list \<Rightarrow> 'a TopNHeap \<Rightarrow> 'a TopNHeap result" where
  "topn_run alg cmp [] t = Inr t"
| "topn_run alg cmp (op # ops) t =
     (case op of
        TPush v \<Rightarrow> ub_bind (PushInternal alg cmp v t) (\<lambda>(t, d). topn_run alg cmp ops t)
      | TPeek \<Rightarrow> if TopNHeap_empty t then topn_run alg cmp ops t
                 else ub_bind (peek_bottom cmp t) (\<lambda>(b, t). topn_run alg cmp ops t))"

definition pushed :: "'a topn_op list \<Rightarrow> 'a list" where
  "pushed ops = concat (map (\<lambda>op. case op of TPush v \<Rightarrow> [v] | TPeek \<Rightarrow> []) ops)"

definition top_split :: "('a \<Rightarrow> 'a \<Rightarrow> bool) \<Rightarrow> nat \<Rightarrow> 'a multiset \<Rightarrow> 'a multiset \<Rightarrow> 'a multiset \<Rightarrow> bool" where
  "top_split cmp n K D M \<longleftrightarrow> K + D = M \<and> size K \<le> n \<and> (D \<noteq> {#} \<longrightarrow> size K = n) \<and> (\<forall>d \<in># D. \<forall>k \<in># K. \<not> cmp d k)"

context std_heap
begin

lemma top_split_push:
  assumes ts: "top_split cmp n K D M" and eq: "K' + dropped_mset d = add_mset v K"
    and none: "d = None \<longleftrightarrow> size K < n" and low: "\<And>x y. d = Some x \<Longrightarrow> y \<in># K' \<Longrightarrow> \<not> cmp x y"
  shows "top_split cmp n K' (D + dropped_mset d) (add_mset v M)"
proof (cases d)
  case None
  then have "D = {#}" using ts none by (auto simp: top_split_def)
  then show ?thesis using None ts eq none by (auto simp: top_split_def dropped_mset_def)
next
  case (Some x)
  have sz: "size K = n" using ts none Some by (simp add: top_split_def)
  have eq': "add_mset x K' = add_mset v K" using eq Some by (simp add: dropped_mset_def)
  then have sz': "size K' = n" using sz by (metis size_add_mset nat.inject)
  have "\<not> cmp e k" if e: "e \<in># D" and k: "k \<in># K'" for e k
  proof (cases "k \<in># K")
    case False
    then have "x \<noteq> v" using eq' k by auto
    then have "x \<in># K" using eq' by (metis insert_noteq_member)
    then have "\<not> cmp e x" using ts e by (simp add: top_split_def)
    then show ?thesis using low [OF Some k] neg_trans by blast
  qed (use ts e in \<open>simp add: top_split_def\<close>)
  then show ?thesis
    using ts Some sz' eq' low by (auto simp: top_split_def dropped_mset_def)
qed

lemma topn_run_ok:
  assumes "topn_ok cmp t" and "top_split cmp (tn_limit t) (kept t) D M"
  shows "\<exists>t' D'. topn_run alg cmp ops t = Inr t' \<and> topn_ok cmp t' \<and> tn_limit t' = tn_limit t
           \<and> top_split cmp (tn_limit t) (kept t') D' (M + mset (pushed ops))"
  using assms
proof (induction ops arbitrary: t D M)
  case Nil
  then show ?case by (auto simp: pushed_def)
next
  case (Cons op ops)
  show ?case
  proof (cases op)
    case (TPush v)
    obtain t' d where p: "PushInternal alg cmp v t = Inr (t', d)" "topn_ok cmp t'" "tn_limit t' = tn_limit t"
      "kept t' + dropped_mset d = add_mset v (kept t)" "d = None \<longleftrightarrow> size (kept t) < tn_limit t"
      "\<And>x y. d = Some x \<Longrightarrow> y \<in># kept t' \<Longrightarrow> \<not> cmp x y"
      using push_topn_ok [OF Cons.prems(1), of v] by blast
    have "top_split cmp (tn_limit t') (kept t') (D + dropped_mset d) (add_mset v M)"
      using top_split_push [OF Cons.prems(2) p(4,5,6)] p(3) by simp
    from Cons.IH [OF p(2) this] show ?thesis
      using TPush p(1,3) by (simp add: ub_bind_def pushed_def)
  next
    case TPeek
    then show ?thesis
      using Cons.IH [OF Cons.prems] Cons.IH peek_bottom_ok [OF Cons.prems(1)] Cons.prems(2)
      by (auto simp: pushed_def ub_bind_def) metis
  qed
qed

lemma extract_ok:
  assumes "topn_ok cmp t"
  shows "sorted_wrt (\<lambda>x y. \<not> cmp y x) (ExtractNondestructive alg t) \<and> mset (ExtractNondestructive alg t) = kept t"
  using assms sort [of "tn_elements t"] sort_heap [of "butlast (tn_elements t)"]
  by (cases "tn_state t") (simp_all add: topn_ok_def ExtractNondestructive_def ExtractUnsortedNondestructive_def)

end

lemma top_split_take:
  assumes "top_split (>) n K D (mset xs)" and "mset ys = K" and "sorted (rev (ys :: 'a :: linorder list))"
  shows "ys = take n (rev (sort xs))"
proof -
  let ?zs = "rev (sorted_list_of_multiset D)"
  have "sorted (rev (ys @ ?zs))"
    using assms by (auto simp: sorted_append top_split_def not_less)
  moreover have "mset (rev (ys @ ?zs)) = mset xs"
    using assms by (simp add: top_split_def add.commute)
  ultimately have "sort xs = rev (ys @ ?zs)" by (metis properties_for_sort)
  then have e: "rev (sort xs) = ys @ ?zs" by simp
  have "length ys = n \<or> D = {#} \<and> length ys \<le> n"
    using assms by (metis size_mset top_split_def)
  then show ?thesis unfolding e by auto
qed

section \<open>Properties\<close>

text \<open>
  One operation of a \<open>TopNHeap\<close>, for every strict weak order and every standard library:
  \<open>push\<close> adds the element and, exactly when \<open>limit\<close> elements are held, reports as dropped one
  that is no greater than any element kept; \<open>peek_bottom\<close> returns a lowest kept element
  and keeps the contents; both re-establish the invariant of the three states.
\<close>

theorem TopNHeap_step:
  assumes "std_heap cmp alg" and "topn_ok cmp t"
  shows "(\<exists>t' d. PushInternal alg cmp v t = Inr (t', d) \<and> topn_ok cmp t' \<and> tn_limit t' = tn_limit t
      \<and> kept t' + dropped_mset d = add_mset v (kept t)
      \<and> (d = None \<longleftrightarrow> size (kept t) < tn_limit t) \<and> (\<forall>x. d = Some x \<longrightarrow> (\<forall>y \<in># kept t'. \<not> cmp x y)))
    \<and> (\<not> TopNHeap_empty t \<longrightarrow>
      (\<exists>b t'. peek_bottom cmp t = Inr (b, t') \<and> topn_ok cmp t' \<and> tn_limit t' = tn_limit t \<and> kept t' = kept t
         \<and> b \<in># kept t \<and> (\<forall>y \<in># kept t. \<not> cmp b y)))"
  using std_heap.push_topn_ok [OF assms] std_heap.peek_bottom_ok [OF assms] by blast

lemma TopNHeap_step_witness:
  "\<exists>t' d. PushInternal (std_alg (>)) (>) (4 :: nat) \<lparr>tn_elements = [3, 8], tn_limit = 2, tn_state = BOTTOM_KNOWN\<rparr>
     = Inr (t', d) \<and> kept t' + dropped_mset d = {#4, 3, 8#} \<and> d \<noteq> None"
proof -
  let ?t = "\<lparr>tn_elements = [3, 8 :: nat], tn_limit = 2, tn_state = BOTTOM_KNOWN\<rparr>"
  have ok: "topn_ok (>) ?t" by (simp add: topn_ok_def)
  have k: "kept ?t = {#3, 8#}" by (simp add: ExtractUnsortedNondestructive_def)
  obtain t' d where "PushInternal (std_alg (>)) (>) 4 ?t = Inr (t', d)"
    "kept t' + dropped_mset d = add_mset 4 (kept ?t)" "d = None \<longleftrightarrow> size (kept ?t) < tn_limit ?t"
    using TopNHeap_step [OF std_greater.alg.std_heap_axioms ok, of 4] by blast
  then show ?thesis unfolding k by (intro exI [of _ t'] exI [of _ d]) auto
qed

text \<open>
  C25. After any sequence of pushes, with \<open>peek_bottom\<close> called between them at any time the
  container is not empty, \<open>Extract\<close> and \<open>ExtractNondestructive\<close> return the \<open>limit\<close> greatest
  of all pushed elements in descending order, the unsorted versions a permutation of
  them, \<open>size\<close> their number, and \<open>Reset\<close> gives a new container.
\<close>

theorem TopNHeap_extracts_top_n:
  fixes ops :: "'a :: linorder topn_op list"
  assumes "std_heap (>) alg" and "limit < 2 ^ 31"
  defines "best \<equiv> take limit (rev (sort (pushed ops)))"
  shows "\<exists>t. topn_run alg (>) ops (TopNHeap_new limit) = Inr t
    \<and> fst (Extract alg t) = best \<and> ExtractNondestructive alg t = best
    \<and> mset (fst (ExtractUnsorted t)) = mset best \<and> mset (ExtractUnsortedNondestructive t) = mset best
    \<and> TopNHeap_size t = length best
    \<and> TopNHeap_Reset (snd (Extract alg t)) = TopNHeap_new limit
    \<and> TopNHeap_Reset (snd (ExtractUnsorted t)) = TopNHeap_new limit"
proof -
  have ok: "topn_ok (>) (TopNHeap_new limit :: 'a TopNHeap)" and l: "tn_limit (TopNHeap_new limit :: 'a TopNHeap) = limit"
    using assms(2) by (simp_all add: topn_ok_def TopNHeap_new_def)
  have "top_split (>) limit (kept (TopNHeap_new limit :: 'a TopNHeap)) {#} {#}"
    by (simp add: top_split_def TopNHeap_new_def ExtractUnsortedNondestructive_def)
  from std_heap.topn_run_ok [OF assms(1) ok, unfolded l, OF this, of ops] obtain t D
    where t: "topn_run alg (>) ops (TopNHeap_new limit) = Inr t" "topn_ok (>) t" "tn_limit t = limit"
      and D: "top_split (>) limit (kept t) D (mset (pushed ops))" by auto
  have e: "mset (ExtractNondestructive alg t) = kept t" "sorted (rev (ExtractNondestructive alg t))"
    using std_heap.extract_ok [OF assms(1) t(2)] by (auto simp: sorted_wrt_rev not_less)
  from top_split_take [OF D this] have best: "ExtractNondestructive alg t = best" by (simp add: best_def)
  have "length best = size (kept t)" using e(1) best by (metis size_mset)
  then have "TopNHeap_size t = length best"
    using t(2,3) by (cases "tn_state t") (auto simp: TopNHeap_size_def topn_ok_def ExtractUnsortedNondestructive_def)
  moreover have "fst (Extract alg t) = ExtractNondestructive alg t"
      "fst (ExtractUnsorted t) = ExtractUnsortedNondestructive t"
    by (simp_all add: Extract_def ExtractNondestructive_def ExtractUnsorted_def ExtractUnsortedNondestructive_def Let_def)
  moreover have "TopNHeap_Reset (snd (Extract alg t)) = TopNHeap_new limit"
      "TopNHeap_Reset (snd (ExtractUnsorted t)) = TopNHeap_new limit"
    using t(3) by (simp_all add: Extract_def ExtractUnsorted_def TopNHeap_Reset_def TopNHeap_new_def Let_def)
  ultimately show ?thesis using t(1) best e(1) by simp
qed

lemma TopNHeap_extracts_top_n_witness:
  "\<exists>t. topn_run (std_alg (>)) (>) [TPush 5, TPush 1, TPeek, TPush 9, TPush (7 :: nat)] (TopNHeap_new 2) = Inr t
     \<and> fst (Extract (std_alg (>)) t) = [9, 7]"
proof -
  have "take 2 (rev (sort (pushed [TPush 5, TPush 1, TPeek, TPush 9, TPush (7 :: nat)]))) = [9, 7]"
    by (simp add: pushed_def)
  then show ?thesis
    using TopNHeap_extracts_top_n [OF std_greater.alg.std_heap_axioms, of 2 "[TPush 5, TPush 1, TPeek, TPush 9, TPush (7 :: nat)]"]
    by (simp del: topn_run.simps) blast
qed

end
