(* ===== verification/Data_Buffer.thy ===== *)
theory Data_Buffer
  imports Prelude
begin

unbundle bit_operations_syntax

text \<open>
  \<open>DataBuffer\<close> of \<open>buffer.h\<close>: a growing byte buffer with a read end \<open>_pdata\<close> and a write end
  \<open>_pfree\<close>, and big-endian integers, strings and vectors on top of it.  The block at
  \<open>_pstart\<close> is a list of raw bytes (\<open>None\<close> for one never written) or \<open>None\<close> for \<open>NULL\<close>; the
  other pointers are offsets from \<open>_pstart\<close>, and \<open>_pend\<close> is the length of the block.  Every
  access through a pointer is checked, and every signed 32-bit computation whose result
  does not fit is an error.  \<open>malloc\<close> is taken to succeed, so the \<open>PANIC\<close> is not reached.
\<close>

section \<open>Memory\<close>

type_synonym byte = "8 word"

type_synonym block = "byte option list"

definition mem_slice :: "block \<Rightarrow> int \<Rightarrow> int \<Rightarrow> block result" where
  "mem_slice m off n =
     (if 0 \<le> off \<and> 0 \<le> n \<and> off + n \<le> int (length m) then Inr (take (nat n) (drop (nat off) m))
      else Inl OutOfBounds)"

definition mem_write :: "block \<Rightarrow> int \<Rightarrow> block \<Rightarrow> block result" where
  "mem_write m off bs =
     (if 0 \<le> off \<and> off + int (length bs) \<le> int (length m)
      then Inr (take (nat off) m @ bs @ drop (nat off + length bs) m)
      else Inl OutOfBounds)"

definition to_int32 :: "int \<Rightarrow> int result" where
  "to_int32 x = (if - (2 ^ 31) \<le> x \<and> x < 2 ^ 31 then Inr x else Inl SignedOverflow)"

section \<open>The class\<close>

record DataBuffer =
  db_start :: "block option"
  db_data :: int
  db_free :: int

definition MAX_BUFFER_SIZE :: int where
  "MAX_BUFFER_SIZE = 2048"

definition db_end :: "DataBuffer \<Rightarrow> int" where
  "db_end b = (case db_start b of None \<Rightarrow> 0 | Some m \<Rightarrow> int (length m))"

definition DataBuffer_new :: DataBuffer where
  "DataBuffer_new = \<lparr>db_start = None, db_data = 0, db_free = 0\<rparr>"

definition DataBuffer_destroy :: "DataBuffer \<Rightarrow> DataBuffer" where
  "DataBuffer_destroy b = (if db_start b \<noteq> None then \<lparr>db_start = None, db_data = 0, db_free = 0\<rparr> else b)"

definition load_byte :: "DataBuffer \<Rightarrow> int \<Rightarrow> byte result" where
  "load_byte b i =
     (case db_start b of None \<Rightarrow> Inl OutOfBounds
      | Some m \<Rightarrow> if i < 0 then Inl OutOfBounds else slot_load m (nat i))"

definition store_byte :: "int \<Rightarrow> byte \<Rightarrow> DataBuffer \<Rightarrow> DataBuffer result" where
  "store_byte i v b =
     (case db_start b of None \<Rightarrow> Inl OutOfBounds
      | Some m \<Rightarrow> if i < 0 then Inl OutOfBounds
                  else ub_bind (slot_store m (nat i) (Some v)) (\<lambda>m. Inr (b\<lparr>db_start := Some m\<rparr>)))"

definition store_bytes :: "int \<Rightarrow> block \<Rightarrow> DataBuffer \<Rightarrow> DataBuffer result" where
  "store_bytes i bs b =
     (case db_start b of None \<Rightarrow> Inl OutOfBounds
      | Some m \<Rightarrow> ub_bind (mem_write m i bs) (\<lambda>m. Inr (b\<lparr>db_start := Some m\<rparr>)))"

definition load_bytes :: "DataBuffer \<Rightarrow> int \<Rightarrow> int \<Rightarrow> block result" where
  "load_bytes b i n = (case db_start b of None \<Rightarrow> if n = 0 then Inr [] else Inl OutOfBounds | Some m \<Rightarrow> mem_slice m i n)"

definition getDataLen :: "DataBuffer \<Rightarrow> int result" where
  "getDataLen b = to_int32 (db_free b - db_data b)"

definition getFreeLen :: "DataBuffer \<Rightarrow> int result" where
  "getFreeLen b = to_int32 (db_end b - db_free b)"

definition DataBuffer_clear :: "DataBuffer \<Rightarrow> DataBuffer" where
  "DataBuffer_clear b = b\<lparr>db_data := 0, db_free := 0\<rparr>"

definition drainData :: "int \<Rightarrow> DataBuffer \<Rightarrow> DataBuffer" where
  "drainData len b =
     (let b = b\<lparr>db_data := db_data b + len\<rparr> in
      if db_data b \<ge> db_free b then DataBuffer_clear b else b)"

definition pourData :: "int \<Rightarrow> DataBuffer \<Rightarrow> DataBuffer result" where
  "pourData len b =
     (if db_end b - db_free b \<ge> len then Inr (b\<lparr>db_free := db_free b + len\<rparr>) else Inl AssertFailed)"

definition stripData :: "int \<Rightarrow> DataBuffer \<Rightarrow> DataBuffer result" where
  "stripData len b =
     (if db_free b - db_data b \<ge> len then Inr (b\<lparr>db_free := db_free b - len\<rparr>) else Inl AssertFailed)"

definition DataBuffer_shrink :: "DataBuffer \<Rightarrow> DataBuffer result" where
  "DataBuffer_shrink b =
     (case db_start b of None \<Rightarrow> Inr b
      | Some m \<Rightarrow>
          if db_end b \<le> MAX_BUFFER_SIZE \<or> db_free b - db_data b > MAX_BUFFER_SIZE then Inr b
          else ub_bind (to_int32 (db_free b - db_data b)) (\<lambda>dlen.
            let dlen = (if dlen < 0 then 0 else dlen) in
            ub_bind (if dlen > 0 then mem_slice m (db_data b) dlen else Inr []) (\<lambda>d.
              Inr \<lparr>db_start = Some (d @ replicate (nat MAX_BUFFER_SIZE - length d) None),
                   db_data = 0, db_free = dlen\<rparr>)))"

text \<open>The loops \<open>while (len - used < need) len <<= 1\<close> of \<open>expand\<close>, with \<open>used = 0\<close> in the first.\<close>

function grow :: "int \<Rightarrow> int \<Rightarrow> int \<Rightarrow> int result" where
  "grow used need len =
     (if len - used < need then
        (if len \<le> 0 then Inl Diverges
         else if 2 * len \<ge> 2 ^ 31 then Inl SignedOverflow
         else grow used need (2 * len))
      else Inr len)"
  by pat_completeness auto
termination
  by (relation "measure (\<lambda>(used, need, len). nat (need + used - len))") auto

declare grow.simps [simp del]

definition expand :: "int \<Rightarrow> DataBuffer \<Rightarrow> DataBuffer result" where
  "expand need b =
     (case db_start b of
        None \<Rightarrow> ub_bind (grow 0 need 256) (\<lambda>len.
          Inr \<lparr>db_start = Some (replicate (nat len) None), db_data = 0, db_free = 0\<rparr>)
      | Some m \<Rightarrow>
          if db_end b - db_free b < need then
            ub_bind (to_int32 ((db_end b - db_free b) + db_data b)) (\<lambda>flen.
            ub_bind (to_int32 (db_free b - db_data b)) (\<lambda>dlen.
            ub_bind (if flen < need then Inr True
                     else ub_bind (to_int32 (flen * 4)) (\<lambda>flen4. Inr (flen4 < dlen))) (\<lambda>reallocate.
            if reallocate then
              ub_bind (to_int32 (db_end b * 2)) (\<lambda>bufsize.
              ub_bind (grow dlen need bufsize) (\<lambda>bufsize.
              ub_bind (if dlen > 0 then mem_slice m (db_data b) dlen else Inr []) (\<lambda>d.
                Inr \<lparr>db_start = Some (d @ replicate (nat bufsize - length d) None),
                     db_data = 0, db_free = dlen\<rparr>)))
            else
              ub_bind (mem_slice m (db_data b) dlen) (\<lambda>d.
              ub_bind (mem_write m 0 d) (\<lambda>m.
                Inr \<lparr>db_start = Some m, db_data = 0, db_free = dlen\<rparr>)))))
          else Inr b)"

definition ensureFree :: "int \<Rightarrow> DataBuffer \<Rightarrow> DataBuffer result" where
  "ensureFree len b = expand len b"

subsection \<open>Writing\<close>

definition writeInt8 :: "8 word \<Rightarrow> DataBuffer \<Rightarrow> DataBuffer result" where
  "writeInt8 n b = ub_bind (expand 1 b) (\<lambda>b.
     ub_bind (store_byte (db_free b) n b) (\<lambda>b. Inr (b\<lparr>db_free := db_free b + 1\<rparr>)))"

definition writeInt16 :: "16 word \<Rightarrow> DataBuffer \<Rightarrow> DataBuffer result" where
  "writeInt16 n b = ub_bind (expand 2 b) (\<lambda>b.
     ub_bind (store_byte (db_free b + 1) (ucast n) b) (\<lambda>b. let n = drop_bit 8 n in
     ub_bind (store_byte (db_free b) (ucast n) b) (\<lambda>b. Inr (b\<lparr>db_free := db_free b + 2\<rparr>))))"

definition writeInt32 :: "32 word \<Rightarrow> DataBuffer \<Rightarrow> DataBuffer result" where
  "writeInt32 n b = ub_bind (expand 4 b) (\<lambda>b.
     ub_bind (store_byte (db_free b + 3) (ucast n) b) (\<lambda>b. let n = drop_bit 8 n in
     ub_bind (store_byte (db_free b + 2) (ucast n) b) (\<lambda>b. let n = drop_bit 8 n in
     ub_bind (store_byte (db_free b + 1) (ucast n) b) (\<lambda>b. let n = drop_bit 8 n in
     ub_bind (store_byte (db_free b) (ucast n) b) (\<lambda>b. Inr (b\<lparr>db_free := db_free b + 4\<rparr>))))))"

definition writeInt64 :: "64 word \<Rightarrow> DataBuffer \<Rightarrow> DataBuffer result" where
  "writeInt64 n b = ub_bind (expand 8 b) (\<lambda>b.
     ub_bind (store_byte (db_free b + 7) (ucast n) b) (\<lambda>b. let n = drop_bit 8 n in
     ub_bind (store_byte (db_free b + 6) (ucast n) b) (\<lambda>b. let n = drop_bit 8 n in
     ub_bind (store_byte (db_free b + 5) (ucast n) b) (\<lambda>b. let n = drop_bit 8 n in
     ub_bind (store_byte (db_free b + 4) (ucast n) b) (\<lambda>b. let n = drop_bit 8 n in
     ub_bind (store_byte (db_free b + 3) (ucast n) b) (\<lambda>b. let n = drop_bit 8 n in
     ub_bind (store_byte (db_free b + 2) (ucast n) b) (\<lambda>b. let n = drop_bit 8 n in
     ub_bind (store_byte (db_free b + 1) (ucast n) b) (\<lambda>b. let n = drop_bit 8 n in
     ub_bind (store_byte (db_free b) (ucast n) b) (\<lambda>b. Inr (b\<lparr>db_free := db_free b + 8\<rparr>))))))))))"

definition writeBytes :: "byte list \<Rightarrow> DataBuffer \<Rightarrow> DataBuffer result" where
  "writeBytes src b =
     ub_bind (to_int32 (int (length src))) (\<lambda>len.
     ub_bind (expand len b) (\<lambda>b.
     ub_bind (store_bytes (db_free b) (map Some src) b) (\<lambda>b. Inr (b\<lparr>db_free := db_free b + len\<rparr>))))"

text \<open>The \<open>fill\<close> functions write at the start of an array \<open>dst\<close>.\<close>

definition fillInt8 :: "block \<Rightarrow> 8 word \<Rightarrow> block result" where
  "fillInt8 dst n = slot_store dst 0 (Some n)"

definition fillInt16 :: "block \<Rightarrow> 16 word \<Rightarrow> block result" where
  "fillInt16 dst n =
     ub_bind (slot_store dst 1 (Some (ucast n))) (\<lambda>dst. let n = drop_bit 8 n in slot_store dst 0 (Some (ucast n)))"

definition fillInt32 :: "block \<Rightarrow> 32 word \<Rightarrow> block result" where
  "fillInt32 dst n =
     ub_bind (slot_store dst 3 (Some (ucast n))) (\<lambda>dst. let n = drop_bit 8 n in
     ub_bind (slot_store dst 2 (Some (ucast n))) (\<lambda>dst. let n = drop_bit 8 n in
     ub_bind (slot_store dst 1 (Some (ucast n))) (\<lambda>dst. let n = drop_bit 8 n in
     slot_store dst 0 (Some (ucast n)))))"

definition fillInt64 :: "block \<Rightarrow> 64 word \<Rightarrow> block result" where
  "fillInt64 dst n =
     ub_bind (slot_store dst 7 (Some (ucast n))) (\<lambda>dst. let n = drop_bit 8 n in
     ub_bind (slot_store dst 6 (Some (ucast n))) (\<lambda>dst. let n = drop_bit 8 n in
     ub_bind (slot_store dst 5 (Some (ucast n))) (\<lambda>dst. let n = drop_bit 8 n in
     ub_bind (slot_store dst 4 (Some (ucast n))) (\<lambda>dst. let n = drop_bit 8 n in
     ub_bind (slot_store dst 3 (Some (ucast n))) (\<lambda>dst. let n = drop_bit 8 n in
     ub_bind (slot_store dst 2 (Some (ucast n))) (\<lambda>dst. let n = drop_bit 8 n in
     ub_bind (slot_store dst 1 (Some (ucast n))) (\<lambda>dst. let n = drop_bit 8 n in
     slot_store dst 0 (Some (ucast n)))))))))"

text \<open>A C string is the list of its bytes before the terminator; \<open>None\<close> is \<open>NULL\<close>.\<close>

definition writeString :: "byte list option \<Rightarrow> DataBuffer \<Rightarrow> DataBuffer result" where
  "writeString str b =
     ub_bind (case str of None \<Rightarrow> Inr 0 | Some s \<Rightarrow> to_int32 (int (length s))) (\<lambda>len.
     ub_bind (if len > 0 then to_int32 (len + 1) else Inr len) (\<lambda>len.
     ub_bind (to_int32 (len + 4)) (\<lambda>need.
     ub_bind (expand need b) (\<lambda>b.
     ub_bind (writeInt32 (word_of_int len) b) (\<lambda>b.
     if len > 0 then
       ub_bind (store_bytes (db_free b) (map Some (case str of None \<Rightarrow> [] | Some s \<Rightarrow> s @ [0])) b) (\<lambda>b.
         Inr (b\<lparr>db_free := db_free b + len\<rparr>))
     else Inr b)))))"

definition writeStdString :: "byte list \<Rightarrow> DataBuffer \<Rightarrow> DataBuffer result" where
  "writeStdString str b = writeString (Some (takeWhile (\<lambda>c. c \<noteq> 0) str)) b"

primrec write_elems :: "('w \<Rightarrow> DataBuffer \<Rightarrow> DataBuffer result) \<Rightarrow> 'w list \<Rightarrow> DataBuffer \<Rightarrow> DataBuffer result" where
  "write_elems put [] b = Inr b"
| "write_elems put (v # vs) b = ub_bind (put v b) (write_elems put vs)"

definition writeVector32 :: "32 word list \<Rightarrow> DataBuffer \<Rightarrow> DataBuffer result" where
  "writeVector32 v b =
     (let iLen = (word_of_nat (length v) :: 32 word) in
      ub_bind (writeInt32 iLen b) (write_elems writeInt32 (take (unat iLen) v)))"

definition writeVector64 :: "64 word list \<Rightarrow> DataBuffer \<Rightarrow> DataBuffer result" where
  "writeVector64 v b =
     (let iLen = (word_of_nat (length v) :: 32 word) in
      ub_bind (writeInt32 iLen b) (write_elems writeInt64 (take (unat iLen) v)))"

subsection \<open>Reading\<close>

definition readInt8 :: "DataBuffer \<Rightarrow> (8 word \<times> DataBuffer) result" where
  "readInt8 b = ub_bind (load_byte b (db_data b)) (\<lambda>n. Inr (n, b\<lparr>db_data := db_data b + 1\<rparr>))"

definition readInt16 :: "DataBuffer \<Rightarrow> (16 word \<times> DataBuffer) result" where
  "readInt16 b =
     ub_bind (load_byte b (db_data b)) (\<lambda>c0. let n = (ucast c0 :: 16 word); n = push_bit 8 n in
     ub_bind (load_byte b (db_data b + 1)) (\<lambda>c1. let n = n OR ucast c1 in
     Inr (n, b\<lparr>db_data := db_data b + 2\<rparr>)))"

definition readInt32 :: "DataBuffer \<Rightarrow> (32 word \<times> DataBuffer) result" where
  "readInt32 b =
     ub_bind (load_byte b (db_data b)) (\<lambda>c0. let n = (ucast c0 :: 32 word); n = push_bit 8 n in
     ub_bind (load_byte b (db_data b + 1)) (\<lambda>c1. let n = n OR ucast c1; n = push_bit 8 n in
     ub_bind (load_byte b (db_data b + 2)) (\<lambda>c2. let n = n OR ucast c2; n = push_bit 8 n in
     ub_bind (load_byte b (db_data b + 3)) (\<lambda>c3. let n = n OR ucast c3; b = b\<lparr>db_data := db_data b + 4\<rparr> in
     if db_free b \<ge> db_data b then Inr (n, b) else Inl AssertFailed))))"

definition readInt64 :: "DataBuffer \<Rightarrow> (64 word \<times> DataBuffer) result" where
  "readInt64 b =
     ub_bind (load_byte b (db_data b)) (\<lambda>c0. let n = (ucast c0 :: 64 word); n = push_bit 8 n in
     ub_bind (load_byte b (db_data b + 1)) (\<lambda>c1. let n = n OR ucast c1; n = push_bit 8 n in
     ub_bind (load_byte b (db_data b + 2)) (\<lambda>c2. let n = n OR ucast c2; n = push_bit 8 n in
     ub_bind (load_byte b (db_data b + 3)) (\<lambda>c3. let n = n OR ucast c3; n = push_bit 8 n in
     ub_bind (load_byte b (db_data b + 4)) (\<lambda>c4. let n = n OR ucast c4; n = push_bit 8 n in
     ub_bind (load_byte b (db_data b + 5)) (\<lambda>c5. let n = n OR ucast c5; n = push_bit 8 n in
     ub_bind (load_byte b (db_data b + 6)) (\<lambda>c6. let n = n OR ucast c6; n = push_bit 8 n in
     ub_bind (load_byte b (db_data b + 7)) (\<lambda>c7. let n = n OR ucast c7; b = b\<lparr>db_data := db_data b + 8\<rparr> in
     if db_free b \<ge> db_data b then Inr (n, b) else Inl AssertFailed))))))))"

definition readBytes :: "int \<Rightarrow> DataBuffer \<Rightarrow> (block option \<times> DataBuffer) result" where
  "readBytes len b =
     (if db_data b + len > db_free b then Inr (None, b)
      else ub_bind (load_bytes b (db_data b) len) (\<lambda>dst.
        let b = b\<lparr>db_data := db_data b + len\<rparr> in
        if db_free b \<ge> db_data b then Inr (Some dst, b) else Inl AssertFailed))"

text \<open>\<open>readString\<close> gets a destination of \<open>len\<close> bytes, or \<open>NULL\<close>; it returns its success and the destination.\<close>

definition readString :: "block option \<Rightarrow> int \<Rightarrow> DataBuffer \<Rightarrow> (bool \<times> block option \<times> DataBuffer) result" where
  "readString str len b =
     (if db_data b + 4 > db_free b then Inr (False, str, b)
      else ub_bind (readInt32 b) (\<lambda>(w, b).
        let slen = sint w;
            slen = (if db_free b - db_data b < slen then db_free b - db_data b else slen);
            (str, len) = (if str = None \<and> slen > 0 then (Some (replicate (nat slen) None), slen) else (str, len));
            len = (if len > slen then slen else len)
        in ub_bind
             (if len > 0 then
                ub_bind (load_bytes b (db_data b) len) (\<lambda>src.
                case str of None \<Rightarrow> Inl OutOfBounds
                | Some s \<Rightarrow> ub_bind (mem_write s 0 src) (\<lambda>s.
                    ub_bind (slot_store s (nat (len - 1)) (Some 0)) (\<lambda>s. Inr (Some s))))
              else Inr str)
             (\<lambda>str. let b = b\<lparr>db_data := db_data b + slen\<rparr> in
               if db_free b \<ge> db_data b then Inr (True, str, b) else Inl AssertFailed)))"

primrec read_elems :: "(DataBuffer \<Rightarrow> ('w \<times> DataBuffer) result) \<Rightarrow> nat \<Rightarrow> DataBuffer \<Rightarrow> ('w list \<times> DataBuffer) result" where
  "read_elems get 0 b = Inr ([], b)"
| "read_elems get (Suc n) b =
     ub_bind (get b) (\<lambda>(v, b). ub_bind (read_elems get n b) (\<lambda>(vs, b). Inr (v # vs, b)))"

definition readVector32 :: "32 word list \<Rightarrow> DataBuffer \<Rightarrow> (32 word list \<times> DataBuffer) result" where
  "readVector32 v b =
     ub_bind (readInt32 b) (\<lambda>(len, b). ub_bind (read_elems readInt32 (unat len) b) (\<lambda>(vs, b). Inr (v @ vs, b)))"

definition readVector64 :: "64 word list \<Rightarrow> DataBuffer \<Rightarrow> (64 word list \<times> DataBuffer) result" where
  "readVector64 v b =
     ub_bind (readInt32 b) (\<lambda>(len, b). ub_bind (read_elems readInt64 (unat len) b) (\<lambda>(vs, b). Inr (v @ vs, b)))"

text \<open>
  \<open>findBytes\<close> compares the unsigned byte \<open>_pdata[i]\<close> with the plain \<open>char\<close> \<open>findstr[0]\<close>, both
  promoted to \<open>int\<close>; \<open>char\<close> is signed on the platforms the library names.
\<close>

primrec findBytes_loop :: "byte list \<Rightarrow> DataBuffer \<Rightarrow> nat \<Rightarrow> int \<Rightarrow> int result" where
  "findBytes_loop findstr b 0 i = Inr (- 1)"
| "findBytes_loop findstr b (Suc n) i =
     ub_bind (load_byte b (db_data b + i)) (\<lambda>c.
     if uint c = sint (findstr ! 0) then
       ub_bind (load_bytes b (db_data b + i) (int (length findstr))) (\<lambda>d.
         if d = map Some findstr then Inr i else findBytes_loop findstr b n (i + 1))
     else findBytes_loop findstr b n (i + 1))"

definition findBytes :: "byte list \<Rightarrow> DataBuffer \<Rightarrow> int result" where
  "findBytes findstr b =
     (if findstr = [] then Inl OutOfBounds
      else ub_bind (to_int32 (db_free b - db_data b - int (length findstr) + 1)) (\<lambda>dLen.
        findBytes_loop findstr b (nat dLen) 0))"

section \<open>Big-endian integers\<close>

lemma word_split_byte: "push_bit 8 (drop_bit 8 w) OR ucast (ucast w :: 8 word) = (w :: 'a :: len word)"
  by (rule bit_word_eqI) (auto simp: bit_simps)

definition be16 :: "16 word \<Rightarrow> byte list" where
  "be16 n = [ucast (drop_bit 8 n), ucast n]"

definition be32 :: "32 word \<Rightarrow> byte list" where
  "be32 n = [ucast (drop_bit 24 n), ucast (drop_bit 16 n), ucast (drop_bit 8 n), ucast n]"

definition be64 :: "64 word \<Rightarrow> byte list" where
  "be64 n = [ucast (drop_bit 56 n), ucast (drop_bit 48 n), ucast (drop_bit 40 n), ucast (drop_bit 32 n),
             ucast (drop_bit 24 n), ucast (drop_bit 16 n), ucast (drop_bit 8 n), ucast n]"

lemmas be_defs = be16_def be32_def be64_def

lemma length_be [simp]: "length (be16 v) = 2" "length (be32 w) = 4" "length (be64 n) = 8"
  by (simp_all add: be_defs)

lemma ucast_top_byte:
  "ucast (ucast (drop_bit 8 v :: 16 word) :: 8 word) = drop_bit 8 v"
  "ucast (ucast (drop_bit 24 w :: 32 word) :: 8 word) = drop_bit 24 w"
  "ucast (ucast (drop_bit 56 n :: 64 word) :: 8 word) = drop_bit 56 n"
  by (rule bit_word_eqI; auto simp: bit_simps dest: bit_imp_le_length)+

lemma word_split_at:
  "push_bit 8 (drop_bit (k + 8) w) OR ucast (ucast (drop_bit k w) :: 8 word) = drop_bit k (w :: 'a :: len word)"
  using word_split_byte [of "drop_bit k w"] by (simp add: drop_bit_drop_bit add.commute)

lemmas word_join = ucast_top_byte word_split_byte
  word_split_at [of 8, simplified] word_split_at [of 16, simplified] word_split_at [of 24, simplified]
  word_split_at [of 32, simplified] word_split_at [of 40, simplified] word_split_at [of 48, simplified]

section \<open>What a buffer holds\<close>

definition db_holds :: "DataBuffer \<Rightarrow> byte list \<Rightarrow> bool" where
  "db_holds b xs \<longleftrightarrow>
     (case db_start b of
        None \<Rightarrow> db_data b = 0 \<and> db_free b = 0 \<and> xs = []
      | Some m \<Rightarrow> 0 \<le> db_data b \<and> db_free b = db_data b + int (length xs) \<and> db_free b \<le> int (length m)
                  \<and> 0 < length m \<and> length m < 2 ^ 29
                  \<and> take (length xs) (drop (nat (db_data b)) m) = map Some xs)"

lemma db_holds_Some:
  "db_start b = Some m \<Longrightarrow> db_holds b xs \<longleftrightarrow>
     0 \<le> db_data b \<and> db_free b = db_data b + int (length xs) \<and> db_free b \<le> int (length m)
     \<and> 0 < length m \<and> length m < 2 ^ 29 \<and> take (length xs) (drop (nat (db_data b)) m) = map Some xs"
  by (simp add: db_holds_def)

lemma db_holds_unique: "db_holds b xs \<Longrightarrow> db_holds b ys \<Longrightarrow> xs = ys"
  by (auto simp: db_holds_def split: option.splits)

lemma holds_len: "db_holds b xs \<Longrightarrow> db_free b - db_data b = int (length xs)"
  by (auto simp: db_holds_def split: option.splits)

lemma load_holds:
  assumes "db_holds b xs" and "i < length xs"
  shows "load_byte b (db_data b + int i) = Inr (xs ! i)"
proof -
  obtain m where m: "db_start b = Some m" using assms by (cases "db_start b") (auto simp: db_holds_def)
  note h = assms(1) [unfolded db_holds_Some [OF m]]
  have fits: "nat (db_data b) + length xs \<le> length m" using h by linarith
  have "take (length xs) (drop (nat (db_data b)) m) ! i = map Some xs ! i" using h by metis
  then have "m ! (nat (db_data b) + i) = Some (xs ! i)" using assms(2) conjunct1 [OF h] fits by simp
  moreover have "nat (db_data b + int i) = nat (db_data b) + i" using h by (simp add: nat_add_distrib)
  ultimately show ?thesis using m h assms(2) fits by (simp add: load_byte_def)
qed

lemma load_bytes_holds:
  assumes "db_holds b xs" and "i + n \<le> length xs"
  shows "load_bytes b (db_data b + int i) (int n) = Inr (map Some (take n (drop i xs)))"
proof (cases "db_start b")
  case None
  then show ?thesis using assms by (simp add: load_bytes_def db_holds_def)
next
  case (Some m)
  note h = assms(1) [unfolded db_holds_Some [OF Some]]
  have "take n (drop i (take (length xs) (drop (nat (db_data b)) m))) = map Some (take n (drop i xs))"
    using h by (simp add: take_map drop_map)
  moreover have "min n (length xs - i) = n" using assms(2) by simp
  ultimately have "take n (drop (nat (db_data b) + i) m) = map Some (take n (drop i xs))"
    by (simp add: drop_take add.commute)
  then show ?thesis using Some h assms(2) by (simp add: load_bytes_def mem_slice_def nat_add_distrib)
qed

lemma holds_drop:
  assumes "db_holds b xs" and "n \<le> length xs"
  shows "db_holds (b\<lparr>db_data := db_data b + int n\<rparr>) (drop n xs)"
proof (cases "db_start b")
  case None
  then show ?thesis using assms by (simp add: db_holds_def)
next
  case (Some m)
  note h = assms(1) [unfolded db_holds_Some [OF Some]]
  have "drop n (take (length xs) (drop (nat (db_data b)) m)) = map Some (drop n xs)"
    using h by (simp add: drop_map)
  then have "take (length xs - n) (drop (n + nat (db_data b)) m) = map Some (drop n xs)"
    by (simp add: drop_take)
  then show ?thesis
    using Some h assms(2) by (simp add: db_holds_def nat_add_distrib add.commute)
qed

lemma holds_append:
  assumes h: "db_holds b xs" and m: "db_start b = Some m" and fit: "int (length bs) \<le> db_end b - db_free b"
  shows "db_holds (b\<lparr>db_start := Some (take (nat (db_free b)) m @ map Some bs @ drop (nat (db_free b) + length bs) m),
                     db_free := db_free b + int (length bs)\<rparr>) (xs @ bs)"
proof -
  note h' = h [unfolded db_holds_Some [OF m]]
  define d where "d = nat (db_data b)"
  have f: "nat (db_free b) = d + length xs" "db_data b = int d" using h' by (auto simp: d_def)
  have len: "d + length xs + length bs \<le> length m" using fit m h' f by (simp add: db_end_def)
  have "take (d + length xs) m = take d m @ map Some xs"
    using h' by (simp add: take_add d_def)
  then show ?thesis
    using h' len f by (auto simp: db_holds_def)
qed

section \<open>Storage management\<close>

lemma grow_ok:
  assumes "0 < len" and "used + need \<le> 2 ^ 27" and "len < 2 ^ 29"
  shows "\<exists>r. grow used need len = Inr r \<and> need \<le> r - used \<and> len \<le> r \<and> r < 2 ^ 29"
  using assms
proof (induction used need len rule: grow.induct)
  case (1 used need len)
  show ?case
  proof (cases "len - used < need")
    case True
    then have "2 * len < 2 ^ 29" using 1(3) by simp
    then obtain r where "grow used need (2 * len) = Inr r" "need \<le> r - used" "2 * len \<le> r" "r < 2 ^ 29"
      using 1 True by auto
    then show ?thesis using True 1(2) \<open>2 * len < 2 ^ 29\<close> by (subst grow.simps) auto
  qed (use 1 in \<open>subst grow.simps, auto\<close>)
qed

lemma holds_fresh:
  assumes "length xs \<le> n" and "0 < n" and "n < 2 ^ 29"
  shows "db_holds \<lparr>db_start = Some (map Some xs @ replicate (n - length xs) None), db_data = 0, db_free = int (length xs)\<rparr> xs"
  using assms by (simp add: db_holds_def)

lemma expand_ok:
  assumes h: "db_holds b xs" and need: "0 \<le> need" "int (length xs) + need \<le> 2 ^ 27"
  shows "\<exists>b'. expand need b = Inr b' \<and> db_holds b' xs \<and> db_start b' \<noteq> None \<and> need \<le> db_end b' - db_free b'"
proof (cases "db_start b")
  case None
  obtain r where "grow 0 need 256 = Inr r" "need \<le> r" "256 \<le> r" "r < 2 ^ 29"
    using grow_ok [of 256 0 need] need by auto
  then show ?thesis using None h by (auto simp: expand_def db_holds_def db_end_def)
next
  case (Some m)
  note h' = h [unfolded db_holds_Some [OF Some]]
  have e: "db_end b = int (length m)" using Some by (simp add: db_end_def)
  have sl: "mem_slice m (db_data b) (int (length xs)) = Inr (map Some xs)"
    using h' by (simp add: mem_slice_def)
  have len: "length xs \<le> length m" and pos: "0 < length m" using h' by simp_all
  show ?thesis
  proof (cases "db_end b - db_free b < need")
    case False
    then show ?thesis using Some h by (simp add: expand_def)
  next
    case True
    define re where "re \<longleftrightarrow> int (length m) - int (length xs) < need \<or> (int (length m) - int (length xs)) * 4 < int (length xs)"
    have fl: "to_int32 (db_end b - db_free b + db_data b) = Inr (int (length m) - int (length xs))"
      "to_int32 (db_free b - db_data b) = Inr (int (length xs))"
      "to_int32 ((int (length m) - int (length xs)) * 4) = Inr ((int (length m) - int (length xs)) * 4)"
      using h' e len need by (auto simp: to_int32_def)
    show ?thesis
    proof (cases re)
      case re: True
      have "int (length m) * 2 < 2 ^ 29" using re need h' unfolding re_def by auto
      then obtain r where r: "grow (int (length xs)) need (int (length m) * 2) = Inr r" "need \<le> r - int (length xs)"
        "int (length m) * 2 \<le> r" "r < 2 ^ 29" "to_int32 (db_end b * 2) = Inr (int (length m) * 2)"
        using grow_ok [of "int (length m) * 2" "int (length xs)" need] need h' e by (auto simp: to_int32_def)
      have pos: "0 < r" using r(3) pos by linarith
      have "expand need b = Inr \<lparr>db_start = Some (map Some xs @ replicate (nat r - length xs) None), db_data = 0,
          db_free = int (length xs)\<rparr>"
        using Some True fl re r sl unfolding re_def by (auto simp: expand_def)
      moreover have "db_holds \<lparr>db_start = Some (map Some xs @ replicate (nat r - length xs) None), db_data = 0,
          db_free = int (length xs)\<rparr> xs"
        using r need h' pos by (intro holds_fresh) auto
      ultimately show ?thesis using r need h' by (auto simp: db_end_def)
    next
      case re: False
      have "expand need b = Inr \<lparr>db_start = Some (map Some xs @ drop (length xs) m), db_data = 0,
          db_free = int (length xs)\<rparr>"
        using Some True fl re sl len unfolding re_def by (auto simp: expand_def mem_write_def)
      then show ?thesis
        using re len h' need unfolding re_def by (auto simp: db_holds_def db_end_def)
    qed
  qed
qed

section \<open>Writing appends, reading consumes\<close>

definition appends :: "(DataBuffer \<Rightarrow> DataBuffer result) \<Rightarrow> byte list \<Rightarrow> bool" where
  "appends f bs \<longleftrightarrow> (\<forall>b xs. db_holds b xs \<longrightarrow> length xs + length bs \<le> 2 ^ 27 \<longrightarrow>
     (\<exists>b'. f b = Inr b' \<and> db_holds b' (xs @ bs)))"

definition consumes :: "(DataBuffer \<Rightarrow> ('v \<times> DataBuffer) result) \<Rightarrow> byte list \<Rightarrow> 'v \<Rightarrow> bool" where
  "consumes g bs v \<longleftrightarrow> (\<forall>b xs. db_holds b (bs @ xs) \<longrightarrow>
     g b = Inr (v, b\<lparr>db_data := db_data b + int (length bs)\<rparr>) \<and> db_holds (b\<lparr>db_data := db_data b + int (length bs)\<rparr>) xs)"

definition overwrite :: "block \<Rightarrow> nat \<Rightarrow> block \<Rightarrow> block" where
  "overwrite m f bs = take f m @ bs @ drop (f + length bs) m"

lemma overwrite_Nil: "overwrite m f [] = m"
  by (simp add: overwrite_def)

lemma overwrite_Cons:
  assumes "f < length m"
  shows "overwrite m f (x # bs) = (overwrite m (Suc f) bs)[f := x]"
proof -
  have "take (Suc f) m = take f m @ [m ! f]" using assms by (simp add: take_Suc_conv_app_nth)
  then show ?thesis using assms by (simp add: overwrite_def list_update_append)
qed

lemma store_byte_Some:
  "db_start b = Some m \<Longrightarrow> i < length m \<Longrightarrow> store_byte (int i) v b = Inr (b\<lparr>db_start := Some (m[i := Some v])\<rparr>)"
  by (simp add: store_byte_def)

text \<open>A write that makes room and fills it is an append.\<close>

lemma expand_appends:
  assumes need: "need = int (length bs)" and put: "\<And>b m f. db_start b = Some m \<Longrightarrow> db_free b = int f \<Longrightarrow> f + length bs \<le> length m \<Longrightarrow>
      put b = Inr (b\<lparr>db_start := Some (overwrite m f (map Some bs)), db_free := int (f + length bs)\<rparr>)"
  shows "appends (\<lambda>b. ub_bind (expand need b) put) bs"
  unfolding appends_def need
proof (intro allI impI)
  fix b xs assume h: "db_holds b xs" "length xs + length bs \<le> 2 ^ 27"
  then obtain b' m where e: "expand (int (length bs)) b = Inr b'" "db_holds b' xs" "db_start b' = Some m"
    "int (length bs) \<le> db_end b' - db_free b'"
    using expand_ok [of b xs "int (length bs)"] by auto
  obtain f where f: "db_free b' = int f"
    using e(2) db_holds_Some [OF e(3)] by (metis nonneg_int_cases add_nonneg_nonneg of_nat_0_le_iff)
  then have "f + length bs \<le> length m" using e(3,4) by (simp add: db_end_def)
  from put [OF e(3) f this] holds_append [OF e(2,3,4)] f e(1)
  show "\<exists>b'. ub_bind (expand (int (length bs)) b) put = Inr b' \<and> db_holds b' (xs @ bs)"
    by (auto simp: overwrite_def)
qed

lemma int_offset: "int f + numeral k = int (f + numeral k)" "int f + 1 = int (Suc f)"
  by simp_all

lemmas write_simps = store_byte_Some overwrite_Cons overwrite_Nil be_defs int_offset drop_bit_drop_bit

lemma writeInt8_appends: "appends (writeInt8 n) [n]"
  unfolding writeInt8_def [abs_def] by (rule expand_appends) (simp_all add: write_simps)

lemma writeInt16_appends: "appends (writeInt16 n) (be16 n)"
  unfolding writeInt16_def [abs_def] by (rule expand_appends) (simp_all add: write_simps eval_nat_numeral del: of_nat_Suc of_nat_add)

lemma writeInt32_appends: "appends (writeInt32 n) (be32 n)"
  unfolding writeInt32_def [abs_def] by (rule expand_appends) (simp_all add: write_simps eval_nat_numeral del: of_nat_Suc of_nat_add)

lemma writeInt64_appends: "appends (writeInt64 n) (be64 n)"
  unfolding writeInt64_def [abs_def] by (rule expand_appends) (simp_all add: write_simps eval_nat_numeral del: of_nat_Suc of_nat_add)

lemma holds_shift:
  assumes "db_holds b (bs @ xs)"
  shows "db_holds (b\<lparr>db_data := db_data b + int (length bs)\<rparr>) xs" and "db_data b + int (length bs) \<le> db_free b"
  using holds_drop [OF assms, of "length bs"] holds_len [OF assms] by simp_all

lemma load_at:
  assumes "db_holds b (bs @ xs)"
  shows "0 < length bs \<Longrightarrow> load_byte b (db_data b) = Inr (bs ! 0)"
    and "1 < length bs \<Longrightarrow> load_byte b (db_data b + 1) = Inr (bs ! 1)"
    and "numeral k < length bs \<Longrightarrow> load_byte b (db_data b + numeral k) = Inr (bs ! numeral k)"
  using load_holds [OF assms, of 0] load_holds [OF assms, of 1] load_holds [OF assms, of "numeral k"]
  by (simp_all add: nth_append)

lemma readInt8_consumes: "consumes readInt8 [n] n"
  unfolding consumes_def
proof (intro allI impI conjI)
  fix b xs assume h: "db_holds b ([n] @ xs)"
  show "readInt8 b = Inr (n, b\<lparr>db_data := db_data b + int (length [n])\<rparr>)"
    using load_at [OF h] by (simp add: readInt8_def)
qed (rule holds_shift)

lemma readInt16_consumes: "consumes readInt16 (be16 n) n"
  unfolding consumes_def
proof (intro allI impI conjI)
  fix b xs assume h: "db_holds b (be16 n @ xs)"
  show "readInt16 b = Inr (n, b\<lparr>db_data := db_data b + int (length (be16 n))\<rparr>)"
    using load_at [OF h] by (simp add: readInt16_def be_defs word_join del: push_bit_or push_bit_push_bit)
qed (rule holds_shift)

lemma readInt32_consumes: "consumes readInt32 (be32 n) n"
  unfolding consumes_def
proof (intro allI impI conjI)
  fix b xs assume h: "db_holds b (be32 n @ xs)"
  show "readInt32 b = Inr (n, b\<lparr>db_data := db_data b + int (length (be32 n))\<rparr>)"
    using load_at [OF h] holds_shift(2) [OF h] by (simp add: readInt32_def be_defs word_join del: push_bit_or push_bit_push_bit)
qed (rule holds_shift)

lemma readInt64_consumes: "consumes readInt64 (be64 n) n"
  unfolding consumes_def
proof (intro allI impI conjI)
  fix b xs assume h: "db_holds b (be64 n @ xs)"
  show "readInt64 b = Inr (n, b\<lparr>db_data := db_data b + int (length (be64 n))\<rparr>)"
    using load_at [OF h] holds_shift(2) [OF h] by (simp add: readInt64_def be_defs word_join del: push_bit_or push_bit_push_bit)
qed (rule holds_shift)

section \<open>Codecs\<close>

lemma appends_bind:
  assumes "appends f bs" and "appends g cs"
  shows "appends (\<lambda>b. ub_bind (f b) g) (bs @ cs)"
  unfolding appends_def
proof (intro allI impI)
  fix b xs assume h: "db_holds b xs" "length xs + length (bs @ cs) \<le> 2 ^ 27"
  then obtain b1 where b1: "f b = Inr b1" "db_holds b1 (xs @ bs)"
    using assms(1) unfolding appends_def by (metis add.assoc add_leD1 length_append)
  then obtain b2 where "g b1 = Inr b2" "db_holds b2 ((xs @ bs) @ cs)"
    using assms(2) h(2) unfolding appends_def by (metis add.assoc length_append)
  then show "\<exists>b'. ub_bind (f b) g = Inr b' \<and> db_holds b' (xs @ bs @ cs)" using b1 by simp
qed

lemma appends_Nil: "appends Inr []"
  by (simp add: appends_def)

lemma consumesD:
  "consumes g bs v \<Longrightarrow> db_holds b (bs @ xs) \<Longrightarrow>
     g b = Inr (v, b\<lparr>db_data := db_data b + int (length bs)\<rparr>) \<and> db_holds (b\<lparr>db_data := db_data b + int (length bs)\<rparr>) xs"
  by (simp add: consumes_def)

lemma consumes_bind:
  assumes "consumes g bs v" and "consumes (h v) cs w"
  shows "consumes (\<lambda>b. ub_bind (g b) (\<lambda>(v, b). h v b)) (bs @ cs) w"
  unfolding consumes_def
proof (intro allI impI)
  fix b xs assume "db_holds b ((bs @ cs) @ xs)"
  then have h: "db_holds b (bs @ cs @ xs)" by simp
  let ?b = "b\<lparr>db_data := db_data b + int (length bs)\<rparr>"
  have g: "g b = Inr (v, ?b)" "db_holds ?b (cs @ xs)" using consumesD [OF assms(1) h] by auto
  have "?b\<lparr>db_data := db_data ?b + int (length cs)\<rparr> = b\<lparr>db_data := db_data b + int (length (bs @ cs))\<rparr>" by simp
  then show "ub_bind (g b) (\<lambda>(v, b). h v b) = Inr (w, b\<lparr>db_data := db_data b + int (length (bs @ cs))\<rparr>)
      \<and> db_holds (b\<lparr>db_data := db_data b + int (length (bs @ cs))\<rparr>) xs"
    using g(1) consumesD [OF assms(2) g(2)] by (simp add: add.assoc)
qed

lemma consumes_return: "consumes (\<lambda>b. Inr (v, b)) [] v"
  by (simp add: consumes_def)

definition enc_vec :: "('w \<Rightarrow> byte list) \<Rightarrow> 'w list \<Rightarrow> byte list" where
  "enc_vec enc v = be32 (word_of_nat (length v)) @ concat (map enc v)"

lemma unat_length: "length v < 2 ^ 32 \<Longrightarrow> unat (word_of_nat (length v) :: 32 word) = length v"
  by (simp add: unat_of_nat take_bit_nat_eq_self)

text \<open>A pair of a writer and a reader that agree on an encoding.\<close>

locale wire_codec =
  fixes put :: "'w \<Rightarrow> DataBuffer \<Rightarrow> DataBuffer result" and get :: "DataBuffer \<Rightarrow> ('w \<times> DataBuffer) result"
    and enc :: "'w \<Rightarrow> byte list"
  assumes put: "appends (put v) (enc v)" and get: "consumes get (enc v) v"
begin

lemma put_elems: "appends (write_elems put vs) (concat (map enc vs))"
proof (induction vs)
  case Nil
  then show ?case using appends_Nil by (simp add: appends_def)
next
  case (Cons v vs)
  then show ?case using appends_bind [OF put Cons.IH, of v] by simp
qed

lemma get_elems: "consumes (read_elems get (length vs)) (concat (map enc vs)) vs"
proof (induction vs)
  case Nil
  then show ?case by (simp add: consumes_def)
next
  case (Cons v vs)
  have "consumes (\<lambda>b. ub_bind (read_elems get (length vs) b) (\<lambda>(ws, b). Inr (v # ws, b))) (concat (map enc vs)) (v # vs)"
    using consumes_bind [OF Cons.IH, where h = "\<lambda>ws b. Inr (v # ws, b)"] consumes_return by fastforce
  from consumes_bind [OF get, where h = "\<lambda>v b. ub_bind (read_elems get (length vs) b) (\<lambda>(ws, b). Inr (v # ws, b))", OF this]
  show ?case by simp
qed

lemma put_vec:
  assumes "length v < 2 ^ 32"
  shows "appends (\<lambda>b. ub_bind (writeInt32 (word_of_nat (length v)) b)
           (write_elems put (take (unat (word_of_nat (length v) :: 32 word)) v))) (enc_vec enc v)"
  using appends_bind [OF writeInt32_appends put_elems] assms by (simp add: unat_length enc_vec_def)

lemma get_vec:
  assumes "length v < 2 ^ 32"
  shows "consumes (\<lambda>b. ub_bind (readInt32 b) (\<lambda>(len, b). ub_bind (read_elems get (unat len) b)
           (\<lambda>(vs, b). Inr (u @ vs, b)))) (enc_vec enc v) (u @ v)"
proof -
  have "consumes (\<lambda>b. ub_bind (read_elems get (unat (word_of_nat (length v) :: 32 word)) b) (\<lambda>(vs, b). Inr (u @ vs, b)))
      (concat (map enc v)) (u @ v)"
    using consumes_bind [OF get_elems, where h = "\<lambda>vs b. Inr (u @ vs, b)"] consumes_return assms
    by (fastforce simp: unat_length)
  from consumes_bind [OF readInt32_consumes, where h = "\<lambda>len b. ub_bind (read_elems get (unat len) b) (\<lambda>(vs, b). Inr (u @ vs, b))", OF this]
  show ?thesis by (simp add: enc_vec_def)
qed

end

interpretation int8: wire_codec writeInt8 readInt8 "\<lambda>n. [n]"
  by unfold_locales (rule writeInt8_appends readInt8_consumes)+

interpretation int16: wire_codec writeInt16 readInt16 be16
  by unfold_locales (rule writeInt16_appends readInt16_consumes)+

interpretation int32: wire_codec writeInt32 readInt32 be32
  by unfold_locales (rule writeInt32_appends readInt32_consumes)+

interpretation int64: wire_codec writeInt64 readInt64 be64
  by unfold_locales (rule writeInt64_appends readInt64_consumes)+

definition enc_str :: "byte list \<Rightarrow> byte list" where
  "enc_str s = (if s = [] then be32 0 else be32 (word_of_nat (length s + 1)) @ s @ [0])"

lemma expand_enough: "db_start b \<noteq> None \<Longrightarrow> need \<le> db_end b - db_free b \<Longrightarrow> expand need b = Inr b"
  by (auto simp: expand_def)

lemma writeInt32_room:
  assumes "db_start b = Some m" and "db_free b = int f" and "f + 4 \<le> length m"
  shows "writeInt32 n b = Inr (b\<lparr>db_start := Some (overwrite m f (map Some (be32 n))), db_free := int (f + 4)\<rparr>)"
proof -
  have "expand 4 b = Inr b" using assms by (intro expand_enough) (auto simp: db_end_def)
  then show ?thesis
    using assms by (simp add: writeInt32_def write_simps eval_nat_numeral del: of_nat_Suc of_nat_add)
qed

lemma holds_overwrite:
  assumes "db_holds b xs" and "db_start b = Some m" and "db_free b = int f" and "f + length bs \<le> length m"
  shows "db_holds (b\<lparr>db_start := Some (overwrite m f (map Some bs)), db_free := int (f + length bs)\<rparr>) (xs @ bs)"
  using holds_append [OF assms(1,2), of bs] assms(2-4) by (simp add: overwrite_def db_end_def)

lemma length_overwrite: "f + length bs \<le> length m \<Longrightarrow> length (overwrite m f bs) = length m"
  by (simp add: overwrite_def)

lemma writeString_appends:
  assumes "length s < 2 ^ 27"
  shows "appends (writeString (Some s)) (enc_str s)"
  unfolding appends_def
proof (intro allI impI)
  fix b xs assume h: "db_holds b xs" "length xs + length (enc_str s) \<le> 2 ^ 27"
  define k where "k = (if s = [] then 0 else length s + 1)"
  have k: "length xs + (k + 4) \<le> 2 ^ 27" using h(2) by (auto simp: k_def enc_str_def)
  obtain b1 m where b1: "expand (int (k + 4)) b = Inr b1" "db_holds b1 xs" "db_start b1 = Some m"
      "int (k + 4) \<le> db_end b1 - db_free b1"
    using expand_ok [OF h(1), of "int (k + 4)"] k by auto
  obtain f where f: "db_free b1 = int f"
    using b1(2) db_holds_Some [OF b1(3)] by (metis nonneg_int_cases add_nonneg_nonneg of_nat_0_le_iff)
  have room: "f + (k + 4) \<le> length m" using b1(3,4) f by (simp add: db_end_def)
  let ?m = "overwrite m f (map Some (be32 (word_of_nat k)))"
  let ?b2 = "b1\<lparr>db_start := Some ?m, db_free := int (f + 4)\<rparr>"
  have b2: "writeInt32 (word_of_nat k) b1 = Inr ?b2" using b1(3) f room by (intro writeInt32_room) auto
  have h2: "db_holds ?b2 (xs @ be32 (word_of_nat k))"
    using holds_overwrite [OF b1(2,3) f, of "be32 (word_of_nat k)"] room by simp
  have pre: "writeString (Some s) b = ub_bind (expand (int (k + 4)) b) (\<lambda>b. ub_bind (writeInt32 (word_of_nat k) b) (\<lambda>b.
      if 0 < k then ub_bind (store_bytes (db_free b) (map Some (s @ [0])) b) (\<lambda>b. Inr (b\<lparr>db_free := db_free b + int k\<rparr>))
      else Inr b))"
    using assms by (auto simp: writeString_def to_int32_def k_def add.commute)
  show "\<exists>b'. writeString (Some s) b = Inr b' \<and> db_holds b' (xs @ enc_str s)"
  proof (cases "s = []")
    case True
    then show ?thesis using pre b1(1) b2 h2 by (simp add: k_def enc_str_def)
  next
    case False
    have "db_holds (?b2\<lparr>db_start := Some (overwrite ?m (f + 4) (map Some (s @ [0]))), db_free := int (f + 4 + length (s @ [0]))\<rparr>)
        ((xs @ be32 (word_of_nat k)) @ s @ [0])"
      using room False by (intro holds_overwrite [OF h2]) (auto simp: length_overwrite k_def)
    then show ?thesis
      using pre b1(1) b2 False room
      by (simp add: k_def enc_str_def store_bytes_def mem_write_def length_overwrite overwrite_def [of _ "f + 4"] nat_add_distrib
          add.commute add.left_commute)
  qed
qed

lemma sint_word_of_nat: "k < 2 ^ 31 \<Longrightarrow> sint (word_of_nat k :: 32 word) = int k"
  by (simp add: signed_of_nat signed_take_bit_int_eq_self)

definition copied_string :: "byte list \<Rightarrow> block option \<Rightarrow> block option" where
  "copied_string s dst =
     (if s = [] then dst
      else case dst of
        None \<Rightarrow> Some (map Some (s @ [0]))
      | Some d \<Rightarrow> (let n = min (length d) (length s + 1) in
          if n = 0 then dst else Some (map Some (take (n - 1) s @ [0]) @ drop n d)))"

lemma terminate:
  assumes "0 < n" and "n \<le> length s + 1" and "n \<le> length d"
  shows "(map Some (take n (s @ [0])) @ drop n d)[n - 1 := Some 0] = map Some (take (n - 1) s @ [0]) @ drop n d"
proof -
  have "take n (s @ [0]) = take (n - 1) (s @ [0]) @ [(s @ [0]) ! (n - 1)]"
    using assms by (metis Suc_diff_1 Suc_le_lessD length_append_singleton Suc_eq_plus1 take_Suc_conv_app_nth)
  moreover have "length (take (n - 1) (s @ [0])) = n - 1" using assms by simp
  moreover have "take (n - 1) (s @ [0]) = take (n - 1) s" using assms by simp
  ultimately show ?thesis using assms by (simp add: list_update_append)
qed

lemma readString_ok:
  assumes h: "db_holds b (enc_str s @ xs)" and s: "length s + 1 < 2 ^ 31"
    and dst: "dst = None \<or> len = int (length (the dst))"
  shows "readString dst len b = Inr (True, copied_string s dst, b\<lparr>db_data := db_data b + int (length (enc_str s))\<rparr>)"
proof -
  define k where "k = (if s = [] then 0 else length s + 1)"
  let ?t = "if s = [] then [] else s @ [0]"
  have e: "enc_str s = be32 (word_of_nat k) @ ?t" by (simp add: enc_str_def k_def)
  let ?b = "b\<lparr>db_data := db_data b + 4\<rparr>"
  have r: "readInt32 b = Inr (word_of_nat k, ?b)" and h1: "db_holds ?b (?t @ xs)"
    using consumesD [OF readInt32_consumes, of b "word_of_nat k" "?t @ xs"] h e by auto
  have k31: "sint (word_of_nat k :: 32 word) = int k" using s by (intro sint_word_of_nat) (simp add: k_def)
  have fr: "\<not> db_data b + 4 > db_free b" "db_free b - (db_data b + 4) = int (length ?t) + int (length xs)"
    using holds_len [OF h] holds_len [OF h1] by (auto simp: e)
  have t: "length ?t = k" by (simp add: k_def)
  show ?thesis
  proof (cases "s = []")
    case True
    then show ?thesis
      using r k31 fr e by (auto simp: readString_def copied_string_def k_def)
  next
    case False
    define n where "n = (case dst of None \<Rightarrow> k | Some d \<Rightarrow> min (length d) k)"
    have nk: "n \<le> k" by (auto simp: n_def split: option.splits)
    have ld: "load_bytes ?b (db_data b + 4) (int n) = Inr (map Some (take n (s @ [0])))"
      using load_bytes_holds [OF h1, of 0 n] nk False t by (cases "n = k") auto
    have sl: "sint (word_of_nat k :: 32 word) = int k \<and> \<not> db_free b - (db_data b + 4) < int k \<and> 0 < k"
      using k31 fr(2) t False by (simp add: k_def)
    have fin: "db_data b + 4 + int k \<le> db_free b" using sl by simp
    have le: "length (enc_str s) = k + 4" using e t by simp
    show ?thesis
    proof (cases dst)
      case None
      then have "readString dst len b = Inr (True, Some (map Some (take (k - 1) s @ [0])), ?b\<lparr>db_data := db_data b + 4 + int k\<rparr>)"
        using r sl fr(1) ld nk fin terminate [of k s "replicate k None"] False
        by (simp add: readString_def n_def mem_write_def k_def)
      then show ?thesis using None False le by (simp add: copied_string_def k_def)
    next
      case (Some d)
      then have n: "n = min (length d) k" and len: "len = int (length d)" using dst by (auto simp: n_def)
      have nd: "n \<le> length d" "n \<le> length s + 1" using n False by (auto simp: k_def)
      have wr: "mem_write d 0 (map Some (take n (s @ [0]))) = Inr (map Some (take n (s @ [0])) @ drop n d)"
        using nd by (simp add: mem_write_def del: take_append)
      have st: "slot_store (map Some (take n (s @ [0])) @ drop n d) (nat (int n - 1)) (Some 0)
          = Inr (map Some (take (n - 1) s @ [0]) @ drop n d)" if "n \<noteq> 0"
        using terminate [of n s d] nd that by (simp add: slot_store_def nat_diff_distrib)
      have "readString dst len b = ub_bind
          (if 0 < int n then ub_bind (load_bytes ?b (db_data b + 4) (int n)) (\<lambda>src. ub_bind (mem_write d 0 src) (\<lambda>s.
                    ub_bind (slot_store s (nat (int n - 1)) (Some 0)) (\<lambda>s. Inr (Some s)))) else Inr dst)
          (\<lambda>str. Inr (True, str, ?b\<lparr>db_data := db_data b + 4 + int k\<rparr>))"
        using r sl fr(1) fin n Some len by (cases "length d > k") (simp_all add: readString_def Let_def)
      also have "\<dots> = ub_bind
          (if 0 < n then Inr (Some (map Some (take (n - 1) s @ [0]) @ drop n d)) else Inr dst)
          (\<lambda>str. Inr (True, str, ?b\<lparr>db_data := db_data b + 4 + int k\<rparr>))"
        using ld wr st by (cases "n = 0") simp_all
      finally have "readString dst len b = \<dots>" .
      then show ?thesis using Some False le n by (cases "length d") (auto simp: copied_string_def k_def Let_def)
    qed
  qed
qed

lemma writeBytes_appends: "length bs < 2 ^ 31 \<Longrightarrow> appends (writeBytes bs) bs"
  using expand_appends [where bs = bs and put = "\<lambda>b. ub_bind (store_bytes (db_free b) (map Some bs) b)
      (\<lambda>b. Inr (b\<lparr>db_free := db_free b + int (length bs)\<rparr>))", OF refl]
  by (simp add: writeBytes_def [abs_def] to_int32_def store_bytes_def mem_write_def overwrite_def)

lemma readBytes_consumes: "consumes (readBytes (int (length bs))) bs (Some (map Some bs))"
  unfolding consumes_def
proof (intro allI impI conjI)
  fix b xs assume h: "db_holds b (bs @ xs)"
  show "readBytes (int (length bs)) b = Inr (Some (map Some bs), b\<lparr>db_data := db_data b + int (length bs)\<rparr>)"
    using load_bytes_holds [OF h, of 0 "length bs"] holds_shift(2) [OF h] by (simp add: readBytes_def)
qed (rule holds_shift)

section \<open>Messages\<close>

text \<open>A client that writes a message field by field and reads it back with the same layout.\<close>

datatype field = F8 "8 word" | F16 "16 word" | F32 "32 word" | F64 "64 word" | FBytes "byte list"
  | FString "byte list" | FVec32 "32 word list" | FVec64 "64 word list"

fun write_field :: "field \<Rightarrow> DataBuffer \<Rightarrow> DataBuffer result" where
  "write_field (F8 n) b = writeInt8 n b"
| "write_field (F16 n) b = writeInt16 n b"
| "write_field (F32 n) b = writeInt32 n b"
| "write_field (F64 n) b = writeInt64 n b"
| "write_field (FBytes bs) b = writeBytes bs b"
| "write_field (FString s) b = writeString (Some s) b"
| "write_field (FVec32 v) b = writeVector32 v b"
| "write_field (FVec64 v) b = writeVector64 v b"

fun read_field :: "field \<Rightarrow> DataBuffer \<Rightarrow> (field \<times> DataBuffer) result" where
  "read_field (F8 _) b = ub_bind (readInt8 b) (\<lambda>(n, b). Inr (F8 n, b))"
| "read_field (F16 _) b = ub_bind (readInt16 b) (\<lambda>(n, b). Inr (F16 n, b))"
| "read_field (F32 _) b = ub_bind (readInt32 b) (\<lambda>(n, b). Inr (F32 n, b))"
| "read_field (F64 _) b = ub_bind (readInt64 b) (\<lambda>(n, b). Inr (F64 n, b))"
| "read_field (FBytes bs) b = ub_bind (readBytes (int (length bs)) b) (\<lambda>(d, b). Inr (FBytes (map the (the d)), b))"
| "read_field (FString _) b = ub_bind (readString None 0 b) (\<lambda>(ok, d, b).
     Inr (FString (case d of None \<Rightarrow> [] | Some d \<Rightarrow> butlast (map the d)), b))"
| "read_field (FVec32 _) b = ub_bind (readVector32 [] b) (\<lambda>(v, b). Inr (FVec32 v, b))"
| "read_field (FVec64 _) b = ub_bind (readVector64 [] b) (\<lambda>(v, b). Inr (FVec64 v, b))"

fun enc_field :: "field \<Rightarrow> byte list" where
  "enc_field (F8 n) = [n]"
| "enc_field (F16 n) = be16 n"
| "enc_field (F32 n) = be32 n"
| "enc_field (F64 n) = be64 n"
| "enc_field (FBytes bs) = bs"
| "enc_field (FString s) = enc_str s"
| "enc_field (FVec32 v) = enc_vec be32 v"
| "enc_field (FVec64 v) = enc_vec be64 v"

definition field_ok :: "field \<Rightarrow> bool" where
  "field_ok f \<longleftrightarrow> length (enc_field f) \<le> 2 ^ 27"

lemma length_concat_enc:
  "length (concat (map be32 v)) = 4 * length v" "length (concat (map be64 w)) = 8 * length w"
  by (induction v, simp_all) (induction w, simp_all)

lemma consumes_wrap: "consumes g bs v \<Longrightarrow> consumes (\<lambda>b. ub_bind (g b) (\<lambda>(n, b). Inr (F n, b))) bs (F v)"
  using consumes_bind [where h = "\<lambda>n b. Inr (F n, b)", of g bs v "[]" "F v"] consumes_return by fastforce

lemma write_field_appends: "field_ok f \<Longrightarrow> appends (write_field f) (enc_field f)"
proof (cases f)
  case (FString s)
  assume "field_ok f"
  then have "length s < 2 ^ 27" using FString by (auto simp: field_ok_def enc_str_def split: if_splits)
  from writeString_appends [OF this] show ?thesis using FString by (simp add: appends_def)
next
  case (FVec32 v)
  assume "field_ok f"
  then have "length v < 2 ^ 32" using FVec32 by (simp add: field_ok_def enc_vec_def length_concat_enc)
  from int32.put_vec [OF this] show ?thesis using FVec32 by (simp add: appends_def writeVector32_def Let_def)
next
  case (FVec64 v)
  assume "field_ok f"
  then have "length v < 2 ^ 32" using FVec64 by (simp add: field_ok_def enc_vec_def length_concat_enc)
  from int64.put_vec [OF this] show ?thesis using FVec64 by (simp add: appends_def writeVector64_def Let_def)
qed (use int8.put int16.put int32.put int64.put writeBytes_appends in \<open>auto simp: appends_def field_ok_def\<close>)

lemma read_string_field:
  assumes "length s + 1 < 2 ^ 31"
  shows "consumes (read_field (FString t)) (enc_str s) (FString s)"
  unfolding consumes_def
proof (intro allI impI conjI)
  fix b xs assume h: "db_holds b (enc_str s @ xs)"
  show "read_field (FString t) b = Inr (FString s, b\<lparr>db_data := db_data b + int (length (enc_str s))\<rparr>)"
    using readString_ok [OF h assms, of None 0] by (simp add: copied_string_def butlast_append comp_def)
qed (rule holds_shift)

lemma read_field_consumes: "field_ok f \<Longrightarrow> consumes (read_field f) (enc_field f) f"
proof (cases f)
  case (FString s)
  assume "field_ok f"
  then have "length s + 1 < 2 ^ 31" using FString by (auto simp: field_ok_def enc_str_def split: if_splits)
  from read_string_field [OF this] show ?thesis using FString by simp
next
  case (FVec32 v)
  assume "field_ok f"
  then have "length v < 2 ^ 32" using FVec32 by (simp add: field_ok_def enc_vec_def length_concat_enc)
  from consumes_wrap [OF int32.get_vec [OF this, of "[]"], of FVec32] show ?thesis
    using FVec32 by (simp add: consumes_def readVector32_def)
next
  case (FVec64 v)
  assume "field_ok f"
  then have "length v < 2 ^ 32" using FVec64 by (simp add: field_ok_def enc_vec_def length_concat_enc)
  from consumes_wrap [OF int64.get_vec [OF this, of "[]"], of FVec64] show ?thesis
    using FVec64 by (simp add: consumes_def readVector64_def)
next
  case (FBytes bs)
  then show ?thesis
    using consumes_wrap [OF readBytes_consumes, of bs "\<lambda>d. FBytes (map the (the d))"] by (simp add: consumes_def comp_def)
next
  case (F8 n)
  then show ?thesis using consumes_wrap [OF int8.get, where F = F8] by (simp add: consumes_def)
next
  case (F16 n)
  then show ?thesis using consumes_wrap [OF int16.get, where F = F16] by (simp add: consumes_def)
next
  case (F32 n)
  then show ?thesis using consumes_wrap [OF int32.get, where F = F32] by (simp add: consumes_def)
next
  case (F64 n)
  then show ?thesis using consumes_wrap [OF int64.get, where F = F64] by (simp add: consumes_def)
qed

primrec read_fields :: "field list \<Rightarrow> DataBuffer \<Rightarrow> (field list \<times> DataBuffer) result" where
  "read_fields [] b = Inr ([], b)"
| "read_fields (f # fs) b =
     ub_bind (read_field f b) (\<lambda>(g, b). ub_bind (read_fields fs b) (\<lambda>(gs, b). Inr (g # gs, b)))"

lemma write_fields_appends:
  "\<forall>f \<in> set fs. field_ok f \<Longrightarrow> appends (write_elems write_field fs) (concat (map enc_field fs))"
proof (induction fs)
  case Nil
  then show ?case using appends_Nil by (simp add: appends_def)
next
  case (Cons f fs)
  then show ?case using appends_bind [OF write_field_appends, of f] by simp
qed

lemma read_fields_consumes:
  "\<forall>f \<in> set fs. field_ok f \<Longrightarrow> consumes (read_fields fs) (concat (map enc_field fs)) fs"
proof (induction fs)
  case Nil
  then show ?case by (simp add: consumes_def)
next
  case (Cons f fs)
  have "consumes (\<lambda>b. ub_bind (read_fields fs b) (\<lambda>(gs, b). Inr (f # gs, b))) (concat (map enc_field fs)) (f # fs)"
    using consumes_bind [OF Cons.IH, where h = "\<lambda>gs b. Inr (f # gs, b)"] consumes_return Cons.prems by fastforce
  from consumes_bind [OF read_field_consumes, where h = "\<lambda>g b. ub_bind (read_fields fs b) (\<lambda>(gs, b). Inr (g # gs, b))", OF _ this]
  show ?case using Cons.prems by simp
qed

section \<open>Properties\<close>

text \<open>
  C12. Any message of integers, byte blocks, strings and vectors, written field by field
  into a buffer in any reachable internal state, is appended in its big-endian encoding,
  and reading it with the same layout returns every field and leaves the buffer empty;
  the buffer grows as needed (up to 128 MiB of contents, where no 32-bit computation of
  \<open>expand\<close> overflows).
\<close>

theorem DataBuffer_roundtrip:
  assumes "db_holds b []" and "length (concat (map enc_field fs)) \<le> 2 ^ 27"
  shows "\<exists>b1 b2. write_elems write_field fs b = Inr b1 \<and> db_holds b1 (concat (map enc_field fs))
    \<and> read_fields fs b1 = Inr (fs, b2) \<and> db_holds b2 []"
proof -
  have "length (enc_field f) \<le> length (concat (map enc_field fs))" if "f \<in> set fs" for f
    using that by (induction fs) auto
  then have ok: "\<forall>f \<in> set fs. field_ok f" using assms(2) unfolding field_ok_def by (meson le_trans)
  then obtain b1 where b1: "write_elems write_field fs b = Inr b1" "db_holds b1 (concat (map enc_field fs) @ [])"
    using write_fields_appends assms unfolding appends_def by fastforce
  from consumesD [OF read_fields_consumes [OF ok] b1(2)] b1 show ?thesis by auto
qed

lemma DataBuffer_roundtrip_witness:
  "\<exists>b1 b2. write_elems write_field [F16 513, FString [104, 105], FVec32 [7]] DataBuffer_new = Inr b1
     \<and> db_holds b1 [2, 1, 0, 0, 0, 3, 104, 105, 0, 0, 0, 0, 1, 0, 0, 0, 7]
     \<and> read_fields [F16 513, FString [104, 105], FVec32 [7]] b1 = Inr ([F16 513, FString [104, 105], FVec32 [7]], b2)"
proof -
  let ?fs = "[F16 513, FString [104, 105], FVec32 [7]]" and ?e = "[2, 1, 0, 0, 0, 3, 104, 105, 0, 0, 0, 0, 1, 0, 0, 0, 7]"
  have e: "concat (map enc_field ?fs) = ?e"
    by (simp add: be_defs enc_str_def enc_vec_def)
  have "db_holds DataBuffer_new []" by (simp add: db_holds_def DataBuffer_new_def)
  moreover have "length (concat (map enc_field ?fs)) \<le> 2 ^ 27" unfolding e by simp
  ultimately show ?thesis using DataBuffer_roundtrip [of DataBuffer_new ?fs] unfolding e by blast
qed

lemma nat_digits:
  "(2 :: nat) = Suc 1" "(3 :: nat) = Suc 2" "(4 :: nat) = Suc 3" "(5 :: nat) = Suc 4" "(6 :: nat) = Suc 5" "(7 :: nat) = Suc 6"
  by simp_all

lemma fill_overwrites:
  "0 < length dst \<Longrightarrow> fillInt8 dst v8 = Inr (overwrite dst 0 (map Some [v8]))"
  "2 \<le> length dst \<Longrightarrow> fillInt16 dst v16 = Inr (overwrite dst 0 (map Some (be16 v16)))"
  "4 \<le> length dst \<Longrightarrow> fillInt32 dst v32 = Inr (overwrite dst 0 (map Some (be32 v32)))"
  "8 \<le> length dst \<Longrightarrow> fillInt64 dst v64 = Inr (overwrite dst 0 (map Some (be64 v64)))"
  by (cases "dst = []";
      simp add: fillInt8_def fillInt16_def fillInt32_def fillInt64_def write_simps nat_digits)+

lemma clear_holds: "db_holds b xs \<Longrightarrow> db_holds (DataBuffer_clear b) []"
  by (auto simp: DataBuffer_clear_def db_holds_def split: option.splits)

lemma drain_holds:
  assumes "db_holds b xs"
  shows "db_holds (drainData (int n) b) (drop n xs)"
proof (cases "n < length xs")
  case True
  then show ?thesis
    using holds_drop [OF assms, of n] holds_len [OF assms] by (simp add: drainData_def)
next
  case False
  have "db_holds (b\<lparr>db_data := 0, db_free := 0\<rparr>) []" using clear_holds [OF assms] by (simp add: DataBuffer_clear_def)
  then show ?thesis
    using False holds_len [OF assms] by (auto simp: drainData_def DataBuffer_clear_def)
qed

lemma strip_holds:
  assumes "db_holds b xs" and "n \<le> length xs"
  shows "\<exists>b'. stripData (int n) b = Inr b' \<and> db_holds b' (take (length xs - n) xs)"
proof (cases "db_start b")
  case None
  then show ?thesis using assms by (auto simp: stripData_def db_holds_def)
next
  case (Some m)
  note h = assms(1) [unfolded db_holds_Some [OF Some]]
  have "take (length xs - n) (take (length xs) (drop (nat (db_data b)) m)) = map Some (take (length xs - n) xs)"
    using h by (simp add: take_map)
  then have "take (length xs - n) (drop (nat (db_data b)) m) = map Some (take (length xs - n) xs)"
    by (simp add: min_def)
  then show ?thesis using Some h assms(2) by (auto simp: stripData_def db_holds_def)
qed

lemma shrink_holds:
  assumes "db_holds b xs"
  shows "\<exists>b'. DataBuffer_shrink b = Inr b' \<and> db_holds b' xs \<and> (length xs \<le> 2048 \<longrightarrow> db_end b' \<le> 2048)"
proof (cases "db_start b")
  case None
  then show ?thesis using assms by (simp add: DataBuffer_shrink_def db_end_def)
next
  case (Some m)
  note h = assms [unfolded db_holds_Some [OF Some]]
  have sl: "(if 0 < length xs then mem_slice m (db_data b) (int (length xs)) else Inr []) = Inr (map Some xs)"
    using h by (auto simp: mem_slice_def)
  show ?thesis
  proof (cases "db_end b \<le> MAX_BUFFER_SIZE \<or> db_free b - db_data b > MAX_BUFFER_SIZE")
    case True
    then show ?thesis using Some assms holds_len [OF assms] by (auto simp: DataBuffer_shrink_def MAX_BUFFER_SIZE_def)
  next
    case False
    then have len: "length xs \<le> 2048" using holds_len [OF assms] by (simp add: MAX_BUFFER_SIZE_def)
    have "DataBuffer_shrink b = Inr \<lparr>db_start = Some (map Some xs @ replicate (2048 - length xs) None), db_data = 0,
        db_free = int (length xs)\<rparr>"
      using Some False h sl len holds_len [OF assms]
      by (auto simp: DataBuffer_shrink_def MAX_BUFFER_SIZE_def to_int32_def)
    then show ?thesis using holds_fresh [OF len] len by (auto simp: db_end_def)
  qed
qed

text \<open>
  The storage operations keep the contents: \<open>ensureFree\<close> makes the room asked for and
  changes nothing else, bytes stored at \<open>getFree()\<close> and announced with \<open>pourData\<close> are
  appended, \<open>drainData\<close> and \<open>stripData\<close> remove at the two ends, \<open>shrink\<close> returns to the small
  block, \<open>clear\<close> and \<open>destroy\<close> empty the buffer, the lengths are right, asserting operations
  fail when asked for more than there is, and the \<open>fill\<close> functions overwrite the start
  of an array with the bytes the \<open>write\<close> functions append.
\<close>

theorem DataBuffer_storage:
  assumes "db_holds b xs" and "length xs + n \<le> 2 ^ 27"
  shows "(\<exists>b'. ensureFree (int n) b = Inr b' \<and> db_holds b' xs \<and> int n \<le> db_end b' - db_free b'
            \<and> (\<forall>bs. length bs = n \<longrightarrow>
                 (\<exists>b''. ub_bind (store_bytes (db_free b') (map Some bs) b') (pourData (int n)) = Inr b''
                    \<and> db_holds b'' (xs @ bs))))
    \<and> db_holds (drainData (int n) b) (drop n xs)
    \<and> (n \<le> length xs \<longrightarrow> (\<exists>b'. stripData (int n) b = Inr b' \<and> db_holds b' (take (length xs - n) xs)))
    \<and> (length xs < n \<longrightarrow> stripData (int n) b = Inl AssertFailed)
    \<and> (db_end b - db_free b < int n \<longrightarrow> pourData (int n) b = Inl AssertFailed)
    \<and> (\<exists>b'. DataBuffer_shrink b = Inr b' \<and> db_holds b' xs \<and> (length xs \<le> 2048 \<longrightarrow> db_end b' \<le> 2048))
    \<and> db_holds (DataBuffer_clear b) [] \<and> DataBuffer_destroy b = DataBuffer_new
    \<and> getDataLen b = Inr (int (length xs)) \<and> getFreeLen b = Inr (db_end b - db_free b)
    \<and> (8 \<le> length dst \<longrightarrow> fillInt8 dst v8 = Inr (overwrite dst 0 (map Some [v8]))
         \<and> fillInt16 dst v16 = Inr (overwrite dst 0 (map Some (be16 v16)))
         \<and> fillInt32 dst v32 = Inr (overwrite dst 0 (map Some (be32 v32)))
         \<and> fillInt64 dst v64 = Inr (overwrite dst 0 (map Some (be64 v64))))"
proof (intro conjI impI)
  obtain b' m where b': "expand (int n) b = Inr b'" "db_holds b' xs" "db_start b' = Some m" "int n \<le> db_end b' - db_free b'"
    using expand_ok [OF assms(1), of "int n"] assms(2) by auto
  have "\<exists>b''. ub_bind (store_bytes (db_free b') (map Some bs) b') (pourData (int n)) = Inr b'' \<and> db_holds b'' (xs @ bs)"
    if "length bs = n" for bs
    using holds_append [OF b'(2,3), of bs] b'(2-4) that
    by (auto simp: store_bytes_def mem_write_def pourData_def db_end_def db_holds_def)
  then show "\<exists>b'. ensureFree (int n) b = Inr b' \<and> db_holds b' xs \<and> int n \<le> db_end b' - db_free b'
            \<and> (\<forall>bs. length bs = n \<longrightarrow>
                 (\<exists>b''. ub_bind (store_bytes (db_free b') (map Some bs) b') (pourData (int n)) = Inr b''
                    \<and> db_holds b'' (xs @ bs)))"
    using b' by (auto simp: ensureFree_def)
next
  show "\<exists>b'. stripData (int n) b = Inr b' \<and> db_holds b' (take (length xs - n) xs)" if "n \<le> length xs"
    using strip_holds [OF assms(1) that] .
  show "DataBuffer_destroy b = DataBuffer_new"
    using assms(1) by (cases b) (auto simp: DataBuffer_destroy_def DataBuffer_new_def db_holds_def split: option.splits)
  show "getDataLen b = Inr (int (length xs))" "getFreeLen b = Inr (db_end b - db_free b)"
    using assms holds_len [OF assms(1)]
    by (auto simp: getDataLen_def getFreeLen_def to_int32_def db_end_def db_holds_def split: option.splits)
next
  assume "8 \<le> length dst"
  then have "0 < length dst" "2 \<le> length dst" "4 \<le> length dst" "8 \<le> length dst" by auto
  note fills = fill_overwrites(1) [OF this(1)] fill_overwrites(2) [OF this(2)] fill_overwrites(3) [OF this(3)]
    fill_overwrites(4) [OF this(4)]
  show "fillInt8 dst v8 = Inr (overwrite dst 0 (map Some [v8]))"
    "fillInt16 dst v16 = Inr (overwrite dst 0 (map Some (be16 v16)))"
    "fillInt32 dst v32 = Inr (overwrite dst 0 (map Some (be32 v32)))"
    "fillInt64 dst v64 = Inr (overwrite dst 0 (map Some (be64 v64)))" by (rule fills)+
qed (use assms(1) drain_holds shrink_holds clear_holds holds_len [OF assms(1)]
      in \<open>auto simp: stripData_def pourData_def\<close>)

lemma DataBuffer_storage_witness:
  "\<exists>b'. ensureFree 3 DataBuffer_new = Inr b' \<and> db_holds b' [] \<and> 3 \<le> db_end b' - db_free b'"
proof -
  have "db_holds DataBuffer_new []" by (simp add: db_holds_def DataBuffer_new_def)
  from DataBuffer_storage [OF this, of 3 "[]" 0 0 0 0] show ?thesis by auto
qed

lemma findBytes_loop_spec:
  assumes h: "db_holds b xs" and ne: "fs \<noteq> []" and rng: "i + n + length fs = length xs + 1"
  shows "findBytes_loop fs b n (int i) =
    (if uint (fs ! 0) < 128 then
       (case List.find (\<lambda>j. take (length fs) (drop j xs) = fs) [i..<i + n] of None \<Rightarrow> Inr (- 1) | Some j \<Rightarrow> Inr (int j))
     else Inr (- 1))"
  using rng
proof (induction n arbitrary: i)
  case (Suc n)
  have lt: "i < length xs" "i + length fs \<le> length xs" using Suc.prems ne by (cases fs; simp)+
  have l1: "load_byte b (db_data b + int i) = Inr (xs ! i)" using load_holds [OF h lt(1)] .
  have l2: "load_bytes b (db_data b + int i) (int (length fs)) = Inr (map Some (take (length fs) (drop i xs)))"
    using load_bytes_holds [OF h lt(2)] .
  have first: "take (length fs) (drop i xs) = fs \<Longrightarrow> xs ! i = fs ! 0"
    using ne lt by (metis Nat.add_0_right length_greater_0_conv nth_drop nth_take less_or_eq_imp_le)
  have sg: "sint (fs ! 0) = (if uint (fs ! 0) < 128 then uint (fs ! 0) else uint (fs ! 0) - 256)"
    using sint_uint_char [of "fs ! 0"] .
  have upt: "[i..<i + Suc n] = i # [Suc i..<Suc i + n]" by (simp add: upt_conv_Cons)
  have IH: "findBytes_loop fs b n (int i + 1) = (if uint (fs ! 0) < 128 then
       (case List.find (\<lambda>j. take (length fs) (drop j xs) = fs) [Suc i..<Suc i + n] of None \<Rightarrow> Inr (- 1) | Some j \<Rightarrow> Inr (int j))
     else Inr (- 1))" using Suc.IH [of "Suc i"] Suc.prems by (simp add: add.commute)
  have inj: "map Some (take (length fs) (drop i xs)) = map Some fs \<longleftrightarrow> take (length fs) (drop i xs) = fs"
    by (simp add: inj_map_eq_map)
  have pos: "0 \<le> uint (xs ! i)" "uint (xs ! i) = uint (fs ! 0) \<longleftrightarrow> xs ! i = fs ! 0" "uint (fs ! 0) < 256"
    using uint_lt2p [of "fs ! 0"] by (auto simp: word_uint_eq_iff)
  show ?case
    unfolding upt using l1 l2 IH inj first pos sg by (auto split: if_splits)
qed simp

text \<open>
  \<open>findBytes\<close> returns the index of the first occurrence of a pattern in the contents,
  or \<open>-1\<close> if there is none, when the first byte of the pattern is below \<open>0x80\<close>; a pattern that
  starts with a byte from \<open>0x80\<close> on is never found, because the signed \<open>char\<close> is compared
  with an unsigned byte.
\<close>

theorem DataBuffer_findBytes:
  assumes "db_holds b xs" and "fs \<noteq> []" and "length fs < 2 ^ 30"
  shows "(uint (fs ! 0) < 128 \<longrightarrow> findBytes fs b =
      (case List.find (\<lambda>j. take (length fs) (drop j xs) = fs) [0..<length xs + 1 - length fs] of
         None \<Rightarrow> Inr (- 1) | Some j \<Rightarrow> Inr (int j)))
    \<and> (128 \<le> uint (fs ! 0) \<longrightarrow> findBytes fs b = Inr (- 1))"
proof -
  have len: "length xs < 2 ^ 29" using assms(1) by (auto simp: db_holds_def split: option.splits)
  have to: "to_int32 (db_free b - db_data b - int (length fs) + 1) = Inr (int (length xs) + 1 - int (length fs))"
    using holds_len [OF assms(1)] len assms(3) by (auto simp: to_int32_def)
  have n: "nat (int (length xs) + 1 - int (length fs)) = length xs + 1 - length fs" by simp
  have "findBytes fs b = findBytes_loop fs b (length xs + 1 - length fs) (int 0)"
    using assms(2) to n by (simp add: findBytes_def)
  moreover have "findBytes_loop fs b (length xs + 1 - length fs) (int 0) =
    (if uint (fs ! 0) < 128 then
       (case List.find (\<lambda>j. take (length fs) (drop j xs) = fs) [0..<length xs + 1 - length fs] of
          None \<Rightarrow> Inr (- 1) | Some j \<Rightarrow> Inr (int j))
     else Inr (- 1))"
  proof (cases "length fs \<le> length xs + 1")
    case True
    then show ?thesis using findBytes_loop_spec [OF assms(1,2), of 0 "length xs + 1 - length fs"] by simp
  qed simp
  ultimately show ?thesis by simp
qed

definition found_buffer :: DataBuffer where
  "found_buffer = \<lparr>db_start = Some (map Some [9, 200, 7, 200]), db_data = 1, db_free = 4\<rparr>"

lemma found_buffer_holds: "db_holds found_buffer [200, 7, 200]"
  by (simp add: found_buffer_def db_holds_def)

lemma DataBuffer_findBytes_witness:
  "findBytes [7, 200] found_buffer = Inr 1 \<and> findBytes [200] found_buffer = Inr (- 1)"
  using DataBuffer_findBytes [OF found_buffer_holds, of "[7, 200]"] DataBuffer_findBytes [OF found_buffer_holds, of "[200]"]
  by (simp add: upt_rec)


definition stale_buffer :: DataBuffer where
  "stale_buffer = \<lparr>db_start = Some (map Some [255, 255, 255, 252, 1]), db_data = 0, db_free = 4\<rparr>"


end
