(* ===== verification/Lru_Spec.thy ===== *)
theory Lru_Spec
  imports Prelude
begin

text \<open>
  What a least-recently-used cache promises.  Its state is abstracted to the list of its
  entries, most recently used first; the locale \<open>lru_cache\<close> states the contract of \<open>put\<close>
  and \<open>get\<close>, and derives the property a client relies on: a key that has been put stays
  in the cache while fewer than \<open>limit\<close> other keys are used after it.
\<close>

section \<open>The abstract cache\<close>

definition lru_touch :: "'k \<Rightarrow> 'v \<Rightarrow> ('k \<times> 'v) list \<Rightarrow> ('k \<times> 'v) list" where
  "lru_touch k v xs = (k, v) # filter (\<lambda>p. fst p \<noteq> k) xs"

definition lru_trim :: "nat option \<Rightarrow> 'a list \<Rightarrow> 'a list" where
  "lru_trim lim xs = (case lim of None \<Rightarrow> xs | Some n \<Rightarrow> take n xs)"

definition lru_put :: "nat option \<Rightarrow> 'k \<Rightarrow> 'v \<Rightarrow> ('k \<times> 'v) list \<Rightarrow> ('k \<times> 'v) list" where
  "lru_put lim k v xs = lru_trim lim (lru_touch k v xs)"

definition lru_get :: "'k \<Rightarrow> ('k \<times> 'v) list \<Rightarrow> 'v option \<times> ('k \<times> 'v) list" where
  "lru_get k xs = (case map_of xs k of None \<Rightarrow> (None, xs) | Some v \<Rightarrow> (Some v, lru_touch k v xs))"

datatype ('k, 'v) lru_op = LPut 'k 'v | LGet 'k

primrec lru_key :: "('k, 'v) lru_op \<Rightarrow> 'k" where
  "lru_key (LPut k v) = k"
| "lru_key (LGet k) = k"

primrec lru_spec :: "nat option \<Rightarrow> ('k, 'v) lru_op list \<Rightarrow> ('k \<times> 'v) list \<Rightarrow> 'v option list \<times> ('k \<times> 'v) list" where
  "lru_spec lim [] xs = ([], xs)"
| "lru_spec lim (op # ops) xs =
     (case op of
        LPut k v \<Rightarrow> lru_spec lim ops (lru_put lim k v xs)
      | LGet k \<Rightarrow> (let (r, xs') = lru_get k xs; (rs, xs'') = lru_spec lim ops xs' in (r # rs, xs'')))"

primrec lru_run ::
    "('k \<Rightarrow> 'v \<Rightarrow> 's \<Rightarrow> 's result) \<Rightarrow> ('k \<Rightarrow> 's \<Rightarrow> ('v option \<times> 's) result) \<Rightarrow> ('k, 'v) lru_op list \<Rightarrow> 's
      \<Rightarrow> ('v option list \<times> 's) result" where
  "lru_run put get [] s = Inr ([], s)"
| "lru_run put get (op # ops) s =
     (case op of
        LPut k v \<Rightarrow> ub_bind (put k v s) (lru_run put get ops)
      | LGet k \<Rightarrow> ub_bind (get k s) (\<lambda>(r, s). ub_bind (lru_run put get ops s) (\<lambda>(rs, s). Inr (r # rs, s))))"

section \<open>Recency\<close>

definition lru_before :: "'k \<Rightarrow> 'v \<Rightarrow> 'k set \<Rightarrow> ('k \<times> 'v) list \<Rightarrow> bool" where
  "lru_before k v D xs \<longleftrightarrow> (\<exists>ys zs. xs = ys @ (k, v) # zs \<and> distinct (map fst ys) \<and> fst ` set ys \<subseteq> D - {k})"

lemma lru_before_touch:
  assumes "lru_before k v D xs" and "k' \<noteq> k"
  shows "lru_before k v (insert k' D) (lru_touch k' v' xs)"
proof -
  from assms(1) obtain ys zs where xs: "xs = ys @ (k, v) # zs" "distinct (map fst ys)" "fst ` set ys \<subseteq> D - {k}"
    by (auto simp: lru_before_def)
  have "distinct (map fst (filter (\<lambda>p. fst p \<noteq> k') ys))" using xs(2) by (simp add: distinct_map_filter)
  then have "distinct (map fst ((k', v') # filter (\<lambda>p. fst p \<noteq> k') ys))" by auto
  moreover have "fst ` set ((k', v') # filter (\<lambda>p. fst p \<noteq> k') ys) \<subseteq> insert k' D - {k}" using xs(3) assms(2) by auto
  moreover have "lru_touch k' v' xs = ((k', v') # filter (\<lambda>p. fst p \<noteq> k') ys) @ (k, v) # filter (\<lambda>p. fst p \<noteq> k') zs"
    using xs(1) assms(2) by (simp add: lru_touch_def)
  ultimately show ?thesis unfolding lru_before_def by blast
qed

lemma lru_before_trim:
  assumes "lru_before k v D xs" and "finite D" and "card (D - {k}) < n"
  shows "lru_before k v D (take n xs)"
proof -
  from assms(1) obtain ys zs where xs: "xs = ys @ (k, v) # zs" "distinct (map fst ys)" "fst ` set ys \<subseteq> D - {k}"
    by (auto simp: lru_before_def)
  have "length ys = card (fst ` set ys)" using xs(2) by (metis distinct_card length_map list.set_map)
  also have "\<dots> \<le> card (D - {k})" using xs(3) assms(2) by (intro card_mono) auto
  finally have "length ys < n" using assms(3) by simp
  then have "take n xs = ys @ (k, v) # take (n - length ys - 1) zs"
    using xs(1) by (simp add: take_Cons')
  then show ?thesis using xs unfolding lru_before_def by blast
qed

lemma lru_before_mono: "lru_before k v D xs \<Longrightarrow> D \<subseteq> E \<Longrightarrow> lru_before k v E xs"
  unfolding lru_before_def by blast

lemma lru_before_lookup:
  assumes "lru_before k v D xs"
  shows "map_of xs k = Some v"
proof -
  from assms obtain ys zs where xs: "xs = ys @ (k, v) # zs" "fst ` set ys \<subseteq> D - {k}"
    by (auto simp: lru_before_def)
  have "map_of ys k = None" unfolding map_of_eq_None_iff using xs(2) by blast
  then show ?thesis using xs(1) by (simp add: map_add_def)
qed

lemma lru_spec_keeps:
  assumes "lru_before k v D xs" and "finite D" and "k \<notin> lru_key ` set ops"
    and "case lim of None \<Rightarrow> True | Some n \<Rightarrow> card (D \<union> lru_key ` set ops - {k}) < n"
  shows "lru_before k v (D \<union> lru_key ` set ops) (snd (lru_spec lim ops xs))"
  using assms
proof (induction ops arbitrary: xs D)
  case Nil
  then show ?case by simp
next
  case (Cons op ops)
  let ?k = "lru_key op"
  have ne: "?k \<noteq> k" using Cons.prems(3) by auto
  have D: "insert ?k D \<union> lru_key ` set ops = D \<union> lru_key ` set (op # ops)" by auto
  note IH = Cons.IH [where D = "insert ?k D", unfolded D]
  show ?case
  proof (cases op)
    case (LPut k' v')
    have b: "lru_before k v (insert ?k D) (lru_touch k' v' xs)"
      using lru_before_touch [OF Cons.prems(1), of k' v'] ne LPut by simp
    have "lru_before k v (insert ?k D) (lru_put lim k' v' xs)"
    proof (cases lim)
      case None
      then show ?thesis using b by (simp add: lru_put_def lru_trim_def)
    next
      case (Some n)
      have "card (insert ?k D - {k}) \<le> card (D \<union> lru_key ` set (op # ops) - {k})"
        using Cons.prems(2) by (intro card_mono) auto
      then show ?thesis
        using Some Cons.prems(2,4) lru_before_trim [OF b, of n] by (simp add: lru_put_def lru_trim_def)
    qed
    from IH [OF this] show ?thesis using Cons.prems LPut by simp
  next
    case (LGet k')
    have "lru_before k v (insert ?k D) (snd (lru_get k' xs))"
      using lru_before_touch [OF Cons.prems(1), of k'] lru_before_mono [OF Cons.prems(1), of "insert ?k D"] ne LGet
      by (auto simp: lru_get_def split: option.splits)
    from IH [OF this] show ?thesis using Cons.prems LGet by (simp add: case_prod_beta Let_def)
  qed
qed

lemma lru_spec_recent:
  assumes "k \<notin> lru_key ` set ops" and "case lim of None \<Rightarrow> True | Some n \<Rightarrow> card (lru_key ` set ops) < n"
  shows "map_of (snd (lru_spec lim (LPut k v # ops) xs)) k = Some v"
proof -
  have "lru_before k v {} (lru_put lim k v xs)"
    using assms(2) by (cases lim; cases "the lim") (auto simp: lru_before_def lru_put_def lru_trim_def lru_touch_def)
  then show ?thesis
    using lru_spec_keeps [of k v "{}" "lru_put lim k v xs" ops lim] assms lru_before_lookup by (fastforce split: option.splits)
qed

section \<open>The contract\<close>

locale lru_cache =
  fixes inv :: "'s \<Rightarrow> bool" and abs :: "'s \<Rightarrow> ('k \<times> 'v) list" and lim :: "nat option"
    and put :: "'k \<Rightarrow> 'v \<Rightarrow> 's \<Rightarrow> 's result" and get :: "'k \<Rightarrow> 's \<Rightarrow> ('v option \<times> 's) result"
  assumes put: "inv s \<Longrightarrow> \<exists>s'. put k v s = Inr s' \<and> inv s' \<and> abs s' = lru_put lim k v (abs s)"
    and get: "inv s \<Longrightarrow> \<exists>s'. get k s = Inr (fst (lru_get k (abs s)), s') \<and> inv s' \<and> abs s' = snd (lru_get k (abs s))"
begin

lemma run_refines:
  assumes "inv s"
  shows "\<exists>s'. lru_run put get ops s = Inr (fst (lru_spec lim ops (abs s)), s') \<and> inv s'
    \<and> abs s' = snd (lru_spec lim ops (abs s))"
  using assms
proof (induction ops arbitrary: s)
  case (Cons op ops)
  show ?case
  proof (cases op)
    case (LPut k v)
    then show ?thesis using put [OF Cons.prems, of k v] Cons.IH by fastforce
  next
    case (LGet k)
    obtain s1 where s1: "get k s = Inr (fst (lru_get k (abs s)), s1)" "inv s1" "abs s1 = snd (lru_get k (abs s))"
      using get [OF Cons.prems] by blast
    from Cons.IH [OF s1(2)] show ?thesis using LGet s1 by (auto simp: case_prod_beta Let_def)
  qed
qed simp

lemma recently_put:
  assumes "inv s" and "k \<notin> lru_key ` set ops" and "case lim of None \<Rightarrow> True | Some n \<Rightarrow> card (lru_key ` set ops) < n"
  shows "\<exists>rs s1 s2. lru_run put get (LPut k v # ops) s = Inr (rs, s1) \<and> get k s1 = Inr (Some v, s2)"
proof -
  obtain s1 where s1: "lru_run put get (LPut k v # ops) s = Inr (fst (lru_spec lim (LPut k v # ops) (abs s)), s1)"
    "inv s1" "abs s1 = snd (lru_spec lim (LPut k v # ops) (abs s))"
    using run_refines [OF assms(1), of "LPut k v # ops"] by blast
  have "map_of (abs s1) k = Some v" unfolding s1(3) by (rule lru_spec_recent [OF assms(2,3)])
  then show ?thesis using s1(1) get [OF s1(2), of k] by (auto simp: lru_get_def)
qed

end

end
