(* ===== verification/Lru_Map.thy ===== *)
theory Lru_Map
  imports Lru_Spec
begin

text \<open>
  \<open>LruMap\<close> and \<open>MRUCacheBase\<close> of \<open>cache.h\<close>: caches made of a \<open>std::list\<close> of entries and a map
  from keys to list iterators.  A list node has an address, fresh when it is inserted, and
  an iterator is the address of its node: using one whose node has been erased is an error.
  The map is an association list with distinct keys.  Both classes are shown to implement
  the contract of theory \<open>Lru_Spec\<close>.
\<close>

section \<open>Lists with stable iterators\<close>

type_synonym ('k, 'v) nodes = "(nat \<times> 'k \<times> 'v) list"

definition node_at :: "nat \<Rightarrow> ('k, 'v) nodes \<Rightarrow> ('k \<times> 'v) result" where
  "node_at i ns = (case map_of ns i of None \<Rightarrow> Inl OutOfBounds | Some kv \<Rightarrow> Inr kv)"

definition node_erase :: "nat \<Rightarrow> ('k, 'v) nodes \<Rightarrow> ('k, 'v) nodes result" where
  "node_erase i ns = ub_bind (node_at i ns) (\<lambda>_. Inr (filter (\<lambda>n. fst n \<noteq> i) ns))"

definition node_splice_front :: "nat \<Rightarrow> ('k, 'v) nodes \<Rightarrow> ('k, 'v) nodes result" where
  "node_splice_front i ns = ub_bind (node_at i ns) (\<lambda>kv. Inr ((i, kv) # filter (\<lambda>n. fst n \<noteq> i) ns))"

definition index_erase :: "'k \<Rightarrow> ('k \<times> nat) list \<Rightarrow> ('k \<times> nat) list" where
  "index_erase k ix = filter (\<lambda>p. fst p \<noteq> k) ix"

definition index_assign :: "'k \<Rightarrow> nat \<Rightarrow> ('k \<times> nat) list \<Rightarrow> ('k \<times> nat) list" where
  "index_assign k i ix = (k, i) # index_erase k ix"

definition index_insert :: "'k \<Rightarrow> nat \<Rightarrow> ('k \<times> nat) list \<Rightarrow> ('k \<times> nat) list" where
  "index_insert k i ix = (if map_of ix k = None then (k, i) # ix else ix)"

section \<open>LruMap\<close>

record ('k, 'v) LruMap =
  lm_items_list :: "('k, 'v) nodes"
  lm_items_map :: "('k \<times> nat) list"
  lm_max_size :: nat
  lm_fresh :: nat

definition LruMap_new :: "nat \<Rightarrow> ('k, 'v) LruMap" where
  "LruMap_new max_size = \<lparr>lm_items_list = [], lm_items_map = [], lm_max_size = max_size, lm_fresh = 0\<rparr>"

definition LruMap_erase :: "'k \<Rightarrow> ('k, 'v) LruMap \<Rightarrow> ('k, 'v) LruMap result" where
  "LruMap_erase key s =
     (case map_of (lm_items_map s) key of
        None \<Rightarrow> Inr s
      | Some it \<Rightarrow> ub_bind (node_erase it (lm_items_list s)) (\<lambda>l.
          Inr (s\<lparr>lm_items_list := l, lm_items_map := index_erase key (lm_items_map s)\<rparr>)))"

definition LruMap_put :: "'k \<Rightarrow> 'v \<Rightarrow> ('k, 'v) LruMap \<Rightarrow> ('k, 'v) LruMap result" where
  "LruMap_put key value s =
     ub_bind
       (case map_of (lm_items_map s) key of
          None \<Rightarrow> Inr s
        | Some it \<Rightarrow> ub_bind (node_erase it (lm_items_list s)) (\<lambda>l.
            Inr (s\<lparr>lm_items_list := l, lm_items_map := index_erase key (lm_items_map s)\<rparr>)))
       (\<lambda>s. let s = s\<lparr>lm_items_list := (lm_fresh s, key, value) # lm_items_list s, lm_fresh := lm_fresh s + 1\<rparr>;
                s = s\<lparr>lm_items_map := index_assign key (fst (hd (lm_items_list s))) (lm_items_map s)\<rparr>
            in if length (lm_items_map s) > lm_max_size s then
                 (let last_node = last (lm_items_list s) in
                  Inr (s\<lparr>lm_items_map := index_erase (fst (snd last_node)) (lm_items_map s),
                         lm_items_list := butlast (lm_items_list s)\<rparr>))
               else Inr s)"

definition LruMap_get :: "'k \<Rightarrow> ('k, 'v) LruMap \<Rightarrow> ('v option \<times> ('k, 'v) LruMap) result" where
  "LruMap_get key s =
     (case map_of (lm_items_map s) key of
        None \<Rightarrow> Inr (None, s)
      | Some it \<Rightarrow>
          ub_bind (node_splice_front it (lm_items_list s)) (\<lambda>l.
          ub_bind (node_at it l) (\<lambda>kv. Inr (Some (snd kv), s\<lparr>lm_items_list := l\<rparr>))))"

definition LruMap_exists :: "'k \<Rightarrow> ('k, 'v) LruMap \<Rightarrow> bool" where
  "LruMap_exists key s \<longleftrightarrow> map_of (lm_items_map s) key \<noteq> None"

definition LruMap_size :: "('k, 'v) LruMap \<Rightarrow> nat" where
  "LruMap_size s = length (lm_items_map s)"

text \<open>Iteration follows the map and dereferences the list iterator of each entry.\<close>

primrec iterate :: "('k \<times> nat) list \<Rightarrow> ('k, 'v) nodes \<Rightarrow> ('k \<times> 'v) list result" where
  "iterate [] l = Inr []"
| "iterate (e # es) l = ub_bind (node_at (snd e) l) (\<lambda>kv. ub_bind (iterate es l) (\<lambda>kvs. Inr (kv # kvs)))"

definition LruMap_iterate :: "('k, 'v) LruMap \<Rightarrow> ('k \<times> 'v) list result" where
  "LruMap_iterate s = iterate (lm_items_map s) (lm_items_list s)"

section \<open>MRUCacheBase\<close>

record ('k, 'v) MRUCacheBase =
  mru_ordering :: "('k, 'v) nodes"
  mru_index :: "('k \<times> nat) list"
  mru_max_size :: nat
  mru_fresh :: nat

definition NO_AUTO_EVICT :: nat where
  "NO_AUTO_EVICT = 0"

definition MRU_new :: "nat \<Rightarrow> ('k, 'v) MRUCacheBase" where
  "MRU_new max_size = \<lparr>mru_ordering = [], mru_index = [], mru_max_size = max_size, mru_fresh = 0\<rparr>"

definition MRU_size :: "('k, 'v) MRUCacheBase \<Rightarrow> nat result" where
  "MRU_size s =
     (if length (mru_index s) = length (mru_ordering s) then Inr (length (mru_index s)) else Inl AssertFailed)"

definition MRU_Erase :: "nat \<Rightarrow> ('k, 'v) MRUCacheBase \<Rightarrow> ('k, 'v) MRUCacheBase result" where
  "MRU_Erase pos s =
     ub_bind (node_at pos (mru_ordering s)) (\<lambda>kv.
     let s = s\<lparr>mru_index := index_erase (fst kv) (mru_index s)\<rparr> in
     ub_bind (node_erase pos (mru_ordering s)) (\<lambda>l. Inr (s\<lparr>mru_ordering := l\<rparr>)))"

definition MRU_Erase_rbegin :: "('k, 'v) MRUCacheBase \<Rightarrow> ('k, 'v) MRUCacheBase result" where
  "MRU_Erase_rbegin s = (if mru_ordering s = [] then Inl OutOfBounds else MRU_Erase (fst (last (mru_ordering s))) s)"

primrec MRU_shrink_loop :: "nat \<Rightarrow> nat \<Rightarrow> ('k, 'v) MRUCacheBase \<Rightarrow> ('k, 'v) MRUCacheBase result" where
  "MRU_shrink_loop new_size 0 s = Inr s"
| "MRU_shrink_loop new_size (Suc i) s =
     (if Suc i > new_size then ub_bind (MRU_Erase_rbegin s) (MRU_shrink_loop new_size i) else Inr s)"

definition MRU_ShrinkToSize :: "nat \<Rightarrow> ('k, 'v) MRUCacheBase \<Rightarrow> ('k, 'v) MRUCacheBase result" where
  "MRU_ShrinkToSize new_size s = ub_bind (MRU_size s) (\<lambda>i. MRU_shrink_loop new_size i s)"

definition MRU_Put :: "'k \<Rightarrow> 'v \<Rightarrow> ('k, 'v) MRUCacheBase \<Rightarrow> ('k, 'v) MRUCacheBase result" where
  "MRU_Put key payload s =
     ub_bind
       (case map_of (mru_index s) key of
          Some it \<Rightarrow> MRU_Erase it s
        | None \<Rightarrow> if mru_max_size s \<noteq> NO_AUTO_EVICT then MRU_ShrinkToSize (mru_max_size s - 1) s else Inr s)
       (\<lambda>s. let s = s\<lparr>mru_ordering := (mru_fresh s, key, payload) # mru_ordering s, mru_fresh := mru_fresh s + 1\<rparr>
            in Inr (s\<lparr>mru_index := index_insert key (fst (hd (mru_ordering s))) (mru_index s)\<rparr>))"

text \<open>\<open>Get\<close> and \<open>Peek\<close> return an iterator; what it points to is returned here, \<open>None\<close> for \<open>end()\<close>.\<close>

definition MRU_Get :: "'k \<Rightarrow> ('k, 'v) MRUCacheBase \<Rightarrow> ('v option \<times> ('k, 'v) MRUCacheBase) result" where
  "MRU_Get key s =
     (case map_of (mru_index s) key of
        None \<Rightarrow> Inr (None, s)
      | Some it \<Rightarrow> ub_bind (node_splice_front it (mru_ordering s)) (\<lambda>l.
          Inr (Some (snd (snd (hd l))), s\<lparr>mru_ordering := l\<rparr>)))"

definition MRU_Peek :: "'k \<Rightarrow> ('k, 'v) MRUCacheBase \<Rightarrow> 'v option result" where
  "MRU_Peek key s =
     (case map_of (mru_index s) key of
        None \<Rightarrow> Inr None
      | Some it \<Rightarrow> ub_bind (node_at it (mru_ordering s)) (\<lambda>kv. Inr (Some (snd kv))))"

definition MRU_Clear :: "('k, 'v) MRUCacheBase \<Rightarrow> ('k, 'v) MRUCacheBase" where
  "MRU_Clear s = s\<lparr>mru_index := [], mru_ordering := []\<rparr>"

definition MRU_empty :: "('k, 'v) MRUCacheBase \<Rightarrow> bool" where
  "MRU_empty s \<longleftrightarrow> mru_ordering s = []"

section \<open>List and index agree\<close>

definition linked :: "('k, 'v) nodes \<Rightarrow> ('k \<times> nat) list \<Rightarrow> nat \<Rightarrow> bool" where
  "linked ns ix fresh \<longleftrightarrow> distinct (map fst ns) \<and> distinct (map (fst \<circ> snd) ns) \<and> distinct (map fst ix)
     \<and> (\<forall>k i. (k, i) \<in> set ix \<longleftrightarrow> (\<exists>v. (i, k, v) \<in> set ns)) \<and> (\<forall>n \<in> set ns. fst n < fresh)"

abbreviation entries :: "('k, 'v) nodes \<Rightarrow> ('k \<times> 'v) list" where
  "entries ns \<equiv> map snd ns"

lemma linked_keys: "linked ns ix f \<Longrightarrow> distinct (map fst (entries ns))"
  by (simp add: linked_def)

lemma linked_same_addr: "linked ns ix f \<Longrightarrow> (i, a) \<in> set ns \<Longrightarrow> (i, b) \<in> set ns \<Longrightarrow> a = b"
  unfolding linked_def using eq_key_imp_eq_value by metis

lemma linked_same_key:
  assumes "linked ns ix f" and "(i, k, v) \<in> set ns" and "(j, k, w) \<in> set ns"
  shows "i = j \<and> v = w"
proof -
  have "inj_on (fst \<circ> snd) (set ns)" using assms(1) by (simp add: linked_def distinct_map)
  from inj_onD [OF this _ assms(2,3)] show ?thesis by simp
qed

lemma linked_length:
  assumes "linked ns ix f"
  shows "length ix = length ns"
proof -
  have "map fst (map (\<lambda>(i, k, v). (k, i)) ns) = map (fst \<circ> snd) ns" by auto
  then have "distinct (map (\<lambda>(i, k, v). (k, i)) ns)"
    using assms by (metis distinct_map linked_def)
  moreover have "set (map (\<lambda>(i, k, v). (k, i)) ns) = set ix"
    using assms by (force simp: linked_def)
  moreover have "distinct ix" using assms by (simp add: linked_def distinct_map)
  ultimately show ?thesis by (metis distinct_card length_map)
qed

lemma linked_find_None:
  assumes "linked ns ix f"
  shows "map_of ix k = None \<longleftrightarrow> map_of (entries ns) k = None"
proof -
  have "k \<in> fst ` set ix \<longleftrightarrow> (\<exists>i v. (i, k, v) \<in> set ns)" using assms by (force simp: linked_def)
  moreover have "k \<in> fst ` set (entries ns) \<longleftrightarrow> (\<exists>i v. (i, k, v) \<in> set ns)" by force
  ultimately show ?thesis by (simp only: map_of_eq_None_iff)
qed

lemma linked_find_Some:
  assumes "linked ns ix f" and "map_of ix k = Some i"
  shows "\<exists>v. (i, k, v) \<in> set ns \<and> node_at i ns = Inr (k, v) \<and> map_of (entries ns) k = Some v
     \<and> filter (\<lambda>n. fst n \<noteq> i) ns = filter (\<lambda>n. fst (snd n) \<noteq> k) ns"
proof -
  have "(k, i) \<in> set ix" using assms(2) by (rule map_of_SomeD)
  then obtain v where v: "(i, k, v) \<in> set ns" using assms(1) by (auto simp: linked_def)
  have "map_of ns i = Some (k, v)" using assms(1) v by (simp add: linked_def)
  moreover have "(k, v) \<in> set (entries ns)" using v by force
  then have "map_of (entries ns) k = Some v"
    using linked_keys [OF assms(1)] by (rule map_of_is_SomeI [rotated])
  moreover have "fst n = i \<longleftrightarrow> fst (snd n) = k" if "n \<in> set ns" for n
    using linked_same_addr [OF assms(1) v, of "snd n"] linked_same_key [OF assms(1) v, of "fst n" "snd (snd n)"] that
    by (metis fst_conv prod.collapse)
  then have "filter (\<lambda>n. fst n \<noteq> i) ns = filter (\<lambda>n. fst (snd n) \<noteq> k) ns"
    by (intro filter_cong) auto
  ultimately show ?thesis using v by (auto simp: node_at_def)
qed

lemma linked_erase:
  assumes "linked ns ix f"
  shows "linked (filter (\<lambda>n. fst (snd n) \<noteq> k) ns) (index_erase k ix) f"
  using assms by (auto simp: linked_def index_erase_def distinct_map_filter)

lemma entries_erase: "entries (filter (\<lambda>n. fst (snd n) \<noteq> k) ns) = filter (\<lambda>p. fst p \<noteq> k) (entries ns)"
  by (simp add: filter_map comp_def)

lemma linked_front:
  assumes "linked ns ix f" and "map_of (entries ns) k = None"
  shows "linked ((f, k, v) # ns) ((k, f) # ix) (f + 1)"
proof -
  have a: "(i, k, w) \<notin> set ns" for i w using assms(2) by (force simp: map_of_eq_None_iff)
  have "k \<notin> (fst \<circ> snd) ` set ns" using a by force
  moreover have "k \<notin> fst ` set ix" using assms linked_find_None by (metis map_of_eq_None_iff)
  moreover have "f \<notin> fst ` set ns" using assms(1) by (auto simp: linked_def)
  ultimately show ?thesis using assms(1) a unfolding linked_def by (auto simp: less_Suc_eq)
qed

lemma linked_pop:
  assumes "linked ns ix f" and "ns \<noteq> []"
  shows "linked (butlast ns) (index_erase (fst (snd (last ns))) ix) f"
proof -
  have "filter (\<lambda>n. fst (snd n) \<noteq> fst (snd (last ns))) ns = butlast ns"
    using assms by (cases ns rule: rev_cases) (auto simp: linked_def image_iff filter_id_conv)
  then show ?thesis using linked_erase [OF assms(1), of "fst (snd (last ns))"] by simp
qed

lemma linked_splice:
  assumes "linked ns ix f" and "(i, k, v) \<in> set ns"
  shows "linked ((i, k, v) # filter (\<lambda>n. fst (snd n) \<noteq> k) ns) ix f"
proof -
  have same: "j = i \<and> w = v" if "(j, k, w) \<in> set ns" for j w
    using linked_same_key [OF assms(1) that assms(2)] .
  let ?r = "filter (\<lambda>n. fst (snd n) \<noteq> k) ns"
  note l = assms(1) [unfolded linked_def]
  show ?thesis unfolding linked_def
  proof (intro conjI)
    have "i \<notin> fst ` set ?r" using linked_same_addr [OF assms] by force
    moreover have "distinct (map fst ?r)" using l by (simp add: distinct_map_filter)
    ultimately show "distinct (map fst ((i, k, v) # ?r))" by simp
    have "distinct (map (fst \<circ> snd) ?r)" using l by (simp add: distinct_map_filter)
    moreover have "k \<notin> (fst \<circ> snd) ` set ?r" by auto
    ultimately show "distinct (map (fst \<circ> snd) ((i, k, v) # ?r))" by simp
    show "distinct (map fst ix)" using l by blast
    have "(\<exists>w. (j, l, w) \<in> set ((i, k, v) # ?r)) \<longleftrightarrow> (\<exists>w. (j, l, w) \<in> set ns)" for j l
    proof (cases "l = k")
      case True
      have "(\<exists>w. (j, k, w) \<in> set ns) \<longleftrightarrow> j = i" using assms(2) same by blast
      then show ?thesis using True by simp
    qed auto
    then show "\<forall>l j. ((l, j) \<in> set ix) = (\<exists>w. (j, l, w) \<in> set ((i, k, v) # ?r))" using l by blast
    show "\<forall>n \<in> set ((i, k, v) # ?r). fst n < f" using l assms(2) by auto
  qed
qed

lemma absent_filter: "map_of xs k = None \<Longrightarrow> filter (\<lambda>p. fst p \<noteq> k) xs = xs"
  by (force simp: map_of_eq_None_iff filter_id_conv)

section \<open>LruMap implements the contract\<close>

definition lm_inv :: "nat \<Rightarrow> ('k, 'v) LruMap \<Rightarrow> bool" where
  "lm_inv n s \<longleftrightarrow> linked (lm_items_list s) (lm_items_map s) (lm_fresh s) \<and> lm_max_size s = n
     \<and> length (lm_items_list s) \<le> n"

abbreviation lm_abs :: "('k, 'v) LruMap \<Rightarrow> ('k \<times> 'v) list" where
  "lm_abs s \<equiv> entries (lm_items_list s)"

lemma LruMap_erase_ok:
  assumes "lm_inv n s"
  shows "\<exists>s'. LruMap_erase k s = Inr s' \<and> lm_inv n s' \<and> lm_abs s' = filter (\<lambda>p. fst p \<noteq> k) (lm_abs s)"
proof (cases "map_of (lm_items_map s) k")
  case None
  then show ?thesis
    using assms linked_find_None absent_filter by (fastforce simp: LruMap_erase_def lm_inv_def)
next
  case (Some i)
  have l: "linked (lm_items_list s) (lm_items_map s) (lm_fresh s)" using assms by (simp add: lm_inv_def)
  from linked_find_Some [OF this Some] linked_erase [OF this, of k] assms Some show ?thesis
    by (auto simp: LruMap_erase_def node_erase_def lm_inv_def entries_erase intro: le_trans [OF length_filter_le])
qed

lemma LruMap_put_erases:
  "LruMap_put k v s = ub_bind (LruMap_erase k s)
       (\<lambda>s. let s = s\<lparr>lm_items_list := (lm_fresh s, k, v) # lm_items_list s, lm_fresh := lm_fresh s + 1\<rparr>;
                s = s\<lparr>lm_items_map := index_assign k (fst (hd (lm_items_list s))) (lm_items_map s)\<rparr>
            in if length (lm_items_map s) > lm_max_size s then
                 (let last_node = last (lm_items_list s) in
                  Inr (s\<lparr>lm_items_map := index_erase (fst (snd last_node)) (lm_items_map s),
                         lm_items_list := butlast (lm_items_list s)\<rparr>))
               else Inr s)"
  by (simp add: LruMap_put_def LruMap_erase_def)

lemma LruMap_put_ok:
  assumes "lm_inv n s"
  shows "\<exists>s'. LruMap_put k v s = Inr s' \<and> lm_inv n s' \<and> lm_abs s' = lru_put (Some n) k v (lm_abs s)"
proof -
  obtain s1 where s1: "LruMap_erase k s = Inr s1" "lm_inv n s1" "lm_abs s1 = filter (\<lambda>p. fst p \<noteq> k) (lm_abs s)"
    using LruMap_erase_ok [OF assms] by blast
  have l1: "linked (lm_items_list s1) (lm_items_map s1) (lm_fresh s1)" "lm_max_size s1 = n" "length (lm_items_list s1) \<le> n"
    using s1(2) by (auto simp: lm_inv_def)
  have none: "map_of (lm_abs s1) k = None" unfolding s1(3) by (auto simp: map_of_eq_None_iff)
  have "map_of (lm_items_map s1) k = None" using linked_find_None [OF l1(1)] none by blast
  then have asg: "index_assign k i (lm_items_map s1) = (k, i) # lm_items_map s1" for i
    using absent_filter by (simp add: index_assign_def index_erase_def)
  let ?ns = "(lm_fresh s1, k, v) # lm_items_list s1" and ?ix = "(k, lm_fresh s1) # lm_items_map s1"
  have l2: "linked ?ns ?ix (lm_fresh s1 + 1)" using linked_front [OF l1(1) none] .
  have t: "lru_touch k v (lm_abs s) = entries ?ns" using s1(3) by (simp add: lru_touch_def)
  show ?thesis
  proof (cases "length ?ns > n")
    case True
    then have "length ?ns = Suc n" using l1(3) by simp
    then have "take n (entries ?ns) = entries (butlast ?ns)" by (simp only: butlast_conv_take map_butlast take_map) simp
    then show ?thesis
      using True s1(1) l1 asg linked_length [OF l1(1)] linked_pop [OF l2]
      by (simp add: LruMap_put_erases lm_inv_def lru_put_def lru_trim_def t Let_def)
  next
    case False
    then show ?thesis
      using s1(1) l1 asg linked_length [OF l1(1)] l2
      by (simp add: LruMap_put_erases lm_inv_def lru_put_def lru_trim_def t Let_def)
  qed
qed

lemma LruMap_get_ok:
  assumes "lm_inv n s"
  shows "\<exists>s'. LruMap_get k s = Inr (fst (lru_get k (lm_abs s)), s') \<and> lm_inv n s' \<and> lm_abs s' = snd (lru_get k (lm_abs s))"
proof (cases "map_of (lm_items_map s) k")
  case None
  then show ?thesis
    using assms linked_find_None by (fastforce simp: LruMap_get_def lm_inv_def lru_get_def)
next
  case (Some i)
  have l: "linked (lm_items_list s) (lm_items_map s) (lm_fresh s)" using assms by (simp add: lm_inv_def)
  obtain v where v: "(i, k, v) \<in> set (lm_items_list s)" "node_at i (lm_items_list s) = Inr (k, v)" "map_of (lm_abs s) k = Some v"
    "filter (\<lambda>n. fst n \<noteq> i) (lm_items_list s) = filter (\<lambda>n. fst (snd n) \<noteq> k) (lm_items_list s)"
    using linked_find_Some [OF l Some] by blast
  let ?ns = "(i, k, v) # filter (\<lambda>n. fst (snd n) \<noteq> k) (lm_items_list s)"
  have l2: "linked ?ns (lm_items_map s) (lm_fresh s)" using linked_splice [OF l v(1)] .
  then have "length ?ns = length (lm_items_list s)" using linked_length l by metis
  then show ?thesis
    using Some v l2 assms
    by (simp add: LruMap_get_def node_splice_front_def lm_inv_def lru_get_def lru_touch_def node_at_def entries_erase)
qed

interpretation lru_map: lru_cache "lm_inv n" lm_abs "Some n" LruMap_put LruMap_get for n
  by unfold_locales (rule LruMap_put_ok LruMap_get_ok; assumption)+

lemma iterate_ok:
  assumes "linked ns ix f" and "set es \<subseteq> set ix"
  shows "\<exists>kvs. iterate es ns = Inr kvs \<and> map fst kvs = map fst es \<and> set kvs \<subseteq> set (entries ns)"
  using assms(2)
proof (induction es)
  case (Cons e es)
  obtain k i where e: "e = (k, i)" by (cases e)
  have "map_of ix k = Some i" using Cons.prems e assms(1) by (simp add: linked_def)
  then obtain v where "(i, k, v) \<in> set ns" "node_at i ns = Inr (k, v)" using linked_find_Some [OF assms(1)] by blast
  then show ?case using Cons e by force
qed simp

lemma LruMap_iterate_ok:
  assumes "lm_inv n s"
  shows "\<exists>kvs. LruMap_iterate s = Inr kvs \<and> distinct kvs \<and> set kvs = set (lm_abs s)"
proof -
  have l: "linked (lm_items_list s) (lm_items_map s) (lm_fresh s)" using assms by (simp add: lm_inv_def)
  obtain kvs where kvs: "iterate (lm_items_map s) (lm_items_list s) = Inr kvs" "map fst kvs = map fst (lm_items_map s)"
    "set kvs \<subseteq> set (lm_abs s)" using iterate_ok [OF l subset_refl] by blast
  have d: "distinct kvs" using kvs(2) l by (metis distinct_map linked_def)
  have "length kvs = length (lm_abs s)" using kvs(2) linked_length [OF l] by (metis length_map)
  moreover have "distinct (lm_abs s)" using linked_keys [OF l] by (metis distinct_map)
  ultimately have "set kvs = set (lm_abs s)"
    using d kvs(3) by (metis card_subset_eq distinct_card finite_set)
  then show ?thesis using kvs(1) d by (simp add: LruMap_iterate_def)
qed

section \<open>MRUCacheBase implements the contract\<close>

definition mru_limit :: "nat \<Rightarrow> nat option" where
  "mru_limit n = (if n = NO_AUTO_EVICT then None else Some n)"

definition mru_inv :: "nat \<Rightarrow> ('k, 'v) MRUCacheBase \<Rightarrow> bool" where
  "mru_inv n s \<longleftrightarrow> linked (mru_ordering s) (mru_index s) (mru_fresh s) \<and> mru_max_size s = n
     \<and> (n \<noteq> NO_AUTO_EVICT \<longrightarrow> length (mru_ordering s) \<le> n)"

abbreviation mru_abs :: "('k, 'v) MRUCacheBase \<Rightarrow> ('k \<times> 'v) list" where
  "mru_abs s \<equiv> entries (mru_ordering s)"

lemma MRU_Erase_ok:
  assumes "mru_inv n s" and "(i, k, v) \<in> set (mru_ordering s)"
  shows "\<exists>s'. MRU_Erase i s = Inr s' \<and> mru_inv n s'
    \<and> mru_ordering s' = filter (\<lambda>n. fst (snd n) \<noteq> k) (mru_ordering s)"
proof -
  have l: "linked (mru_ordering s) (mru_index s) (mru_fresh s)" using assms by (simp add: mru_inv_def)
  then have "map_of (mru_index s) k = Some i" using assms(2) by (auto simp: linked_def)
  from linked_find_Some [OF l this] linked_erase [OF l, of k] assms(1) show ?thesis
    by (auto simp: MRU_Erase_def node_erase_def mru_inv_def intro: le_trans [OF length_filter_le])
qed

lemma MRU_Erase_rbegin_ok:
  assumes "mru_inv n s" and "mru_ordering s \<noteq> []"
  shows "\<exists>s'. MRU_Erase_rbegin s = Inr s' \<and> mru_inv n s' \<and> mru_ordering s' = butlast (mru_ordering s)"
proof -
  obtain i k v where last: "last (mru_ordering s) = (i, k, v)" by (cases "last (mru_ordering s)")
  then have mem: "(i, k, v) \<in> set (mru_ordering s)" using assms(2) by (metis last_in_set)
  have "filter (\<lambda>n. fst (snd n) \<noteq> k) (mru_ordering s) = butlast (mru_ordering s)"
    using assms last by (cases "mru_ordering s" rule: rev_cases) (auto simp: mru_inv_def linked_def filter_id_conv)
  then show ?thesis using MRU_Erase_ok [OF assms(1) mem] assms(2) last by (auto simp: MRU_Erase_rbegin_def)
qed

lemma MRU_shrink_loop_ok:
  assumes "mru_inv n s" and "length (mru_ordering s) = i"
  shows "\<exists>s'. MRU_shrink_loop m i s = Inr s' \<and> mru_inv n s' \<and> mru_ordering s' = take m (mru_ordering s)"
  using assms
proof (induction i arbitrary: s)
  case (Suc i)
  show ?case
  proof (cases "Suc i > m")
    case True
    obtain s1 where s1: "MRU_Erase_rbegin s = Inr s1" "mru_inv n s1" "mru_ordering s1 = butlast (mru_ordering s)"
      using MRU_Erase_rbegin_ok [OF Suc.prems(1)] Suc.prems(2) by fastforce
    from Suc.IH [OF s1(2)] s1(3) Suc.prems(2) obtain s2 where
      "MRU_shrink_loop m i s1 = Inr s2" "mru_inv n s2" "mru_ordering s2 = take m (butlast (mru_ordering s))" by auto
    moreover have "take m (butlast (mru_ordering s)) = take m (mru_ordering s)"
      using True Suc.prems(2) by (simp add: butlast_conv_take min_def)
    ultimately show ?thesis using True s1(1) by simp
  next
    case False
    then show ?thesis using Suc.prems by simp
  qed
qed simp

lemma MRU_size_ok: "mru_inv n s \<Longrightarrow> MRU_size s = Inr (length (mru_abs s))"
  using linked_length [of "mru_ordering s"] by (auto simp: MRU_size_def mru_inv_def)

lemma MRU_ShrinkToSize_ok:
  assumes "mru_inv n s"
  shows "\<exists>s'. MRU_ShrinkToSize m s = Inr s' \<and> mru_inv n s' \<and> mru_ordering s' = take m (mru_ordering s)"
  using MRU_shrink_loop_ok [OF assms refl, of m] MRU_size_ok [OF assms] by (simp add: MRU_ShrinkToSize_def)

lemma MRU_Put_room:
  assumes "mru_inv n s"
  shows "\<exists>s'. (case map_of (mru_index s) k of
            Some it \<Rightarrow> MRU_Erase it s
          | None \<Rightarrow> if mru_max_size s \<noteq> NO_AUTO_EVICT then MRU_ShrinkToSize (mru_max_size s - 1) s else Inr s) = Inr s'
    \<and> mru_inv n s' \<and> (k, v) # mru_abs s' = lru_put (mru_limit n) k v (mru_abs s)"
proof (cases "map_of (mru_index s) k")
  case None
  have l: "linked (mru_ordering s) (mru_index s) (mru_fresh s)" "mru_max_size s = n" using assms by (auto simp: mru_inv_def)
  have "filter (\<lambda>p. fst p \<noteq> k) (mru_abs s) = mru_abs s"
    using linked_find_None [OF l(1), of k] None by (intro absent_filter) simp
  then have "lru_put (mru_limit n) k v (mru_abs s) = lru_trim (mru_limit n) ((k, v) # mru_abs s)"
    by (simp add: lru_put_def lru_touch_def)
  moreover have "lru_trim (mru_limit n) ((k, v) # mru_abs s)
      = (if n \<noteq> NO_AUTO_EVICT then (k, v) # take (n - 1) (mru_abs s) else (k, v) # mru_abs s)"
    by (cases n) (simp_all add: lru_trim_def mru_limit_def NO_AUTO_EVICT_def)
  moreover obtain s' where "MRU_ShrinkToSize (n - 1) s = Inr s'" "mru_inv n s'" "mru_ordering s' = take (n - 1) (mru_ordering s)"
    using MRU_ShrinkToSize_ok [OF assms, of "n - 1"] by blast
  ultimately show ?thesis using None l(2) assms by (cases "n = NO_AUTO_EVICT") (simp_all add: take_map)
next
  case (Some i)
  have l: "linked (mru_ordering s) (mru_index s) (mru_fresh s)" using assms by (simp add: mru_inv_def)
  obtain w where w: "(i, k, w) \<in> set (mru_ordering s)" using linked_find_Some [OF l Some] by blast
  obtain s' where s': "MRU_Erase i s = Inr s'" "mru_inv n s'" "mru_ordering s' = filter (\<lambda>n. fst (snd n) \<noteq> k) (mru_ordering s)"
    using MRU_Erase_ok [OF assms w] by blast
  have "length (mru_ordering s') < length (mru_ordering s)"
    unfolding s'(3) using w by (intro length_filter_less) auto
  then have "n \<noteq> NO_AUTO_EVICT \<longrightarrow> length (mru_ordering s') < n" using assms by (auto simp: mru_inv_def)
  then have "lru_put (mru_limit n) k v (mru_abs s) = (k, v) # mru_abs s'"
    using s'(3) by (auto simp: lru_put_def lru_trim_def lru_touch_def mru_limit_def filter_map comp_def)
  then show ?thesis using Some s' by simp
qed

lemma MRU_Put_ok:
  assumes "mru_inv n s"
  shows "\<exists>s'. MRU_Put k v s = Inr s' \<and> mru_inv n s' \<and> mru_abs s' = lru_put (mru_limit n) k v (mru_abs s)"
proof -
  obtain s1 where s1: "(case map_of (mru_index s) k of
            Some it \<Rightarrow> MRU_Erase it s
          | None \<Rightarrow> if mru_max_size s \<noteq> NO_AUTO_EVICT then MRU_ShrinkToSize (mru_max_size s - 1) s else Inr s) = Inr s1"
    "mru_inv n s1" "(k, v) # mru_abs s1 = lru_put (mru_limit n) k v (mru_abs s)"
    using MRU_Put_room [OF assms] by blast
  have "k \<notin> set (map fst (tl (lru_put (mru_limit n) k v (mru_abs s))))"
    by (auto simp: lru_put_def lru_trim_def lru_touch_def mru_limit_def tl_take dest: in_set_takeD)
  then have none: "map_of (mru_abs s1) k = None"
    unfolding s1(3) [symmetric] by (simp add: map_of_eq_None_iff image_image)
  have l: "linked (mru_ordering s1) (mru_index s1) (mru_fresh s1)" "mru_max_size s1 = n" using s1(2) by (auto simp: mru_inv_def)
  have ix: "map_of (mru_index s1) k = None" using linked_find_None [OF l(1)] none by blast
  have "Suc (length (mru_ordering s1)) \<le> n" if "n \<noteq> NO_AUTO_EVICT"
    using that arg_cong [OF s1(3), of length] by (simp add: lru_put_def lru_trim_def mru_limit_def)
  then show ?thesis
    using s1(1,3) linked_front [OF l(1) none, of v] l(2) ix by (simp add: MRU_Put_def mru_inv_def index_insert_def Let_def)
qed

lemma MRU_Get_ok:
  assumes "mru_inv n s"
  shows "\<exists>s'. MRU_Get k s = Inr (fst (lru_get k (mru_abs s)), s') \<and> mru_inv n s' \<and> mru_abs s' = snd (lru_get k (mru_abs s))"
proof (cases "map_of (mru_index s) k")
  case None
  then show ?thesis
    using assms linked_find_None by (fastforce simp: MRU_Get_def mru_inv_def lru_get_def)
next
  case (Some i)
  have l: "linked (mru_ordering s) (mru_index s) (mru_fresh s)" using assms by (simp add: mru_inv_def)
  obtain v where v: "(i, k, v) \<in> set (mru_ordering s)" "node_at i (mru_ordering s) = Inr (k, v)" "map_of (mru_abs s) k = Some v"
    "filter (\<lambda>n. fst n \<noteq> i) (mru_ordering s) = filter (\<lambda>n. fst (snd n) \<noteq> k) (mru_ordering s)"
    using linked_find_Some [OF l Some] by blast
  have l2: "linked ((i, k, v) # filter (\<lambda>n. fst (snd n) \<noteq> k) (mru_ordering s)) (mru_index s) (mru_fresh s)"
    using linked_splice [OF l v(1)] .
  then have "length ((i, k, v) # filter (\<lambda>n. fst (snd n) \<noteq> k) (mru_ordering s)) = length (mru_ordering s)"
    using linked_length l by metis
  then show ?thesis
    using Some v l2 assms
    by (simp add: MRU_Get_def node_splice_front_def mru_inv_def lru_get_def lru_touch_def entries_erase)
qed

lemma MRU_Peek_ok: "mru_inv n s \<Longrightarrow> MRU_Peek k s = Inr (map_of (mru_abs s) k)"
  using linked_find_None [of "mru_ordering s"] linked_find_Some [of "mru_ordering s"]
  by (cases "map_of (mru_index s) k") (fastforce simp: MRU_Peek_def mru_inv_def)+

interpretation mru: lru_cache "mru_inv n" mru_abs "mru_limit n" MRU_Put MRU_Get for n
  by unfold_locales (rule MRU_Put_ok MRU_Get_ok; assumption)+

section \<open>Properties\<close>

text \<open>
  C4. \<open>LruMap\<close>: from a new map, any sequence of \<open>put\<close> and \<open>get\<close> returns what a list of at most
  \<open>max_size\<close> entries in order of use returns, never through a dangling iterator; afterwards
  \<open>erase\<close> removes exactly one key, \<open>exists\<close> and \<open>size\<close> are right, and iteration visits every
  entry once.
\<close>

theorem LruMap_refines_lru:
  "\<exists>s. lru_run LruMap_put LruMap_get ops (LruMap_new n) = Inr (fst (lru_spec (Some n) ops []), s)
    \<and> lm_abs s = snd (lru_spec (Some n) ops [])
    \<and> LruMap_size s = length (lm_abs s) \<and> LruMap_size s \<le> n
    \<and> (LruMap_exists k s \<longleftrightarrow> k \<in> fst ` set (lm_abs s))
    \<and> (\<exists>s'. LruMap_erase k s = Inr s' \<and> lm_abs s' = filter (\<lambda>p. fst p \<noteq> k) (lm_abs s))
    \<and> (\<exists>kvs. LruMap_iterate s = Inr kvs \<and> distinct kvs \<and> set kvs = set (lm_abs s))"
proof -
  have new: "lm_inv n (LruMap_new n)" "lm_abs (LruMap_new n) = []"
    by (simp_all add: lm_inv_def LruMap_new_def linked_def)
  obtain s where s: "lru_run LruMap_put LruMap_get ops (LruMap_new n) = Inr (fst (lru_spec (Some n) ops []), s)"
    "lm_inv n s" "lm_abs s = snd (lru_spec (Some n) ops [])"
    using lru_map.run_refines [OF new(1), of ops] unfolding new(2) by blast
  have l: "linked (lm_items_list s) (lm_items_map s) (lm_fresh s)" "length (lm_items_list s) \<le> n"
    using s(2) by (auto simp: lm_inv_def)
  have "LruMap_exists k s \<longleftrightarrow> k \<in> fst ` set (lm_abs s)"
    using linked_find_None [OF l(1), of k] by (simp only: LruMap_exists_def map_of_eq_None_iff) simp
  moreover have "LruMap_size s = length (lm_abs s)" "LruMap_size s \<le> n"
    using l(2) linked_length [OF l(1)] by (simp_all add: LruMap_size_def)
  ultimately show ?thesis
    using s LruMap_erase_ok [OF s(2), of k] LruMap_iterate_ok [OF s(2)] by blast
qed

text \<open>
  A key just put into an \<open>LruMap\<close> is found again with its value as long as fewer than
  \<open>max_size\<close> other keys are put or looked up in between.
\<close>

theorem LruMap_keeps_recent:
  assumes "lm_inv n s" and "k \<notin> lru_key ` set ops" and "card (lru_key ` set ops) < n"
  shows "\<exists>rs s1 s2. lru_run LruMap_put LruMap_get (LPut k v # ops) s = Inr (rs, s1) \<and> LruMap_get k s1 = Inr (Some v, s2)"
  using lru_map.recently_put [OF assms(1,2)] assms(3) by simp

lemma LruMap_keeps_recent_witness:
  "\<exists>rs s1 s2. lru_run LruMap_put LruMap_get [LPut (4 :: nat) True, LPut 2 False, LGet 3, LPut 2 True] (LruMap_new 3) = Inr (rs, s1)
     \<and> LruMap_get 4 s1 = Inr (Some True, s2)"
proof -
  have "lm_inv 3 (LruMap_new 3 :: (nat, bool) LruMap)" by (simp add: lm_inv_def LruMap_new_def linked_def)
  moreover have "4 \<notin> lru_key ` set [LPut (2 :: nat) False, LGet 3, LPut 2 True]" by simp
  moreover have "card (lru_key ` set [LPut (2 :: nat) False, LGet 3, LPut 2 True]) < 3" by (simp add: insert_commute)
  ultimately show ?thesis by (rule LruMap_keeps_recent)
qed

text \<open>
  C24. \<open>MRUCacheBase\<close>: \<open>Put\<close>, \<open>Get\<close> and \<open>ShrinkToSize\<close> act on the list of entries in order of
  use, evicting the oldest entries beyond \<open>max_size\<close> unless that is \<open>NO_AUTO_EVICT\<close>; \<open>Peek\<close>
  leaves the order alone, \<open>Clear\<close> empties the cache, the size check never fails, and no
  operation uses an erased iterator.
\<close>

theorem MRUCacheBase_refines_lru:
  assumes "mru_inv n s"
  shows "(\<exists>s'. lru_run MRU_Put MRU_Get ops s = Inr (fst (lru_spec (mru_limit n) ops (mru_abs s)), s') \<and> mru_inv n s'
        \<and> mru_abs s' = snd (lru_spec (mru_limit n) ops (mru_abs s)))
    \<and> MRU_Peek k s = Inr (map_of (mru_abs s) k)
    \<and> (\<exists>s'. MRU_ShrinkToSize m s = Inr s' \<and> mru_inv n s' \<and> mru_abs s' = take m (mru_abs s))
    \<and> (mru_abs s \<noteq> [] \<longrightarrow> (\<exists>s'. MRU_Erase_rbegin s = Inr s' \<and> mru_inv n s' \<and> mru_abs s' = butlast (mru_abs s)))
    \<and> MRU_size s = Inr (length (mru_abs s)) \<and> (MRU_empty s \<longleftrightarrow> mru_abs s = [])
    \<and> mru_inv n (MRU_Clear s) \<and> mru_abs (MRU_Clear s) = [] \<and> mru_inv n (MRU_new n)"
  using assms mru.run_refines [OF assms, of ops] MRU_Peek_ok [OF assms, of k] MRU_ShrinkToSize_ok [OF assms, of m]
    MRU_Erase_rbegin_ok [OF assms] MRU_size_ok [OF assms]
  by (auto simp: MRU_empty_def MRU_Clear_def MRU_new_def mru_inv_def linked_def take_map map_butlast)

lemma MRUCacheBase_refines_lru_witness:
  "\<exists>s'. lru_run MRU_Put MRU_Get [LPut (4 :: nat) True, LPut 2 False, LGet 4, LPut 3 True, LGet 2] (MRU_new 2)
     = Inr ([Some True, None], s') \<and> mru_abs s' = [(3, True), (4, True)]"
proof -
  let ?ops = "[LPut (4 :: nat) True, LPut 2 False, LGet 4, LPut 3 True, LGet 2]"
  have inv: "mru_inv 2 (MRU_new 2 :: (nat, bool) MRUCacheBase)" by (simp add: mru_inv_def MRU_new_def linked_def)
  have "lru_spec (mru_limit 2) ?ops (mru_abs (MRU_new 2)) = ([Some True, None], [(3, True), (4, True)])"
    by (simp add: MRU_new_def lru_put_def lru_trim_def lru_touch_def lru_get_def mru_limit_def NO_AUTO_EVICT_def)
  then show ?thesis using conjunct1 [OF MRUCacheBase_refines_lru [OF inv, of ?ops]] by auto
qed

end
