(* ===== verification/Lru_Easy.thy ===== *)
theory Lru_Easy
  imports Lru_Spec
begin

text \<open>
  \<open>LRUCacheEasy\<close> of \<open>cache.h\<close>: the nodes live inside an \<open>unordered_map\<close> and are threaded on an
  intrusive doubly linked list between the sentinels \<open>head_\<close> and \<open>tail_\<close>.  A node's address is
  the key it is stored under (addresses in an \<open>unordered_map\<close> are stable); following a
  pointer to a node that is no longer in the map is an error.  \<open>size_\<close> is a 64-bit counter
  of its own that wraps.  \<open>K{}\<close> and \<open>V{}\<close> are parameters of the one operation that creates them.
\<close>

section \<open>The class\<close>

datatype 'k lptr = LHead | LTail | LNode 'k

record ('k, 'v) LruNode =
  ln_key :: 'k
  ln_val :: 'v
  ln_prev :: "'k lptr option"
  ln_next :: "'k lptr option"

record ('k, 'v) LRUCacheEasy =
  lc_capacity :: nat
  lc_size :: nat
  lc_map :: "'k \<rightharpoonup> ('k, 'v) LruNode"
  lc_head :: "'k lptr option \<times> 'k lptr option"
  lc_tail :: "'k lptr option \<times> 'k lptr option"

definition lru_get_prev :: "'k lptr \<Rightarrow> ('k, 'v) LRUCacheEasy \<Rightarrow> 'k lptr option result" where
  "lru_get_prev p c = (case p of LHead \<Rightarrow> Inr (fst (lc_head c)) | LTail \<Rightarrow> Inr (fst (lc_tail c))
     | LNode k \<Rightarrow> (case lc_map c k of None \<Rightarrow> Inl OutOfBounds | Some n \<Rightarrow> Inr (ln_prev n)))"

definition lru_get_next :: "'k lptr \<Rightarrow> ('k, 'v) LRUCacheEasy \<Rightarrow> 'k lptr option result" where
  "lru_get_next p c = (case p of LHead \<Rightarrow> Inr (snd (lc_head c)) | LTail \<Rightarrow> Inr (snd (lc_tail c))
     | LNode k \<Rightarrow> (case lc_map c k of None \<Rightarrow> Inl OutOfBounds | Some n \<Rightarrow> Inr (ln_next n)))"

definition lru_set_prev :: "'k lptr \<Rightarrow> 'k lptr option \<Rightarrow> ('k, 'v) LRUCacheEasy \<Rightarrow> ('k, 'v) LRUCacheEasy result" where
  "lru_set_prev p q c = (case p of
       LHead \<Rightarrow> Inr (c\<lparr>lc_head := (q, snd (lc_head c))\<rparr>) | LTail \<Rightarrow> Inr (c\<lparr>lc_tail := (q, snd (lc_tail c))\<rparr>)
     | LNode k \<Rightarrow> (case lc_map c k of None \<Rightarrow> Inl OutOfBounds
                    | Some n \<Rightarrow> Inr (c\<lparr>lc_map := (lc_map c)(k \<mapsto> n\<lparr>ln_prev := q\<rparr>)\<rparr>)))"

definition lru_set_next :: "'k lptr \<Rightarrow> 'k lptr option \<Rightarrow> ('k, 'v) LRUCacheEasy \<Rightarrow> ('k, 'v) LRUCacheEasy result" where
  "lru_set_next p q c = (case p of
       LHead \<Rightarrow> Inr (c\<lparr>lc_head := (fst (lc_head c), q)\<rparr>) | LTail \<Rightarrow> Inr (c\<lparr>lc_tail := (fst (lc_tail c), q)\<rparr>)
     | LNode k \<Rightarrow> (case lc_map c k of None \<Rightarrow> Inl OutOfBounds
                    | Some n \<Rightarrow> Inr (c\<lparr>lc_map := (lc_map c)(k \<mapsto> n\<lparr>ln_next := q\<rparr>)\<rparr>)))"

definition lc_Init :: "('k, 'v) LRUCacheEasy \<Rightarrow> ('k, 'v) LRUCacheEasy" where
  "lc_Init c = c\<lparr>lc_head := (None, Some LTail), lc_tail := (Some LHead, None), lc_size := 0\<rparr>"

definition LRUCacheEasy_new :: "nat \<Rightarrow> ('k, 'v) LRUCacheEasy" where
  "LRUCacheEasy_new capacity =
     lc_Init \<lparr>lc_capacity = capacity, lc_size = 0, lc_map = Map.empty, lc_head = (None, None), lc_tail = (None, None)\<rparr>"

definition lc_Detach :: "'k lptr \<Rightarrow> ('k, 'v) LRUCacheEasy \<Rightarrow> ('k, 'v) LRUCacheEasy result" where
  "lc_Detach p c =
     ub_bind (lru_get_prev p c) (\<lambda>prev.
     ub_bind (case prev of None \<Rightarrow> Inr c | Some q \<Rightarrow> ub_bind (lru_get_next p c) (\<lambda>next. lru_set_next q next c)) (\<lambda>c.
     ub_bind (lru_get_next p c) (\<lambda>next.
     ub_bind (case next of None \<Rightarrow> Inr c | Some q \<Rightarrow> ub_bind (lru_get_prev p c) (\<lambda>prev. lru_set_prev q prev c)) (\<lambda>c.
     ub_bind (lru_set_prev p None c) (\<lambda>c.
     ub_bind (lru_set_next p None c) (\<lambda>c.
     Inr (c\<lparr>lc_size := (lc_size c + (2 ^ 64 - 1)) mod 2 ^ 64\<rparr>)))))))"

definition lc_Attach :: "'k lptr \<Rightarrow> ('k, 'v) LRUCacheEasy \<Rightarrow> ('k, 'v) LRUCacheEasy result" where
  "lc_Attach p c =
     ub_bind (lru_set_prev p (Some LHead) c) (\<lambda>c.
     ub_bind (lru_get_next LHead c) (\<lambda>first.
     ub_bind (lru_set_next p first c) (\<lambda>c.
     ub_bind (lru_set_next LHead (Some p) c) (\<lambda>c.
     ub_bind (lru_get_next p c) (\<lambda>next.
     ub_bind (case next of None \<Rightarrow> Inr c | Some q \<Rightarrow> lru_set_prev q (Some p) c) (\<lambda>c.
     Inr (c\<lparr>lc_size := (lc_size c + 1) mod 2 ^ 64\<rparr>)))))))"

definition lc_Contains :: "'k \<Rightarrow> ('k, 'v) LRUCacheEasy \<Rightarrow> bool" where
  "lc_Contains key c \<longleftrightarrow> lc_map c key \<noteq> None"

definition lc_Full :: "('k, 'v) LRUCacheEasy \<Rightarrow> bool" where
  "lc_Full c \<longleftrightarrow> lc_size c > 0 \<and> lc_size c \<ge> lc_capacity c"

definition lc_Empty :: "('k, 'v) LRUCacheEasy \<Rightarrow> bool" where
  "lc_Empty c \<longleftrightarrow> lc_size c = 0"

text \<open>\<open>GetObsolete\<close> returns the key it wrote, or \<open>None\<close> for false; \<open>tail_.prev\<close> is never \<open>tail_\<close> or null.\<close>

definition lc_GetObsolete :: "('k, 'v) LRUCacheEasy \<Rightarrow> ('k option \<times> ('k, 'v) LRUCacheEasy) result" where
  "lc_GetObsolete c =
     (if lc_Full c then
        ub_bind (lru_get_prev LTail c) (\<lambda>last.
        case last of
          Some (LNode k) \<Rightarrow>
            ub_bind (lc_Detach (LNode k) c) (\<lambda>c.
            case lc_map c k of None \<Rightarrow> Inl OutOfBounds
            | Some n \<Rightarrow> Inr (Some (ln_key n), c\<lparr>lc_map := (lc_map c)(ln_key n := None)\<rparr>))
        | _ \<Rightarrow> Inl OutOfBounds)
      else Inr (None, c))"

definition lc_touch :: "'k \<Rightarrow> ('k, 'v) LRUCacheEasy \<Rightarrow> ('k, 'v) LRUCacheEasy result" where
  "lc_touch key c = ub_bind (lc_Detach (LNode key) c) (lc_Attach (LNode key))"

text \<open>The five-argument \<open>Update\<close>; the result has its return value and the obsolete key it wrote.\<close>

definition lc_Update5 :: "'k \<Rightarrow> 'v \<Rightarrow> bool \<Rightarrow> bool \<Rightarrow> bool \<Rightarrow> ('k, 'v) LRUCacheEasy
    \<Rightarrow> (bool \<times> 'k option \<times> ('k, 'v) LRUCacheEasy) result" where
  "lc_Update5 key val obs_null add_only silent_update c =
     (if obs_null then Inr (False, None, c)
      else if lc_Contains key c then
        (if \<not> add_only then
           (let c = c\<lparr>lc_map := (lc_map c)(key := map_option (\<lambda>n. n\<lparr>ln_val := val\<rparr>) (lc_map c key))\<rparr> in
            if \<not> silent_update then ub_bind (lc_touch key c) (\<lambda>c. Inr (True, None, c))
            else Inr (False, None, c))
         else Inr (True, None, c))
      else
        ub_bind (if lc_Full c then lc_GetObsolete c else Inr (None, c)) (\<lambda>(obs, c').
        if lc_Full c \<and> obs = None then Inr (False, None, c')
        else
          (let c' = c'\<lparr>lc_map := (lc_map c')(key \<mapsto> \<lparr>ln_key = key, ln_val = val, ln_prev = None, ln_next = None\<rparr>)\<rparr> in
           ub_bind (lc_Attach (LNode key) c') (\<lambda>c'. Inr (True, obs, c')))))"

definition lc_Put :: "'k \<Rightarrow> 'v \<Rightarrow> ('k, 'v) LRUCacheEasy \<Rightarrow> (bool \<times> ('k, 'v) LRUCacheEasy) result" where
  "lc_Put key val c = ub_bind (lc_Update5 key val False False False c) (\<lambda>(r, obs, c). Inr (r, c))"

definition lc_Update :: "'k \<Rightarrow> 'v \<Rightarrow> ('k, 'v) LRUCacheEasy \<Rightarrow> (bool \<times> ('k, 'v) LRUCacheEasy) result" where
  "lc_Update key val c =
     (if \<not> lc_Contains key c then Inr (False, c)
      else ub_bind (lc_Update5 key val False True False c) (\<lambda>(r, obs, c). Inr (r, c)))"

definition lc_UpdateSilently :: "'k \<Rightarrow> 'v \<Rightarrow> ('k, 'v) LRUCacheEasy \<Rightarrow> (bool \<times> ('k, 'v) LRUCacheEasy) result" where
  "lc_UpdateSilently key val c =
     (if \<not> lc_Contains key c then Inr (False, c)
      else ub_bind (lc_Update5 key val False True True c) (\<lambda>(r, obs, c). Inr (r, c)))"

definition lc_Add :: "'k \<Rightarrow> 'v \<Rightarrow> ('k, 'v) LRUCacheEasy \<Rightarrow> (bool \<times> ('k, 'v) LRUCacheEasy) result" where
  "lc_Add key val c = ub_bind (lc_Update5 key val False True False c) (\<lambda>(r, obs, c). Inr (r, c))"

definition lc_PutAndGetObsolete :: "'k \<Rightarrow> 'v \<Rightarrow> bool \<Rightarrow> ('k, 'v) LRUCacheEasy
    \<Rightarrow> (bool \<times> 'k option \<times> ('k, 'v) LRUCacheEasy) result" where
  "lc_PutAndGetObsolete key val obs_null c = lc_Update5 key val obs_null False False c"

definition lc_AddAndGetObsolete :: "'k \<Rightarrow> 'v \<Rightarrow> bool \<Rightarrow> ('k, 'v) LRUCacheEasy
    \<Rightarrow> (bool \<times> 'k option \<times> ('k, 'v) LRUCacheEasy) result" where
  "lc_AddAndGetObsolete key val obs_null c = lc_Update5 key val obs_null True False c"

definition lc_Get :: "bool \<Rightarrow> 'k \<Rightarrow> ('k, 'v) LRUCacheEasy \<Rightarrow> ('v option \<times> ('k, 'v) LRUCacheEasy) result" where
  "lc_Get silent key c =
     (if lc_Contains key c then
        ub_bind (if \<not> silent then lc_touch key c else Inr c) (\<lambda>c. Inr (map_option ln_val (lc_map c key), c))
      else Inr (None, c))"

definition lc_Prioritize :: "'k \<Rightarrow> ('k, 'v) LRUCacheEasy \<Rightarrow> (bool \<times> ('k, 'v) LRUCacheEasy) result" where
  "lc_Prioritize key c =
     (if lc_Contains key c then ub_bind (lc_touch key c) (\<lambda>c. Inr (True, c)) else Inr (False, c))"

definition lc_First :: "('k, 'v) LRUCacheEasy \<Rightarrow> 'k lptr option" where
  "lc_First c = (if lc_size c \<noteq> 0 then snd (lc_head c) else None)"

definition lc_Clear :: "('k, 'v) LRUCacheEasy \<Rightarrow> ('k, 'v) LRUCacheEasy" where
  "lc_Clear c = lc_Init (c\<lparr>lc_map := Map.empty\<rparr>)"

text \<open>\<open>operator[]\<close>: \<open>map_[key]\<close> creates a default node when the key is absent; the value is returned.\<close>

definition lc_index :: "'k \<Rightarrow> 'v \<Rightarrow> 'k \<Rightarrow> ('k, 'v) LRUCacheEasy \<Rightarrow> ('v \<times> ('k, 'v) LRUCacheEasy) result" where
  "lc_index K0 V0 key c =
     ub_bind (if \<not> lc_Contains key c then ub_bind (lc_GetObsolete c) (\<lambda>(obs, c). Inr c) else Inr c) (\<lambda>c.
     case lc_map c key of
       Some n \<Rightarrow> Inr (ln_val n, c)
     | None \<Rightarrow> Inr (V0, c\<lparr>lc_map := (lc_map c)(key \<mapsto> \<lparr>ln_key = K0, ln_val = V0, ln_prev = None, ln_next = None\<rparr>)\<rparr>))"

section \<open>The list threaded through the map\<close>

definition nx :: "('k, 'v) LRUCacheEasy \<Rightarrow> 'k lptr \<Rightarrow> 'k lptr option" where
  "nx c p = (case lru_get_next p c of Inr q \<Rightarrow> q | Inl _ \<Rightarrow> None)"

definition pv :: "('k, 'v) LRUCacheEasy \<Rightarrow> 'k lptr \<Rightarrow> 'k lptr option" where
  "pv c p = (case lru_get_prev p c of Inr q \<Rightarrow> q | Inl _ \<Rightarrow> None)"

definition live :: "('k, 'v) LRUCacheEasy \<Rightarrow> 'k lptr \<Rightarrow> bool" where
  "live c p \<longleftrightarrow> (case p of LNode k \<Rightarrow> lc_map c k \<noteq> None | _ \<Rightarrow> True)"

lemma lru_get_next_live: "live c p \<Longrightarrow> lru_get_next p c = Inr (nx c p)"
  by (cases p) (auto simp: live_def lru_get_next_def nx_def split: option.splits)

lemma lru_get_prev_live: "live c p \<Longrightarrow> lru_get_prev p c = Inr (pv c p)"
  by (cases p) (auto simp: live_def lru_get_prev_def pv_def split: option.splits)

lemma lru_set_next_live:
  assumes "live c p"
  shows "\<exists>c'. lru_set_next p q c = Inr c' \<and> nx c' = (nx c)(p := q) \<and> pv c' = pv c \<and> live c' = live c
    \<and> lc_size c' = lc_size c \<and> lc_capacity c' = lc_capacity c
    \<and> (\<forall>k. map_option ln_key (lc_map c' k) = map_option ln_key (lc_map c k))
    \<and> (\<forall>k. map_option ln_val (lc_map c' k) = map_option ln_val (lc_map c k))"
  using assms
  by (cases p) (auto simp: lru_set_next_def nx_def pv_def live_def lru_get_next_def lru_get_prev_def fun_eq_iff
      split: lptr.splits option.splits)

lemma lru_set_prev_live:
  assumes "live c p"
  shows "\<exists>c'. lru_set_prev p q c = Inr c' \<and> pv c' = (pv c)(p := q) \<and> nx c' = nx c \<and> live c' = live c
    \<and> lc_size c' = lc_size c \<and> lc_capacity c' = lc_capacity c
    \<and> (\<forall>k. map_option ln_key (lc_map c' k) = map_option ln_key (lc_map c k))
    \<and> (\<forall>k. map_option ln_val (lc_map c' k) = map_option ln_val (lc_map c k))"
  using assms
  by (cases p) (auto simp: lru_set_prev_def nx_def pv_def live_def lru_get_next_def lru_get_prev_def fun_eq_iff
      split: lptr.splits option.splits)

text \<open>Operations on the list change links only.\<close>

definition lc_frame :: "('k, 'v) LRUCacheEasy \<Rightarrow> ('k, 'v) LRUCacheEasy \<Rightarrow> bool" where
  "lc_frame c c' \<longleftrightarrow> lc_capacity c' = lc_capacity c \<and> live c' = live c
    \<and> (\<forall>k. map_option ln_key (lc_map c' k) = map_option ln_key (lc_map c k))
    \<and> (\<forall>k. map_option ln_val (lc_map c' k) = map_option ln_val (lc_map c k))"

lemma lc_frame_trans: "lc_frame a b \<Longrightarrow> lc_frame b c \<Longrightarrow> lc_frame a c"
  by (simp add: lc_frame_def)

lemma lru_set_next_frame:
  "live c p \<Longrightarrow> \<exists>c'. lru_set_next p q c = Inr c' \<and> nx c' = (nx c)(p := q) \<and> pv c' = pv c \<and> lc_size c' = lc_size c \<and> lc_frame c c'"
  using lru_set_next_live [of c p q] by (auto simp: lc_frame_def)

lemma lru_set_prev_frame:
  "live c p \<Longrightarrow> \<exists>c'. lru_set_prev p q c = Inr c' \<and> pv c' = (pv c)(p := q) \<and> nx c' = nx c \<and> lc_size c' = lc_size c \<and> lc_frame c c'"
  using lru_set_prev_live [of c p q] by (auto simp: lc_frame_def)

lemma lc_frame_live: "lc_frame c c' \<Longrightarrow> live c' p = live c p"
  by (simp add: lc_frame_def)

lemma Detach_frame:
  assumes "live c p" "live c a" "live c b" and "pv c p = Some a" "nx c p = Some b" and "a \<noteq> p" "b \<noteq> p"
  shows "\<exists>c'. lc_Detach p c = Inr c' \<and> nx c' = (nx c)(a := Some b, p := None) \<and> pv c' = (pv c)(b := Some a, p := None)
    \<and> lc_size c' = (lc_size c + (2 ^ 64 - 1)) mod 2 ^ 64 \<and> lc_frame c c'"
proof -
  obtain c1 where c1: "lru_set_next a (Some b) c = Inr c1" "nx c1 = (nx c)(a := Some b)" "pv c1 = pv c"
    "lc_size c1 = lc_size c" "lc_frame c c1" using lru_set_next_frame [OF assms(2)] by blast
  obtain c2 where c2: "lru_set_prev b (Some a) c1 = Inr c2" "pv c2 = (pv c1)(b := Some a)" "nx c2 = nx c1"
    "lc_size c2 = lc_size c1" "lc_frame c1 c2" using lru_set_prev_frame [of c1 b] lc_frame_live [OF c1(5)] assms(3) by blast
  obtain c3 where c3: "lru_set_prev p None c2 = Inr c3" "pv c3 = (pv c2)(p := None)" "nx c3 = nx c2"
    "lc_size c3 = lc_size c2" "lc_frame c2 c3"
    using lru_set_prev_frame [of c2 p] lc_frame_live [OF lc_frame_trans [OF c1(5) c2(5)]] assms(1) by blast
  obtain c4 where c4: "lru_set_next p None c3 = Inr c4" "nx c4 = (nx c3)(p := None)" "pv c4 = pv c3"
    "lc_size c4 = lc_size c3" "lc_frame c3 c4"
    using lru_set_next_frame [of c3 p] lc_frame_live [OF lc_frame_trans [OF lc_frame_trans [OF c1(5) c2(5)] c3(5)]] assms(1)
    by blast
  have l1: "live c1 p" using lc_frame_live [OF c1(5)] assms(1) by simp
  have fr: "lc_frame c c4" using c1(5) c2(5) c3(5) c4(5) lc_frame_trans by blast
  let ?c = "c4\<lparr>lc_size := (lc_size c4 + (2 ^ 64 - 1)) mod 2 ^ 64\<rparr>"
  have same: "nx ?c = nx c4" "pv ?c = pv c4" "lc_frame c ?c"
    using fr by (auto simp: nx_def pv_def lru_get_next_def lru_get_prev_def lc_frame_def live_def fun_eq_iff split: lptr.splits)
  have "lc_Detach p c = Inr ?c"
    using assms c1 c2 c3 c4 l1
    by (simp add: lc_Detach_def lru_get_prev_live lru_get_next_live)
  then show ?thesis using same c1 c2 c3 c4 by (intro exI [of _ ?c]) simp
qed

lemma Attach_frame:
  assumes "live c p" "live c f" and "nx c LHead = Some f" and "p \<noteq> LHead" "f \<noteq> p"
  shows "\<exists>c'. lc_Attach p c = Inr c' \<and> nx c' = (nx c)(p := Some f, LHead := Some p)
    \<and> pv c' = (pv c)(p := Some LHead, f := Some p) \<and> lc_size c' = (lc_size c + 1) mod 2 ^ 64 \<and> lc_frame c c'"
proof -
  obtain c1 where c1: "lru_set_prev p (Some LHead) c = Inr c1" "pv c1 = (pv c)(p := Some LHead)" "nx c1 = nx c"
    "lc_size c1 = lc_size c" "lc_frame c c1" using lru_set_prev_frame [OF assms(1)] by blast
  obtain c2 where c2: "lru_set_next p (Some f) c1 = Inr c2" "nx c2 = (nx c1)(p := Some f)" "pv c2 = pv c1"
    "lc_size c2 = lc_size c1" "lc_frame c1 c2" using lru_set_next_frame [of c1 p] lc_frame_live [OF c1(5)] assms(1) by blast
  obtain c3 where c3: "lru_set_next LHead (Some p) c2 = Inr c3" "nx c3 = (nx c2)(LHead := Some p)" "pv c3 = pv c2"
    "lc_size c3 = lc_size c2" "lc_frame c2 c3"
    using lru_set_next_frame [of c2 LHead] by (auto simp: live_def)
  have f3: "lc_frame c c3" using c1(5) c2(5) c3(5) lc_frame_trans by blast
  obtain c4 where c4: "lru_set_prev f (Some p) c3 = Inr c4" "pv c4 = (pv c3)(f := Some p)" "nx c4 = nx c3"
    "lc_size c4 = lc_size c3" "lc_frame c3 c4"
    using lru_set_prev_frame [of c3 f] lc_frame_live [OF f3] assms(2) by blast
  let ?c = "c4\<lparr>lc_size := (lc_size c4 + 1) mod 2 ^ 64\<rparr>"
  have same: "nx ?c = nx c4" "pv ?c = pv c4" "lc_frame c ?c"
    using lc_frame_trans [OF f3 c4(5)]
    by (auto simp: nx_def pv_def lru_get_next_def lru_get_prev_def lc_frame_def live_def fun_eq_iff split: lptr.splits)
  have "live c1 LHead" "live c3 p" using lc_frame_live [OF f3] assms(1) by (auto simp: live_def)
  then have "lc_Attach p c = Inr ?c"
    using assms c1 c2 c3 c4 by (simp add: lc_Attach_def lru_get_next_live)
  then show ?thesis using same c1 c2 c3 c4 by (intro exI [of _ ?c]) simp
qed

abbreviation link :: "('k, 'v) LRUCacheEasy \<Rightarrow> 'k lptr \<Rightarrow> 'k lptr \<Rightarrow> bool" where
  "link c a b \<equiv> nx c a = Some b \<and> pv c b = Some a"

definition chain :: "('k, 'v) LRUCacheEasy \<Rightarrow> 'k list \<Rightarrow> bool" where
  "chain c ks \<longleftrightarrow> successively (link c) (LHead # map LNode ks @ [LTail])"

lemma chain_split:
  "chain c (xs @ k # ys) \<longleftrightarrow> successively (link c) (LHead # map LNode xs) \<and> successively (link c) (map LNode ys @ [LTail])
     \<and> link c (last (LHead # map LNode xs)) (LNode k) \<and> link c (LNode k) (hd (map LNode ys @ [LTail]))"
proof -
  have "LHead # map LNode (xs @ k # ys) @ [LTail] = (LHead # map LNode xs) @ [LNode k] @ (map LNode ys @ [LTail])" by simp
  then show ?thesis unfolding chain_def by (auto simp only: successively_append_iff) auto
qed

lemma chain_append:
  "chain c (xs @ ys) \<longleftrightarrow> successively (link c) (LHead # map LNode xs) \<and> successively (link c) (map LNode ys @ [LTail])
     \<and> link c (last (LHead # map LNode xs)) (hd (map LNode ys @ [LTail]))"
proof -
  have "LHead # map LNode (xs @ ys) @ [LTail] = (LHead # map LNode xs) @ (map LNode ys @ [LTail])" by simp
  then show ?thesis unfolding chain_def by (auto simp only: successively_append_iff)
qed

lemma links_cong:
  assumes "successively (link c) L" and "\<And>x. x \<in> set (butlast L) \<Longrightarrow> nx c' x = nx c x" and "\<And>x. x \<in> set (tl L) \<Longrightarrow> pv c' x = pv c x"
  shows "successively (link c') L"
  using assms
proof (induction L rule: induct_list012)
  case (3 x y zs)
  then show ?case by (cases zs) auto
qed auto

definition lc_ok :: "nat \<Rightarrow> ('k, 'v) LRUCacheEasy \<Rightarrow> 'k list \<Rightarrow> bool" where
  "lc_ok n c ks \<longleftrightarrow> distinct ks \<and> (\<forall>k. lc_map c k \<noteq> None \<longleftrightarrow> k \<in> set ks)
     \<and> (\<forall>k. map_option ln_key (lc_map c k) = (if k \<in> set ks then Some k else None))
     \<and> chain c ks \<and> lc_size c = length ks \<and> lc_capacity c = n \<and> length ks \<le> max 1 n \<and> n < 2 ^ 63"

lemma detach_chain:
  assumes "chain c (xs @ k # ys)" and "distinct (xs @ k # ys)"
    and "a = last (LHead # map LNode xs)" and "b = hd (map LNode ys @ [LTail])"
    and "nx c' = (nx c)(a := Some b, LNode k := None)" and "pv c' = (pv c)(b := Some a, LNode k := None)"
  shows "chain c' (xs @ ys)"
proof -
  let ?L1 = "LHead # map LNode xs" and ?L2 = "map LNode ys @ [LTail]"
  have h: "successively (link c) ?L1" "successively (link c) ?L2" using assms(1) [unfolded chain_split] by simp_all
  have d1: "distinct ?L1" "distinct ?L2" "set ?L1 \<inter> set ?L2 = {}" "LNode k \<notin> set ?L1" "LNode k \<notin> set ?L2"
    using assms(2) by (auto simp: distinct_map inj_on_def)
  have a: "a \<in> set ?L1" "a \<notin> set (butlast ?L1)" "b \<in> set ?L2" "b \<notin> set (tl ?L2)"
  proof -
    show "a \<in> set ?L1" using assms(3) last_in_set by blast
    have "butlast ?L1 @ [a] = ?L1" unfolding assms(3) by (rule append_butlast_last_id) simp
    then have "distinct (butlast ?L1 @ [a])" using d1(1) by simp
    then show "a \<notin> set (butlast ?L1)" by (simp only: distinct_append) auto
    show "b \<in> set ?L2" unfolding assms(4) by (intro hd_in_set) simp
    have "b # tl ?L2 = ?L2" unfolding assms(4) by (rule list.collapse) simp
    then have "distinct (b # tl ?L2)" using d1(2) by simp
    then show "b \<notin> set (tl ?L2)" by (simp only: distinct.simps) simp
  qed
  have "nx c' x = nx c x" if "x \<in> set (butlast ?L1)" for x
    using that in_set_butlastD [OF that] a(2) d1(4) assms(5) by (cases "x = LNode k") auto
  moreover have "pv c' x = pv c x" if "x \<in> set (tl ?L1)" for x
    using that a(3) d1(3,4) assms(6) by auto
  ultimately have "successively (link c') ?L1" by (rule links_cong [OF h(1)])
  moreover have "nx c' x = nx c x" if "x \<in> set (butlast ?L2)" for x
    using that a(1) d1(3,5) assms(5) by (auto dest!: in_set_butlastD)
  moreover have "pv c' x = pv c x" if "x \<in> set (tl ?L2)" for x
    using that a(4) d1(5) assms(6) by (auto dest: list.set_sel(2) [rotated])
  ultimately have "successively (link c') ?L1" "successively (link c') ?L2" using links_cong [OF h(2)] by blast+
  moreover have "link c' a b" using assms(5,6) a(1,3) d1(4,5) by auto
  ultimately show ?thesis unfolding chain_append assms(3,4) by blast
qed

lemma attach_chain:
  assumes "chain c ks" and "distinct (k # ks)" and "nx c LHead = Some f"
    and "nx c' = (nx c)(LNode k := Some f, LHead := Some (LNode k))" and "pv c' = (pv c)(LNode k := Some LHead, f := Some (LNode k))"
  shows "chain c' (k # ks)"
proof -
  let ?L = "map LNode ks @ [LTail]"
  have h: "successively (link c) ?L" "f = hd ?L"
    using assms(1,3) chain_append [of c "[]" ks] by auto
  have L: "f # tl ?L = ?L" unfolding h(2) by (rule list.collapse) simp
  have d: "distinct ?L" "LNode k \<notin> set ?L" "LHead \<notin> set ?L" using assms(2) by (auto simp: distinct_map inj_on_def)
  have "distinct (f # tl ?L)" unfolding L by (rule d(1))
  then have ft: "f \<notin> set (tl ?L)" by (simp only: distinct.simps) simp
  have fin: "f \<in> set ?L" unfolding h(2) by (rule hd_in_set) simp
  have sub: "x \<in> set ?L" if "x \<in> set (tl ?L)" for x using that L by (metis list.set_intros(2))
  have "nx c' x = nx c x" if "x \<in> set (butlast ?L)" for x
    using in_set_butlastD [OF that] d(2,3) assms(4) by auto
  moreover have "pv c' x = pv c x" if "x \<in> set (tl ?L)" for x
    using that sub [OF that] d(2) ft assms(5) by auto
  ultimately have "successively (link c') ?L" by (rule links_cong [OF h(1)])
  moreover have "link c' LHead (LNode k)" "link c' (LNode k) f" using assms(4,5) fin d(2,3) by auto
  ultimately show ?thesis using chain_split [of c' "[]" k ks] h(2) by auto
qed

lemma lc_ok_frame:
  assumes "lc_ok n c ks" and "lc_frame c c'" and "chain c' ks'" and "distinct ks'" and "set ks' = set ks"
    and "lc_size c' = length ks'"
  shows "lc_ok n c' ks'"
proof -
  have "lc_map c' k \<noteq> None \<longleftrightarrow> lc_map c k \<noteq> None" for k
    using assms(2) unfolding lc_frame_def by (metis option.map_disc_iff)
  moreover have "length ks' = length ks" using assms(1,4,5) by (metis distinct_card lc_ok_def)
  ultimately show ?thesis using assms by (auto simp: lc_ok_def lc_frame_def)
qed

text \<open>Taking a node out of the list and putting it back in front.\<close>

lemma Detach_ok:
  assumes "chain c (xs @ k # ys)" and "distinct (xs @ k # ys)" and "\<And>j. lc_map c j \<noteq> None \<longleftrightarrow> j \<in> set (xs @ k # ys)"
    and "lc_size c = length (xs @ k # ys)" and "lc_size c < 2 ^ 64"
  shows "\<exists>c'. lc_Detach (LNode k) c = Inr c' \<and> chain c' (xs @ ys) \<and> lc_size c' = length (xs @ ys) \<and> lc_frame c c'"
proof -
  let ?a = "last (LHead # map LNode xs)" and ?b = "hd (map LNode ys @ [LTail])"
  have a: "?a = LHead \<or> (\<exists>x \<in> set xs. ?a = LNode x)" by (cases xs rule: rev_cases) auto
  have b: "?b = LTail \<or> (\<exists>y \<in> set ys. ?b = LNode y)" by (cases ys) auto
  have lk: "pv c (LNode k) = Some ?a" "nx c (LNode k) = Some ?b" using assms(1) [unfolded chain_split] by auto
  have lv: "live c (LNode k)" "live c ?a" "live c ?b" using assms(3) a b by (auto simp: live_def)
  have ne: "?a \<noteq> LNode k" "?b \<noteq> LNode k" using a b assms(2) by auto
  obtain c' where c': "lc_Detach (LNode k) c = Inr c'" "nx c' = (nx c)(?a := Some ?b, LNode k := None)"
    "pv c' = (pv c)(?b := Some ?a, LNode k := None)" "lc_size c' = (lc_size c + (2 ^ 64 - 1)) mod 2 ^ 64" "lc_frame c c'"
    using Detach_frame [OF lv lk ne] by blast
  have "lc_size c' = length (xs @ ys)"
    using c'(4) assms(4,5) by (simp add: mod_if)
  then show ?thesis using detach_chain [OF assms(1,2) refl refl c'(2,3)] c'(1,5) by blast
qed

lemma Attach_ok:
  assumes "chain c ks" and "distinct (k # ks)" and "\<And>j. j \<in> set (k # ks) \<Longrightarrow> lc_map c j \<noteq> None"
    and "lc_size c = length ks" and "Suc (length ks) < 2 ^ 64"
  shows "\<exists>c'. lc_Attach (LNode k) c = Inr c' \<and> chain c' (k # ks) \<and> lc_size c' = length (k # ks) \<and> lc_frame c c'"
proof -
  let ?f = "hd (map LNode ks @ [LTail])"
  have f: "?f = LTail \<or> (\<exists>y \<in> set ks. ?f = LNode y)" by (cases ks) auto
  have h: "nx c LHead = Some ?f" using assms(1) chain_append [of c "[]" ks] by auto
  have "live c (LNode k)" "live c ?f" "LNode k \<noteq> LHead" "?f \<noteq> LNode k" using f assms(2,3) by (auto simp: live_def)
  from Attach_frame [OF this(1,2) h this(3,4)] obtain c' where c': "lc_Attach (LNode k) c = Inr c'"
    "nx c' = (nx c)(LNode k := Some ?f, LHead := Some (LNode k))" "pv c' = (pv c)(LNode k := Some LHead, ?f := Some (LNode k))"
    "lc_size c' = (lc_size c + 1) mod 2 ^ 64" "lc_frame c c'" by blast
  then show ?thesis using attach_chain [OF assms(1,2) h c'(2,3)] assms(4,5) by auto
qed

lemma touch_ok:
  assumes "lc_ok n c ks" and "k \<in> set ks"
  shows "\<exists>c'. lc_touch k c = Inr c' \<and> lc_ok n c' (k # filter (\<lambda>j. j \<noteq> k) ks) \<and> lc_frame c c'"
proof -
  obtain xs ys where ks: "ks = xs @ k # ys" using assms(2) by (meson split_list)
  have ok: "chain c (xs @ k # ys)" "distinct (xs @ k # ys)" "\<And>j. lc_map c j \<noteq> None \<longleftrightarrow> j \<in> set (xs @ k # ys)"
    "lc_size c = length (xs @ k # ys)" "length (xs @ k # ys) < 2 ^ 64"
    using assms(1) ks by (auto simp: lc_ok_def)
  obtain c1 where c1: "lc_Detach (LNode k) c = Inr c1" "chain c1 (xs @ ys)" "lc_size c1 = length (xs @ ys)" "lc_frame c c1"
    using Detach_ok [OF ok(1-4)] ok(4,5) by auto
  have m: "lc_map c1 j \<noteq> None \<longleftrightarrow> lc_map c j \<noteq> None" for j
    using c1(4) unfolding lc_frame_def by (metis option.map_disc_iff)
  have "distinct (k # xs @ ys)" using ok(2) by auto
  then obtain c2 where c2: "lc_Attach (LNode k) c1 = Inr c2" "chain c2 (k # xs @ ys)" "lc_size c2 = length (k # xs @ ys)" "lc_frame c1 c2"
    using Attach_ok [OF c1(2), of k] c1(3) m ok(3,5) by auto
  have "filter (\<lambda>j. j \<noteq> k) xs = xs" "filter (\<lambda>j. j \<noteq> k) ys = ys" using ok(2) by (auto intro!: filter_True)
  then have "filter (\<lambda>j. j \<noteq> k) ks = xs @ ys" using ks by simp
  moreover have "lc_ok n c2 (k # xs @ ys)"
    using lc_ok_frame [OF assms(1) lc_frame_trans [OF c1(4) c2(4)] c2(2)] \<open>distinct (k # xs @ ys)\<close> ks c2(3) by auto
  ultimately show ?thesis using c1(1) c2(1) lc_frame_trans [OF c1(4) c2(4)] by (auto simp: lc_touch_def)
qed

section \<open>The keys in order of use\<close>

primrec lc_walk :: "('k, 'v) LRUCacheEasy \<Rightarrow> nat \<Rightarrow> 'k lptr option \<Rightarrow> 'k list" where
  "lc_walk c 0 p = []"
| "lc_walk c (Suc n) p = (case p of Some (LNode k) \<Rightarrow> k # lc_walk c n (nx c (LNode k)) | _ \<Rightarrow> [])"

definition lc_keys :: "('k, 'v) LRUCacheEasy \<Rightarrow> 'k list" where
  "lc_keys c = lc_walk c (lc_size c) (nx c LHead)"

definition lc_abs :: "('k, 'v) LRUCacheEasy \<Rightarrow> ('k \<times> 'v) list" where
  "lc_abs c = map (\<lambda>k. (k, the (map_option ln_val (lc_map c k)))) (lc_keys c)"

definition lc_inv :: "nat \<Rightarrow> ('k, 'v) LRUCacheEasy \<Rightarrow> bool" where
  "lc_inv n c \<longleftrightarrow> lc_ok n c (lc_keys c)"

lemma walk_links:
  "successively (link c) (p # map LNode ks @ [LTail]) \<Longrightarrow> lc_walk c (length ks) (nx c p) = ks"
  by (induction ks arbitrary: p) auto

lemma lc_ok_keys: "lc_ok n c ks \<Longrightarrow> lc_keys c = ks"
  using walk_links [of c LHead ks] by (simp add: lc_ok_def chain_def lc_keys_def)

lemma lc_ok_abs:
  assumes "lc_ok n c ks"
  shows "lc_inv n c" and "lc_abs c = map (\<lambda>k. (k, the (map_option ln_val (lc_map c k)))) ks"
  using assms lc_ok_keys [OF assms] by (simp_all add: lc_inv_def lc_abs_def)

lemma lc_abs_find:
  assumes "lc_ok n c ks"
  shows "map_of (lc_abs c) k = map_option ln_val (lc_map c k)"
proof -
  have m: "map_of (map (\<lambda>k. (k, f k)) ks) k = (if k \<in> set ks then Some (f k) else None)" for f :: "'a \<Rightarrow> 'b"
    by (induction ks) auto
  have "k \<in> set ks \<longleftrightarrow> lc_map c k \<noteq> None" using assms by (simp add: lc_ok_def)
  then show ?thesis
    unfolding lc_ok_abs(2) [OF assms] m [of "\<lambda>k. the (map_option ln_val (lc_map c k))"] by auto
qed

lemma lc_abs_filter: "map (\<lambda>k. (k, f k)) (filter (\<lambda>j. j \<noteq> k) ks) = filter (\<lambda>p. fst p \<noteq> k) (map (\<lambda>k. (k, f k)) ks)"
  by (simp add: filter_map comp_def)

lemma touch_abs:
  assumes "lc_ok n c ks" and "k \<in> set ks" and "lc_touch k c = Inr c'" and "map_option ln_val (lc_map c k) = Some v"
  shows "lc_inv n c' \<and> lc_abs c' = lru_touch k v (lc_abs c) \<and> map_option ln_val (lc_map c' k) = Some v"
proof -
  have c': "lc_ok n c' (k # filter (\<lambda>j. j \<noteq> k) ks)" "lc_frame c c'" using touch_ok [OF assms(1,2)] assms(3) by auto
  then have v: "map_option ln_val (lc_map c' j) = map_option ln_val (lc_map c j)" for j by (simp add: lc_frame_def)
  show ?thesis
    using lc_ok_abs [OF c'(1)] lc_ok_abs(2) [OF assms(1)] assms(4) unfolding v
    by (simp add: lru_touch_def lc_abs_filter)
qed

lemma Get_ok:
  assumes "lc_inv n c"
  shows "\<exists>c'. lc_Get False k c = Inr (fst (lru_get k (lc_abs c)), c') \<and> lc_inv n c' \<and> lc_abs c' = snd (lru_get k (lc_abs c))"
proof -
  have ok: "lc_ok n c (lc_keys c)" using assms by (simp add: lc_inv_def)
  show ?thesis
  proof (cases "lc_map c k")
    case None
    then show ?thesis using lc_abs_find [OF ok, of k] assms by (simp add: lc_Get_def lc_Contains_def lru_get_def)
  next
    case (Some nd)
    have k: "k \<in> set (lc_keys c)" using ok Some by (auto simp: lc_ok_def)
    obtain c' where c': "lc_touch k c = Inr c'" using touch_ok [OF ok k] by blast
    from touch_abs [OF ok k c'] Some lc_abs_find [OF ok, of k] c' show ?thesis
      by (auto simp: lc_Get_def lc_Contains_def lru_get_def)
  qed
qed

text \<open>Changing the map at a key that is not on the list keeps the list.\<close>

lemma chain_map_upd:
  assumes "chain c ks" and "k \<notin> set ks"
  shows "chain (c\<lparr>lc_map := (lc_map c)(k := nd)\<rparr>) ks"
proof -
  let ?c = "c\<lparr>lc_map := (lc_map c)(k := nd)\<rparr>"
  have "nx ?c x = nx c x" "pv ?c x = pv c x" if "x \<noteq> LNode k" for x
    using that by (cases x; simp add: nx_def pv_def lru_get_next_def lru_get_prev_def)+
  moreover have "LNode k \<notin> set (LHead # map LNode ks @ [LTail])" using assms(2) by auto
  ultimately show ?thesis
    using assms(1) unfolding chain_def
    by (elim links_cong) (metis in_set_butlastD, metis list.set_sel(2) list.discI)
qed

lemma GetObsolete_ok:
  assumes ok: "lc_ok n c (ys @ [z])" and full: "lc_Full c"
  shows "\<exists>c'. lc_GetObsolete c = Inr (Some z, c') \<and> lc_ok n c' ys
    \<and> (\<forall>k \<in> set ys. map_option ln_val (lc_map c' k) = map_option ln_val (lc_map c k))"
proof -
  have o: "chain c (ys @ [z])" "distinct (ys @ [z])" "\<And>j. lc_map c j \<noteq> None \<longleftrightarrow> j \<in> set (ys @ [z])"
    "lc_size c = length (ys @ [z])" "lc_size c < 2 ^ 64" "\<And>k. map_option ln_key (lc_map c k) = (if k \<in> set (ys @ [z]) then Some k else None)"
    using ok by (auto simp: lc_ok_def)
  have last: "lru_get_prev LTail c = Inr (Some (LNode z))"
    using o(1) [unfolded chain_split] lru_get_prev_live [of c LTail] by (simp add: live_def)
  obtain c1 where c1: "lc_Detach (LNode z) c = Inr c1" "chain c1 ys" "lc_size c1 = length ys" "lc_frame c c1"
    using Detach_ok [OF o(1-5)] by auto
  have k1: "map_option ln_key (lc_map c1 k) = (if k \<in> set (ys @ [z]) then Some k else None)" for k
    using c1(4) o(6) by (simp add: lc_frame_def)
  obtain nd where nd: "lc_map c1 z = Some nd" "ln_key nd = z" using k1 [of z] by auto
  let ?c = "c1\<lparr>lc_map := (lc_map c1)(z := None)\<rparr>"
  have "lc_map ?c k \<noteq> None \<longleftrightarrow> k \<in> set ys" for k
  proof -
    have "lc_map c1 k \<noteq> None \<longleftrightarrow> map_option ln_key (lc_map c1 k) \<noteq> None" by simp
    then show ?thesis using k1 [of k] o(2) by auto
  qed
  moreover have "map_option ln_key (lc_map ?c k) = (if k \<in> set ys then Some k else None)" for k
    using k1 [of k] o(2) by auto
  moreover have "chain ?c ys" using chain_map_upd [OF c1(2)] o(2) by auto
  ultimately have "lc_ok n ?c ys"
    using ok c1(3,4) by (auto simp: lc_ok_def lc_frame_def)
  moreover have "lc_GetObsolete c = Inr (Some z, ?c)"
    using full last c1(1) nd by (simp add: lc_GetObsolete_def)
  moreover have "map_option ln_val (lc_map ?c k) = map_option ln_val (lc_map c k)" if "k \<in> set ys" for k
    using that o(2) c1(4) by (auto simp: lc_frame_def)
  ultimately show ?thesis by blast
qed

lemma insert_ok:
  assumes ok: "lc_ok n c ks" and k: "k \<notin> set ks" and room: "length ks < max 1 n"
  shows "\<exists>c'. lc_Attach (LNode k) (c\<lparr>lc_map := (lc_map c)(k \<mapsto> \<lparr>ln_key = k, ln_val = v, ln_prev = None, ln_next = None\<rparr>)\<rparr>) = Inr c'
    \<and> lc_inv n c' \<and> lc_abs c' = (k, v) # lc_abs c"
proof -
  let ?c = "c\<lparr>lc_map := (lc_map c)(k \<mapsto> \<lparr>ln_key = k, ln_val = v, ln_prev = None, ln_next = None\<rparr>)\<rparr>"
  have o: "chain c ks" "distinct ks" "\<And>j. lc_map c j \<noteq> None \<longleftrightarrow> j \<in> set ks" "lc_size c = length ks"
    "\<And>j. map_option ln_key (lc_map c j) = (if j \<in> set ks then Some j else None)" "n < 2 ^ 63" "lc_capacity c = n"
    using ok by (auto simp: lc_ok_def)
  have ch: "chain ?c ks" using chain_map_upd [OF o(1) k] .
  have bound: "Suc (length ks) < 2 ^ 64" using room o(6) by (simp add: max_def split: if_splits)
  have m: "lc_map ?c j \<noteq> None" if "j \<in> set (k # ks)" for j using that o(3) by auto
  obtain c' where c': "lc_Attach (LNode k) ?c = Inr c'" "chain c' (k # ks)" "lc_size c' = length (k # ks)" "lc_frame ?c c'"
    using Attach_ok [OF ch _ m, of k] o(2,4) k bound by auto
  have "lc_map c' j \<noteq> None \<longleftrightarrow> lc_map ?c j \<noteq> None" for j
    using c'(4) unfolding lc_frame_def by (metis option.map_disc_iff)
  moreover have "map_option ln_key (lc_map c' j) = (if j \<in> set (k # ks) then Some j else None)" for j
    using c'(4) o(5) [of j] by (auto simp: lc_frame_def)
  moreover have "lc_capacity c' = n" "distinct (k # ks)" "length (k # ks) \<le> max 1 n"
    using c'(4) o(2,7) k room by (auto simp: lc_frame_def)
  ultimately have "lc_ok n c' (k # ks)"
    unfolding lc_ok_def using c'(2,3) o(3,6) by auto
  moreover have "map_option ln_val (lc_map c' j) = (if j = k then Some v else map_option ln_val (lc_map c j))" for j
    using c'(4) by (simp add: lc_frame_def)
  ultimately show ?thesis
    using c'(1) lc_ok_abs [of n c' "k # ks"] lc_ok_abs(2) [OF ok] k by (auto intro!: exI [of _ c'])
qed

lemma Full_iff: "lc_ok n c ks \<Longrightarrow> lc_Full c \<longleftrightarrow> length ks = max 1 n"
  by (auto simp: lc_ok_def lc_Full_def max_def le_Suc_eq split: if_splits)

lemma Update5_absent:
  assumes ok: "lc_ok n c ks" and k: "k \<notin> set ks"
  shows "\<exists>c'. lc_Update5 k v False ao si c = Inr (True, if length ks = max 1 n then Some (last ks) else None, c')
    \<and> lc_inv n c' \<and> lc_abs c' = lru_put (Some (max 1 n)) k v (lc_abs c)"
proof -
  let ?nd = "\<lparr>ln_key = k, ln_val = v, ln_prev = None, ln_next = None\<rparr>"
  have nc: "\<not> lc_Contains k c" using ok k by (auto simp: lc_ok_def lc_Contains_def)
  have keys: "map fst (lc_abs c) = ks" using lc_ok_abs(2) [OF ok] by (simp add: comp_def)
  then have "filter (\<lambda>p. fst p \<noteq> k) (lc_abs c) = lc_abs c" using k by (force simp: filter_id_conv)
  then have put: "lru_put (Some (max 1 n)) k v (lc_abs c) = take (max 1 n) ((k, v) # lc_abs c)"
    by (simp add: lru_put_def lru_trim_def lru_touch_def)
  have len: "length (lc_abs c) = length ks" "length ks \<le> max 1 n" using keys ok by (metis length_map, simp add: lc_ok_def)
  show ?thesis
  proof (cases "length ks = max 1 n")
    case True
    then obtain ys z where ks: "ks = ys @ [z]" by (cases ks rule: rev_cases) auto
    obtain c1 where c1: "lc_GetObsolete c = Inr (Some z, c1)" "lc_ok n c1 ys"
      "\<forall>k \<in> set ys. map_option ln_val (lc_map c1 k) = map_option ln_val (lc_map c k)"
      using GetObsolete_ok [OF ok [unfolded ks]] Full_iff [OF ok] True by blast
    have a1: "lc_abs c1 = butlast (lc_abs c)"
      using lc_ok_abs(2) [OF c1(2)] lc_ok_abs(2) [OF ok] ks c1(3) by (simp add: butlast_append)
    obtain c2 where c2: "lc_Attach (LNode k) (c1\<lparr>lc_map := (lc_map c1)(k \<mapsto> ?nd)\<rparr>) = Inr c2" "lc_inv n c2" "lc_abs c2 = (k, v) # lc_abs c1"
      using insert_ok [OF c1(2), of k v] k ks True by auto
    have "take (max 1 n) ((k, v) # lc_abs c) = (k, v) # butlast (lc_abs c)"
      using len(1) True by (cases "max 1 n") (simp_all add: butlast_conv_take)
    then show ?thesis
      using nc Full_iff [OF ok] True c1(1) c2 a1 ks put by (simp add: lc_Update5_def)
  next
    case False
    obtain c2 where "lc_Attach (LNode k) (c\<lparr>lc_map := (lc_map c)(k \<mapsto> ?nd)\<rparr>) = Inr c2" "lc_inv n c2" "lc_abs c2 = (k, v) # lc_abs c"
      using insert_ok [OF ok k] False len(2) by auto
    moreover have "take (max 1 n) ((k, v) # lc_abs c) = (k, v) # lc_abs c" using len False by simp
    ultimately show ?thesis using nc Full_iff [OF ok] False put by (simp add: lc_Update5_def)
  qed
qed

lemma set_val_ok:
  fixes c :: "('k, 'v) LRUCacheEasy" and v :: 'v
  assumes "lc_ok n c ks" and "k \<in> set ks"
  defines "c1 \<equiv> c\<lparr>lc_map := (lc_map c)(k := map_option (\<lambda>nd. nd\<lparr>ln_val := v\<rparr>) (lc_map c k))\<rparr>"
  shows "lc_ok n c1 ks" and "map_option ln_val (lc_map c1 k) = Some v"
    and "\<And>j. j \<noteq> k \<Longrightarrow> map_option ln_val (lc_map c1 j) = map_option ln_val (lc_map c j)"
proof -
  obtain nd where nd: "lc_map c k = Some nd" using assms(1,2) by (auto simp: lc_ok_def)
  have "nx c1 = nx c" "pv c1 = pv c"
    by (auto simp: fun_eq_iff nx_def pv_def lru_get_next_def lru_get_prev_def c1_def nd split: lptr.splits option.splits)
  then have "chain c1 ks = chain c ks" by (simp add: chain_def)
  moreover have "map_option ln_key (lc_map c1 j) = map_option ln_key (lc_map c j)" for j by (simp add: c1_def nd)
  moreover have "lc_map c1 j = None \<longleftrightarrow> lc_map c j = None" for j by (simp add: c1_def nd)
  ultimately show "lc_ok n c1 ks" using assms(1) unfolding lc_ok_def by (simp add: c1_def)
  show "map_option ln_val (lc_map c1 k) = Some v" by (simp add: c1_def nd)
  show "\<And>j. j \<noteq> k \<Longrightarrow> map_option ln_val (lc_map c1 j) = map_option ln_val (lc_map c j)" by (simp add: c1_def)
qed

lemma Update5_present:
  assumes ok: "lc_ok n c ks" and k: "k \<in> set ks"
  shows "\<exists>c'. lc_Update5 k v False False False c = Inr (True, None, c') \<and> lc_inv n c'
    \<and> lc_abs c' = lru_put (Some (max 1 n)) k v (lc_abs c)"
proof -
  let ?c = "c\<lparr>lc_map := (lc_map c)(k := map_option (\<lambda>nd. nd\<lparr>ln_val := v\<rparr>) (lc_map c k))\<rparr>"
  note sv = set_val_ok [OF ok k, where v = v]
  have ct: "lc_Contains k c" using ok k by (auto simp: lc_ok_def lc_Contains_def)
  obtain c' where c': "lc_touch k ?c = Inr c'" using touch_ok [OF sv(1) k] by blast
  have t: "lc_inv n c'" "lc_abs c' = lru_touch k v (lc_abs ?c)" using touch_abs [OF sv(1) k c' sv(2)] by auto
  have f: "filter (\<lambda>p. fst p \<noteq> k) (lc_abs ?c) = filter (\<lambda>p. fst p \<noteq> k) (lc_abs c)"
  proof -
    have "map (\<lambda>j. (j, the (map_option ln_val (lc_map ?c j)))) (filter (\<lambda>j. j \<noteq> k) ks)
        = map (\<lambda>j. (j, the (map_option ln_val (lc_map c j)))) (filter (\<lambda>j. j \<noteq> k) ks)"
      by (rule map_cong) auto
    then show ?thesis unfolding lc_ok_abs(2) [OF sv(1)] lc_ok_abs(2) [OF ok] lc_abs_filter .
  qed
  have "length (filter (\<lambda>p. fst p \<noteq> k) (lc_abs c)) < length ks"
    using k unfolding lc_ok_abs(2) [OF ok] by (simp add: filter_map comp_def length_filter_less)
  then have "lru_put (Some (max 1 n)) k v (lc_abs c) = lru_touch k v (lc_abs c)"
    using ok by (simp add: lru_put_def lru_trim_def lru_touch_def lc_ok_def)
  then show ?thesis using ct c' t f by (simp add: lc_Update5_def Let_def lru_touch_def)
qed

lemma Put_ok:
  assumes "lc_inv n c"
  shows "\<exists>c'. lc_Put k v c = Inr (True, c') \<and> lc_inv n c' \<and> lc_abs c' = lru_put (Some (max 1 n)) k v (lc_abs c)"
proof -
  have ok: "lc_ok n c (lc_keys c)" using assms by (simp add: lc_inv_def)
  show ?thesis
    using Update5_present [OF ok, of k v] Update5_absent [OF ok, of k v False False]
    by (cases "k \<in> set (lc_keys c)") (auto simp: lc_Put_def)
qed

definition lc_put :: "'k \<Rightarrow> 'v \<Rightarrow> ('k, 'v) LRUCacheEasy \<Rightarrow> ('k, 'v) LRUCacheEasy result" where
  "lc_put k v c = ub_bind (lc_Put k v c) (\<lambda>(r, c). Inr c)"

lemma lc_put_ok:
  assumes "lc_inv n c"
  shows "\<exists>c'. lc_put k v c = Inr c' \<and> lc_inv n c' \<and> lc_abs c' = lru_put (Some (max 1 n)) k v (lc_abs c)"
  using Put_ok [OF assms, of k v] by (auto simp: lc_put_def)

interpretation lru_easy: lru_cache "lc_inv n" lc_abs "Some (max 1 n)" lc_put "lc_Get False" for n
  by unfold_locales (rule lc_put_ok Get_ok; assumption)+

lemma LRUCacheEasy_new_ok:
  assumes "n < 2 ^ 63"
  shows "lc_inv n (LRUCacheEasy_new n :: ('k, 'v) LRUCacheEasy) \<and> lc_abs (LRUCacheEasy_new n :: ('k, 'v) LRUCacheEasy) = []"
  using assms lc_ok_abs [of n "LRUCacheEasy_new n :: ('k, 'v) LRUCacheEasy" "[]"]
  by (simp add: lc_ok_def LRUCacheEasy_new_def lc_Init_def chain_def nx_def pv_def lru_get_next_def lru_get_prev_def)

section \<open>Properties\<close>

lemma Update5_add_only:
  assumes "lc_inv n c" and "k \<in> fst ` set (lc_abs c)"
  shows "lc_Contains k c" and "lc_Update5 k v False True si c = Inr (True, None, c)"
proof -
  have "lc_ok n c (lc_keys c)" using assms(1) by (simp add: lc_inv_def)
  then show "lc_Contains k c" using assms(2) by (auto simp: lc_ok_def lc_abs_def lc_Contains_def)
  then show "lc_Update5 k v False True si c = Inr (True, None, c)" by (simp add: lc_Update5_def)
qed

lemma Contains_iff:
  assumes "lc_inv n c"
  shows "lc_Contains k c \<longleftrightarrow> k \<in> fst ` set (lc_abs c)"
  using assms by (force simp: lc_inv_def lc_ok_def lc_abs_def lc_Contains_def image_iff)

text \<open>
  C23. \<open>LRUCacheEasy\<close>: from a new cache, any sequence of \<open>Put\<close> and \<open>Get\<close> returns what a list of
  at most \<open>max 1 capacity\<close> entries in order of use returns (a capacity of 0 acts as 1), with
  every pointer followed live, \<open>size_\<close> the number of entries, and \<open>Contains\<close>, \<open>Full\<close>, \<open>Empty\<close>
  and \<open>First\<close> right in the state reached.
\<close>

theorem LRUCacheEasy_refines_lru:
  assumes "n < 2 ^ 63"
  shows "\<exists>c. lru_run lc_put (lc_Get False) ops (LRUCacheEasy_new n) = Inr (fst (lru_spec (Some (max 1 n)) ops []), c)
    \<and> lc_abs c = snd (lru_spec (Some (max 1 n)) ops [])
    \<and> lc_size c = length (lc_abs c) \<and> lc_size c \<le> max 1 n
    \<and> (lc_Contains k c \<longleftrightarrow> k \<in> fst ` set (lc_abs c))
    \<and> (lc_Full c \<longleftrightarrow> length (lc_abs c) = max 1 n) \<and> (lc_Empty c \<longleftrightarrow> lc_abs c = [])
    \<and> (\<forall>p. lc_abs c \<noteq> [] \<longrightarrow> p = hd (lc_abs c) \<longrightarrow> lc_First c = Some (LNode (fst p)))"
proof -
  note new = LRUCacheEasy_new_ok [OF assms]
  obtain c where c: "lru_run lc_put (lc_Get False) ops (LRUCacheEasy_new n) = Inr (fst (lru_spec (Some (max 1 n)) ops []), c)"
    "lc_inv n c" "lc_abs c = snd (lru_spec (Some (max 1 n)) ops [])"
    using lru_easy.run_refines [of n "LRUCacheEasy_new n" ops] new by metis
  have ok: "lc_ok n c (lc_keys c)" using c(2) by (simp add: lc_inv_def)
  have len: "length (lc_abs c) = length (lc_keys c)" by (simp add: lc_abs_def)
  have sz: "lc_size c = length (lc_keys c)" "length (lc_keys c) \<le> max 1 n" using ok by (auto simp: lc_ok_def)
  have "lc_First c = Some (LNode (fst (hd (lc_abs c))))" if ne: "lc_abs c \<noteq> []"
  proof -
    obtain j js where j: "lc_keys c = j # js" using ne by (cases "lc_keys c") (auto simp: lc_abs_def)
    then have "snd (lc_head c) = Some (LNode j)" using ok chain_split [of c "[]" j js] by (simp add: lc_ok_def nx_def lru_get_next_def)
    then show ?thesis using j sz(1) by (simp add: lc_First_def lc_abs_def)
  qed
  moreover have "lc_Empty c \<longleftrightarrow> lc_abs c = []" using sz(1) by (simp add: lc_Empty_def lc_abs_def)
  ultimately show ?thesis
    using c(1,3) sz len Contains_iff [OF c(2), of k] Full_iff [OF ok] by auto
qed

lemma LRUCacheEasy_refines_lru_witness:
  "\<exists>c. lru_run lc_put (lc_Get False) [LPut (4 :: nat) True, LPut 2 False, LGet 4, LPut 3 True, LGet 2] (LRUCacheEasy_new 2)
     = Inr ([Some True, None], c) \<and> lc_abs c = [(3, True), (4, True)]"
proof -
  let ?ops = "[LPut (4 :: nat) True, LPut 2 False, LGet 4, LPut 3 True, LGet 2]"
  have "lru_spec (Some (max 1 2)) ?ops [] = ([Some True, None], [(3, True), (4, True)])"
    by (simp add: lru_put_def lru_trim_def lru_touch_def lru_get_def)
  then show ?thesis using LRUCacheEasy_refines_lru [of 2 ?ops] by auto
qed

text \<open>
  The other operations of \<open>LRUCacheEasy\<close> in a good state: \<open>Add\<close> inserts an absent key as
  \<open>Put\<close> does; \<open>PutAndGetObsolete\<close> reports the evicted key, and fails without effect on a null
  pointer; \<open>GetSilently\<close> returns the value and keeps the order; \<open>Prioritize\<close> moves a key to
  the front; \<open>Clear\<close> empties the cache.  But \<open>Update\<close> and \<open>UpdateSilently\<close>, documented to update
  existing elements, return true for an existing key and change nothing; and
  \<open>operator[]\<close> on an absent key of a cache that is not full returns a node that is in
  the map but not on the list: \<open>Contains\<close> holds while the size stays as it was.
\<close>

theorem LRUCacheEasy_other_operations:
  assumes "lc_inv n c"
  shows "(k \<notin> fst ` set (lc_abs c) \<longrightarrow>
      (\<exists>c'. lc_Add k v c = Inr (True, c') \<and> lc_inv n c' \<and> lc_abs c' = lru_put (Some (max 1 n)) k v (lc_abs c))
      \<and> (\<exists>c'. lc_PutAndGetObsolete k v False c
            = Inr (True, if length (lc_abs c) = max 1 n then Some (fst (last (lc_abs c))) else None, c')
          \<and> lc_inv n c' \<and> lc_abs c' = lru_put (Some (max 1 n)) k v (lc_abs c))
      \<and> lc_Update k v c = Inr (False, c)
      \<and> (length (lc_abs c) < max 1 n \<longrightarrow> (\<exists>c'. lc_index K0 V0 k c = Inr (V0, c') \<and> lc_Contains k c' \<and> lc_size c' = lc_size c)))
    \<and> (\<forall>w. map_of (lc_abs c) k = Some w \<longrightarrow>
        lc_Update k v c = Inr (True, c) \<and> lc_UpdateSilently k v c = Inr (True, c) \<and> lc_Add k v c = Inr (True, c)
        \<and> lc_Get True k c = Inr (Some w, c)
        \<and> (\<exists>c'. lc_Prioritize k c = Inr (True, c') \<and> lc_inv n c' \<and> lc_abs c' = lru_touch k w (lc_abs c)))
    \<and> lc_PutAndGetObsolete k v True c = Inr (False, None, c)
    \<and> lc_inv n (lc_Clear c) \<and> lc_abs (lc_Clear c) = []"
proof (intro conjI allI impI)
  have ok: "lc_ok n c (lc_keys c)" using assms by (simp add: lc_inv_def)
  have ks: "fst ` set (lc_abs c) = set (lc_keys c)" by (force simp: lc_abs_def)
  have len: "length (lc_abs c) = length (lc_keys c)" by (simp add: lc_abs_def)
  show "\<exists>c'. lc_Add k v c = Inr (True, c') \<and> lc_inv n c' \<and> lc_abs c' = lru_put (Some (max 1 n)) k v (lc_abs c)"
    if "k \<notin> fst ` set (lc_abs c)"
    using Update5_absent [OF ok, of k v True False] that ks by (auto simp: lc_Add_def)
  show "\<exists>c'. lc_PutAndGetObsolete k v False c
            = Inr (True, if length (lc_abs c) = max 1 n then Some (fst (last (lc_abs c))) else None, c')
          \<and> lc_inv n c' \<and> lc_abs c' = lru_put (Some (max 1 n)) k v (lc_abs c)" if "k \<notin> fst ` set (lc_abs c)"
  proof -
    have "fst (last (lc_abs c)) = last (lc_keys c)" if "length (lc_keys c) = max 1 n"
      using that by (cases "lc_keys c" rule: rev_cases) (auto simp: lc_abs_def)
    then show ?thesis
      using Update5_absent [OF ok, of k v False False] that ks len by (auto simp: lc_PutAndGetObsolete_def)
  qed
  show "lc_Update k v c = Inr (False, c)" if "k \<notin> fst ` set (lc_abs c)"
    using that Contains_iff [OF assms] by (simp add: lc_Update_def)
  show "\<exists>c'. lc_index K0 V0 k c = Inr (V0, c') \<and> lc_Contains k c' \<and> lc_size c' = lc_size c"
    if "k \<notin> fst ` set (lc_abs c)" "length (lc_abs c) < max 1 n"
  proof -
    have "lc_map c k = None" using that(1) Contains_iff [OF assms, of k] by (simp add: lc_Contains_def)
    then show ?thesis using that(2) Full_iff [OF ok] len by (simp add: lc_index_def lc_GetObsolete_def lc_Contains_def)
  qed
  fix w assume w: "map_of (lc_abs c) k = Some w"
  then have k: "k \<in> fst ` set (lc_abs c)" by (force dest: map_of_SomeD)
  note a = Update5_add_only [OF assms k]
  show "lc_Update k v c = Inr (True, c)" "lc_UpdateSilently k v c = Inr (True, c)" "lc_Add k v c = Inr (True, c)"
    using a by (simp_all add: lc_Update_def lc_UpdateSilently_def lc_Add_def)
  have v: "map_option ln_val (lc_map c k) = Some w" using w lc_abs_find [OF ok, of k] by simp
  show "lc_Get True k c = Inr (Some w, c)" using a(1) v by (simp add: lc_Get_def)
  obtain c' where c': "lc_touch k c = Inr c'" using touch_ok [OF ok] k ks by blast
  from touch_abs [OF ok _ c' v] k ks a(1) c'
  show "\<exists>c'. lc_Prioritize k c = Inr (True, c') \<and> lc_inv n c' \<and> lc_abs c' = lru_touch k w (lc_abs c)"
    by (simp add: lc_Prioritize_def)
next
  have n: "n < 2 ^ 63" using assms by (simp add: lc_inv_def lc_ok_def)
  have "lc_Clear c = LRUCacheEasy_new n"
    using assms by (cases c) (simp add: lc_Clear_def LRUCacheEasy_new_def lc_Init_def lc_inv_def lc_ok_def)
  then show "lc_inv n (lc_Clear c)" "lc_abs (lc_Clear c) = []"
    using conjunct1 [OF LRUCacheEasy_new_ok [OF n]] conjunct2 [OF LRUCacheEasy_new_ok [OF n]] by simp_all
qed (simp add: lc_PutAndGetObsolete_def lc_Update5_def)

lemma LRUCacheEasy_other_operations_witness:
  "\<exists>c'. lc_index (0 :: nat) False 7 (LRUCacheEasy_new 2) = Inr (False, c') \<and> lc_Contains 7 c' \<and> lc_size c' = 0"
proof -
  have new: "lc_inv 2 (LRUCacheEasy_new 2 :: (nat, bool) LRUCacheEasy) \<and> lc_abs (LRUCacheEasy_new 2 :: (nat, bool) LRUCacheEasy) = []"
    by (rule LRUCacheEasy_new_ok) simp
  from LRUCacheEasy_other_operations [OF conjunct1 [OF new], of 7 True 0 False] new
  show ?thesis by (auto simp: LRUCacheEasy_new_def lc_Init_def)
qed

end
