(* ===== verification/Flat_Rep.thy ===== *)
theory Flat_Rep
  imports Prelude
begin

unbundle bit_operations_syntax

text \<open>
  \<open>FlatRep\<close> of \<open>map_util.h\<close>: the open-addressing hash table with tombstones and quadratic probing
  under \<open>FlatMap\<close> and \<open>FlatSet\<close>.  The array of buckets is flattened: entry \<open>i\<close> of bucket \<open>b\<close>
  is element \<open>kWidth * b + i\<close>, so that the source's \<open>index >> kBase\<close> and \<open>index & (kWidth - 1)\<close>
  name element \<open>index\<close>.  A slot has its marker and the key and value constructed in it, if
  any; a value that \<open>FindOrInsert\<close> has not yet had constructed is \<open>None\<close>.  The hash function is a
  parameter; keys are compared with \<open>std::equal_to\<close>.  A probe that never ends is \<open>None\<close> in the
  loops and the error \<open>Diverges\<close> in the methods.  Products with the constants \<open>0.8\<close> and \<open>0.4\<close> are
  exact rationals, which for capacities of a power of two below \<open>2^50\<close> give the same
  integers as the doubles.
\<close>

section \<open>The class\<close>

type_synonym ('k, 'v) slot = "nat \<times> ('k \<times> 'v option) option"

record ('k, 'v) FlatRep =
  fr_lglen :: nat
  fr_array :: "('k, 'v) slot list"
  fr_mask :: nat
  fr_not_empty :: nat
  fr_deleted :: nat
  fr_grow :: nat
  fr_shrink :: nat

definition kWidth :: nat where
  "kWidth = 8"

definition kEmpty :: nat where
  "kEmpty = 0"

definition kDeleted :: nat where
  "kDeleted = 1"

definition Marker :: "nat \<Rightarrow> nat" where
  "Marker hb = hb + (if hb < 2 then 2 else 0)"

definition NextIndex :: "nat \<Rightarrow> nat \<Rightarrow> nat \<Rightarrow> nat" where
  "NextIndex msk i num_probes = (i + num_probes) AND msk"

definition FlatRep_size :: "('k, 'v) FlatRep \<Rightarrow> nat" where
  "FlatRep_size t = (fr_not_empty t + (2 ^ 64 - fr_deleted t)) mod 2 ^ 64"

definition bucket_count :: "('k, 'v) FlatRep \<Rightarrow> nat" where
  "bucket_count t = (fr_mask t + 1) mod 2 ^ 64"

text \<open>The loop \<open>while (N >= 0.8 * ((1 << lg) * kWidth)) lg++\<close>; \<open>1 << 31\<close> does not fit an \<open>int\<close>.\<close>

function Init_lg :: "nat \<Rightarrow> nat \<Rightarrow> nat result" where
  "Init_lg N lg =
     (if lg \<ge> 31 then Inl SignedOverflow
      else if 5 * N \<ge> 4 * ((2 ^ lg * kWidth) mod 2 ^ 32) then Init_lg N (lg + 1)
      else Inr lg)"
  by pat_completeness auto
termination
  by (relation "measure (\<lambda>(N, lg). 31 - lg)") auto

declare Init_lg.simps [simp del]

definition FlatRep_Init :: "nat \<Rightarrow> ('k, 'v) FlatRep result" where
  "FlatRep_Init N =
     ub_bind (Init_lg N 0) (\<lambda>lg.
     let n = 2 ^ lg;
         capacity = (2 ^ lg * kWidth) mod 2 ^ 32;
         grow = 4 * capacity div 5
     in Inr \<lparr>fr_lglen = lg, fr_array = replicate (n * kWidth) (kEmpty, None), fr_mask = capacity - 1,
             fr_not_empty = 0, fr_deleted = 0, fr_grow = grow,
             fr_shrink = (if lg = 0 then 0 else 2 * grow div 5)\<rparr>)"

definition lift_probe :: "'b result option \<Rightarrow> 'b result" where
  "lift_probe r = (case r of None \<Rightarrow> Inl Diverges | Some x \<Rightarrow> x)"

partial_function (option) Find_loop ::
    "'k \<Rightarrow> nat \<Rightarrow> ('k, 'v) slot list \<Rightarrow> nat \<Rightarrow> nat \<Rightarrow> nat \<Rightarrow> nat option result option" where
  "Find_loop k marker arr msk index num_probes =
     (if index \<ge> length arr then Some (Inl OutOfBounds)
      else if fst (arr ! index) = marker \<and> snd (arr ! index) = None then Some (Inl Uninitialised)
      else if fst (arr ! index) = marker \<and> fst (the (snd (arr ! index))) = k then Some (Inr (Some index))
      else if fst (arr ! index) = kEmpty then Some (Inr None)
      else Find_loop k marker arr msk (NextIndex msk index num_probes) (num_probes + 1))"

definition FlatRep_Find :: "('k \<Rightarrow> nat) \<Rightarrow> 'k \<Rightarrow> ('k, 'v) FlatRep \<Rightarrow> nat option result" where
  "FlatRep_Find hash k t =
     (let h = hash k; marker = Marker (h AND 255); index = drop_bit 8 h AND fr_mask t
      in lift_probe (Find_loop k marker (fr_array t) (fr_mask t) index 1))"

text \<open>
  The loop of \<open>FindOrInsert\<close> returns whether the key was found, the slot, and whether the slot
  is the first tombstone of the path.
\<close>

partial_function (option) FindOrInsert_loop ::
    "'k \<Rightarrow> nat \<Rightarrow> ('k, 'v) slot list \<Rightarrow> nat \<Rightarrow> nat \<Rightarrow> nat \<Rightarrow> nat option \<Rightarrow> (bool \<times> nat \<times> bool) result option" where
  "FindOrInsert_loop k marker arr msk index num_probes del =
     (if index \<ge> length arr then Some (Inl OutOfBounds)
      else if fst (arr ! index) = marker \<and> snd (arr ! index) = None then Some (Inl Uninitialised)
      else if fst (arr ! index) = marker \<and> fst (the (snd (arr ! index))) = k then Some (Inr (True, index, False))
      else if del = None \<and> fst (arr ! index) = kDeleted then
        FindOrInsert_loop k marker arr msk (NextIndex msk index num_probes) (num_probes + 1) (Some index)
      else if fst (arr ! index) = kEmpty then
        Some (Inr (case del of Some d \<Rightarrow> (False, d, True) | None \<Rightarrow> (False, index, False)))
      else FindOrInsert_loop k marker arr msk (NextIndex msk index num_probes) (num_probes + 1) del)"

definition FlatRep_FindOrInsert :: "('k \<Rightarrow> nat) \<Rightarrow> 'k \<Rightarrow> ('k, 'v) FlatRep \<Rightarrow> ((bool \<times> nat) \<times> ('k, 'v) FlatRep) result" where
  "FlatRep_FindOrInsert hash k t =
     (let h = hash k; marker = Marker (h AND 255); index = drop_bit 8 h AND fr_mask t
      in ub_bind (lift_probe (FindOrInsert_loop k marker (fr_array t) (fr_mask t) index 1 None)) (\<lambda>(found, i, del).
         if found then Inr ((True, i), t)
         else
           (let t = (if del then t\<lparr>fr_deleted := (fr_deleted t + (2 ^ 64 - 1)) mod 2 ^ 64\<rparr>
                     else t\<lparr>fr_not_empty := (fr_not_empty t + 1) mod 2 ^ 64\<rparr>)
            in Inr ((False, i), t\<lparr>fr_array := (fr_array t)[i := (marker, Some (k, None))]\<rparr>))))"

definition FlatRep_Erase :: "nat \<Rightarrow> ('k, 'v) FlatRep \<Rightarrow> ('k, 'v) FlatRep result" where
  "FlatRep_Erase i t =
     (if i \<ge> length (fr_array t) then Inl OutOfBounds
      else if snd (fr_array t ! i) = None then Inl Uninitialised
      else Inr (t\<lparr>fr_array := (fr_array t)[i := (kDeleted, None)], fr_deleted := (fr_deleted t + 1) mod 2 ^ 64,
                  fr_grow := 0\<rparr>))"

partial_function (option) FreshInsert_loop :: "('k, 'v) slot list \<Rightarrow> nat \<Rightarrow> nat \<Rightarrow> nat \<Rightarrow> nat result option" where
  "FreshInsert_loop arr msk index num_probes =
     (if index \<ge> length arr then Some (Inl OutOfBounds)
      else if fst (arr ! index) = 0 then Some (Inr index)
      else FreshInsert_loop arr msk (NextIndex msk index num_probes) (num_probes + 1))"

definition FreshInsert :: "('k \<Rightarrow> nat) \<Rightarrow> 'k \<times> 'v option \<Rightarrow> ('k, 'v) FlatRep \<Rightarrow> ('k, 'v) FlatRep result" where
  "FreshInsert hash kv t =
     (let h = hash (fst kv); marker = Marker (h AND 255); index = drop_bit 8 h AND fr_mask t
      in ub_bind (lift_probe (FreshInsert_loop (fr_array t) (fr_mask t) index 1)) (\<lambda>i.
         Inr (t\<lparr>fr_array := (fr_array t)[i := (marker, Some kv)], fr_not_empty := (fr_not_empty t + 1) mod 2 ^ 64\<rparr>)))"

primrec CopyEntries :: "('k \<Rightarrow> nat) \<Rightarrow> ('k, 'v) slot list \<Rightarrow> ('k, 'v) FlatRep \<Rightarrow> ('k, 'v) FlatRep result" where
  "CopyEntries hash [] t = Inr t"
| "CopyEntries hash (s # ss) t =
     (if fst s \<ge> 2 then
        (case snd s of None \<Rightarrow> Inl Uninitialised
         | Some kv \<Rightarrow> ub_bind (FreshInsert hash kv t) (CopyEntries hash ss))
      else CopyEntries hash ss t)"

definition FlatRep_Resize :: "('k \<Rightarrow> nat) \<Rightarrow> nat \<Rightarrow> ('k, 'v) FlatRep \<Rightarrow> ('k, 'v) FlatRep result" where
  "FlatRep_Resize hash N t = ub_bind (FlatRep_Init N) (CopyEntries hash (fr_array t))"

definition FlatRep_copy :: "('k \<Rightarrow> nat) \<Rightarrow> ('k, 'v) FlatRep \<Rightarrow> ('k, 'v) FlatRep result" where
  "FlatRep_copy hash src = ub_bind (FlatRep_Init (FlatRep_size src)) (CopyEntries hash (fr_array src))"

definition MaybeResize :: "('k \<Rightarrow> nat) \<Rightarrow> ('k, 'v) FlatRep \<Rightarrow> ('k, 'v) FlatRep result" where
  "MaybeResize hash t =
     (if fr_not_empty t < fr_grow t then Inr t
      else if fr_grow t = 0 \<and> FlatRep_size t \<ge> fr_shrink t then
        (let t = t\<lparr>fr_grow := 4 * bucket_count t div 5\<rparr> in
         if fr_not_empty t < fr_grow t then Inr t else FlatRep_Resize hash (FlatRep_size t + 1) t)
      else FlatRep_Resize hash (FlatRep_size t + 1) t)"

definition clear_no_resize :: "('k, 'v) FlatRep \<Rightarrow> ('k, 'v) FlatRep" where
  "clear_no_resize t =
     t\<lparr>fr_array := map (\<lambda>s. if fst s \<ge> 2 then (kEmpty, None) else s) (fr_array t), fr_not_empty := 0, fr_deleted := 0\<rparr>"

definition FlatRep_clear :: "('k \<Rightarrow> nat) \<Rightarrow> ('k, 'v) FlatRep \<Rightarrow> ('k, 'v) FlatRep result" where
  "FlatRep_clear hash t = MaybeResize hash ((clear_no_resize t)\<lparr>fr_grow := 0\<rparr>)"

declare Find_loop.simps [code] FindOrInsert_loop.simps [code] FreshInsert_loop.simps [code]

section \<open>Quadratic probing reaches every slot\<close>

definition tri :: "nat \<Rightarrow> nat" where
  "tri j = j * (j + 1) div 2"

lemma tri_Suc: "tri (Suc j) = tri j + Suc j"
  by (simp add: tri_def)

lemma two_tri: "2 * tri j = j * (j + 1)"
  by (induction j) (simp_all add: tri_Suc, simp add: tri_def)

lemma even_factor_small:
  fixes x y :: nat
  assumes "2 ^ Suc m dvd x * y" and "odd x" and "0 < y" and "y < 2 ^ Suc m"
  shows False
proof -
  have "coprime (2 ^ Suc m) x" using assms(2) by simp
  then have "2 ^ Suc m dvd y" using assms(1) coprime_dvd_mult_right_iff by blast
  then show False using assms(3,4) by (meson dvd_imp_le not_less)
qed

lemma tri_inj:
  assumes "a < b" and "b < 2 ^ m"
  shows "(s + tri a) mod 2 ^ m \<noteq> (s + tri b) mod 2 ^ m"
proof
  assume "(s + tri a) mod 2 ^ m = (s + tri b) mod 2 ^ m"
  moreover have le: "tri a \<le> tri b" using assms(1) unfolding tri_def by (intro div_le_mono mult_le_mono) auto
  ultimately have "2 ^ m dvd (s + tri b) - (s + tri a)"
    using mod_eq_dvd_iff_nat [of "s + tri a" "s + tri b" "2 ^ m"] by simp
  then have "2 ^ m dvd tri b - tri a" by simp
  then have "2 * 2 ^ m dvd 2 * (tri b - tri a)" by (rule mult_dvd_mono [OF dvd_refl])
  moreover have "2 * (tri b - tri a) = (b - a) * (a + b + 1)"
  proof -
    obtain d where "b = a + d" using assms(1) less_imp_add_positive by blast
    then have "(b - a) * (a + b + 1) = b * (b + 1) - a * (a + 1)" by (simp add: algebra_simps)
    then show ?thesis using two_tri [of a] two_tri [of b] by (simp add: diff_mult_distrib2)
  qed
  ultimately have d: "2 ^ Suc m dvd (b - a) * (a + b + 1)" by simp
  show False
  proof (cases "odd (b - a)")
    case True
    then show False using even_factor_small [OF d] assms by simp
  next
    case False
    then have "odd (a + b + 1)" using assms(1) by (simp add: even_diff_nat)
    moreover have "2 ^ Suc m dvd (a + b + 1) * (b - a)" using d by (simp only: mult.commute)
    moreover have "0 < b - a" "b - a < 2 ^ Suc m" using assms by (simp, simp add: less_imp_diff_less)
    ultimately show False using even_factor_small by blast
  qed
qed

definition probe :: "nat \<Rightarrow> nat \<Rightarrow> nat \<Rightarrow> nat" where
  "probe m s j = (s + tri j) mod 2 ^ m"

lemma probe_onto:
  assumes "i < 2 ^ m"
  shows "\<exists>j < 2 ^ m. probe m s j = i"
proof -
  have "inj_on (probe m s) {..<2 ^ m}"
  proof (rule inj_onI)
    fix a b assume "a \<in> {..<2 ^ m}" "b \<in> {..<2 ^ m}" "probe m s a = probe m s b"
    then show "a = b" using tri_inj [of a b m s] tri_inj [of b a m s] by (cases a b rule: linorder_cases) (auto simp: probe_def)
  qed
  moreover have "probe m s ` {..<2 ^ m} \<subseteq> {..<2 ^ m}" by (auto simp: probe_def)
  ultimately have "probe m s ` {..<2 ^ m} = {..<2 ^ m}" by (intro endo_inj_surj) auto
  then show ?thesis using assms by (metis imageE lessThan_iff)
qed

lemma probe_0: "probe m s 0 = s mod 2 ^ m"
  by (simp add: probe_def tri_def)

lemma NextIndex_probe: "NextIndex (2 ^ m - 1) (probe m s j) (Suc j) = probe m s (Suc j)"
proof -
  have "x AND (2 ^ m - 1) = x mod 2 ^ m" for x :: nat
    by (simp add: take_bit_eq_mod [symmetric] take_bit_eq_mask mask_eq_exp_minus_1)
  moreover have "((s + tri j) mod 2 ^ m + Suc j) mod 2 ^ m = (s + tri (Suc j)) mod 2 ^ m"
    by (simp only: mod_add_left_eq tri_Suc add.assoc)
  ultimately show ?thesis by (simp only: NextIndex_def probe_def)
qed

section \<open>Well-formed tables\<close>

text \<open>The home position of a key; \<open>m\<close> is the logarithm of the capacity.\<close>

abbreviation home :: "('k \<Rightarrow> nat) \<Rightarrow> 'k \<Rightarrow> nat" where
  "home hash k \<equiv> drop_bit 8 (hash k)"

definition slot_ok :: "('k \<Rightarrow> nat) \<Rightarrow> ('k, 'v) slot \<Rightarrow> bool" where
  "slot_ok hash s \<longleftrightarrow> (case snd s of None \<Rightarrow> fst s < 2 | Some kv \<Rightarrow> fst s = Marker (hash (fst kv) AND 255))"

definition reach :: "('k \<Rightarrow> nat) \<Rightarrow> nat \<Rightarrow> ('k, 'v) slot list \<Rightarrow> 'k \<Rightarrow> nat \<Rightarrow> bool" where
  "reach hash m arr k i \<longleftrightarrow> (\<exists>j. probe m (home hash k) j = i \<and> (\<forall>j' < j. fst (arr ! probe m (home hash k) j') \<noteq> kEmpty))"

definition holds_at :: "('k, 'v) slot list \<Rightarrow> nat \<Rightarrow> 'k \<times> 'v option \<Rightarrow> bool" where
  "holds_at arr i kv \<longleftrightarrow> i < length arr \<and> snd (arr ! i) = Some kv"

definition arr_ok :: "('k \<Rightarrow> nat) \<Rightarrow> nat \<Rightarrow> ('k, 'v) slot list \<Rightarrow> bool" where
  "arr_ok hash m arr \<longleftrightarrow> length arr = 2 ^ m \<and> (\<forall>s \<in> set arr. slot_ok hash s)
     \<and> (\<forall>i j k u v. holds_at arr i (k, u) \<and> holds_at arr j (k, v) \<longrightarrow> i = j)
     \<and> (\<forall>i k v. holds_at arr i (k, v) \<longrightarrow> reach hash m arr k i)"

definition has_empty :: "('k, 'v) slot list \<Rightarrow> bool" where
  "has_empty arr \<longleftrightarrow> (\<exists>i < length arr. fst (arr ! i) = kEmpty)"

lemma Marker_ge: "2 \<le> Marker hb"
  by (simp add: Marker_def)

lemma arr_slot: "arr_ok hash m arr \<Longrightarrow> i < length arr \<Longrightarrow> slot_ok hash (arr ! i)"
  by (simp add: arr_ok_def)

lemma slot_ok_None: "slot_ok hash s \<Longrightarrow> snd s = None \<longleftrightarrow> fst s < 2"
  using Marker_ge [of "hash (fst (the (snd s))) AND 255"] by (cases "snd s") (auto simp: slot_ok_def)

lemma probe_less: "probe m s j < 2 ^ m"
  by (simp add: probe_def)

text \<open>The first stop of a probe: an empty slot or the key itself.\<close>

definition stops :: "('k, 'v) slot list \<Rightarrow> 'k \<Rightarrow> nat \<Rightarrow> bool" where
  "stops arr k i \<longleftrightarrow> fst (arr ! i) = kEmpty \<or> (\<exists>v. snd (arr ! i) = Some (k, v))"

lemma first_stop:
  assumes "length arr = 2 ^ m" and "has_empty arr"
  shows "\<exists>j0 < 2 ^ m. stops arr k (probe m s j0) \<and> (\<forall>j < j0. \<not> stops arr k (probe m s j))"
proof -
  obtain i where "i < 2 ^ m" "fst (arr ! i) = kEmpty" using assms by (auto simp: has_empty_def)
  then obtain j where j: "j < 2 ^ m" "stops arr k (probe m s j)" using probe_onto by (metis stops_def)
  let ?j = "LEAST j. stops arr k (probe m s j)"
  have "stops arr k (probe m s ?j)" using j(2) by (rule LeastI)
  moreover have "?j \<le> j" using j(2) by (rule Least_le)
  moreover have "\<forall>j' < ?j. \<not> stops arr k (probe m s j')" using not_less_Least by blast
  ultimately show ?thesis using j(1) by (metis le_less_trans)
qed

lemma Find_loop_run:
  assumes ok: "arr_ok hash m arr" and "j \<le> j0" and stop: "stops arr k (probe m s j0)"
    and before: "\<forall>j' < j0. \<not> stops arr k (probe m s j')" and s: "s = home hash k"
  shows "Find_loop k (Marker (hash k AND 255)) arr (2 ^ m - 1) (probe m s j) (Suc j) =
    Some (Inr (if fst (arr ! probe m s j0) = kEmpty then None else Some (probe m s j0)))"
  using assms(2)
proof (induction "j0 - j" arbitrary: j)
  case 0
  let ?i = "probe m s j"
  have j: "j = j0" using 0 by simp
  have len: "?i < length arr" using ok probe_less by (simp add: arr_ok_def)
  have sl: "slot_ok hash (arr ! ?i)" using arr_slot [OF ok len] .
  show ?case
  proof (cases "fst (arr ! ?i) = kEmpty")
    case True
    then have "fst (arr ! ?i) \<noteq> Marker (hash k AND 255)" using Marker_ge [of "hash k AND 255"] by (simp add: kEmpty_def)
    then show ?thesis using True len j by (subst Find_loop.simps) simp
  next
    case False
    then obtain v where v: "snd (arr ! ?i) = Some (k, v)" using stop j by (auto simp: stops_def)
    then have "fst (arr ! ?i) = Marker (hash k AND 255)" using sl by (simp add: slot_ok_def)
    then show ?thesis using False v len j by (subst Find_loop.simps) simp
  qed
next
  case (Suc d)
  let ?i = "probe m s j"
  have len: "?i < length arr" using ok probe_less by (simp add: arr_ok_def)
  have sl: "slot_ok hash (arr ! ?i)" using arr_slot [OF ok len] .
  have ns: "\<not> stops arr k ?i" using before Suc by simp
  have "\<not> (fst (arr ! ?i) = Marker (hash k AND 255) \<and> snd (arr ! ?i) = None)"
    using slot_ok_None [OF sl] Marker_ge [of "hash k AND 255"] by auto
  moreover have "fst (the (snd (arr ! ?i))) \<noteq> k" if "snd (arr ! ?i) \<noteq> None" using ns that by (auto simp: stops_def)
  moreover have "fst (arr ! ?i) \<noteq> kEmpty" using ns by (simp add: stops_def)
  moreover have "Find_loop k (Marker (hash k AND 255)) arr (2 ^ m - 1) (probe m s (Suc j)) (Suc (Suc j)) =
    Some (Inr (if fst (arr ! probe m s j0) = kEmpty then None else Some (probe m s j0)))"
    using Suc by (intro Suc.hyps(1)) auto
  ultimately show ?case using len by (subst Find_loop.simps) (auto simp: NextIndex_probe [unfolded One_nat_def])
qed

lemma stop_present:
  assumes ok: "arr_ok hash m arr" and h: "holds_at arr i (k, v)"
    and stop: "stops arr k (probe m (home hash k) j0)" and before: "\<forall>j < j0. \<not> stops arr k (probe m (home hash k) j)"
  shows "probe m (home hash k) j0 = i \<and> fst (arr ! i) \<noteq> kEmpty"
proof -
  let ?p = "probe m (home hash k)"
  obtain j where j: "?p j = i" "\<forall>j' < j. fst (arr ! ?p j') \<noteq> kEmpty"
    using ok h unfolding arr_ok_def reach_def by blast
  have ne: "fst (arr ! i) \<noteq> kEmpty"
    using h arr_slot [OF ok, of i] Marker_ge [of "hash k AND 255"] by (auto simp: holds_at_def slot_ok_def kEmpty_def)
  have "stops arr k (?p j)" using j(1) h by (auto simp: stops_def holds_at_def)
  then have "j0 \<le> j" using before not_less by blast
  then have "fst (arr ! ?p j0) \<noteq> kEmpty" using j ne by (cases "j0 = j") auto
  then obtain u where "snd (arr ! ?p j0) = Some (k, u)" using stop by (auto simp: stops_def)
  moreover have "?p j0 < length arr" using ok probe_less by (simp add: arr_ok_def)
  ultimately have "holds_at arr (?p j0) (k, u)" by (simp add: holds_at_def)
  then have "?p j0 = i" using ok h unfolding arr_ok_def by blast
  then show ?thesis using ne by blast
qed

section \<open>What a table maps\<close>

definition fr_map :: "('k, 'v) slot list \<Rightarrow> 'k \<Rightarrow> 'v option option" where
  "fr_map arr k = (case List.find (\<lambda>s. snd s \<noteq> None \<and> fst (the (snd s)) = k) arr of
     None \<Rightarrow> None | Some s \<Rightarrow> Some (snd (the (snd s))))"

lemma fr_map_iff:
  assumes "arr_ok hash m arr"
  shows "fr_map arr k = Some v \<longleftrightarrow> (\<exists>i. holds_at arr i (k, v))"
proof
  assume "fr_map arr k = Some v"
  then obtain i where "i < length arr" "snd (arr ! i) \<noteq> None" "fst (the (snd (arr ! i))) = k" "snd (the (snd (arr ! i))) = v"
    by (auto simp: fr_map_def find_Some_iff split: option.splits)
  then have "holds_at arr i (k, v)" by (auto simp: holds_at_def)
  then show "\<exists>i. holds_at arr i (k, v)" ..
next
  assume "\<exists>i. holds_at arr i (k, v)"
  then obtain i where i: "holds_at arr i (k, v)" ..
  then have "arr ! i \<in> set arr" "snd (arr ! i) = Some (k, v)" by (simp_all add: holds_at_def)
  then have "\<exists>s. s \<in> set arr \<and> snd s \<noteq> None \<and> fst (the (snd s)) = k" by (intro exI [of _ "arr ! i"]) simp
  then have "List.find (\<lambda>s. snd s \<noteq> None \<and> fst (the (snd s)) = k) arr \<noteq> None" by (simp only: find_None_iff not_not)
  then obtain s where s: "List.find (\<lambda>s. snd s \<noteq> None \<and> fst (the (snd s)) = k) arr = Some s" by blast
  then obtain j where j: "j < length arr" "snd (arr ! j) \<noteq> None" "fst (the (snd (arr ! j))) = k" "s = arr ! j"
    by (auto simp: find_Some_iff)
  then have "holds_at arr j (k, snd (the (snd s)))" by (auto simp: holds_at_def)
  then have "j = i" using i assms unfolding arr_ok_def by blast
  then show "fr_map arr k = Some v" using s j i by (auto simp: fr_map_def holds_at_def)
qed

lemma fr_map_None:
  assumes "arr_ok hash m arr"
  shows "fr_map arr k = None \<longleftrightarrow> (\<forall>i v. \<not> holds_at arr i (k, v))"
  using fr_map_iff [OF assms, of k] by (metis not_None_eq option.distinct(1))

lemma fr_map_eqI:
  assumes "arr_ok hash m arr" and "arr_ok hash' m' arr'"
    and "\<And>k v. (\<exists>i. holds_at arr' i (k, v)) \<longleftrightarrow> f k = Some v"
  shows "fr_map arr' = f"
proof
  fix k
  show "fr_map arr' k = f k"
    using fr_map_iff [OF assms(2), of k] assms(3) [of k] by (cases "f k"; cases "fr_map arr' k") auto
qed

section \<open>Searching and inserting\<close>

lemma and_mask: "x AND (2 ^ m - 1) = x mod 2 ^ m" for x :: nat
  by (simp add: take_bit_eq_mod [symmetric] take_bit_eq_mask mask_eq_exp_minus_1)

lemma Find_ok:
  assumes ok: "arr_ok hash m (fr_array t)" and e: "has_empty (fr_array t)" and mk: "fr_mask t = 2 ^ m - 1"
  shows "fr_map (fr_array t) k = Some v \<Longrightarrow> \<exists>i. FlatRep_Find hash k t = Inr (Some i) \<and> holds_at (fr_array t) i (k, v)"
    and "fr_map (fr_array t) k = None \<Longrightarrow> FlatRep_Find hash k t = Inr None"
proof -
  let ?p = "probe m (home hash k)" and ?a = "fr_array t"
  obtain j0 where j0: "stops ?a k (?p j0)" "\<forall>j < j0. \<not> stops ?a k (?p j)"
    using first_stop [of ?a m k "home hash k"] e ok unfolding arr_ok_def by blast
  have r: "FlatRep_Find hash k t = Inr (if fst (?a ! ?p j0) = kEmpty then None else Some (?p j0))"
    using Find_loop_run [OF ok _ j0 refl, of 0] mk
    by (simp add: FlatRep_Find_def Let_def and_mask [unfolded One_nat_def] probe_0 lift_probe_def)
  show "\<exists>i. FlatRep_Find hash k t = Inr (Some i) \<and> holds_at ?a i (k, v)" if some: "fr_map ?a k = Some v"
  proof -
    obtain i where i: "holds_at ?a i (k, v)" using some fr_map_iff [OF ok] by blast
    show ?thesis using stop_present [OF ok i j0] i r by simp
  qed
  show "FlatRep_Find hash k t = Inr None" if "fr_map ?a k = None"
  proof -
    have "\<not> holds_at ?a (?p j0) (k, u)" for u using that fr_map_None [OF ok] by blast
    then have "fst (?a ! ?p j0) = kEmpty" using j0(1) ok probe_less by (auto simp: stops_def holds_at_def arr_ok_def)
    then show ?thesis using r by simp
  qed
qed

lemma FindOrInsert_loop_run:
  assumes ok: "arr_ok hash m arr" and "j \<le> j0" and stop: "stops arr k (probe m s j0)"
    and before: "\<forall>j' < j0. \<not> stops arr k (probe m s j')" and s: "s = home hash k"
    and del: "\<forall>d. del = Some d \<longrightarrow> (\<exists>j1 < j. d = probe m s j1 \<and> fst (arr ! d) = kDeleted)"
  shows "\<exists>r. FindOrInsert_loop k (Marker (hash k AND 255)) arr (2 ^ m - 1) (probe m s j) (Suc j) del = Some (Inr r)
    \<and> (if fst (arr ! probe m s j0) \<noteq> kEmpty then r = (True, probe m s j0, False)
       else \<exists>j1 \<le> j0. r = (False, probe m s j1, j1 < j0) \<and> (j1 < j0 \<longrightarrow> fst (arr ! probe m s j1) = kDeleted))"
  using assms(2) del
proof (induction "j0 - j" arbitrary: j del)
  case 0
  let ?i = "probe m s j"
  have j: "j = j0" using 0 by simp
  have len: "?i < length arr" using ok probe_less by (simp add: arr_ok_def)
  have sl: "slot_ok hash (arr ! ?i)" using arr_slot [OF ok len] .
  show ?case
  proof (cases "fst (arr ! ?i) = kEmpty")
    case True
    then have "fst (arr ! ?i) \<noteq> Marker (hash k AND 255)" "fst (arr ! ?i) \<noteq> kDeleted"
      using Marker_ge [of "hash k AND 255"] by (auto simp: kEmpty_def kDeleted_def)
    then have "FindOrInsert_loop k (Marker (hash k AND 255)) arr (2 ^ m - 1) ?i (Suc j) del
        = Some (Inr (case del of Some d \<Rightarrow> (False, d, True) | None \<Rightarrow> (False, ?i, False)))"
      using True len by (subst FindOrInsert_loop.simps) simp
    moreover have "\<exists>j1 \<le> j0. d = probe m s j1 \<and> j1 < j0 \<and> fst (arr ! probe m s j1) = kDeleted" if "del = Some d" for d
      using "0.prems"(2) that j less_imp_le by blast
    ultimately show ?thesis using True j by (cases del) auto
  next
    case False
    then obtain v where v: "snd (arr ! ?i) = Some (k, v)" using stop j by (auto simp: stops_def)
    then have "fst (arr ! ?i) = Marker (hash k AND 255)" using sl by (simp add: slot_ok_def)
    then show ?thesis using False v len j by (subst FindOrInsert_loop.simps) simp
  qed
next
  case (Suc d)
  let ?i = "probe m s j"
  let ?del = "if del = None \<and> fst (arr ! ?i) = kDeleted then Some ?i else del"
  have len: "?i < length arr" using ok probe_less by (simp add: arr_ok_def)
  have sl: "slot_ok hash (arr ! ?i)" using arr_slot [OF ok len] .
  have ns: "\<not> stops arr k ?i" using before Suc by simp
  have a: "\<not> (fst (arr ! ?i) = Marker (hash k AND 255) \<and> snd (arr ! ?i) = None)"
    using slot_ok_None [OF sl] Marker_ge [of "hash k AND 255"] by auto
  have b: "fst (the (snd (arr ! ?i))) \<noteq> k" if "snd (arr ! ?i) \<noteq> None" using ns that by (auto simp: stops_def)
  have c: "fst (arr ! ?i) \<noteq> kEmpty" using ns by (simp add: stops_def)
  have "FindOrInsert_loop k (Marker (hash k AND 255)) arr (2 ^ m - 1) ?i (Suc j) del
      = FindOrInsert_loop k (Marker (hash k AND 255)) arr (2 ^ m - 1) (probe m s (Suc j)) (Suc (Suc j)) ?del"
    using a b c len by (subst FindOrInsert_loop.simps) (auto simp: NextIndex_probe [unfolded One_nat_def])
  moreover have "\<forall>d. ?del = Some d \<longrightarrow> (\<exists>j1 < Suc j. d = probe m s j1 \<and> fst (arr ! d) = kDeleted)"
    using Suc.prems(2) by (auto simp: less_Suc_eq)
  ultimately show ?case using Suc.hyps(1) [of "Suc j" ?del] Suc.hyps(2) Suc.prems(1) by simp
qed

lemma holds_at_update:
  "i < length arr \<Longrightarrow> holds_at (arr[i := (mk, o')]) i' kv \<longleftrightarrow> (if i' = i then o' = Some kv else holds_at arr i' kv)"
  by (auto simp: holds_at_def nth_list_update)

lemma reach_update:
  assumes "reach hash m arr k i'" and "fst s \<noteq> kEmpty" and "length arr = 2 ^ m"
  shows "reach hash m (arr[i := s]) k i'"
proof -
  have "fst (arr[i := s] ! probe m c j) \<noteq> kEmpty" if "fst (arr ! probe m c j) \<noteq> kEmpty" for c j
    using that assms(2,3) probe_less [of m c j] by (cases "i = probe m c j") auto
  then show ?thesis using assms(1) unfolding reach_def by blast
qed

lemma Marker_not_special [simp]: "Marker hb \<noteq> kEmpty" "Marker hb \<noteq> kDeleted" "kDeleted \<noteq> kEmpty" "kEmpty \<noteq> kDeleted"
  using Marker_ge [of hb] by (auto simp: kEmpty_def kDeleted_def)

lemma arr_put:
  fixes v :: "'v option"
  assumes ok: "arr_ok hash m arr" and i: "i < 2 ^ m" and r: "reach hash m arr k i"
    and slot: "\<forall>k' u. holds_at arr i (k', u) \<longrightarrow> k' = k" and uniq: "\<forall>j u. holds_at arr j (k, u) \<longrightarrow> j = i"
  defines "arr' \<equiv> arr[i := (Marker (hash k AND 255), Some (k, v))]"
  shows "arr_ok hash m arr'" and "fr_map arr' = (fr_map arr)(k \<mapsto> v)"
proof -
  have len: "length arr = 2 ^ m" using ok by (simp add: arr_ok_def)
  have h: "holds_at arr' i' kv \<longleftrightarrow> (if i' = i then kv = (k, v) else holds_at arr i' kv)" for i' kv
    using holds_at_update [of i arr] i len unfolding arr'_def by auto
  have "slot_ok hash s" if "s \<in> set arr'" for s
    using that ok set_update_subset_insert [of arr i] unfolding arr'_def arr_ok_def by (fastforce simp: slot_ok_def)
  moreover have "reach hash m arr' k' i'" if "holds_at arr' i' (k', u)" for i' k' u
  proof -
    have "reach hash m arr k' i'" using that h r ok unfolding arr_ok_def by (metis prod.inject)
    then show ?thesis unfolding arr'_def by (rule reach_update) (simp_all add: Marker_not_special len)
  qed
  moreover have "i1 = i2" if "holds_at arr' i1 (k', u)" "holds_at arr' i2 (k', w)" for i1 i2 k' u w
    using that h ok uniq unfolding arr_ok_def by (metis prod.inject)
  ultimately show ok': "arr_ok hash m arr'" using len unfolding arr_ok_def by (auto simp: arr'_def)
  show "fr_map arr' = (fr_map arr)(k \<mapsto> v)"
  proof (rule fr_map_eqI [OF ok ok'])
    fix k' u
    show "(\<exists>i'. holds_at arr' i' (k', u)) \<longleftrightarrow> ((fr_map arr)(k \<mapsto> v)) k' = Some u"
    proof (cases "k' = k")
      case True
      then show ?thesis using h uniq by (auto split: if_splits)
    next
      case False
      then have "(\<exists>i'. holds_at arr' i' (k', u)) \<longleftrightarrow> (\<exists>i'. holds_at arr i' (k', u))"
        using h slot by (metis prod.inject)
      then show ?thesis using False fr_map_iff [OF ok] by simp
    qed
  qed
qed

lemma arr_erase:
  assumes ok: "arr_ok hash m arr" and hi: "holds_at arr i (k, v)"
  defines "arr' \<equiv> arr[i := (kDeleted, None)]"
  shows "arr_ok hash m arr'" and "fr_map arr' = (fr_map arr)(k := None)"
proof -
  have len: "length arr = 2 ^ m" using ok by (simp add: arr_ok_def)
  have h: "holds_at arr' i' kv \<longleftrightarrow> i' \<noteq> i \<and> holds_at arr i' kv" for i' kv
    using holds_at_update [of i arr] hi unfolding arr'_def by (auto simp: holds_at_def)
  have "slot_ok hash s" if "s \<in> set arr'" for s
    using that ok set_update_subset_insert [of arr i] unfolding arr'_def arr_ok_def by (fastforce simp: slot_ok_def kDeleted_def)
  moreover have "reach hash m arr' k' i'" if "holds_at arr' i' (k', u)" for i' k' u
  proof -
    have "reach hash m arr k' i'" using that h ok unfolding arr_ok_def by blast
    then show ?thesis unfolding arr'_def by (rule reach_update) (simp_all add: kDeleted_def kEmpty_def len)
  qed
  moreover have "i1 = i2" if "holds_at arr' i1 (k', u)" "holds_at arr' i2 (k', w)" for i1 i2 k' u w
    using that h ok unfolding arr_ok_def by blast
  ultimately show ok': "arr_ok hash m arr'" using len unfolding arr_ok_def by (auto simp: arr'_def)
  show "fr_map arr' = (fr_map arr)(k := None)"
  proof (rule fr_map_eqI [OF ok ok'])
    fix k' u
    have "holds_at arr i (k', u') \<Longrightarrow> k' = k" for u' using hi by (simp add: holds_at_def)
    moreover have "holds_at arr j (k, u') \<Longrightarrow> j = i" for j u' using hi ok unfolding arr_ok_def by blast
    ultimately show "(\<exists>i'. holds_at arr' i' (k', u)) \<longleftrightarrow> ((fr_map arr)(k := None)) k' = Some u"
      using h fr_map_iff [OF ok, of k' u] by (cases "k' = k") (simp, blast, simp, blast)
  qed
qed

lemma count_update:
  "i < length xs \<Longrightarrow>
   length (filter P (xs[i := x])) + of_bool (P (xs ! i)) = length (filter P xs) + of_bool (P x)"
proof (induction xs arbitrary: i)
  case (Cons y ys)
  then show ?case by (cases i) auto
qed simp

section \<open>The invariant of a table\<close>

abbreviation used :: "('k, 'v) slot list \<Rightarrow> nat" where
  "used arr \<equiv> length (filter (\<lambda>s. fst s \<noteq> kEmpty) arr)"

abbreviation tombs :: "('k, 'v) slot list \<Rightarrow> nat" where
  "tombs arr \<equiv> length (filter (\<lambda>s. fst s = kDeleted) arr)"

abbreviation live :: "('k, 'v) slot list \<Rightarrow> nat" where
  "live arr \<equiv> length (filter (\<lambda>s. 2 \<le> fst s) arr)"

definition fr_ok :: "('k \<Rightarrow> nat) \<Rightarrow> ('k, 'v) FlatRep \<Rightarrow> bool" where
  "fr_ok hash t \<longleftrightarrow> fr_lglen t \<le> 28 \<and> arr_ok hash (fr_lglen t + 3) (fr_array t)
     \<and> fr_mask t = 2 ^ (fr_lglen t + 3) - 1
     \<and> fr_not_empty t = used (fr_array t) \<and> fr_deleted t = tombs (fr_array t)
     \<and> 5 * fr_not_empty t \<le> 4 * 2 ^ (fr_lglen t + 3)
     \<and> (fr_grow t = 0 \<or> fr_grow t = 4 * 2 ^ (fr_lglen t + 3) div 5)"

definition room :: "('k, 'v) FlatRep \<Rightarrow> bool" where
  "room t \<longleftrightarrow> fr_not_empty t < fr_grow t"

lemma used_split: "used arr = live arr + tombs arr"
  by (induction arr) (auto simp: kEmpty_def kDeleted_def)

lemma has_empty_used: "used arr < length arr \<Longrightarrow> has_empty arr"
  unfolding has_empty_def by (rule ccontr) (simp add: filter_id_conv [THEN iffD2] all_set_conv_all_nth)

lemma fr_ok_D:
  assumes "fr_ok hash t"
  shows "arr_ok hash (fr_lglen t + 3) (fr_array t)" and "fr_mask t = 2 ^ (fr_lglen t + 3) - 1"
    and "length (fr_array t) = 2 ^ (fr_lglen t + 3)" and "has_empty (fr_array t)"
    and "fr_not_empty t < 2 ^ 31" and "FlatRep_size t = live (fr_array t)"
proof -
  let ?n = "2 ^ (fr_lglen t + 3) :: nat"
  have f: "fr_lglen t + 3 \<le> 31" "fr_not_empty t = used (fr_array t)" "fr_deleted t = tombs (fr_array t)"
    "5 * fr_not_empty t \<le> 4 * ?n" and len: "length (fr_array t) = ?n"
    using assms by (simp_all add: fr_ok_def arr_ok_def)
  show "arr_ok hash (fr_lglen t + 3) (fr_array t)" "fr_mask t = ?n - 1" "length (fr_array t) = ?n"
    using assms len by (simp_all only: fr_ok_def)
  have n: "?n \<le> 2 ^ 31" "0 < ?n" using f(1) power_increasing [of "fr_lglen t + 3" 31 "2 :: nat"] by simp_all
  then have lt: "fr_not_empty t < ?n" using f(4) by linarith
  then show "has_empty (fr_array t)" using f(2) len by (intro has_empty_used) simp
  show small: "fr_not_empty t < 2 ^ 31" using lt n(1) by linarith
  have "(x + (2 ^ 64 - y)) mod 2 ^ 64 = x - y" if "y \<le> x" "x < 2 ^ 31" for x y :: nat
  proof -
    have "x + (2 ^ 64 - y) = (x - y) + 2 ^ 64" using that by simp
    then show ?thesis using that(2) by (simp only: mod_add_self2) simp
  qed
  then show "FlatRep_size t = live (fr_array t)"
    using small f(2,3) used_split [of "fr_array t"] by (simp add: FlatRep_size_def)
qed

text \<open>\<open>FindOrInsert\<close> finds the key or takes the slot of it.\<close>

lemma FindOrInsert_found:
  assumes ok: "fr_ok hash t" and some: "fr_map (fr_array t) k = Some v"
  shows "\<exists>i. FlatRep_FindOrInsert hash k t = Inr ((True, i), t) \<and> holds_at (fr_array t) i (k, v)"
proof -
  note d = fr_ok_D [OF ok]
  let ?m = "fr_lglen t + 3" and ?a = "fr_array t"
  let ?p = "probe ?m (home hash k)"
  obtain j0 where j0: "stops ?a k (?p j0)" "\<forall>j < j0. \<not> stops ?a k (?p j)"
    using first_stop [of ?a ?m k "home hash k"] d(3,4) by blast
  obtain i where i: "holds_at ?a i (k, v)" using some fr_map_iff [OF d(1)] by blast
  note sp = stop_present [OF d(1) i j0]
  show ?thesis using FindOrInsert_loop_run [OF d(1) _ j0 refl, of 0 None] sp i
    by (auto simp: FlatRep_FindOrInsert_def Let_def d(2) and_mask [unfolded One_nat_def] probe_0 lift_probe_def)
qed

lemma empty_slot_snd: "arr_ok hash m arr \<Longrightarrow> i < length arr \<Longrightarrow> fst (arr ! i) < 2 \<Longrightarrow> snd (arr ! i) = None"
  using arr_slot slot_ok_None by blast

lemma FindOrInsert_new:
  assumes ok: "fr_ok hash t" and none: "fr_map (fr_array t) k = None" and room: "room t"
  shows "\<exists>i t'. FlatRep_FindOrInsert hash k t = Inr ((False, i), t') \<and> fr_ok hash t'
    \<and> fr_map (fr_array t') = (fr_map (fr_array t))(k \<mapsto> None) \<and> holds_at (fr_array t') i (k, None)
    \<and> live (fr_array t') = live (fr_array t) + 1"
proof -
  note d = fr_ok_D [OF ok]
  let ?m = "fr_lglen t + 3" and ?a = "fr_array t" and ?mk = "Marker (hash k AND 255)"
  let ?p = "probe ?m (home hash k)"
  obtain j0 where j0: "stops ?a k (?p j0)" "\<forall>j < j0. \<not> stops ?a k (?p j)"
    using first_stop [of ?a ?m k "home hash k"] d(3,4) by blast
  have absent: "\<not> holds_at ?a i (k, u)" for i u using none fr_map_None [OF d(1)] by blast
  have pl: "?p j < length ?a" for j using probe_less d(3) by simp
  have e0: "fst (?a ! ?p j0) = kEmpty" using j0(1) absent pl by (auto simp: stops_def holds_at_def)
  obtain j1 where j1: "j1 \<le> j0" "j1 < j0 \<longrightarrow> fst (?a ! ?p j1) = kDeleted"
    and run: "FindOrInsert_loop k ?mk ?a (2 ^ ?m - 1) (?p 0) (Suc 0) None = Some (Inr (False, ?p j1, j1 < j0))"
    using FindOrInsert_loop_run [OF d(1) _ j0 refl, of 0 None] e0 by auto
  let ?i = "?p j1" and ?a' = "?a[?p j1 := (?mk, Some (k, None))]"
  let ?t = "if j1 < j0 then t\<lparr>fr_deleted := fr_deleted t - 1\<rparr> else t\<lparr>fr_not_empty := fr_not_empty t + 1\<rparr>"
  have le2: "fst (?a ! ?i) < 2" using e0 j1 by (cases "j1 = j0") (auto simp: kEmpty_def kDeleted_def)
  have sn: "snd (?a ! ?i) = None" by (rule empty_slot_snd [OF d(1) pl le2])
  have "reach hash ?m ?a k ?i" unfolding reach_def using j0(2) j1(1) by (auto simp: stops_def intro!: exI [of _ j1])
  moreover have "\<forall>k' u. holds_at ?a ?i (k', u) \<longrightarrow> k' = k" using sn by (simp add: holds_at_def)
  ultimately have put: "arr_ok hash ?m ?a'" "fr_map ?a' = (fr_map ?a)(k \<mapsto> None)"
    using arr_put [OF d(1) probe_less] absent by blast+
  have u: "used ?a' + of_bool (j1 < j0) = used ?a + 1"
    using count_update [OF pl, of "\<lambda>s. fst s \<noteq> kEmpty" j1 "(?mk, Some (k, None))"] e0 j1
    by (cases "j1 = j0") auto
  have tb: "tombs ?a' + of_bool (j1 < j0) = tombs ?a"
    using count_update [OF pl, of "\<lambda>s. fst s = kDeleted" j1 "(?mk, Some (k, None))"] e0 j1
    by (cases "j1 = j0") auto
  have c: "fr_not_empty t = used ?a" "fr_deleted t = tombs ?a" using ok by (simp_all add: fr_ok_def)
  have small: "tombs ?a < 2 ^ 31" "used ?a < 2 ^ 31" using d(5) c used_split [of ?a] by simp_all
  have "((fr_deleted t + (2 ^ 64 - 1)) mod 2 ^ 64) = fr_deleted t - 1" if "j1 < j0"
  proof -
    have "fr_deleted t + (2 ^ 64 - 1) = (fr_deleted t - 1) + 2 ^ 64" using that tb c(2) by simp
    then show ?thesis using small(1) c(2) by (simp only: mod_add_self2) simp
  qed
  moreover have "(fr_not_empty t + 1) mod 2 ^ 64 = fr_not_empty t + 1" using small c by simp
  ultimately have r: "FlatRep_FindOrInsert hash k t = Inr ((False, ?i), ?t\<lparr>fr_array := ?a'\<rparr>)"
    using run by (auto simp: FlatRep_FindOrInsert_def Let_def d(2) and_mask [unfolded One_nat_def] probe_0 lift_probe_def)
  have "5 * (used ?a + 1) \<le> 4 * 2 ^ ?m" using room ok c(1) by (auto simp: room_def fr_ok_def)
  then have "fr_ok hash (?t\<lparr>fr_array := ?a'\<rparr>)" using ok put(1) u tb c by (auto simp: fr_ok_def)
  moreover have "holds_at ?a' ?i (k, None)" using pl by (simp add: holds_at_def)
  moreover have "live ?a' = live ?a + 1" using u tb used_split [of ?a] used_split [of ?a'] by linarith
  ultimately show ?thesis using r put(2) by fastforce
qed

lemma Erase_ok:
  assumes ok: "fr_ok hash t" and h: "holds_at (fr_array t) i (k, v)"
  shows "\<exists>t'. FlatRep_Erase i t = Inr t' \<and> fr_ok hash t' \<and> fr_map (fr_array t') = (fr_map (fr_array t))(k := None)
    \<and> live (fr_array t) = live (fr_array t') + 1"
proof -
  note d = fr_ok_D [OF ok]
  let ?m = "fr_lglen t + 3" and ?a = "fr_array t" and ?a' = "(fr_array t)[i := (kDeleted, None)]"
  have i: "i < length ?a" "snd (?a ! i) = Some (k, v)" using h by (simp_all add: holds_at_def)
  then have mk: "fst (?a ! i) \<noteq> kEmpty" "fst (?a ! i) \<noteq> kDeleted"
    using arr_slot [OF d(1) i(1)] Marker_not_special by (auto simp: slot_ok_def)
  have u: "used ?a' = used ?a"
    using count_update [OF i(1), of "\<lambda>s. fst s \<noteq> kEmpty" "(kDeleted, None)"] mk by (simp add: kDeleted_def kEmpty_def)
  have tb: "tombs ?a' = tombs ?a + 1"
    using count_update [OF i(1), of "\<lambda>s. fst s = kDeleted" "(kDeleted, None)"] mk by simp
  have c: "fr_not_empty t = used ?a" "fr_deleted t = tombs ?a" using ok by (simp_all add: fr_ok_def)
  then have "(fr_deleted t + 1) mod 2 ^ 64 = fr_deleted t + 1" using d(5) used_split [of ?a] by simp
  then have "FlatRep_Erase i t = Inr (t\<lparr>fr_array := ?a', fr_deleted := fr_deleted t + 1, fr_grow := 0\<rparr>)"
    using i by (simp add: FlatRep_Erase_def)
  moreover have "fr_ok hash (t\<lparr>fr_array := ?a', fr_deleted := fr_deleted t + 1, fr_grow := 0\<rparr>)"
    using ok arr_erase(1) [OF d(1) h] u tb c by (simp add: fr_ok_def)
  moreover have "live ?a = live ?a' + 1" using u tb used_split [of ?a] used_split [of ?a'] by linarith
  ultimately show ?thesis using arr_erase(2) [OF d(1) h] by simp
qed

section \<open>Resizing\<close>

lemma Init_lg_ok:
  assumes "lg \<le> 28" and "5 * N < 4 * 2 ^ 31"
  shows "\<exists>lg' \<le> 28. Init_lg N lg = Inr lg' \<and> 5 * N < 4 * 2 ^ (lg' + 3)"
  using assms(1)
proof (induction "28 - lg" arbitrary: lg)
  case 0
  then have "lg = 28" by simp
  then show ?case using assms(2) by (subst Init_lg.simps) (simp add: kWidth_def)
next
  case (Suc d)
  then have lt: "lg < 28" by simp
  then have "(2 :: nat) ^ lg * 8 < 2 ^ 32"
    using power_strict_increasing [of "lg + 3" 32 "2 :: nat"] by (simp add: power_add)
  then have cap: "(2 ^ lg * kWidth) mod 2 ^ 32 = (2 :: nat) ^ (lg + 3)" by (simp add: kWidth_def power_add)
  show ?case
  proof (cases "5 * N \<ge> 4 * 2 ^ (lg + 3)")
    case True
    then have "Init_lg N lg = Init_lg N (lg + 1)" using cap lt by (subst Init_lg.simps) simp
    then show ?thesis using Suc.hyps(1) [of "lg + 1"] Suc.hyps(2) lt by simp
  next
    case False
    then have "Init_lg N lg = Inr lg" using cap lt by (subst Init_lg.simps) simp
    then show ?thesis using lt False by simp
  qed
qed

lemma fr_map_replicate: "fr_map (replicate n (b, None)) = Map.empty"
  by (rule ext) (auto simp: fr_map_def find_Some_iff find_None_iff split: option.splits)

lemma Init_ok:
  assumes "5 * N < 4 * 2 ^ 31"
  shows "\<exists>t :: ('k, 'v) FlatRep. FlatRep_Init N = Inr t \<and> fr_ok hash t \<and> fr_map (fr_array t) = Map.empty
    \<and> fr_not_empty t = 0 \<and> fr_deleted t = 0 \<and> fr_grow t = 4 * 2 ^ (fr_lglen t + 3) div 5 \<and> 5 * N < 4 * 2 ^ (fr_lglen t + 3)"
proof -
  obtain lg where lg: "lg \<le> 28" "Init_lg N 0 = Inr lg" "5 * N < 4 * 2 ^ (lg + 3)" using Init_lg_ok [of 0 N] assms by auto
  have "(2 :: nat) ^ lg * 8 < 2 ^ 32"
    using lg(1) power_strict_increasing [of "lg + 3" 32 "2 :: nat"] by (simp add: power_add)
  then have cap: "(2 ^ lg * kWidth) mod 2 ^ 32 = (2 :: nat) ^ (lg + 3)" by (simp add: kWidth_def power_add)
  let ?a = "replicate (2 ^ lg * kWidth) (kEmpty, None) :: ('k, 'v) slot list"
  have len: "2 ^ lg * kWidth = 2 ^ (lg + 3)" by (simp add: kWidth_def power_add)
  have "arr_ok hash (lg + 3) ?a" by (auto simp: arr_ok_def len holds_at_def slot_ok_def kEmpty_def)
  then show ?thesis using lg cap by (simp add: FlatRep_Init_def Let_def fr_ok_def fr_map_replicate)
qed

lemma FreshInsert_loop_run:
  assumes "length arr = 2 ^ m" and "j \<le> j0" and stop: "fst (arr ! probe m s j0) = kEmpty"
    and before: "\<forall>j' < j0. fst (arr ! probe m s j') \<noteq> kEmpty"
  shows "FreshInsert_loop arr (2 ^ m - 1) (probe m s j) (Suc j) = Some (Inr (probe m s j0))"
  using assms(2)
proof (induction "j0 - j" arbitrary: j)
  case 0
  then show ?case using stop assms(1) probe_less [of m s j] by (subst FreshInsert_loop.simps) (simp add: kEmpty_def)
next
  case (Suc d)
  then have "fst (arr ! probe m s j) \<noteq> kEmpty" using before by simp
  moreover have "FreshInsert_loop arr (2 ^ m - 1) (probe m s (Suc j)) (Suc (Suc j)) = Some (Inr (probe m s j0))"
    using Suc by (intro Suc.hyps(1)) auto
  ultimately show ?case using assms(1) probe_less [of m s j]
    by (subst FreshInsert_loop.simps) (simp add: kEmpty_def NextIndex_probe [unfolded One_nat_def])
qed

lemma FreshInsert_ok:
  assumes ok: "fr_ok hash t" and none: "fr_map (fr_array t) k = None"
    and fits: "5 * (fr_not_empty t + 1) \<le> 4 * 2 ^ (fr_lglen t + 3)"
  shows "\<exists>t'. FreshInsert hash (k, v) t = Inr t' \<and> fr_ok hash t' \<and> fr_map (fr_array t') = (fr_map (fr_array t))(k \<mapsto> v)
    \<and> fr_not_empty t' = fr_not_empty t + 1 \<and> fr_deleted t' = fr_deleted t \<and> fr_lglen t' = fr_lglen t \<and> fr_grow t' = fr_grow t"
proof -
  note d = fr_ok_D [OF ok]
  let ?m = "fr_lglen t + 3" and ?a = "fr_array t" and ?mk = "Marker (hash k AND 255)"
  let ?p = "probe ?m (home hash k)"
  have absent: "\<not> holds_at ?a i (k, u)" for i u using none fr_map_None [OF d(1)] by blast
  have pl: "?p j < length ?a" for j using probe_less d(3) by simp
  then have "stops ?a k (?p j) \<longleftrightarrow> fst (?a ! ?p j) = kEmpty" for j using absent by (auto simp: stops_def holds_at_def)
  then obtain j0 where j0: "fst (?a ! ?p j0) = kEmpty" "\<forall>j < j0. fst (?a ! ?p j) \<noteq> kEmpty"
    using first_stop [of ?a ?m k "home hash k"] d(3,4) by metis
  let ?i = "?p j0" and ?a' = "?a[?p j0 := (?mk, Some (k, v))]"
  have sn: "snd (?a ! ?i) = None" by (rule empty_slot_snd [OF d(1) pl]) (simp add: j0 kEmpty_def)
  have "reach hash ?m ?a k ?i" unfolding reach_def using j0(2) by (auto intro!: exI [of _ j0])
  moreover have "\<forall>k' u. holds_at ?a ?i (k', u) \<longrightarrow> k' = k" using sn by (simp add: holds_at_def)
  ultimately have put: "arr_ok hash ?m ?a'" "fr_map ?a' = (fr_map ?a)(k \<mapsto> v)"
    using arr_put [OF d(1) probe_less] absent by blast+
  have u: "used ?a' = used ?a + 1" "tombs ?a' = tombs ?a"
    using count_update [OF pl, of "\<lambda>s. fst s \<noteq> kEmpty" j0 "(?mk, Some (k, v))"]
      count_update [OF pl, of "\<lambda>s. fst s = kDeleted" j0 "(?mk, Some (k, v))"] j0(1) by simp_all
  have "FreshInsert hash (k, v) t = Inr (t\<lparr>fr_array := ?a', fr_not_empty := fr_not_empty t + 1\<rparr>)"
    using FreshInsert_loop_run [OF d(3) _ j0, of 0] d(5)
    by (simp add: FreshInsert_def Let_def d(2) and_mask [unfolded One_nat_def] probe_0 lift_probe_def)
  moreover have "fr_ok hash (t\<lparr>fr_array := ?a', fr_not_empty := fr_not_empty t + 1\<rparr>)"
    using ok put(1) u fits by (simp add: fr_ok_def)
  ultimately show ?thesis using put(2) by simp
qed

definition slot_keys :: "('k, 'v) slot list \<Rightarrow> 'k list" where
  "slot_keys arr = map (\<lambda>s. fst (the (snd s))) (filter (\<lambda>s. 2 \<le> fst s) arr)"

lemma fr_map_Cons:
  "fr_map (s # ss) k = (if snd s \<noteq> None \<and> fst (the (snd s)) = k then Some (snd (the (snd s))) else fr_map ss k)"
  by (simp add: fr_map_def)

lemma CopyEntries_ok:
  assumes "\<forall>s \<in> set ss. slot_ok hash s" and "distinct (slot_keys ss)" and "fr_ok hash t"
    and "\<forall>k \<in> set (slot_keys ss). fr_map (fr_array t) k = None"
    and "5 * (fr_not_empty t + live ss) \<le> 4 * 2 ^ (fr_lglen t + 3)"
  shows "\<exists>t'. CopyEntries hash ss t = Inr t' \<and> fr_ok hash t' \<and> fr_map (fr_array t') = fr_map (fr_array t) ++ fr_map ss
    \<and> fr_not_empty t' = fr_not_empty t + live ss \<and> fr_deleted t' = fr_deleted t \<and> fr_lglen t' = fr_lglen t \<and> fr_grow t' = fr_grow t"
  using assms
proof (induction ss arbitrary: t)
  case Nil
  then show ?case by (simp add: fr_map_def map_add_def)
next
  case (Cons s ss)
  have sl: "slot_ok hash s" using Cons.prems(1) by simp
  show ?case
  proof (cases "2 \<le> fst s")
    case False
    then have "fr_map (s # ss) = fr_map ss" using slot_ok_None [OF sl] by (auto simp: fr_map_Cons)
    then show ?thesis using Cons False by (simp add: slot_keys_def)
  next
    case True
    then obtain k v where kv: "snd s = Some (k, v)" using slot_ok_None [OF sl] by (cases "snd s") auto
    have keys: "slot_keys (s # ss) = k # slot_keys ss" using True kv by (simp add: slot_keys_def)
    obtain t1 where t1: "FreshInsert hash (k, v) t = Inr t1" "fr_ok hash t1" "fr_map (fr_array t1) = (fr_map (fr_array t))(k \<mapsto> v)"
      "fr_not_empty t1 = fr_not_empty t + 1" "fr_deleted t1 = fr_deleted t" "fr_lglen t1 = fr_lglen t" "fr_grow t1 = fr_grow t"
      using FreshInsert_ok [OF Cons.prems(3), of k v] Cons.prems(4,5) keys True by auto
    have absent: "fr_map ss k = None"
    proof -
      have "k \<notin> set (slot_keys ss)" using Cons.prems(2) keys by simp
      moreover have "fst (the (snd s')) \<in> set (slot_keys ss)" if "s' \<in> set ss" "snd s' \<noteq> None" for s'
        using Cons.prems(1) that slot_ok_None [of hash s'] unfolding slot_keys_def by (auto simp: not_less)
      ultimately have "fst (the (snd s')) \<noteq> k" if "s' \<in> set ss" "snd s' \<noteq> None" for s' using that by metis
      then have "List.find (\<lambda>s. snd s \<noteq> None \<and> fst (the (snd s)) = k) ss = None" unfolding find_None_iff by blast
      then show ?thesis by (simp add: fr_map_def)
    qed
    have "fr_map (fr_array t) ++ fr_map (s # ss) = (fr_map (fr_array t))(k \<mapsto> v) ++ fr_map ss"
      using absent kv by (auto simp: map_add_def fr_map_Cons fun_eq_iff split: option.splits)
    moreover have "\<exists>t'. CopyEntries hash ss t1 = Inr t' \<and> fr_ok hash t' \<and> fr_map (fr_array t') = fr_map (fr_array t1) ++ fr_map ss
      \<and> fr_not_empty t' = fr_not_empty t1 + live ss \<and> fr_deleted t' = fr_deleted t1 \<and> fr_lglen t' = fr_lglen t1 \<and> fr_grow t' = fr_grow t1"
      by (rule Cons.IH) (use Cons.prems keys True t1 in auto)
    ultimately show ?thesis using True kv t1 by auto
  qed
qed

lemma distinct_map_filter:
  assumes "\<And>i j. i < length xs \<Longrightarrow> j < length xs \<Longrightarrow> P (xs ! i) \<Longrightarrow> P (xs ! j) \<Longrightarrow> f (xs ! i) = f (xs ! j) \<Longrightarrow> i = j"
  shows "distinct (map f (filter P xs))"
  using assms
proof (induction xs)
  case (Cons x xs)
  have "distinct (map f (filter P xs))" by (rule Cons.IH) (use Cons.prems [of "Suc _" "Suc _"] in simp)
  moreover have "f x \<noteq> f y" if y: "y \<in> set xs" "P y" and px: "P x" for y
  proof -
    obtain j where "j < length xs" "xs ! j = y" using y(1) by (auto simp: in_set_conv_nth)
    then show ?thesis using Cons.prems [of 0 "Suc j"] y(2) px by auto
  qed
  ultimately show ?case by auto
qed simp

lemma arr_ok_distinct:
  assumes "arr_ok hash m arr"
  shows "distinct (slot_keys arr)"
  unfolding slot_keys_def
proof (rule distinct_map_filter)
  fix i j
  assume ij: "i < length arr" "j < length arr" "2 \<le> fst (arr ! i)" "2 \<le> fst (arr ! j)"
    "fst (the (snd (arr ! i))) = fst (the (snd (arr ! j)))"
  then obtain p q where "snd (arr ! i) = Some p" "snd (arr ! j) = Some q"
    using slot_ok_None [OF arr_slot [OF assms]] by (metis not_None_eq not_less)
  then have "holds_at arr i p" "holds_at arr j q" "fst p = fst q" using ij by (auto simp: holds_at_def)
  then show "i = j" using assms unfolding arr_ok_def by (metis prod.collapse)
qed

lemma Resize_ok:
  fixes t :: "('k, 'v) FlatRep"
  assumes ok: "arr_ok hash m (fr_array t)" and "live (fr_array t) \<le> N" and "5 * N < 4 * 2 ^ 31"
  shows "\<exists>t'. FlatRep_Resize hash N t = Inr t' \<and> fr_ok hash t' \<and> (live (fr_array t) < N \<longrightarrow> room t') \<and> fr_map (fr_array t') = fr_map (fr_array t)
    \<and> fr_not_empty t' = live (fr_array t) \<and> fr_deleted t' = 0"
proof -
  let ?a = "fr_array t"
  obtain t0 :: "('k, 'v) FlatRep" where t0: "FlatRep_Init N = Inr t0" "fr_ok hash t0" "fr_map (fr_array t0) = Map.empty" "fr_not_empty t0 = 0"
    "fr_deleted t0 = 0" "fr_grow t0 = 4 * 2 ^ (fr_lglen t0 + 3) div 5" "5 * N < 4 * 2 ^ (fr_lglen t0 + 3)"
    using Init_ok [OF assms(3), of hash] by blast
  have "\<forall>s \<in> set ?a. slot_ok hash s" using ok by (simp add: arr_ok_def)
  then obtain t' where "CopyEntries hash ?a t0 = Inr t'" "fr_ok hash t'" "fr_map (fr_array t') = fr_map (fr_array t0) ++ fr_map ?a"
    "fr_not_empty t' = fr_not_empty t0 + live ?a" "fr_deleted t' = fr_deleted t0" "fr_lglen t' = fr_lglen t0" "fr_grow t' = fr_grow t0"
    using CopyEntries_ok [OF _ arr_ok_distinct [OF ok] t0(2)] t0 assms(2) by auto
  moreover from this have "room t'" if "live ?a < N" using t0 that by (simp add: room_def)
  ultimately show ?thesis using t0 by (simp add: FlatRep_Resize_def)
qed

lemma slot_keys_dom:
  assumes "arr_ok hash m arr"
  shows "set (slot_keys arr) = dom (fr_map arr)"
proof -
  have "2 \<le> fst s \<longleftrightarrow> snd s \<noteq> None" if "s \<in> set arr" for s
    using assms that slot_ok_None [of hash s] by (auto simp: arr_ok_def)
  then have f: "filter (\<lambda>s. 2 \<le> fst s) arr = filter (\<lambda>s. snd s \<noteq> None) arr" by (rule filter_cong [OF refl])
  have "k \<in> dom (fr_map arr) \<longleftrightarrow> List.find (\<lambda>s. snd s \<noteq> None \<and> fst (the (snd s)) = k) arr \<noteq> None" for k
    by (simp add: fr_map_def dom_def split: option.splits)
  then have "k \<in> dom (fr_map arr) \<longleftrightarrow> k \<in> set (slot_keys arr)" for k
    unfolding find_None_iff slot_keys_def f set_map set_filter image_iff by (metis (mono_tags, lifting) mem_Collect_eq)
  then show ?thesis by blast
qed

lemma live_card:
  assumes "fr_ok hash t"
  shows "FlatRep_size t = card (dom (fr_map (fr_array t)))"
proof -
  note d = fr_ok_D [OF assms]
  have "card (set (slot_keys (fr_array t))) = live (fr_array t)"
    using distinct_card [OF arr_ok_distinct [OF d(1)]] by (simp add: slot_keys_def)
  then show ?thesis using d(6) slot_keys_dom [OF d(1)] by simp
qed

text \<open>A table may hold \<open>4/5 * 2^31 - 1\<close> entries; beyond it \<open>Init\<close> overflows its \<open>int\<close> shift.\<close>

lemma MaybeResize_ok:
  assumes ok: "fr_ok hash t" and fits: "5 * (FlatRep_size t + 1) < 4 * 2 ^ 31"
  shows "\<exists>t'. MaybeResize hash t = Inr t' \<and> fr_ok hash t' \<and> room t' \<and> fr_map (fr_array t') = fr_map (fr_array t)"
proof -
  note d = fr_ok_D [OF ok]
  let ?g = "4 * bucket_count t div 5"
  have rs: "\<exists>t'. FlatRep_Resize hash (FlatRep_size t + 1) u = Inr t' \<and> fr_ok hash t' \<and> room t' \<and> fr_map (fr_array t') = fr_map (fr_array t)"
    if u: "fr_array u = fr_array t" for u
    using Resize_ok [of hash "fr_lglen t + 3" u "FlatRep_size t + 1"] d(1,6) fits u by auto
  have "(2 :: nat) ^ (fr_lglen t + 3) \<le> 2 ^ 31" using ok by (intro power_increasing) (auto simp: fr_ok_def)
  then have bc: "bucket_count t = 2 ^ (fr_lglen t + 3)" by (simp add: bucket_count_def d(2))
  have grown: "fr_ok hash (t\<lparr>fr_grow := ?g\<rparr>)" using ok by (simp add: fr_ok_def bc)
  show ?thesis
  proof (cases "fr_not_empty t < fr_grow t")
    case True
    then show ?thesis using ok by (simp add: MaybeResize_def room_def)
  next
    case nr: False
    show ?thesis
    proof (cases "fr_grow t = 0 \<and> FlatRep_size t \<ge> fr_shrink t")
      case True
      have sz: "FlatRep_size (t\<lparr>fr_grow := ?g\<rparr>) = FlatRep_size t" by (simp add: FlatRep_size_def)
      show ?thesis using True nr grown sz rs [of "t\<lparr>fr_grow := ?g\<rparr>"] by (auto simp: MaybeResize_def Let_def room_def)
    next
      case False
      then show ?thesis using nr rs [of t] by (auto simp: MaybeResize_def)
    qed
  qed
qed

text \<open>Every table whose invariant holds is small enough to be copied.\<close>

lemma size_fits: "fr_ok hash t \<Longrightarrow> 5 * FlatRep_size t < 4 * 2 ^ 31"
proof -
  assume ok: "fr_ok hash t"
  have "(2 :: nat) ^ (fr_lglen t + 3) \<le> 2 ^ 31" using ok by (intro power_increasing) (auto simp: fr_ok_def)
  moreover have "live (fr_array t) \<le> fr_not_empty t" "5 * fr_not_empty t \<le> 4 * 2 ^ (fr_lglen t + 3)"
    using ok used_split [of "fr_array t"] by (simp_all add: fr_ok_def)
  ultimately have "5 * FlatRep_size t \<le> 8589934592" using fr_ok_D(6) [OF ok] by simp
  then have "5 * FlatRep_size t < 8589934592" by presburger
  then show ?thesis by simp
qed

section \<open>Clearing\<close>

lemma clear_clean:
  assumes ok: "fr_ok hash t" and clean: "fr_deleted t = 0"
  shows "\<exists>t'. FlatRep_clear hash t = Inr t' \<and> fr_ok hash t' \<and> fr_map (fr_array t') = Map.empty"
proof -
  note d = fr_ok_D [OF ok]
  let ?c = "(clear_no_resize t)\<lparr>fr_grow := 0\<rparr>" and ?n = "2 ^ (fr_lglen t + 3)"
  have "(if fst s \<ge> 2 then (kEmpty, None) else s) = (kEmpty, None)" if s: "s \<in> set (fr_array t)" for s
  proof -
    have "fst s \<noteq> kDeleted" using ok clean s by (auto simp: fr_ok_def filter_empty_conv)
    moreover have "slot_ok hash s" using d(1) s by (simp add: arr_ok_def)
    then have "snd s = None" if "fst s < 2" using that slot_ok_None by blast
    ultimately show ?thesis by (cases s) (auto simp: kEmpty_def kDeleted_def)
  qed
  then have "map (\<lambda>s. if fst s \<ge> 2 then (kEmpty, None) else s) (fr_array t) = map (\<lambda>s. (kEmpty, None)) (fr_array t)"
    by (rule map_cong [OF refl])
  then have a: "fr_array ?c = replicate ?n (kEmpty, None)" using d(3) by (simp add: clear_no_resize_def map_replicate_const)
  have "arr_ok hash (fr_lglen t + 3) (fr_array ?c)" unfolding a by (auto simp: arr_ok_def holds_at_def slot_ok_def kEmpty_def)
  then have c: "fr_ok hash ?c" using ok a by (simp add: fr_ok_def clear_no_resize_def)
  have e: "fr_map (fr_array ?c) = Map.empty" unfolding a by (rule fr_map_replicate)
  then have "FlatRep_size ?c = 0" using live_card [OF c] by simp
  then show ?thesis using MaybeResize_ok [OF c] e by (auto simp: FlatRep_clear_def)
qed

text \<open>A probe of a table with no empty slot does not end when the key is absent.\<close>

definition full_without :: "nat \<Rightarrow> ('k, 'v) slot list \<Rightarrow> 'k \<Rightarrow> nat \<Rightarrow> bool" where
  "full_without m arr k mk \<longleftrightarrow> length arr = 2 ^ m
     \<and> (\<forall>s \<in> set arr. fst s \<noteq> kEmpty \<and> (fst s = mk \<longrightarrow> snd s \<noteq> None \<and> fst (the (snd s)) \<noteq> k))"

lemma Find_loop_full:
  assumes "Find_loop k mk arr msk i n = Some y"
  shows "\<not> (full_without m arr k mk \<and> msk = 2 ^ m - 1 \<and> i < 2 ^ m)"
  apply (rule Find_loop.raw_induct [where P = "\<lambda>k mk arr msk i n y. \<not> (full_without m arr k mk \<and> msk = 2 ^ m - 1 \<and> i < 2 ^ m)", OF _ assms])
  subgoal premises prems for rec k mk arr msk i n y
  proof
    assume c: "full_without m arr k mk \<and> msk = 2 ^ m - 1 \<and> i < 2 ^ m"
    then have i: "i < length arr" "arr ! i \<in> set arr" by (simp_all add: full_without_def)
    then have "fst (arr ! i) \<noteq> kEmpty" "fst (arr ! i) = mk \<longrightarrow> snd (arr ! i) \<noteq> None \<and> fst (the (snd (arr ! i))) \<noteq> k"
      using c unfolding full_without_def by blast+
    then have "rec k mk arr msk (NextIndex msk i n) (n + 1) = Some y" using prems(2) i(1) by (simp split: if_splits)
    moreover have "NextIndex msk i n < 2 ^ m" using c by (simp add: NextIndex_def and_mask [unfolded One_nat_def])
    ultimately show False using prems(1) c by blast
  qed
  done

lemma Find_full:
  assumes "full_without m (fr_array t) k (Marker (hash k AND 255))" and "fr_mask t = 2 ^ m - 1"
  shows "FlatRep_Find hash k t = Inl Diverges"
proof -
  let ?i = "drop_bit 8 (hash k) AND fr_mask t"
  have "?i < 2 ^ m" using assms(2) by (simp add: and_mask [unfolded One_nat_def])
  then have "Find_loop k (Marker (hash k AND 255)) (fr_array t) (fr_mask t) ?i 1 = None"
    using Find_loop_full [of k _ "fr_array t" "fr_mask t" ?i 1 _ m] assms by (metis not_None_eq)
  then show ?thesis by (simp add: FlatRep_Find_def Let_def lift_probe_def)
qed

end
