(* ===== verification/Flat_Map.thy ===== *)
theory Flat_Map
  imports Flat_Rep "HOL-Library.Code_Target_Numeral"
begin

text \<open>
  \<open>FlatMap\<close> and \<open>FlatSet\<close> of \<open>map_util.h\<close>, the two clients of \<open>FlatRep\<close>.  Their state is the
  table \<open>rep_\<close>; a \<open>FlatSet\<close> is a table whose slots have no value.  An iterator is the pair of its
  bucket number and its index in the bucket; the pointers \<open>limit()\<close> and \<open>nullptr\<close> are the
  number of buckets and an iterator no operation uses.
\<close>

section \<open>Iterators\<close>

type_synonym fiter = "nat \<times> nat"

abbreviation nbuckets :: "('k, 'v) FlatRep \<Rightarrow> nat" where
  "nbuckets t \<equiv> 2 ^ fr_lglen t"

function SkipUnused :: "('k, 'v) slot list \<Rightarrow> nat \<Rightarrow> nat \<Rightarrow> nat \<Rightarrow> fiter" where
  "SkipUnused arr nb b i =
     (if b < nb then
        if i \<ge> kWidth then SkipUnused arr nb (b + 1) 0
        else if fst (arr ! (kWidth * b + i)) < 2 then SkipUnused arr nb b (i + 1)
        else (b, i)
      else (b, i))"
  by pat_completeness auto
termination
  by (relation "measure (\<lambda>(arr, nb, b, i). (nb - b) * 10 + (9 - i))") (auto simp: kWidth_def)

declare SkipUnused.simps [simp del]

definition FlatMap_begin :: "('k, 'v) FlatRep \<Rightarrow> fiter" where
  "FlatMap_begin t = SkipUnused (fr_array t) (nbuckets t) 0 0"

definition FlatMap_end :: "('k, 'v) FlatRep \<Rightarrow> fiter" where
  "FlatMap_end t = SkipUnused (fr_array t) (nbuckets t) (nbuckets t) 0"

text \<open>The iterator the code makes from a bucket and an index, \<open>iterator(r.b, rep_.limit(), r.index)\<close>.\<close>

definition iter_at :: "nat \<Rightarrow> fiter" where
  "iter_at i = (i div kWidth, i mod kWidth)"

definition iter_slot :: "fiter \<Rightarrow> nat" where
  "iter_slot it = kWidth * fst it + snd it"

definition iter_next :: "('k, 'v) FlatRep \<Rightarrow> fiter \<Rightarrow> fiter result" where
  "iter_next t it =
     (if fst it = nbuckets t then Inl AssertFailed
      else Inr (SkipUnused (fr_array t) (nbuckets t) (fst it) (snd it + 1)))"

definition iter_val :: "('k, 'v) FlatRep \<Rightarrow> fiter \<Rightarrow> ('k \<times> 'v option) result" where
  "iter_val t it =
     (if iter_slot it \<ge> length (fr_array t) then Inl OutOfBounds
      else case snd (fr_array t ! iter_slot it) of None \<Rightarrow> Inl Uninitialised | Some kv \<Rightarrow> Inr kv)"

section \<open>The operations of FlatMap\<close>

definition FlatMap_new :: "nat \<Rightarrow> ('k, 'v) FlatRep result" where
  "FlatMap_new N = FlatRep_Init N"

definition FlatMap_reserve :: "('k \<Rightarrow> nat) \<Rightarrow> nat \<Rightarrow> ('k, 'v) FlatRep \<Rightarrow> ('k, 'v) FlatRep result" where
  "FlatMap_reserve hash N t = FlatRep_Resize hash (max N (FlatRep_size t)) t"

definition FlatMap_empty :: "('k, 'v) FlatRep \<Rightarrow> bool" where
  "FlatMap_empty t \<longleftrightarrow> FlatRep_size t = 0"

definition FlatMap_count :: "('k \<Rightarrow> nat) \<Rightarrow> 'k \<Rightarrow> ('k, 'v) FlatRep \<Rightarrow> nat result" where
  "FlatMap_count hash k t = ub_bind (FlatRep_Find hash k t) (\<lambda>r. Inr (if r \<noteq> None then 1 else 0))"

definition FlatMap_find :: "('k \<Rightarrow> nat) \<Rightarrow> 'k \<Rightarrow> ('k, 'v) FlatRep \<Rightarrow> fiter result" where
  "FlatMap_find hash k t =
     ub_bind (FlatRep_Find hash k t) (\<lambda>r. Inr (case r of Some i \<Rightarrow> iter_at i | None \<Rightarrow> FlatMap_end t))"

definition slot_val :: "nat \<Rightarrow> ('k, 'v) FlatRep \<Rightarrow> 'v result" where
  "slot_val i t = ub_bind (iter_val t (iter_at i)) (\<lambda>(k, v). case v of None \<Rightarrow> Inl Uninitialised | Some v \<Rightarrow> Inr v)"

definition FlatMap_at :: "('k \<Rightarrow> nat) \<Rightarrow> 'k \<Rightarrow> ('k, 'v) FlatRep \<Rightarrow> 'v result" where
  "FlatMap_at hash k t =
     ub_bind (FlatRep_Find hash k t) (\<lambda>r. case r of None \<Rightarrow> Inl AssertFailed | Some i \<Rightarrow> slot_val i t)"

definition InitVal :: "nat \<Rightarrow> 'v \<Rightarrow> ('k, 'v) FlatRep \<Rightarrow> ('k, 'v) FlatRep" where
  "InitVal i v t =
     t\<lparr>fr_array := (fr_array t)[i := (fst (fr_array t ! i), map_option (\<lambda>kv. (fst kv, Some v)) (snd (fr_array t ! i)))]\<rparr>"

definition FlatMap_Insert :: "('k \<Rightarrow> nat) \<Rightarrow> 'k \<Rightarrow> 'v \<Rightarrow> ('k, 'v) FlatRep \<Rightarrow> ((fiter \<times> bool) \<times> ('k, 'v) FlatRep) result" where
  "FlatMap_Insert hash k v t =
     ub_bind (MaybeResize hash t) (\<lambda>t.
     ub_bind (FlatRep_FindOrInsert hash k t) (\<lambda>((found, i), t).
     let t = (if \<not> found then InitVal i v t else t)
     in Inr ((iter_at i, \<not> found), t)))"

fun FlatMap_insert_range :: "('k \<Rightarrow> nat) \<Rightarrow> ('k \<times> 'v) list \<Rightarrow> ('k, 'v) FlatRep \<Rightarrow> ('k, 'v) FlatRep result" where
  "FlatMap_insert_range hash [] t = Inr t"
| "FlatMap_insert_range hash ((k, v) # ps) t =
     ub_bind (FlatMap_Insert hash k v t) (\<lambda>(_, t). FlatMap_insert_range hash ps t)"

definition FlatMap_from_range :: "('k \<Rightarrow> nat) \<Rightarrow> ('k \<times> 'v) list \<Rightarrow> nat \<Rightarrow> ('k, 'v) FlatRep result" where
  "FlatMap_from_range hash ps N = ub_bind (FlatMap_new N) (FlatMap_insert_range hash ps)"

text \<open>\<open>operator[]\<close>; \<open>dflt\<close> is the value \<open>Val()\<close>.  The result is the slot whose value the reference names.\<close>

definition IndexOp :: "('k \<Rightarrow> nat) \<Rightarrow> 'v \<Rightarrow> 'k \<Rightarrow> ('k, 'v) FlatRep \<Rightarrow> (nat \<times> ('k, 'v) FlatRep) result" where
  "IndexOp hash dflt k t =
     ub_bind (MaybeResize hash t) (\<lambda>t.
     ub_bind (FlatRep_FindOrInsert hash k t) (\<lambda>((found, i), t).
     Inr (i, if \<not> found then InitVal i dflt t else t)))"

definition FlatMap_erase :: "('k \<Rightarrow> nat) \<Rightarrow> 'k \<Rightarrow> ('k, 'v) FlatRep \<Rightarrow> (nat \<times> ('k, 'v) FlatRep) result" where
  "FlatMap_erase hash k t =
     ub_bind (FlatRep_Find hash k t) (\<lambda>r. case r of
       None \<Rightarrow> Inr (0, t)
     | Some i \<Rightarrow> ub_bind (FlatRep_Erase i t) (\<lambda>t. Inr (1, t)))"

definition FlatMap_erase_iter :: "fiter \<Rightarrow> ('k, 'v) FlatRep \<Rightarrow> (fiter \<times> ('k, 'v) FlatRep) result" where
  "FlatMap_erase_iter pos t =
     ub_bind (FlatRep_Erase (iter_slot pos) t) (\<lambda>t. ub_bind (iter_next t pos) (\<lambda>pos. Inr (pos, t)))"

partial_function (option) FlatMap_erase_range ::
    "fiter \<Rightarrow> fiter \<Rightarrow> ('k, 'v) FlatRep \<Rightarrow> (fiter \<times> ('k, 'v) FlatRep) result option" where
  "FlatMap_erase_range pos lst t =
     (if pos \<noteq> lst then
        (case FlatRep_Erase (iter_slot pos) t of Inl e \<Rightarrow> Some (Inl e)
         | Inr t \<Rightarrow> (case iter_next t pos of Inl e \<Rightarrow> Some (Inl e)
                   | Inr pos \<Rightarrow> FlatMap_erase_range pos lst t))
      else Some (Inr (pos, t)))"

definition FlatMap_equal_range :: "('k \<Rightarrow> nat) \<Rightarrow> 'k \<Rightarrow> ('k, 'v) FlatRep \<Rightarrow> (fiter \<times> fiter) result" where
  "FlatMap_equal_range hash k t =
     ub_bind (FlatMap_find hash k t) (\<lambda>pos.
       if pos = FlatMap_end t then Inr (pos, pos)
       else ub_bind (iter_next t pos) (\<lambda>next. Inr (pos, next)))"

partial_function (option) FlatMap_eq_loop ::
    "('k \<Rightarrow> nat) \<Rightarrow> ('k, 'v) FlatRep \<Rightarrow> ('k, 'v) FlatRep \<Rightarrow> fiter \<Rightarrow> bool result option" where
  "FlatMap_eq_loop hash t x it =
     (if it = FlatMap_end x then Some (Inr True)
      else case iter_val x it of Inl e \<Rightarrow> Some (Inl e)
      | Inr (k, v) \<Rightarrow>
        (case FlatMap_find hash k t of Inl e \<Rightarrow> Some (Inl e)
         | Inr i \<Rightarrow>
           if i = FlatMap_end t then Some (Inr False)
           else case iter_val t i of Inl e \<Rightarrow> Some (Inl e)
           | Inr (_, w) \<Rightarrow>
             if w \<noteq> v then Some (Inr False)
             else case iter_next x it of Inl e \<Rightarrow> Some (Inl e)
             | Inr it \<Rightarrow> FlatMap_eq_loop hash t x it))"

definition FlatMap_eq :: "('k \<Rightarrow> nat) \<Rightarrow> ('k, 'v) FlatRep \<Rightarrow> ('k, 'v) FlatRep \<Rightarrow> bool result" where
  "FlatMap_eq hash t x =
     (if FlatRep_size t \<noteq> FlatRep_size x then Inr False
      else lift_probe (FlatMap_eq_loop hash t x (FlatMap_begin x)))"

section \<open>The operations of FlatSet\<close>

type_synonym 'k fset = "('k, unit) FlatRep"

definition FlatSet_Insert :: "('k \<Rightarrow> nat) \<Rightarrow> 'k \<Rightarrow> 'k fset \<Rightarrow> ((fiter \<times> bool) \<times> 'k fset) result" where
  "FlatSet_Insert hash k t =
     ub_bind (MaybeResize hash t) (\<lambda>t.
     ub_bind (FlatRep_FindOrInsert hash k t) (\<lambda>((found, i), t). Inr ((iter_at i, \<not> found), t)))"

primrec FlatSet_insert_range :: "('k \<Rightarrow> nat) \<Rightarrow> 'k list \<Rightarrow> 'k fset \<Rightarrow> 'k fset result" where
  "FlatSet_insert_range hash [] t = Inr t"
| "FlatSet_insert_range hash (k # ks) t = ub_bind (FlatSet_Insert hash k t) (\<lambda>(_, t). FlatSet_insert_range hash ks t)"

definition FlatSet_from_range :: "('k \<Rightarrow> nat) \<Rightarrow> 'k list \<Rightarrow> nat \<Rightarrow> 'k fset result" where
  "FlatSet_from_range hash ks N = ub_bind (FlatRep_Init N) (FlatSet_insert_range hash ks)"

definition FlatSet_count :: "('k \<Rightarrow> nat) \<Rightarrow> 'k \<Rightarrow> 'k fset \<Rightarrow> nat result" where
  "FlatSet_count hash k t = ub_bind (FlatRep_Find hash k t) (\<lambda>r. Inr (if r \<noteq> None then 1 else 0))"

definition FlatSet_find :: "('k \<Rightarrow> nat) \<Rightarrow> 'k \<Rightarrow> 'k fset \<Rightarrow> fiter result" where
  "FlatSet_find hash k t =
     ub_bind (FlatRep_Find hash k t) (\<lambda>r. Inr (case r of Some i \<Rightarrow> iter_at i | None \<Rightarrow> FlatMap_end t))"

definition FlatSet_erase :: "('k \<Rightarrow> nat) \<Rightarrow> 'k \<Rightarrow> 'k fset \<Rightarrow> (nat \<times> 'k fset) result" where
  "FlatSet_erase hash k t =
     ub_bind (FlatRep_Find hash k t) (\<lambda>r. case r of
       None \<Rightarrow> Inr (0, t)
     | Some i \<Rightarrow> ub_bind (FlatRep_Erase i t) (\<lambda>t. Inr (1, t)))"

definition FlatSet_emplace :: "('k \<Rightarrow> nat) \<Rightarrow> 'k \<Rightarrow> 'k fset \<Rightarrow> ((fiter \<times> bool) \<times> 'k fset) result" where
  "FlatSet_emplace hash k t =
     ub_bind (MaybeResize hash t) (\<lambda>t.
     ub_bind (FlatRep_FindOrInsert hash k t) (\<lambda>((found, i), t). Inr ((iter_at i, \<not> found), t)))"

definition FlatSet_erase_iter :: "fiter \<Rightarrow> 'k fset \<Rightarrow> (fiter \<times> 'k fset) result" where
  "FlatSet_erase_iter pos t =
     ub_bind (FlatRep_Erase (iter_slot pos) t) (\<lambda>t. ub_bind (iter_next t pos) (\<lambda>pos. Inr (pos, t)))"

partial_function (option) FlatSet_erase_range :: "fiter \<Rightarrow> fiter \<Rightarrow> 'k fset \<Rightarrow> (fiter \<times> 'k fset) result option" where
  "FlatSet_erase_range pos lst t =
     (if pos \<noteq> lst then
        (case FlatRep_Erase (iter_slot pos) t of Inl e \<Rightarrow> Some (Inl e)
         | Inr t \<Rightarrow> (case iter_next t pos of Inl e \<Rightarrow> Some (Inl e)
                   | Inr pos \<Rightarrow> FlatSet_erase_range pos lst t))
      else Some (Inr (pos, t)))"

definition FlatSet_equal_range :: "('k \<Rightarrow> nat) \<Rightarrow> 'k \<Rightarrow> 'k fset \<Rightarrow> (fiter \<times> fiter) result" where
  "FlatSet_equal_range hash k t =
     ub_bind (FlatSet_find hash k t) (\<lambda>pos.
       if pos = FlatMap_end t then Inr (pos, pos)
       else ub_bind (iter_next t pos) (\<lambda>next. Inr (pos, next)))"

definition FlatSet_reserve :: "('k \<Rightarrow> nat) \<Rightarrow> nat \<Rightarrow> 'k fset \<Rightarrow> 'k fset result" where
  "FlatSet_reserve hash N t = FlatRep_Resize hash (max N (FlatRep_size t)) t"

partial_function (option) FlatSet_eq_loop ::
    "('k \<Rightarrow> nat) \<Rightarrow> 'k fset \<Rightarrow> 'k fset \<Rightarrow> fiter \<Rightarrow> bool result option" where
  "FlatSet_eq_loop hash t x it =
     (if it = FlatMap_end x then Some (Inr True)
      else case iter_val x it of Inl e \<Rightarrow> Some (Inl e)
      | Inr (k, _) \<Rightarrow>
        (case FlatSet_find hash k t of Inl e \<Rightarrow> Some (Inl e)
         | Inr i \<Rightarrow>
           if i = FlatMap_end t then Some (Inr False)
           else case iter_next x it of Inl e \<Rightarrow> Some (Inl e)
           | Inr it \<Rightarrow> FlatSet_eq_loop hash t x it))"

definition FlatSet_eq :: "('k \<Rightarrow> nat) \<Rightarrow> 'k fset \<Rightarrow> 'k fset \<Rightarrow> bool result" where
  "FlatSet_eq hash t x =
     (if FlatRep_size t \<noteq> FlatRep_size x then Inr False
      else lift_probe (FlatSet_eq_loop hash t x (FlatMap_begin x)))"

section \<open>Bounded maps\<close>

text \<open>
  What both containers promise: insertion keeps the value of a key that is present, reports
  whether it inserted, and succeeds while the map has fewer than \<open>cap\<close> keys.
\<close>

locale bounded_map =
  fixes invar :: "'m \<Rightarrow> bool"
    and lookup :: "'m \<Rightarrow> 'k \<rightharpoonup> 'v"
    and ins :: "'k \<Rightarrow> 'v \<Rightarrow> 'm \<Rightarrow> (bool \<times> 'm) result"
    and del :: "'k \<Rightarrow> 'm \<Rightarrow> (bool \<times> 'm) result"
    and cap :: nat
  assumes fin: "invar m \<Longrightarrow> finite (dom (lookup m))"
    and ins: "invar m \<Longrightarrow> card (dom (lookup m)) < cap \<Longrightarrow>
      \<exists>m'. ins k v m = Inr (lookup m k = None, m') \<and> invar m' \<and> lookup m' = (if lookup m k = None then (lookup m)(k \<mapsto> v) else lookup m)"
    and del: "invar m \<Longrightarrow> \<exists>m'. del k m = Inr (lookup m k \<noteq> None, m') \<and> invar m' \<and> lookup m' = (lookup m)(k := None)"

text \<open>A client that runs a sequence of insertions and removals and collects the answers.\<close>

fun client_run :: "('k \<Rightarrow> 'v \<Rightarrow> 'm \<Rightarrow> (bool \<times> 'm) result) \<Rightarrow> ('k \<Rightarrow> 'm \<Rightarrow> (bool \<times> 'm) result) \<Rightarrow> ('k, 'v) mop list
    \<Rightarrow> 'm \<Rightarrow> (bool list \<times> 'm) result" where
  "client_run i d [] m = Inr ([], m)"
| "client_run i d (Put k v # ops) m =
     ub_bind (i k v m) (\<lambda>(b, m). ub_bind (client_run i d ops m) (\<lambda>(bs, m). Inr (b # bs, m)))"
| "client_run i d (Remove k # ops) m =
     ub_bind (d k m) (\<lambda>(b, m). ub_bind (client_run i d ops m) (\<lambda>(bs, m). Inr (b # bs, m)))"

fun client_spec :: "('k, 'v) mop list \<Rightarrow> ('k \<rightharpoonup> 'v) \<Rightarrow> bool list \<times> ('k \<rightharpoonup> 'v)" where
  "client_spec [] f = ([], f)"
| "client_spec (Put k v # ops) f =
     (let (bs, g) = client_spec ops (if f k = None then f(k \<mapsto> v) else f) in ((f k = None) # bs, g))"
| "client_spec (Remove k # ops) f = (let (bs, g) = client_spec ops (f(k := None)) in ((f k \<noteq> None) # bs, g))"

context bounded_map
begin

lemma client:
  assumes "invar m" and "card (dom (lookup m)) + length ops \<le> cap"
  shows "\<exists>m'. client_run ins del ops m = Inr (fst (client_spec ops (lookup m)), m') \<and> invar m'
    \<and> lookup m' = snd (client_spec ops (lookup m))"
  using assms
proof (induction ops arbitrary: m)
  case Nil
  then show ?case by simp
next
  case (Cons op ops)
  have fin: "finite (dom (lookup m))" by (rule fin [OF Cons.prems(1)])
  show ?case
  proof (cases op)
    case (Put k v)
    let ?f = "if lookup m k = None then (lookup m)(k \<mapsto> v) else lookup m"
    obtain m1 where m1: "ins k v m = Inr (lookup m k = None, m1)" "invar m1" "lookup m1 = ?f"
      using ins [OF Cons.prems(1)] Cons.prems(2) by fastforce
    have "card (dom ?f) \<le> Suc (card (dom (lookup m)))" using fin by (simp add: card_insert_if)
    then have "card (dom (lookup m1)) + length ops \<le> cap" using Cons.prems(2) m1(3) by simp
    from Cons.IH [OF m1(2) this] show ?thesis unfolding m1(3) using m1(1) Put by (auto simp: split_beta simp del: fun_upd_apply)
  next
    case (Remove k)
    obtain m1 where m1: "del k m = Inr (lookup m k \<noteq> None, m1)" "invar m1" "lookup m1 = (lookup m)(k := None)"
      using del [OF Cons.prems(1)] by blast
    have "card (dom (lookup m1)) \<le> card (dom (lookup m))" using fin m1(3) by (auto intro: card_mono)
    then have "card (dom (lookup m1)) + length ops \<le> cap" using Cons.prems(2) by simp
    from Cons.IH [OF m1(2) this] show ?thesis unfolding m1(3) using m1(1) Remove by (auto simp: split_beta simp del: fun_upd_apply)
  qed
qed

end

section \<open>FlatMap is a bounded map\<close>

definition flat_cap :: nat where
  "flat_cap = 1717986918"

definition fm_ok :: "('k \<Rightarrow> nat) \<Rightarrow> ('k, 'v) FlatRep \<Rightarrow> bool" where
  "fm_ok hash t \<longleftrightarrow> fr_ok hash t \<and> None \<notin> ran (fr_map (fr_array t))"

definition fm_map :: "('k, 'v) FlatRep \<Rightarrow> 'k \<rightharpoonup> 'v" where
  "fm_map t k = Option.bind (fr_map (fr_array t) k) id"

lemma fm_map_None: "fm_ok hash t \<Longrightarrow> fm_map t k = None \<longleftrightarrow> fr_map (fr_array t) k = None"
  by (cases "fr_map (fr_array t) k") (auto simp: fm_ok_def fm_map_def ran_def, metis option.exhaust)

lemma fm_map_Some: "fm_ok hash t \<Longrightarrow> fm_map t k = Some v \<longleftrightarrow> fr_map (fr_array t) k = Some (Some v)"
  by (cases "fr_map (fr_array t) k") (auto simp: fm_ok_def fm_map_def)

lemma fm_dom: "fm_ok hash t \<Longrightarrow> dom (fm_map t) = dom (fr_map (fr_array t))"
  by (auto simp: dom_def fm_map_None simp flip: not_None_eq)

lemma fr_dom_finite: "finite (dom (fr_map arr))"
proof (induction arr)
  case (Cons s ss)
  have "dom (fr_map (s # ss)) \<subseteq> insert (fst (the (snd s))) (dom (fr_map ss))" by (auto simp: fr_map_Cons split: if_splits)
  then show ?case using Cons finite_subset by blast
qed (simp add: fr_map_def dom_def)

lemma InitVal_ok:
  assumes ok: "fr_ok hash t" and h: "holds_at (fr_array t) i (k, u)"
  shows "fr_ok hash (InitVal i v t)" and "fr_map (fr_array (InitVal i v t)) = (fr_map (fr_array t))(k \<mapsto> Some v)"
    and "holds_at (fr_array (InitVal i v t)) i (k, Some v)"
proof -
  note d = fr_ok_D [OF ok]
  let ?m = "fr_lglen t + 3" and ?a = "fr_array t" and ?mk = "Marker (hash k AND 255)"
  have i: "i < length ?a" "snd (?a ! i) = Some (k, u)" using h by (simp_all add: holds_at_def)
  then have mk: "fst (?a ! i) = ?mk" using arr_slot [OF d(1) i(1)] by (simp add: slot_ok_def)
  then have a: "fr_array (InitVal i v t) = ?a[i := (?mk, Some (k, Some v))]" using i by (simp add: InitVal_def)
  have "reach hash ?m ?a k i" using d(1) h unfolding arr_ok_def by blast
  moreover have "\<forall>k' u. holds_at ?a i (k', u) \<longrightarrow> k' = k" using i by (simp add: holds_at_def)
  moreover have "\<forall>j u. holds_at ?a j (k, u) \<longrightarrow> j = i" using d(1) h unfolding arr_ok_def by blast
  moreover have "i < 2 ^ ?m" using i(1) d(3) by simp
  ultimately have put: "arr_ok hash ?m (fr_array (InitVal i v t))" "fr_map (fr_array (InitVal i v t)) = (fr_map ?a)(k \<mapsto> Some v)"
    using arr_put [OF d(1)] unfolding a by blast+
  then show "fr_map (fr_array (InitVal i v t)) = (fr_map ?a)(k \<mapsto> Some v)" by blast
  have "used (fr_array (InitVal i v t)) = used ?a" "tombs (fr_array (InitVal i v t)) = tombs ?a"
    using count_update [OF i(1), of "\<lambda>s. fst s \<noteq> kEmpty" "(?mk, Some (k, Some v))"]
      count_update [OF i(1), of "\<lambda>s. fst s = kDeleted" "(?mk, Some (k, Some v))"] mk
    unfolding a by simp_all
  then show "fr_ok hash (InitVal i v t)" using ok put(1) by (simp add: fr_ok_def InitVal_def)
  show "holds_at (fr_array (InitVal i v t)) i (k, Some v)" using i unfolding a by (simp add: holds_at_def)
qed

lemma ran_upd_subset: "ran (f(k \<mapsto> v)) \<subseteq> insert v (ran f)"
  by (auto simp: ran_def)

lemma iter_slot_at [simp]: "iter_slot (iter_at i) = i"
  by (simp add: iter_slot_def iter_at_def)

lemma iter_val_holds: "holds_at (fr_array t) i kv \<Longrightarrow> iter_val t (iter_at i) = Inr kv"
  by (simp add: iter_val_def holds_at_def)

lemma fm_map_fun: "fm_map t = (\<lambda>k. Option.bind (fr_map (fr_array t) k) id)"
  by (simp add: fm_map_def fun_eq_iff)

lemma resize_step:
  assumes ok: "fm_ok hash t" and small: "card (dom (fm_map t)) < flat_cap"
  obtains t1 where "MaybeResize hash t = Inr t1" "fm_ok hash t1" "room t1" "fm_map t1 = fm_map t"
proof -
  have "FlatRep_size t < flat_cap" using live_card [of hash t] fm_dom [OF ok] ok small by (simp add: fm_ok_def)
  then obtain t1 where "MaybeResize hash t = Inr t1" "fr_ok hash t1" "room t1" "fr_map (fr_array t1) = fr_map (fr_array t)"
    using MaybeResize_ok [of hash t] ok by (auto simp: fm_ok_def flat_cap_def)
  then show thesis using ok by (intro that [of t1]) (simp_all add: fm_ok_def fm_map_fun)
qed

text \<open>Insertion and \<open>operator[]\<close> share the search for the slot.\<close>

lemma place_step:
  assumes ok: "fm_ok hash t" and small: "card (dom (fm_map t)) < flat_cap"
  shows "\<exists>t1 i t2. MaybeResize hash t = Inr t1 \<and> FlatRep_FindOrInsert hash k t1 = Inr ((fm_map t k \<noteq> None, i), t2)
    \<and> (let t' = if fm_map t k = None then InitVal i v t2 else t2 in
       fm_ok hash t' \<and> fm_map t' = (if fm_map t k = None then (fm_map t)(k \<mapsto> v) else fm_map t)
       \<and> holds_at (fr_array t') i (k, fm_map t' k))"
proof -
  obtain t1 where t1: "MaybeResize hash t = Inr t1" "fm_ok hash t1" "room t1" "fm_map t1 = fm_map t"
    by (rule resize_step [OF ok small])
  have fr1: "fr_ok hash t1" using t1(2) by (simp add: fm_ok_def)
  show ?thesis
  proof (cases "fm_map t k")
    case None
    then have "fr_map (fr_array t1) k = None" using t1(2,4) fm_map_None by metis
    then obtain i t2 where t2: "FlatRep_FindOrInsert hash k t1 = Inr ((False, i), t2)" "fr_ok hash t2"
      "fr_map (fr_array t2) = (fr_map (fr_array t1))(k \<mapsto> None)" "holds_at (fr_array t2) i (k, None)"
      using FindOrInsert_new [OF fr1 _ t1(3)] by blast
    note iv = InitVal_ok [OF t2(2,4), of v]
    have m: "fr_map (fr_array (InitVal i v t2)) = (fr_map (fr_array t1))(k \<mapsto> Some v)" using iv(2) t2(3) by simp
    then have "fm_ok hash (InitVal i v t2)"
      using iv(1) t1(2) ran_upd_subset [of "fr_map (fr_array t1)" k "Some v"] by (auto simp: fm_ok_def)
    moreover have "fm_map (InitVal i v t2) = (fm_map t)(k \<mapsto> v)"
      using m t1(4) by (auto simp: fm_map_fun fun_eq_iff)
    ultimately show ?thesis using None t1(1) t2(1) iv(3) by (auto simp: Let_def)
  next
    case (Some u)
    then have "fr_map (fr_array t1) k = Some (Some u)" using t1(2,4) fm_map_Some by metis
    then show ?thesis using FindOrInsert_found [OF fr1] t1 Some by fastforce
  qed
qed

lemma Insert_ok:
  assumes "fm_ok hash t" and "card (dom (fm_map t)) < flat_cap"
  shows "\<exists>i t'. FlatMap_Insert hash k v t = Inr ((iter_at i, fm_map t k = None), t') \<and> fm_ok hash t'
    \<and> fm_map t' = (if fm_map t k = None then (fm_map t)(k \<mapsto> v) else fm_map t) \<and> holds_at (fr_array t') i (k, fm_map t' k)"
proof -
  obtain t1 i t2 where s: "MaybeResize hash t = Inr t1" "FlatRep_FindOrInsert hash k t1 = Inr ((fm_map t k \<noteq> None, i), t2)"
    and p: "let t' = if fm_map t k = None then InitVal i v t2 else t2 in
       fm_ok hash t' \<and> fm_map t' = (if fm_map t k = None then (fm_map t)(k \<mapsto> v) else fm_map t)
       \<and> holds_at (fr_array t') i (k, fm_map t' k)"
    using place_step [OF assms, of k v] by blast
  let ?t' = "if fm_map t k = None then InitVal i v t2 else t2"
  have "FlatMap_Insert hash k v t = Inr ((iter_at i, fm_map t k = None), ?t')" using s by (simp add: FlatMap_Insert_def Let_def)
  then show ?thesis using p unfolding Let_def by blast
qed

lemma IndexOp_ok:
  assumes "fm_ok hash t" and "card (dom (fm_map t)) < flat_cap"
  shows "\<exists>i t'. IndexOp hash dflt k t = Inr (i, t') \<and> fm_ok hash t'
    \<and> fm_map t' = (if fm_map t k = None then (fm_map t)(k \<mapsto> dflt) else fm_map t)
    \<and> slot_val i t' = Inr (the (fm_map t' k)) \<and> fm_map t' k \<noteq> None"
proof -
  obtain t1 i t2 where s: "MaybeResize hash t = Inr t1" "FlatRep_FindOrInsert hash k t1 = Inr ((fm_map t k \<noteq> None, i), t2)"
    and p: "let t' = if fm_map t k = None then InitVal i dflt t2 else t2 in
       fm_ok hash t' \<and> fm_map t' = (if fm_map t k = None then (fm_map t)(k \<mapsto> dflt) else fm_map t)
       \<and> holds_at (fr_array t') i (k, fm_map t' k)"
    using place_step [OF assms, of k dflt] by blast
  let ?t' = "if fm_map t k = None then InitVal i dflt t2 else t2"
  have q: "fm_ok hash ?t'" "fm_map ?t' = (if fm_map t k = None then (fm_map t)(k \<mapsto> dflt) else fm_map t)"
    "holds_at (fr_array ?t') i (k, fm_map ?t' k)" using p unfolding Let_def by blast+
  have "IndexOp hash dflt k t = Inr (i, ?t')" using s by (simp add: IndexOp_def)
  moreover have ne: "fm_map ?t' k \<noteq> None" unfolding q(2) by auto
  moreover have "slot_val i ?t' = Inr (the (fm_map ?t' k))"
    using ne iter_val_holds [OF q(3)] by (auto simp: slot_val_def)
  ultimately show ?thesis using q by blast
qed

lemma Find_found:
  assumes "fr_ok hash t"
  shows "\<exists>r. FlatRep_Find hash k t = Inr r \<and>
    (case r of None \<Rightarrow> fr_map (fr_array t) k = None
     | Some i \<Rightarrow> \<exists>v. fr_map (fr_array t) k = Some v \<and> holds_at (fr_array t) i (k, v))"
proof -
  note d = fr_ok_D [OF assms]
  show ?thesis using Find_ok [OF d(1,4,2), of k] by (cases "fr_map (fr_array t) k") auto
qed

lemma erase_step:
  assumes ok: "fr_ok hash t"
  shows "\<exists>t'. FlatMap_erase hash k t = Inr (of_bool (fr_map (fr_array t) k \<noteq> None), t') \<and> fr_ok hash t'
    \<and> fr_map (fr_array t') = (fr_map (fr_array t))(k := None)"
proof (cases "fr_map (fr_array t) k")
  case None
  then have "FlatRep_Find hash k t = Inr None" using Find_found [OF ok, of k] by (auto split: option.splits)
  then show ?thesis using ok None by (simp add: FlatMap_erase_def fun_upd_idem)
next
  case (Some v)
  then obtain i where i: "FlatRep_Find hash k t = Inr (Some i)" "holds_at (fr_array t) i (k, v)"
    using Find_found [OF ok, of k] by (auto split: option.splits)
  then show ?thesis using Erase_ok [OF ok i(2)] Some by (auto simp: FlatMap_erase_def)
qed

lemma erase_ok:
  assumes ok: "fm_ok hash t"
  shows "\<exists>t'. FlatMap_erase hash k t = Inr (of_bool (fm_map t k \<noteq> None), t') \<and> fm_ok hash t' \<and> fm_map t' = (fm_map t)(k := None)"
proof -
  obtain t' where t': "FlatMap_erase hash k t = Inr (of_bool (fr_map (fr_array t) k \<noteq> None), t')" "fr_ok hash t'"
    "fr_map (fr_array t') = (fr_map (fr_array t))(k := None)"
    using erase_step [of hash t k] ok by (auto simp: fm_ok_def)
  have "ran (fr_map (fr_array t')) \<subseteq> ran (fr_map (fr_array t))" unfolding t'(3) by (auto simp: ran_def)
  then have "fm_ok hash t'" using t'(2) ok by (auto simp: fm_ok_def)
  moreover have "fm_map t' = (fm_map t)(k := None)" using t'(3) by (auto simp: fm_map_fun fun_eq_iff)
  ultimately show ?thesis using t'(1) fm_map_None [OF ok] by auto
qed

definition fm_ins :: "('k \<Rightarrow> nat) \<Rightarrow> 'k \<Rightarrow> 'v \<Rightarrow> ('k, 'v) FlatRep \<Rightarrow> (bool \<times> ('k, 'v) FlatRep) result" where
  "fm_ins hash k v t = ub_bind (FlatMap_Insert hash k v t) (\<lambda>((it, b), t). Inr (b, t))"

definition fm_del :: "('k \<Rightarrow> nat) \<Rightarrow> 'k \<Rightarrow> ('k, 'v) FlatRep \<Rightarrow> (bool \<times> ('k, 'v) FlatRep) result" where
  "fm_del hash k t = ub_bind (FlatMap_erase hash k t) (\<lambda>(n, t). Inr (n = 1, t))"

interpretation fm: bounded_map "fm_ok hash" fm_map "fm_ins hash" "fm_del hash" flat_cap
proof
  fix m :: "('a, 'b) FlatRep" and k v
  assume ok: "fm_ok hash m"
  show "finite (dom (fm_map m))" using fm_dom [OF ok] fr_dom_finite by metis
  show "\<exists>m'. fm_del hash k m = Inr (fm_map m k \<noteq> None, m') \<and> fm_ok hash m' \<and> fm_map m' = (fm_map m)(k := None)"
    using erase_ok [OF ok, of k] by (auto simp: fm_del_def)
  assume "card (dom (fm_map m)) < flat_cap"
  from Insert_ok [OF ok this, of k v]
  show "\<exists>m'. fm_ins hash k v m = Inr (fm_map m k = None, m') \<and> fm_ok hash m'
    \<and> fm_map m' = (if fm_map m k = None then (fm_map m)(k \<mapsto> v) else fm_map m)"
    by (fastforce simp: fm_ins_def)
qed

lemma FlatMap_new_ok:
  assumes "5 * N < 4 * 2 ^ 31"
  shows "\<exists>t :: ('k, 'v) FlatRep. FlatMap_new N = Inr t \<and> fm_ok hash t \<and> fm_map t = Map.empty"
  using Init_ok [OF assms, of hash] by (auto simp: FlatMap_new_def fm_ok_def fm_map_fun)

lemma resize_keeps:
  assumes ok: "fm_ok hash t" and "5 * max N (FlatRep_size t) < 4 * 2 ^ 31"
  shows "\<exists>t'. FlatMap_reserve hash N t = Inr t' \<and> fm_ok hash t' \<and> fm_map t' = fm_map t"
proof -
  have fr: "fr_ok hash t" using ok by (simp add: fm_ok_def)
  note d = fr_ok_D [OF fr]
  obtain t' where "FlatRep_Resize hash (max N (FlatRep_size t)) t = Inr t'" "fr_ok hash t'"
    "fr_map (fr_array t') = fr_map (fr_array t)"
    using Resize_ok [OF d(1), of "max N (FlatRep_size t)"] d(6) assms(2) by auto
  then show ?thesis using ok by (simp add: FlatMap_reserve_def fm_ok_def fm_map_fun)
qed

lemma copy_Resize: "FlatRep_copy hash t = FlatMap_reserve hash 0 t"
  by (simp add: FlatRep_copy_def FlatMap_reserve_def FlatRep_Resize_def)

section \<open>Iteration\<close>

text \<open>The first live slot at or after \<open>p\<close>, and the live slots from there on.\<close>

definition skip :: "('k, 'v) slot list \<Rightarrow> nat \<Rightarrow> nat" where
  "skip arr p = p + length (takeWhile (\<lambda>s. fst s < 2) (drop p arr))"

definition rest :: "('k, 'v) slot list \<Rightarrow> nat \<Rightarrow> ('k, 'v) slot list" where
  "rest arr p = filter (\<lambda>s. 2 \<le> fst s) (drop p arr)"

lemma skip_le: "p \<le> length arr \<Longrightarrow> skip arr p \<le> length arr"
  using length_takeWhile_le [of "\<lambda>s. fst s < 2" "drop p arr"] by (simp add: skip_def)

lemma skip_step:
  assumes "p < length arr"
  shows "skip arr p = (if fst (arr ! p) < 2 then skip arr (Suc p) else p)"
  using assms by (simp add: skip_def Cons_nth_drop_Suc [symmetric])

lemma skip_end: "skip arr (length arr) = length arr"
  by (simp add: skip_def)

lemma rest_skip: "rest arr p = rest arr (skip arr p)"
proof -
  have "filter (\<lambda>s. 2 \<le> fst s) (takeWhile (\<lambda>s. fst s < 2) xs) = []" for xs :: "('k, 'v) slot list"
    by (auto simp: filter_empty_conv not_le dest: set_takeWhileD)
  moreover have "drop p arr = takeWhile (\<lambda>s. fst s < 2) (drop p arr) @ drop (skip arr p) arr"
    by (metis (no_types) takeWhile_dropWhile_id dropWhile_eq_drop drop_drop skip_def add.commute)
  ultimately show ?thesis unfolding rest_def by (metis append_Nil filter_append)
qed

lemma skip_live: "skip arr p < length arr \<Longrightarrow> 2 \<le> fst (arr ! skip arr p)"
  using nth_length_takeWhile [of "\<lambda>s. fst s < 2" "drop p arr"] by (simp add: skip_def not_less)

lemma rest_cons:
  "skip arr p < length arr \<Longrightarrow> rest arr p = arr ! skip arr p # rest arr (Suc (skip arr p))"
  by (subst rest_skip) (simp add: rest_def Cons_nth_drop_Suc [symmetric] skip_live)

lemma rest_end: "skip arr p = length arr \<Longrightarrow> rest arr p = []"
  by (subst rest_skip) (simp add: rest_def)

lemma SkipUnused_skip:
  assumes "length arr = kWidth * nb" and "b \<le> nb" and "i \<le> kWidth" and "b = nb \<longrightarrow> i = 0"
  shows "SkipUnused arr nb b i = iter_at (skip arr (kWidth * b + i))"
  using assms
proof (induction arr nb b i rule: SkipUnused.induct)
  case (1 arr nb b i)
  show ?case
  proof (cases "b < nb")
    case False
    then show ?thesis using "1.prems" skip_end [of arr] by (subst SkipUnused.simps) (simp add: iter_at_def kWidth_def)
  next
    case b: True
    show ?thesis
    proof (cases "i \<ge> kWidth")
      case True
      then have "SkipUnused arr nb b i = SkipUnused arr nb (b + 1) 0" using b by (subst SkipUnused.simps) simp
      also have "\<dots> = iter_at (skip arr (kWidth * (b + 1) + 0))" using "1.IH"(1) [OF b True] "1.prems" b by simp
      finally show ?thesis using True "1.prems"(3) by (simp add: algebra_simps)
    next
      case False
      then have lt: "kWidth * b + i < length arr"
        using b "1.prems"(1) mult_le_mono2 [of "Suc b" nb kWidth] by simp
      show ?thesis
      proof (cases "fst (arr ! (kWidth * b + i)) < 2")
        case True
        then have "SkipUnused arr nb b i = SkipUnused arr nb b (i + 1)" using b False by (subst SkipUnused.simps) simp
        then show ?thesis using "1.IH"(2) [OF b False True] "1.prems" b False True skip_step [OF lt] by simp
      next
        case live: False
        then have "SkipUnused arr nb b i = (b, i)" using b False by (subst SkipUnused.simps) simp
        then show ?thesis using live skip_step [OF lt] False by (simp add: iter_at_def kWidth_def)
      qed
    qed
  qed
qed

lemma fr_length: "fr_ok hash t \<Longrightarrow> length (fr_array t) = kWidth * nbuckets t"
  using fr_ok_D(3) by (simp add: kWidth_def power_add mult.commute)

lemma begin_skip: "fr_ok hash t \<Longrightarrow> FlatMap_begin t = iter_at (skip (fr_array t) 0)"
  using SkipUnused_skip [OF fr_length, of hash t 0 0] by (simp add: FlatMap_begin_def)

lemma end_at: "FlatMap_end t = iter_at (kWidth * nbuckets t)"
  by (simp add: FlatMap_end_def SkipUnused.simps iter_at_def kWidth_def)

lemma iter_at_inj: "iter_at i = iter_at j \<longleftrightarrow> i = j"
  by (metis iter_slot_at)

lemma next_skip:
  assumes "length (fr_array t) = kWidth * nbuckets t" and "p < length (fr_array t)"
  shows "iter_next t (iter_at p) = Inr (iter_at (skip (fr_array t) (Suc p)))"
proof -
  have "p div kWidth < nbuckets t" using assms by (simp add: kWidth_def less_mult_imp_div_less mult.commute)
  moreover have "kWidth * (p div kWidth) + (p mod kWidth + 1) = Suc p" by simp
  moreover have "p mod kWidth + 1 \<le> kWidth" by (simp add: kWidth_def Suc_leI)
  ultimately show ?thesis
    using SkipUnused_skip [OF assms(1), of "p div kWidth" "p mod kWidth + 1"] by (simp add: iter_next_def iter_at_def [of p])
qed

lemma find_iter:
  assumes ok: "fr_ok hash t"
  shows "fr_map (fr_array t) k = None \<Longrightarrow> FlatMap_find hash k t = Inr (FlatMap_end t)"
    and "fr_map (fr_array t) k = Some v \<Longrightarrow>
      \<exists>it. FlatMap_find hash k t = Inr it \<and> it \<noteq> FlatMap_end t \<and> iter_val t it = Inr (k, v)"
proof -
  show "FlatMap_find hash k t = Inr (FlatMap_end t)" if "fr_map (fr_array t) k = None"
    using Find_found [OF ok, of k] that by (auto simp: FlatMap_find_def split: option.splits)
  show "\<exists>it. FlatMap_find hash k t = Inr it \<and> it \<noteq> FlatMap_end t \<and> iter_val t it = Inr (k, v)"
    if some: "fr_map (fr_array t) k = Some v"
  proof -
    obtain i where i: "FlatRep_Find hash k t = Inr (Some i)" "holds_at (fr_array t) i (k, v)"
      using Find_found [OF ok, of k] some by (auto split: option.splits)
    have "i < kWidth * nbuckets t" using i(2) fr_length [OF ok] by (simp add: holds_at_def)
    then have "iter_at i \<noteq> FlatMap_end t" by (simp add: end_at iter_at_inj)
    then show ?thesis using i(1) iter_val_holds [OF i(2)] by (simp add: FlatMap_find_def)
  qed
qed

lemma find_holds:
  assumes ok: "fr_ok hash t" and h: "holds_at (fr_array t) i (k, v)"
  shows "FlatMap_find hash k t = Inr (iter_at i)"
proof -
  note d = fr_ok_D [OF ok]
  have "fr_map (fr_array t) k = Some v" using fr_map_iff [OF d(1)] h by blast
  then obtain j where j: "FlatRep_Find hash k t = Inr (Some j)" "holds_at (fr_array t) j (k, v)"
    using Find_found [OF ok, of k] by (auto split: option.splits)
  then have "j = i" using d(1) h unfolding arr_ok_def by blast
  then show ?thesis using j(1) by (simp add: FlatMap_find_def)
qed

definition agrees :: "('k, 'v) FlatRep \<Rightarrow> ('k, 'v) slot \<Rightarrow> bool" where
  "agrees t s \<longleftrightarrow> fr_map (fr_array t) (fst (the (snd s))) = Some (snd (the (snd s)))"

lemma live_holds:
  assumes "fr_ok hash x" and "i < length (fr_array x)" and "2 \<le> fst (fr_array x ! i)"
  shows "\<exists>k v. snd (fr_array x ! i) = Some (k, v) \<and> holds_at (fr_array x) i (k, v)"
  using slot_ok_None [OF arr_slot [OF fr_ok_D(1) [OF assms(1)] assms(2)]] assms(2,3)
  by (cases "snd (fr_array x ! i)") (auto simp: holds_at_def)

lemma eq_loop:
  assumes ok: "fr_ok hash t" and x: "fr_ok hash x" and "p \<le> length (fr_array x)"
  shows "FlatMap_eq_loop hash t x (iter_at (skip (fr_array x) p)) = Some (Inr (list_all (agrees t) (rest (fr_array x) p)))"
  using assms(3)
proof (induction "length (fr_array x) - p" arbitrary: p rule: less_induct)
  case less
  let ?a = "fr_array x" and ?q = "skip (fr_array x) p"
  note len = fr_length [OF x]
  show ?case
  proof (cases "?q = length ?a")
    case True
    then have "iter_at ?q = FlatMap_end x" using len by (simp add: end_at)
    then show ?thesis using rest_end [OF True] by (subst FlatMap_eq_loop.simps) simp
  next
    case False
    then have q: "?q < length ?a" using skip_le [OF less.prems] by simp
    have ne: "iter_at ?q \<noteq> FlatMap_end x" using q len by (simp add: end_at iter_at_inj)
    obtain k v where kv: "snd (?a ! ?q) = Some (k, v)" "holds_at ?a ?q (k, v)"
      using live_holds [OF x q skip_live [OF q]] by blast
    have p: "p \<le> ?q" by (simp add: skip_def)
    have ih: "FlatMap_eq_loop hash t x (iter_at (skip ?a (Suc ?q))) = Some (Inr (list_all (agrees t) (rest ?a (Suc ?q))))"
      by (rule less.hyps) (use q p in auto)
    have nx: "iter_next x (iter_at ?q) = Inr (iter_at (skip ?a (Suc ?q)))" by (rule next_skip [OF len q])
    have rc: "rest ?a p = ?a ! ?q # rest ?a (Suc ?q)" by (rule rest_cons [OF q])
    show ?thesis
    proof (cases "fr_map (fr_array t) k")
      case None
      then show ?thesis using find_iter(1) [OF ok None] ne iter_val_holds [OF kv(2)] rc kv(1)
        by (subst FlatMap_eq_loop.simps) (simp add: agrees_def)
    next
      case (Some w)
      then obtain it where it: "FlatMap_find hash k t = Inr it" "it \<noteq> FlatMap_end t" "iter_val t it = Inr (k, w)"
        using find_iter(2) [OF ok] by blast
      then show ?thesis using Some ne iter_val_holds [OF kv(2)] rc kv(1) ih nx
        by (subst FlatMap_eq_loop.simps) (simp add: agrees_def)
    qed
  qed
qed

lemma rest_all:
  assumes x: "fr_ok hash x"
  shows "list_all (agrees t) (rest (fr_array x) 0) \<longleftrightarrow> fr_map (fr_array x) \<subseteq>\<^sub>m fr_map (fr_array t)"
proof
  note d = fr_ok_D [OF x]
  assume l: "list_all (agrees t) (rest (fr_array x) 0)"
  have "fr_map (fr_array t) k = Some v" if fx: "fr_map (fr_array x) k = Some v" for k v
  proof -
    from fx obtain i where i: "i < length (fr_array x)" "snd (fr_array x ! i) = Some (k, v)"
      using fr_map_iff [OF d(1)] by (auto simp: holds_at_def)
    then have "2 \<le> fst (fr_array x ! i)" using slot_ok_None [OF arr_slot [OF d(1) i(1)]] by simp
    then have "fr_array x ! i \<in> set (rest (fr_array x) 0)" using i(1) by (simp add: rest_def)
    then show ?thesis using l i(2) by (auto simp: list_all_iff agrees_def)
  qed
  then show "fr_map (fr_array x) \<subseteq>\<^sub>m fr_map (fr_array t)" by (auto simp: map_le_def)
next
  assume le: "fr_map (fr_array x) \<subseteq>\<^sub>m fr_map (fr_array t)"
  have "agrees t s" if s: "s \<in> set (rest (fr_array x) 0)" for s
  proof -
    obtain i where i: "i < length (fr_array x)" "s = fr_array x ! i" "2 \<le> fst s"
      using s by (auto simp: rest_def in_set_conv_nth)
    then obtain k v where kv: "snd s = Some (k, v)" "holds_at (fr_array x) i (k, v)" using live_holds [OF x i(1)] by auto
    then have "fr_map (fr_array x) k = Some v" using fr_map_iff [OF fr_ok_D(1) [OF x]] by blast
    then show ?thesis using le kv(1) by (auto simp: agrees_def map_le_def dom_def)
  qed
  then show "list_all (agrees t) (rest (fr_array x) 0)" by (simp add: list_all_iff)
qed

lemma map_le_card_eq:
  assumes "f \<subseteq>\<^sub>m g" and "finite (dom g)" and "card (dom g) = card (dom f)"
  shows "f = g"
  using assms by (metis card_subset_eq map_le_antisym map_le_def map_le_implies_dom_le)

lemma eq_ok:
  assumes ok: "fr_ok hash t" and x: "fr_ok hash x"
  shows "FlatMap_eq hash t x = Inr (fr_map (fr_array t) = fr_map (fr_array x))"
proof -
  let ?f = "fr_map (fr_array t)" and ?g = "fr_map (fr_array x)"
  have "?g \<subseteq>\<^sub>m ?f \<longleftrightarrow> ?f = ?g" if "FlatRep_size t = FlatRep_size x"
    using map_le_card_eq [of ?g ?f] fr_dom_finite [of "fr_array t"] that live_card [OF ok] live_card [OF x] by auto
  moreover have "?f \<noteq> ?g" if "FlatRep_size t \<noteq> FlatRep_size x" using that live_card [OF ok] live_card [OF x] by auto
  ultimately show ?thesis using eq_loop [OF ok x, of 0] rest_all [OF x, of t] begin_skip [OF x]
    by (auto simp: FlatMap_eq_def lift_probe_def)
qed

text \<open>Erasing through iterators: the slots after the erased one are untouched.\<close>

lemma erase_iter_ok:
  assumes ok: "fr_ok hash t" and p: "p < length (fr_array t)" and live: "2 \<le> fst (fr_array t ! p)"
  shows "\<exists>t'. FlatRep_Erase p t = Inr t' \<and> fr_ok hash t' \<and> iter_next t' (iter_at p) = Inr (iter_at (skip (fr_array t) (Suc p)))
    \<and> fr_map (fr_array t') = (fr_map (fr_array t))(fst (the (snd (fr_array t ! p))) := None)
    \<and> length (fr_array t') = length (fr_array t) \<and> fr_lglen t' = fr_lglen t \<and> drop (Suc p) (fr_array t') = drop (Suc p) (fr_array t)"
proof -
  obtain k v where kv: "snd (fr_array t ! p) = Some (k, v)" "holds_at (fr_array t) p (k, v)"
    using live_holds [OF ok p live] by blast
  obtain t' where t': "FlatRep_Erase p t = Inr t'" "fr_ok hash t'" "fr_map (fr_array t') = (fr_map (fr_array t))(k := None)"
    using Erase_ok [OF ok kv(2)] by blast
  have a: "fr_array t' = (fr_array t)[p := (kDeleted, None)]" "fr_lglen t' = fr_lglen t"
    using t'(1) p kv(1) by (auto simp: FlatRep_Erase_def)
  have "skip (fr_array t') (Suc p) = skip (fr_array t) (Suc p)" by (simp add: skip_def a)
  moreover have "iter_next t' (iter_at p) = Inr (iter_at (skip (fr_array t') (Suc p)))"
    by (rule next_skip) (use fr_length [OF ok] p a in simp_all)
  ultimately show ?thesis using t' a kv(1) by simp
qed

lemma erase_range_ok:
  assumes "fr_ok hash t" and "p \<le> length (fr_array t)"
  shows "\<exists>t'. FlatMap_erase_range (iter_at (skip (fr_array t) p)) (FlatMap_end t) t = Some (Inr (FlatMap_end t, t')) \<and> fr_ok hash t'
    \<and> fr_map (fr_array t') = (\<lambda>k. if k \<in> (\<lambda>s. fst (the (snd s))) ` set (rest (fr_array t) p) then None else fr_map (fr_array t) k)"
  using assms
proof (induction "length (fr_array t) - p" arbitrary: t p rule: less_induct)
  case less
  let ?a = "fr_array t" and ?q = "skip (fr_array t) p"
  note len = fr_length [OF less.prems(1)]
  show ?case
  proof (cases "?q = length ?a")
    case True
    then have "iter_at ?q = FlatMap_end t" using len by (simp add: end_at)
    then show ?thesis using rest_end [OF True] less.prems(1) by (subst FlatMap_erase_range.simps) simp
  next
    case False
    then have q: "?q < length ?a" using skip_le [OF less.prems(2)] by simp
    have ne: "iter_at ?q \<noteq> FlatMap_end t" using q len by (simp add: end_at iter_at_inj)
    obtain t1 where t1: "FlatRep_Erase ?q t = Inr t1" "fr_ok hash t1"
      "iter_next t1 (iter_at ?q) = Inr (iter_at (skip ?a (Suc ?q)))"
      "fr_map (fr_array t1) = (fr_map ?a)(fst (the (snd (?a ! ?q))) := None)"
      "length (fr_array t1) = length ?a" "fr_lglen t1 = fr_lglen t" "drop (Suc ?q) (fr_array t1) = drop (Suc ?q) ?a"
      using erase_iter_ok [OF less.prems(1) q skip_live [OF q]] by blast
    have same: "skip (fr_array t1) (Suc ?q) = skip ?a (Suc ?q)" "rest (fr_array t1) (Suc ?q) = rest ?a (Suc ?q)"
      "FlatMap_end t1 = FlatMap_end t" using t1(6,7) by (simp_all add: skip_def rest_def end_at)
    have "p \<le> ?q" by (simp add: skip_def)
    then have "length (fr_array t1) - Suc ?q < length ?a - p" "Suc ?q \<le> length (fr_array t1)" using q t1(5) by auto
    from less.hyps [OF this(1) t1(2) this(2)] show ?thesis
      using rest_cons [OF q] ne t1(1,3,4) unfolding same
      by (subst FlatMap_erase_range.simps) (auto simp: fun_eq_iff)
  qed
qed

section \<open>FlatSet is a bounded set\<close>

definition fs_ok :: "('k \<Rightarrow> nat) \<Rightarrow> 'k fset \<Rightarrow> bool" where
  "fs_ok hash t \<longleftrightarrow> fr_ok hash t \<and> ran (fr_map (fr_array t)) \<subseteq> {None}"

definition fs_map :: "'k fset \<Rightarrow> 'k \<rightharpoonup> unit" where
  "fs_map t k = map_option (\<lambda>_. ()) (fr_map (fr_array t) k)"

definition fs_ins :: "('k \<Rightarrow> nat) \<Rightarrow> 'k \<Rightarrow> unit \<Rightarrow> 'k fset \<Rightarrow> (bool \<times> 'k fset) result" where
  "fs_ins hash k u t = ub_bind (FlatSet_Insert hash k t) (\<lambda>((it, b), t). Inr (b, t))"

definition fs_del :: "('k \<Rightarrow> nat) \<Rightarrow> 'k \<Rightarrow> 'k fset \<Rightarrow> (bool \<times> 'k fset) result" where
  "fs_del hash k t = ub_bind (FlatSet_erase hash k t) (\<lambda>(n, t). Inr (n = 1, t))"

lemma fs_dom: "dom (fs_map t) = dom (fr_map (fr_array t))"
  by (auto simp: fs_map_def dom_def)

lemma fs_Insert_ok:
  assumes ok: "fs_ok hash t" and small: "card (dom (fs_map t)) < flat_cap"
  shows "\<exists>it t'. FlatSet_Insert hash k t = Inr ((it, fs_map t k = None), t') \<and> fs_ok hash t'
    \<and> fs_map t' = (if fs_map t k = None then (fs_map t)(k \<mapsto> ()) else fs_map t) \<and> iter_val t' it = Inr (k, None)"
proof -
  have "FlatRep_size t < flat_cap" using live_card [of hash t] small ok by (simp add: fs_dom fs_ok_def)
  then obtain t1 where t1: "MaybeResize hash t = Inr t1" "fr_ok hash t1" "room t1" "fr_map (fr_array t1) = fr_map (fr_array t)"
    using MaybeResize_ok [of hash t] ok by (auto simp: fs_ok_def flat_cap_def)
  show ?thesis
  proof (cases "fr_map (fr_array t) k")
    case None
    then have "fr_map (fr_array t1) k = None" using t1(4) by simp
    then obtain i t2 where t2: "FlatRep_FindOrInsert hash k t1 = Inr ((False, i), t2)" "fr_ok hash t2"
      "fr_map (fr_array t2) = (fr_map (fr_array t1))(k \<mapsto> None)" "holds_at (fr_array t2) i (k, None)"
      using FindOrInsert_new [OF t1(2) _ t1(3)] by blast
    have "fs_ok hash t2" using ok t2(2) ran_upd_subset [of "fr_map (fr_array t)" k None] by (auto simp: fs_ok_def t2(3) t1(4))
    moreover have "fs_map t2 = (fs_map t)(k \<mapsto> ())" by (auto simp: fs_map_def t2(3) t1(4))
    ultimately show ?thesis using None t1(1) t2(1) iter_val_holds [OF t2(4)] by (auto simp: FlatSet_Insert_def fs_map_def)
  next
    case (Some u)
    then have u: "u = None" "fr_map (fr_array t1) k = Some None" using ok t1(4) by (auto simp: fs_ok_def ran_def)
    then obtain i where i: "FlatRep_FindOrInsert hash k t1 = Inr ((True, i), t1)" "holds_at (fr_array t1) i (k, None)"
      using FindOrInsert_found [OF t1(2)] by blast
    have "fs_ok hash t1" "fs_map t1 = fs_map t" using ok t1 by (simp add: fs_ok_def, simp add: fs_map_def t1(4) fun_eq_iff)
    then show ?thesis using Some t1(1) i(1) iter_val_holds [OF i(2)] by (auto simp: FlatSet_Insert_def fs_map_def)
  qed
qed

lemma fs_erase_ok:
  assumes ok: "fs_ok hash t"
  shows "\<exists>t'. FlatSet_erase hash k t = Inr (of_bool (fs_map t k \<noteq> None), t') \<and> fs_ok hash t' \<and> fs_map t' = (fs_map t)(k := None)"
proof -
  obtain t' where t': "FlatMap_erase hash k t = Inr (of_bool (fr_map (fr_array t) k \<noteq> None), t')" "fr_ok hash t'"
    "fr_map (fr_array t') = (fr_map (fr_array t))(k := None)"
    using erase_step [of hash t k] ok by (auto simp: fs_ok_def)
  have "ran (fr_map (fr_array t')) \<subseteq> ran (fr_map (fr_array t))" unfolding t'(3) by (auto simp: ran_def)
  then have "fs_ok hash t'" using t'(2) ok by (auto simp: fs_ok_def)
  moreover have "fs_map t' = (fs_map t)(k := None)" using t'(3) by (auto simp: fs_map_def fun_eq_iff)
  moreover have "FlatSet_erase hash k t = FlatMap_erase hash k t" by (simp add: FlatSet_erase_def FlatMap_erase_def)
  ultimately show ?thesis using t'(1) by (auto simp: fs_map_def)
qed

interpretation fs: bounded_map "fs_ok hash" fs_map "fs_ins hash" "fs_del hash" flat_cap
proof
  fix m :: "'a fset" and k and v :: unit
  assume ok: "fs_ok hash m"
  show "finite (dom (fs_map m))" using fr_dom_finite by (simp add: fs_dom)
  show "\<exists>m'. fs_del hash k m = Inr (fs_map m k \<noteq> None, m') \<and> fs_ok hash m' \<and> fs_map m' = (fs_map m)(k := None)"
    using fs_erase_ok [OF ok, of k] by (auto simp: fs_del_def)
  assume "card (dom (fs_map m)) < flat_cap"
  from fs_Insert_ok [OF ok this, of k]
  show "\<exists>m'. fs_ins hash k v m = Inr (fs_map m k = None, m') \<and> fs_ok hash m'
    \<and> fs_map m' = (if fs_map m k = None then (fs_map m)(k \<mapsto> v) else fs_map m)"
    by (fastforce simp: fs_ins_def)
qed

lemma fs_eq_loop:
  assumes ok: "fr_ok hash t" and x: "fr_ok hash x" and "p \<le> length (fr_array x)"
  shows "FlatSet_eq_loop hash t x (iter_at (skip (fr_array x) p))
    = Some (Inr (list_all (\<lambda>s. fr_map (fr_array t) (fst (the (snd s))) \<noteq> None) (rest (fr_array x) p)))"
  using assms(3)
proof (induction "length (fr_array x) - p" arbitrary: p rule: less_induct)
  case less
  let ?a = "fr_array x" and ?q = "skip (fr_array x) p"
  note len = fr_length [OF x]
  have find: "FlatSet_find hash k t = FlatMap_find hash k t" for k by (simp add: FlatSet_find_def FlatMap_find_def)
  show ?case
  proof (cases "?q = length ?a")
    case True
    then have "iter_at ?q = FlatMap_end x" using len by (simp add: end_at)
    then show ?thesis using rest_end [OF True] by (subst FlatSet_eq_loop.simps) simp
  next
    case False
    then have q: "?q < length ?a" using skip_le [OF less.prems] by simp
    have ne: "iter_at ?q \<noteq> FlatMap_end x" using q len by (simp add: end_at iter_at_inj)
    obtain k v where kv: "snd (?a ! ?q) = Some (k, v)" "holds_at ?a ?q (k, v)"
      using live_holds [OF x q skip_live [OF q]] by blast
    have p: "p \<le> ?q" by (simp add: skip_def)
    note ih = less.hyps [of "Suc ?q"]
    have nx: "iter_next x (iter_at ?q) = Inr (iter_at (skip ?a (Suc ?q)))" by (rule next_skip [OF len q])
    have rc: "rest ?a p = ?a ! ?q # rest ?a (Suc ?q)" by (rule rest_cons [OF q])
    show ?thesis
    proof (cases "fr_map (fr_array t) k")
      case None
      then show ?thesis using find_iter(1) [OF ok None] ne iter_val_holds [OF kv(2)] rc kv(1) find
        by (subst FlatSet_eq_loop.simps) simp
    next
      case (Some w)
      then obtain it where it: "FlatMap_find hash k t = Inr it" "it \<noteq> FlatMap_end t"
        using find_iter(2) [OF ok] by blast
      then show ?thesis using Some ne iter_val_holds [OF kv(2)] rc kv(1) ih nx find q p
        by (subst FlatSet_eq_loop.simps) simp
    qed
  qed
qed

lemma fs_eq_ok:
  assumes ok: "fs_ok hash t" and x: "fs_ok hash x"
  shows "FlatSet_eq hash t x = Inr (dom (fs_map t) = dom (fs_map x))"
proof -
  have fr: "fr_ok hash t" "fr_ok hash x" using ok x by (simp_all add: fs_ok_def)
  let ?f = "fr_map (fr_array t)" and ?g = "fr_map (fr_array x)"
  have "list_all (\<lambda>s. ?f (fst (the (snd s))) \<noteq> None) (rest (fr_array x) 0) \<longleftrightarrow> (\<forall>k \<in> set (slot_keys (fr_array x)). ?f k \<noteq> None)"
    by (simp add: list_all_iff rest_def slot_keys_def)
  also have "\<dots> \<longleftrightarrow> dom ?g \<subseteq> dom ?f" unfolding slot_keys_dom [OF fr_ok_D(1) [OF fr(2)]] by (auto simp: dom_def)
  finally have l: "list_all (\<lambda>s. ?f (fst (the (snd s))) \<noteq> None) (rest (fr_array x) 0) \<longleftrightarrow> dom ?g \<subseteq> dom ?f" .
  have "dom ?g \<subseteq> dom ?f \<longleftrightarrow> dom ?f = dom ?g" if "FlatRep_size t = FlatRep_size x"
    using card_subset_eq [OF fr_dom_finite [of "fr_array t"], of "dom ?g"] that live_card [OF fr(1)] live_card [OF fr(2)] by auto
  moreover have "dom ?f \<noteq> dom ?g" if "FlatRep_size t \<noteq> FlatRep_size x" using that live_card [OF fr(1)] live_card [OF fr(2)] by auto
  ultimately show ?thesis using fs_eq_loop [OF fr, of 0] l begin_skip [OF fr(2)]
    by (auto simp: FlatSet_eq_def lift_probe_def fs_dom)
qed

section \<open>Properties\<close>

lemma at_count_ok:
  assumes ok: "fm_ok hash t"
  shows "FlatMap_count hash k t = Inr (if fm_map t k = None then 0 else 1)"
    and "FlatMap_at hash k t = (case fm_map t k of None \<Rightarrow> Inl AssertFailed | Some v \<Rightarrow> Inr v)"
proof -
  have fr: "fr_ok hash t" using ok by (simp add: fm_ok_def)
  obtain r where r: "FlatRep_Find hash k t = Inr r" "case r of None \<Rightarrow> fr_map (fr_array t) k = None
     | Some i \<Rightarrow> \<exists>v. fr_map (fr_array t) k = Some v \<and> holds_at (fr_array t) i (k, v)"
    using Find_found [OF fr, of k] by blast
  show "FlatMap_count hash k t = Inr (if fm_map t k = None then 0 else 1)"
    using r fm_map_None [OF ok, of k] by (auto simp: FlatMap_count_def split: option.splits)
  show "FlatMap_at hash k t = (case fm_map t k of None \<Rightarrow> Inl AssertFailed | Some v \<Rightarrow> Inr v)"
  proof (cases "fm_map t k")
    case None
    then have "r = None" using r(2) fm_map_None [OF ok, of k] by (auto split: option.splits)
    then show ?thesis using None r(1) by (simp add: FlatMap_at_def)
  next
    case (Some v)
    then have "fr_map (fr_array t) k = Some (Some v)" using fm_map_Some [OF ok] by blast
    then obtain i where "r = Some i" "holds_at (fr_array t) i (k, Some v)" using r(2) by (auto split: option.splits)
    then show ?thesis using Some r(1) iter_val_holds [of t i] by (simp add: FlatMap_at_def slot_val_def)
  qed
qed

text \<open>
  C6. Probing ends.  In every well-formed table \<open>Find\<close> returns, with the slot of the key or with
  "not found" exactly when the key is absent, and \<open>FindOrInsert\<close>, once \<open>MaybeResize\<close> has made
  room, returns the slot of the key and keeps the table well formed and every other key.
\<close>

theorem FlatRep_probes_end:
  assumes "fr_ok hash t"
  shows "(\<exists>r. FlatRep_Find hash k t = Inr r \<and>
      (case r of None \<Rightarrow> fr_map (fr_array t) k = None
       | Some i \<Rightarrow> \<exists>v. fr_map (fr_array t) k = Some v \<and> holds_at (fr_array t) i (k, v)))
    \<and> (room t \<longrightarrow> (\<exists>i t' v. FlatRep_FindOrInsert hash k t = Inr ((fr_map (fr_array t) k \<noteq> None, i), t') \<and> fr_ok hash t'
      \<and> holds_at (fr_array t') i (k, v)
      \<and> fr_map (fr_array t') = (if fr_map (fr_array t) k = None then (fr_map (fr_array t))(k \<mapsto> None) else fr_map (fr_array t))))"
proof (intro conjI impI)
  show "\<exists>r. FlatRep_Find hash k t = Inr r \<and>
      (case r of None \<Rightarrow> fr_map (fr_array t) k = None
       | Some i \<Rightarrow> \<exists>v. fr_map (fr_array t) k = Some v \<and> holds_at (fr_array t) i (k, v))"
    by (rule Find_found [OF assms])
  assume room: "room t"
  show "\<exists>i t' v. FlatRep_FindOrInsert hash k t = Inr ((fr_map (fr_array t) k \<noteq> None, i), t') \<and> fr_ok hash t'
      \<and> holds_at (fr_array t') i (k, v)
      \<and> fr_map (fr_array t') = (if fr_map (fr_array t) k = None then (fr_map (fr_array t))(k \<mapsto> None) else fr_map (fr_array t))"
  proof (cases "fr_map (fr_array t) k")
    case None
    then show ?thesis using FindOrInsert_new [OF assms None room] by fastforce
  next
    case (Some v)
    then show ?thesis using FindOrInsert_found [OF assms Some] assms by fastforce
  qed
qed

definition spread :: "nat \<Rightarrow> nat" where
  "spread k = 256 * k"

theorem FlatRep_probes_end_witness:
  "\<exists>t :: (nat, nat) FlatRep. FlatRep_Init 1 = Inr t \<and> fr_ok spread t \<and> room t \<and> FlatRep_Find spread 3 t = Inr None
     \<and> (\<exists>i t' v. FlatRep_FindOrInsert spread 3 t = Inr ((False, i), t') \<and> holds_at (fr_array t') i (3, v))"
proof -
  obtain t :: "(nat, nat) FlatRep" where t: "FlatRep_Init 1 = Inr t" "fr_ok spread t" "fr_map (fr_array t) = Map.empty"
    "fr_not_empty t = 0" "fr_grow t = 4 * 2 ^ (fr_lglen t + 3) div 5"
    using Init_ok [of 1 spread] by auto
  have "0 < nbuckets t" by simp
  then have "5 \<le> 32 * nbuckets t" by linarith
  then have "(5 :: nat) \<le> 4 * 2 ^ (fr_lglen t + 3)" unfolding power_add by simp
  then have r: "room t" using t(4,5) by (simp add: room_def div_greater_zero_iff)
  note p = FlatRep_probes_end [OF t(2), of 3]
  have "FlatRep_Find spread 3 t = Inr None" using p t(3) by (auto split: option.splits)
  moreover have "\<exists>i t' v. FlatRep_FindOrInsert spread 3 t = Inr ((False, i), t') \<and> holds_at (fr_array t') i (3, v)"
    using p r t(3) by auto
  ultimately show ?thesis using t r by blast
qed

text \<open>
  C2. \<open>FlatMap\<close> refines a finite map of at most \<open>flat_cap\<close> keys: every sequence of \<open>insert\<close> and \<open>erase\<close>
  returns, with the answers of the abstract map; afterwards \<open>count\<close> and \<open>at\<close> read the abstract
  map, \<open>at\<close> fails its assertion on an absent key, and \<open>size\<close> is the number of keys.
\<close>

theorem FlatMap_refines_map:
  assumes "fm_ok hash t" and "card (dom (fm_map t)) + length ops \<le> flat_cap"
  shows "\<exists>t'. client_run (fm_ins hash) (fm_del hash) ops t = Inr (fst (client_spec ops (fm_map t)), t') \<and> fm_ok hash t'
    \<and> fm_map t' = snd (client_spec ops (fm_map t))
    \<and> (\<forall>k. FlatMap_count hash k t' = Inr (if fm_map t' k = None then 0 else 1)
         \<and> FlatMap_at hash k t' = (case fm_map t' k of None \<Rightarrow> Inl AssertFailed | Some v \<Rightarrow> Inr v))
    \<and> FlatRep_size t' = card (dom (fm_map t'))"
proof -
  obtain t' where t': "client_run (fm_ins hash) (fm_del hash) ops t = Inr (fst (client_spec ops (fm_map t)), t')"
    "fm_ok hash t'" "fm_map t' = snd (client_spec ops (fm_map t))"
    using fm.client [OF assms] by blast
  have "FlatRep_size t' = card (dom (fm_map t'))" using live_card [of hash t'] fm_dom [OF t'(2)] t'(2) by (simp add: fm_ok_def)
  then show ?thesis using t' at_count_ok [OF t'(2)] by blast
qed

theorem FlatMap_refines_map_witness:
  "\<exists>t t'. FlatMap_new 1 = Inr t
     \<and> client_run (fm_ins spread) (fm_del spread) [Put (3 :: nat) (30 :: nat), Put 11 40, Put 3 50, Remove 11, Remove 12] t
       = Inr ([True, True, False, True, False], t')
     \<and> FlatMap_at spread 3 t' = Inr 30 \<and> FlatMap_at spread 11 t' = Inl AssertFailed"
proof -
  let ?ops = "[Put (3 :: nat) (30 :: nat), Put 11 40, Put 3 50, Remove 11, Remove 12]"
  obtain t :: "(nat, nat) FlatRep" where t: "FlatMap_new 1 = Inr t" "fm_ok spread t" "fm_map t = Map.empty"
    using FlatMap_new_ok [of 1 spread] by auto
  have "card (dom (fm_map t)) + length ?ops \<le> flat_cap" using t(3) by (simp add: flat_cap_def)
  from FlatMap_refines_map [OF t(2) this] obtain t' where
    t': "client_run (fm_ins spread) (fm_del spread) ?ops t = Inr (fst (client_spec ?ops (fm_map t)), t')"
    "fm_map t' = snd (client_spec ?ops (fm_map t))"
    "\<forall>k. FlatMap_at spread k t' = (case fm_map t' k of None \<Rightarrow> Inl AssertFailed | Some v \<Rightarrow> Inr v)"
    by blast
  then show ?thesis using t(1,3) by auto
qed

text \<open>
  \<open>insert\<close> and \<open>operator[]\<close> with room for one more key: \<open>insert\<close> keeps the value of a present key and its
  iterator names the entry; \<open>operator[]\<close> adds the default value for an absent key and refers to the
  value the map now has for the key; both leave every other key as it was.
\<close>

theorem FlatMap_insert_index:
  assumes "fm_ok hash t" and "card (dom (fm_map t)) < flat_cap"
  shows "(\<exists>it t'. FlatMap_Insert hash k v t = Inr ((it, fm_map t k = None), t') \<and> fm_ok hash t'
      \<and> fm_map t' = (if fm_map t k = None then (fm_map t)(k \<mapsto> v) else fm_map t)
      \<and> FlatMap_find hash k t' = Inr it \<and> iter_val t' it = Inr (k, fm_map t' k))
    \<and> (\<exists>i t'. IndexOp hash dflt k t = Inr (i, t') \<and> fm_ok hash t'
      \<and> fm_map t' = (if fm_map t k = None then (fm_map t)(k \<mapsto> dflt) else fm_map t)
      \<and> slot_val i t' = Inr (case fm_map t k of None \<Rightarrow> dflt | Some u \<Rightarrow> u))"
proof
  obtain i t' where i: "FlatMap_Insert hash k v t = Inr ((iter_at i, fm_map t k = None), t')" "fm_ok hash t'"
    "fm_map t' = (if fm_map t k = None then (fm_map t)(k \<mapsto> v) else fm_map t)" "holds_at (fr_array t') i (k, fm_map t' k)"
    using Insert_ok [OF assms, of k v] by blast
  moreover have "FlatMap_find hash k t' = Inr (iter_at i)" using find_holds [OF _ i(4)] i(2) by (simp add: fm_ok_def)
  moreover have "iter_val t' (iter_at i) = Inr (k, fm_map t' k)" by (rule iter_val_holds [OF i(4)])
  ultimately show "\<exists>it t'. FlatMap_Insert hash k v t = Inr ((it, fm_map t k = None), t') \<and> fm_ok hash t'
      \<and> fm_map t' = (if fm_map t k = None then (fm_map t)(k \<mapsto> v) else fm_map t)
      \<and> FlatMap_find hash k t' = Inr it \<and> iter_val t' it = Inr (k, fm_map t' k)" by blast
  show "\<exists>i t'. IndexOp hash dflt k t = Inr (i, t') \<and> fm_ok hash t'
      \<and> fm_map t' = (if fm_map t k = None then (fm_map t)(k \<mapsto> dflt) else fm_map t)
      \<and> slot_val i t' = Inr (case fm_map t k of None \<Rightarrow> dflt | Some u \<Rightarrow> u)"
    using IndexOp_ok [OF assms, of dflt k] by (fastforce split: option.splits)
qed

theorem FlatMap_insert_index_witness:
  "\<exists>t t' i. FlatMap_new 1 = Inr t \<and> IndexOp spread (7 :: nat) (3 :: nat) t = Inr (i, t') \<and> slot_val i t' = Inr 7 \<and> fm_map t' 3 = Some 7"
proof -
  obtain t :: "(nat, nat) FlatRep" where t: "FlatMap_new 1 = Inr t" "fm_ok spread t" "fm_map t = Map.empty"
    using FlatMap_new_ok [of 1 spread] by auto
  have "card (dom (fm_map t)) < flat_cap" using t(3) by (simp add: flat_cap_def)
  from FlatMap_insert_index [OF t(2) this, of 3 _ 7] show ?thesis using t(1,3) by fastforce
qed

text \<open>
  \<open>operator==\<close> returns for all well-formed maps of the same hash function and decides
  equality of the maps; erasing from \<open>begin()\<close> to \<open>end()\<close> returns \<open>end()\<close> and leaves no key.
\<close>

theorem FlatMap_eq_and_erase_all:
  assumes "fm_ok hash t" and "fm_ok hash x"
  shows "FlatMap_eq hash t x = Inr (fm_map t = fm_map x)
    \<and> (\<exists>t'. FlatMap_erase_range (FlatMap_begin t) (FlatMap_end t) t = Some (Inr (FlatMap_end t, t'))
        \<and> fm_ok hash t' \<and> fm_map t' = Map.empty)"
proof
  have fr: "fr_ok hash t" "fr_ok hash x" using assms by (simp_all add: fm_ok_def)
  have "fr_map (fr_array t) = fr_map (fr_array x) \<longleftrightarrow> fm_map t = fm_map x"
    using fm_map_Some [OF assms(1)] fm_map_Some [OF assms(2)] fm_map_None [OF assms(1)] fm_map_None [OF assms(2)]
    by (auto simp: fun_eq_iff fm_map_def) (metis not_None_eq)
  then show "FlatMap_eq hash t x = Inr (fm_map t = fm_map x)" using eq_ok [OF fr] by simp
  have "(\<lambda>s. fst (the (snd s))) ` set (rest (fr_array t) 0) = dom (fr_map (fr_array t))"
    using slot_keys_dom [OF fr_ok_D(1) [OF fr(1)]] by (simp add: rest_def slot_keys_def)
  then obtain t' where t': "FlatMap_erase_range (FlatMap_begin t) (FlatMap_end t) t = Some (Inr (FlatMap_end t, t'))"
    "fr_ok hash t'" "fr_map (fr_array t') = Map.empty"
    using erase_range_ok [OF fr(1), of 0] begin_skip [OF fr(1)] by (auto simp: fun_eq_iff dom_def)
  then show "\<exists>t'. FlatMap_erase_range (FlatMap_begin t) (FlatMap_end t) t = Some (Inr (FlatMap_end t, t'))
        \<and> fm_ok hash t' \<and> fm_map t' = Map.empty"
    by (auto simp: fm_ok_def fm_map_fun)
qed

theorem FlatMap_eq_and_erase_all_witness:
  "\<exists>t x :: (nat, nat) FlatRep. FlatMap_new 1 = Inr t \<and> FlatMap_new 100 = Inr x \<and> FlatMap_eq spread t x = Inr True"
proof -
  obtain t x :: "(nat, nat) FlatRep" where t: "FlatMap_new 1 = Inr t" "fm_ok spread t" "fm_map t = Map.empty"
    and x: "FlatMap_new 100 = Inr x" "fm_ok spread x" "fm_map x = Map.empty"
    using FlatMap_new_ok [of 1 spread] FlatMap_new_ok [of 100 spread] by auto
  from FlatMap_eq_and_erase_all [OF t(2) x(2)] show ?thesis using t x by auto
qed

text \<open>
  Resizing keeps the map: \<open>reserve\<close> (and \<open>rehash\<close> and \<open>resize\<close>), the copy constructor, and
  \<open>MaybeResize\<close>, which also makes room for one key, all return and keep every entry; \<open>clear\<close> of a
  table without tombstones returns an empty map.
\<close>

theorem FlatMap_resizing_keeps_map:
  assumes ok: "fm_ok hash t"
  shows "(5 * N < 4 * 2 ^ 31 \<longrightarrow> (\<exists>t'. FlatMap_reserve hash N t = Inr t' \<and> fm_ok hash t' \<and> fm_map t' = fm_map t))
    \<and> (\<exists>t'. FlatRep_copy hash t = Inr t' \<and> fm_ok hash t' \<and> fm_map t' = fm_map t)
    \<and> (card (dom (fm_map t)) < flat_cap \<longrightarrow>
        (\<exists>t'. MaybeResize hash t = Inr t' \<and> fm_ok hash t' \<and> room t' \<and> fm_map t' = fm_map t))
    \<and> (fr_deleted t = 0 \<longrightarrow> (\<exists>t'. FlatRep_clear hash t = Inr t' \<and> fm_ok hash t' \<and> fm_map t' = Map.empty))"
proof (intro conjI impI)
  have fr: "fr_ok hash t" using ok by (simp add: fm_ok_def)
  note small = size_fits [OF fr]
  show "\<exists>t'. FlatMap_reserve hash N t = Inr t' \<and> fm_ok hash t' \<and> fm_map t' = fm_map t" if "5 * N < 4 * 2 ^ 31"
    by (rule resize_keeps [OF ok]) (use that small in \<open>simp add: max_def\<close>)
  show "\<exists>t'. FlatRep_copy hash t = Inr t' \<and> fm_ok hash t' \<and> fm_map t' = fm_map t"
    unfolding copy_Resize by (rule resize_keeps [OF ok]) (use small in simp)
  show "\<exists>t'. MaybeResize hash t = Inr t' \<and> fm_ok hash t' \<and> room t' \<and> fm_map t' = fm_map t"
    if "card (dom (fm_map t)) < flat_cap" using resize_step [OF ok that] by blast
  show "\<exists>t'. FlatRep_clear hash t = Inr t' \<and> fm_ok hash t' \<and> fm_map t' = Map.empty" if "fr_deleted t = 0"
    using clear_clean [OF fr that] by (auto simp: fm_ok_def fm_map_fun)
qed

theorem FlatMap_resizing_keeps_map_witness:
  "\<exists>t t' :: (nat, nat) FlatRep. FlatMap_new 1 = Inr t \<and> FlatMap_reserve spread 1000 t = Inr t' \<and> fm_map t' = Map.empty"
proof -
  obtain t :: "(nat, nat) FlatRep" where t: "FlatMap_new 1 = Inr t" "fm_ok spread t" "fm_map t = Map.empty"
    using FlatMap_new_ok [of 1 spread] by auto
  from FlatMap_resizing_keeps_map [OF t(2), of 1000] show ?thesis using t(1,3) by auto
qed

text \<open>
  \<open>FlatSet\<close> refines a finite set of at most \<open>flat_cap\<close> elements (the domain of a map to
  \<open>unit\<close>): every sequence of \<open>insert\<close> and \<open>erase\<close> returns with the answers of the abstract set,
  \<open>count\<close> is membership, and \<open>operator==\<close> decides set equality.
\<close>

theorem FlatSet_refines_set:
  assumes "fs_ok hash t" and "card (dom (fs_map t)) + length ops \<le> flat_cap"
  shows "\<exists>t'. client_run (fs_ins hash) (fs_del hash) ops t = Inr (fst (client_spec ops (fs_map t)), t') \<and> fs_ok hash t'
    \<and> fs_map t' = snd (client_spec ops (fs_map t))
    \<and> (\<forall>k. FlatSet_count hash k t' = Inr (if k \<in> dom (fs_map t') then 1 else 0))
    \<and> (\<forall>x. fs_ok hash x \<longrightarrow> FlatSet_eq hash t' x = Inr (dom (fs_map t') = dom (fs_map x)))
    \<and> FlatRep_size t' = card (dom (fs_map t'))"
proof -
  obtain t' where t': "client_run (fs_ins hash) (fs_del hash) ops t = Inr (fst (client_spec ops (fs_map t)), t')"
    "fs_ok hash t'" "fs_map t' = snd (client_spec ops (fs_map t))"
    using fs.client [OF assms] by blast
  have fr: "fr_ok hash t'" using t'(2) by (simp add: fs_ok_def)
  have "FlatSet_count hash k t' = Inr (if k \<in> dom (fs_map t') then 1 else 0)" for k
    using Find_found [OF fr, of k] by (auto simp: FlatSet_count_def fs_dom split: option.splits)
  moreover have "FlatRep_size t' = card (dom (fs_map t'))" using live_card [OF fr] by (simp add: fs_dom)
  ultimately show ?thesis using t' fs_eq_ok [OF t'(2)] by blast
qed

theorem FlatSet_refines_set_witness:
  "\<exists>t t'. FlatRep_Init 1 = Inr t
     \<and> client_run (fs_ins spread) (fs_del spread) [Put (3 :: nat) (), Put 11 (), Put 3 (), Remove 11] t = Inr ([True, True, False, True], t')
     \<and> FlatSet_count spread 3 t' = Inr 1"
proof -
  let ?ops = "[Put (3 :: nat) (), Put 11 (), Put 3 (), Remove 11]"
  obtain t :: "nat fset" where t: "FlatRep_Init 1 = Inr t" "fr_ok spread t" "fr_map (fr_array t) = Map.empty"
    using Init_ok [of 1 spread] by auto
  have m: "fs_ok spread t" "fs_map t = Map.empty" using t by (simp add: fs_ok_def, simp add: fs_map_def fun_eq_iff)
  have "card (dom (fs_map t)) + length ?ops \<le> flat_cap" using m(2) by (simp add: flat_cap_def)
  from FlatSet_refines_set [OF m(1) this] obtain t' where
    t': "client_run (fs_ins spread) (fs_del spread) ?ops t = Inr (fst (client_spec ?ops (fs_map t)), t')"
    "fs_map t' = snd (client_spec ?ops (fs_map t))"
    "\<forall>k. FlatSet_count spread k t' = Inr (if k \<in> dom (fs_map t') then 1 else 0)" by blast
  then show ?thesis using t(1) m(2) by auto
qed

text \<open>A run of the class: five keys go in and out, \<open>clear()\<close>, then three keys go in.\<close>

primrec erase_all :: "('k \<Rightarrow> nat) \<Rightarrow> 'k list \<Rightarrow> ('k, 'v) FlatRep \<Rightarrow> ('k, 'v) FlatRep result" where
  "erase_all hash [] t = Inr t"
| "erase_all hash (k # ks) t = ub_bind (FlatMap_erase hash k t) (\<lambda>(_, t). erase_all hash ks t)"

definition clear_scenario :: "(nat, nat) FlatRep result" where
  "clear_scenario =
     ub_bind (FlatMap_from_range spread [(0, 10), (1, 11), (2, 12), (3, 13), (4, 14)] 1) (\<lambda>t.
     ub_bind (erase_all spread [0, 1, 2, 3, 4] t) (\<lambda>t.
     ub_bind (FlatRep_clear spread t) (FlatMap_insert_range spread [(5, 15), (6, 16), (7, 17)])))"

lemma case_sum_Inr_iff: "(case r of Inl _ \<Rightarrow> False | Inr t \<Rightarrow> P t) \<longleftrightarrow> (\<exists>t. r = Inr t \<and> P t)"
  by (cases r) auto

lemma clear_scenario_table:
  "case clear_scenario of Inl _ \<Rightarrow> False
   | Inr t \<Rightarrow> fr_mask t = 7 \<and> FlatRep_size t = 3 \<and> length (fr_array t) = 8
       \<and> list_all (\<lambda>s. fst s \<noteq> kEmpty \<and> (fst s = 2 \<longrightarrow> snd s \<noteq> None \<and> fst (the (snd s)) \<noteq> 8)) (fr_array t)"
  by code_simp

text \<open>
  \<open>clear()\<close> leaves the tombstones of erased keys in the table while it zeroes their counters, so
  the table no longer knows how full it is: after five keys are inserted and erased, \<open>clear()\<close>
  and three more insertions fill the last empty slots without a resize, the table of eight
  slots reports three entries, and a lookup of an absent key never returns.
\<close>

theorem FlatRep_clear_leaves_tombstones:
  "\<exists>t. clear_scenario = Inr t \<and> FlatRep_size t = 3 \<and> FlatMap_count spread 8 t = Inl Diverges"
proof -
  obtain t where t: "clear_scenario = Inr t" "fr_mask t = 7" "FlatRep_size t = 3" "length (fr_array t) = 8"
    "list_all (\<lambda>s. fst s \<noteq> kEmpty \<and> (fst s = 2 \<longrightarrow> snd s \<noteq> None \<and> fst (the (snd s)) \<noteq> 8)) (fr_array t)"
    using clear_scenario_table unfolding case_sum_Inr_iff by blast
  have m: "Marker (spread 8 AND 255) = 2" by code_simp
  have "full_without 3 (fr_array t) 8 2" unfolding full_without_def using t(4,5) by (simp add: list_all_iff)
  then have "FlatRep_Find spread 8 t = Inl Diverges" by (intro Find_full [of 3]) (simp_all add: m t(2))
  then have "FlatMap_count spread 8 t = Inl Diverges" by (simp add: FlatMap_count_def)
  then show ?thesis using t(1,3) by blast
qed

end
