(* ===== verification/Coding_Util.thy ===== *)
theory Coding_Util
  imports Prelude
begin

unbundle bit_operations_syntax

text \<open>
  \<open>coding_util.cc\<close> and \<open>coding_util.h\<close>: fixed-width and variable-length encodings of integers, and
  length-prefixed strings.  A \<open>string\<close> and a \<open>StringPiece\<close> are the list of their bytes; a routine that
  writes at a pointer and returns the advanced pointer gives the bytes it writes.  The
  parameter \<open>le\<close> is \<open>port::kLittleEndian\<close>, the byte order of the host: copying an object with
  \<open>memcpy\<close> gives its bytes in that order.  The local buffers of the \<open>Put\<close> routines have their
  sizes checked.
\<close>

section \<open>Objects in memory\<close>

type_synonym octet = "8 word"

primrec le_bytes :: "nat \<Rightarrow> 'a :: len word \<Rightarrow> octet list" where
  "le_bytes 0 w = []"
| "le_bytes (Suc n) w = ucast w # le_bytes n (drop_bit 8 w)"

primrec from_le :: "octet list \<Rightarrow> 'a :: len word" where
  "from_le [] = 0"
| "from_le (b # bs) = ucast b OR push_bit 8 (from_le bs)"

text \<open>\<open>memcpy\<close> from and to an integer of \<open>n\<close> bytes.\<close>

definition raw :: "bool \<Rightarrow> nat \<Rightarrow> 'a :: len word \<Rightarrow> octet list" where
  "raw le n w = (if le then le_bytes n w else rev (le_bytes n w))"

definition unraw :: "bool \<Rightarrow> octet list \<Rightarrow> 'a :: len word" where
  "unraw le bs = from_le (if le then bs else rev bs)"

definition load :: "nat \<Rightarrow> octet list \<Rightarrow> octet list result" where
  "load n ptr = (if n \<le> length ptr then Inr (take n ptr) else Inl OutOfBounds)"

section \<open>Fixed-width integers\<close>

definition EncodeFixed16 :: "bool \<Rightarrow> 16 word \<Rightarrow> octet list" where
  "EncodeFixed16 le v = (if le then raw le 2 v else [ucast (v AND 0xff), ucast (drop_bit 8 v AND 0xff)])"

definition EncodeFixed32 :: "bool \<Rightarrow> 32 word \<Rightarrow> octet list" where
  "EncodeFixed32 le v =
     (if le then raw le 4 v
      else [ucast (v AND 0xff), ucast (drop_bit 8 v AND 0xff), ucast (drop_bit 16 v AND 0xff), ucast (drop_bit 24 v AND 0xff)])"

definition EncodeFixed64 :: "bool \<Rightarrow> 64 word \<Rightarrow> octet list" where
  "EncodeFixed64 le v =
     (if le then raw le 8 v
      else [ucast (v AND 0xff), ucast (drop_bit 8 v AND 0xff), ucast (drop_bit 16 v AND 0xff), ucast (drop_bit 24 v AND 0xff),
            ucast (drop_bit 32 v AND 0xff), ucast (drop_bit 40 v AND 0xff), ucast (drop_bit 48 v AND 0xff), ucast (drop_bit 56 v AND 0xff)])"

definition DecodeFixed16 :: "bool \<Rightarrow> octet list \<Rightarrow> 16 word result" where
  "DecodeFixed16 le ptr =
     ub_bind (load 2 ptr) (\<lambda>p.
     Inr (if le then unraw le p else ucast (p ! 0) OR push_bit 8 (ucast (p ! 1))))"

definition DecodeFixed32 :: "bool \<Rightarrow> octet list \<Rightarrow> 32 word result" where
  "DecodeFixed32 le ptr =
     ub_bind (load 4 ptr) (\<lambda>p.
     Inr (if le then unraw le p
          else ucast (p ! 0) OR push_bit 8 (ucast (p ! 1)) OR push_bit 16 (ucast (p ! 2)) OR push_bit 24 (ucast (p ! 3))))"

definition DecodeFixed64 :: "bool \<Rightarrow> octet list \<Rightarrow> 64 word result" where
  "DecodeFixed64 le ptr =
     (if le then ub_bind (load 8 ptr) (\<lambda>p. Inr (unraw le p))
      else ub_bind (DecodeFixed32 le ptr) (\<lambda>lo.
           ub_bind (DecodeFixed32 le (drop 4 ptr)) (\<lambda>hi.
           Inr (push_bit 32 (ucast hi) OR ucast lo))))"

definition EncodeBigEndian64 :: "64 word \<Rightarrow> octet list" where
  "EncodeBigEndian64 v =
     [ucast (drop_bit 56 v AND 0xff), ucast (drop_bit 48 v AND 0xff), ucast (drop_bit 40 v AND 0xff), ucast (drop_bit 32 v AND 0xff),
      ucast (drop_bit 24 v AND 0xff), ucast (drop_bit 16 v AND 0xff), ucast (drop_bit 8 v AND 0xff), ucast (v AND 0xff)]"

definition EncodeBigEndian32 :: "32 word \<Rightarrow> octet list" where
  "EncodeBigEndian32 v =
     [ucast (drop_bit 24 v AND 0xff), ucast (drop_bit 16 v AND 0xff), ucast (drop_bit 8 v AND 0xff), ucast (v AND 0xff)]"

definition DecodeBigEndian64 :: "octet list \<Rightarrow> 64 word result" where
  "DecodeBigEndian64 buf =
     ub_bind (load 8 buf) (\<lambda>b.
     Inr (push_bit 56 (ucast (b ! 0)) OR push_bit 48 (ucast (b ! 1)) OR push_bit 40 (ucast (b ! 2)) OR push_bit 32 (ucast (b ! 3))
          OR push_bit 24 (ucast (b ! 4)) OR push_bit 16 (ucast (b ! 5)) OR push_bit 8 (ucast (b ! 6)) OR ucast (b ! 7)))"

definition DecodeBigEndian32 :: "octet list \<Rightarrow> 32 word result" where
  "DecodeBigEndian32 buf =
     ub_bind (load 4 buf) (\<lambda>b.
     Inr (ucast (push_bit 24 (ucast (b ! 0) :: 64 word) OR push_bit 16 (ucast (b ! 1)) OR push_bit 8 (ucast (b ! 2)) OR ucast (b ! 3))))"

section \<open>Varints\<close>

text \<open>\<open>EncodeVarint32\<close> is unrolled in the source; stores to \<open>unsigned char\<close> keep the low eight bits.\<close>

definition EncodeVarint32 :: "32 word \<Rightarrow> octet list" where
  "EncodeVarint32 v =
     (if v < push_bit 7 1 then [ucast v]
      else if v < push_bit 14 1 then [ucast (v OR 128), ucast (drop_bit 7 v)]
      else if v < push_bit 21 1 then [ucast (v OR 128), ucast (drop_bit 7 v OR 128), ucast (drop_bit 14 v)]
      else if v < push_bit 28 1 then
        [ucast (v OR 128), ucast (drop_bit 7 v OR 128), ucast (drop_bit 14 v OR 128), ucast (drop_bit 21 v)]
      else [ucast (v OR 128), ucast (drop_bit 7 v OR 128), ucast (drop_bit 14 v OR 128), ucast (drop_bit 21 v OR 128),
            ucast (drop_bit 28 v)])"

lemma drop_bit_less:
  fixes v :: "'a :: len word"
  assumes "0 < k" and "v \<noteq> 0"
  shows "unat (drop_bit k v) < unat v"
proof -
  have "1 < (2 :: nat) ^ k" by (rule one_less_power) (use assms(1) in simp_all)
  then have "unat v div 2 ^ k < unat v" using assms(2) by (intro div_less_dividend) (auto simp: unat_gt_0)
  then show ?thesis by (metis unat_drop_bit_eq drop_bit_eq_div)
qed

function EncodeVarint64 :: "64 word \<Rightarrow> octet list" where
  "EncodeVarint64 v = (if v \<ge> 128 then ucast ((v AND (128 - 1)) OR 128) # EncodeVarint64 (drop_bit 7 v) else [ucast v])"
  by pat_completeness auto
termination
  by (relation "measure unat") (auto intro!: drop_bit_less)

function VarintLength_loop :: "64 word \<Rightarrow> nat \<Rightarrow> nat" where
  "VarintLength_loop v len = (if v \<ge> 128 then VarintLength_loop (drop_bit 7 v) (len + 1) else len)"
  by pat_completeness auto
termination
  by (relation "measure (\<lambda>(v, len). unat v)") (auto intro!: drop_bit_less)

definition VarintLength :: "64 word \<Rightarrow> nat" where
  "VarintLength v = VarintLength_loop v 1"

text \<open>
  The loop of \<open>GetVarint32PtrFallback\<close> (with \<open>mx = 28\<close>) and of \<open>GetVarint64Ptr\<close> (with \<open>mx = 63\<close>), which differ
  in the integer type and the last shift.  The result is the value and the number of
  bytes read, \<open>None\<close> for \<open>nullptr\<close>.
\<close>

fun Varint_loop :: "nat \<Rightarrow> nat \<Rightarrow> 'a :: len word \<Rightarrow> octet list \<Rightarrow> nat \<Rightarrow> ('a word \<times> nat) option" where
  "Varint_loop mx shift result [] n = None"
| "Varint_loop mx shift result (p # ps) n =
     (if shift \<le> mx then
        (let byte = ucast p in
         if byte AND 128 \<noteq> 0 then Varint_loop mx (shift + 7) (result OR push_bit shift (byte AND 127)) ps (n + 1)
         else Some (result OR push_bit shift byte, n + 1))
      else None)"

definition GetVarint32PtrFallback :: "octet list \<Rightarrow> (32 word \<times> nat) option" where
  "GetVarint32PtrFallback p = Varint_loop 28 0 0 p 0"

definition GetVarint32Ptr :: "octet list \<Rightarrow> (32 word \<times> nat) option" where
  "GetVarint32Ptr p =
     (if p \<noteq> [] \<and> (ucast (p ! 0) :: 32 word) AND 128 = 0 then Some (ucast (p ! 0), 1) else GetVarint32PtrFallback p)"

definition GetVarint64Ptr :: "octet list \<Rightarrow> (64 word \<times> nat) option" where
  "GetVarint64Ptr p = Varint_loop 63 0 0 p 0"

section \<open>Appending to a string\<close>

definition append_buf :: "nat \<Rightarrow> octet list \<Rightarrow> octet list \<Rightarrow> octet list result" where
  "append_buf sz bs dst = (if length bs \<le> sz then Inr (dst @ bs) else Inl OutOfBounds)"

definition PutFixed16 :: "bool \<Rightarrow> 16 word \<Rightarrow> octet list \<Rightarrow> octet list result" where
  "PutFixed16 le v dst = append_buf 2 (EncodeFixed16 le v) dst"

definition PutFixed32 :: "bool \<Rightarrow> 32 word \<Rightarrow> octet list \<Rightarrow> octet list result" where
  "PutFixed32 le v dst = append_buf 4 (EncodeFixed32 le v) dst"

definition PutFixed64 :: "bool \<Rightarrow> 64 word \<Rightarrow> octet list \<Rightarrow> octet list result" where
  "PutFixed64 le v dst = append_buf 8 (EncodeFixed64 le v) dst"

definition PutFixLength64PrefixedString :: "bool \<Rightarrow> octet list \<Rightarrow> octet list \<Rightarrow> octet list result" where
  "PutFixLength64PrefixedString le s dst = ub_bind (PutFixed64 le (of_nat (length s)) dst) (\<lambda>dst. Inr (dst @ s))"

definition PutFixLength64PrefixedStringPiece :: "bool \<Rightarrow> octet list \<Rightarrow> octet list \<Rightarrow> octet list result" where
  "PutFixLength64PrefixedStringPiece le s dst = ub_bind (PutFixed64 le (of_nat (length s)) dst) (\<lambda>dst. Inr (dst @ s))"

definition PutVarint32 :: "32 word \<Rightarrow> octet list \<Rightarrow> octet list result" where
  "PutVarint32 v dst = append_buf 5 (EncodeVarint32 v) dst"

definition PutVarint64 :: "64 word \<Rightarrow> octet list \<Rightarrow> octet list result" where
  "PutVarint64 v dst = append_buf 10 (EncodeVarint64 v) dst"

definition PutVarint32Varint32 :: "32 word \<Rightarrow> 32 word \<Rightarrow> octet list \<Rightarrow> octet list result" where
  "PutVarint32Varint32 v1 v2 dst = append_buf 10 (EncodeVarint32 v1 @ EncodeVarint32 v2) dst"

definition PutVarint32Varint32Varint32 :: "32 word \<Rightarrow> 32 word \<Rightarrow> 32 word \<Rightarrow> octet list \<Rightarrow> octet list result" where
  "PutVarint32Varint32Varint32 v1 v2 v3 dst = append_buf 15 (EncodeVarint32 v1 @ EncodeVarint32 v2 @ EncodeVarint32 v3) dst"

definition PutVarint64Varint64 :: "64 word \<Rightarrow> 64 word \<Rightarrow> octet list \<Rightarrow> octet list result" where
  "PutVarint64Varint64 v1 v2 dst = append_buf 20 (EncodeVarint64 v1 @ EncodeVarint64 v2) dst"

definition PutVarint32Varint64 :: "32 word \<Rightarrow> 64 word \<Rightarrow> octet list \<Rightarrow> octet list result" where
  "PutVarint32Varint64 v1 v2 dst = append_buf 15 (EncodeVarint32 v1 @ EncodeVarint64 v2) dst"

definition PutVarint32Varint32Varint64 :: "32 word \<Rightarrow> 32 word \<Rightarrow> 64 word \<Rightarrow> octet list \<Rightarrow> octet list result" where
  "PutVarint32Varint32Varint64 v1 v2 v3 dst = append_buf 20 (EncodeVarint32 v1 @ EncodeVarint32 v2 @ EncodeVarint64 v3) dst"

text \<open>The length becomes a \<open>uint32_t\<close> or a \<open>uint64_t\<close> parameter.\<close>

definition PutVarLength32PrefixedString :: "octet list \<Rightarrow> octet list \<Rightarrow> octet list result" where
  "PutVarLength32PrefixedString s dst = ub_bind (PutVarint32 (of_nat (length s)) dst) (\<lambda>dst. Inr (dst @ s))"

definition PutVarLength64PrefixedString :: "octet list \<Rightarrow> octet list \<Rightarrow> octet list result" where
  "PutVarLength64PrefixedString s dst = ub_bind (PutVarint64 (of_nat (length s)) dst) (\<lambda>dst. Inr (dst @ s))"

definition PutVarLength32PrefixedStringPiece :: "octet list \<Rightarrow> octet list \<Rightarrow> octet list result" where
  "PutVarLength32PrefixedStringPiece s dst = ub_bind (PutVarint32 (of_nat (length s)) dst) (\<lambda>dst. Inr (dst @ s))"

definition PutVarLength64PrefixedStringPiece :: "octet list \<Rightarrow> octet list \<Rightarrow> octet list result" where
  "PutVarLength64PrefixedStringPiece s dst = ub_bind (PutVarint64 (of_nat (length s)) dst) (\<lambda>dst. Inr (dst @ s))"

section \<open>Taking from the front\<close>

text \<open>
  A \<open>Get\<close> routine gives its \<open>bool\<close> result, the value it stores and the rest of the input.
  \<open>GetFixed32(string *)\<close> and \<open>GetFixed64(string *)\<close> do not look at the size; a \<open>string\<close> has one more byte,
  zero, that may be read past its end.
\<close>

definition GetFixed32_string :: "bool \<Rightarrow> octet list \<Rightarrow> (32 word \<times> octet list) result" where
  "GetFixed32_string le s = ub_bind (DecodeFixed32 le (s @ [0])) (\<lambda>v. Inr (v, drop 4 s))"

definition GetFixed64_string :: "bool \<Rightarrow> octet list \<Rightarrow> (64 word \<times> octet list) result" where
  "GetFixed64_string le s = ub_bind (DecodeFixed64 le (s @ [0])) (\<lambda>v. Inr (v, drop 8 s))"

definition GetFixed32 :: "bool \<Rightarrow> 32 word \<Rightarrow> octet list \<Rightarrow> (bool \<times> 32 word \<times> octet list) result" where
  "GetFixed32 le old input =
     (if length input < 4 then Inr (False, old, input)
      else ub_bind (DecodeFixed32 le input) (\<lambda>v. Inr (True, v, drop 4 input)))"

definition GetFixed64 :: "bool \<Rightarrow> 64 word \<Rightarrow> octet list \<Rightarrow> (bool \<times> 64 word \<times> octet list) result" where
  "GetFixed64 le old input =
     (if length input < 8 then Inr (False, old, input)
      else ub_bind (DecodeFixed64 le input) (\<lambda>v. Inr (True, v, drop 8 input)))"

text \<open>The tail of the prefixed readers: \<open>input->size() >= len\<close>, then the piece of that length.\<close>

definition take_piece :: "nat \<Rightarrow> octet list \<Rightarrow> octet list option \<times> octet list" where
  "take_piece len input = (if length input \<ge> len then (Some (take len input), drop len input) else (None, input))"

definition GetFixLength64PrefixedStringPiece :: "bool \<Rightarrow> octet list \<Rightarrow> (octet list option \<times> octet list) result" where
  "GetFixLength64PrefixedStringPiece le input =
     ub_bind (GetFixed64 le 0 input) (\<lambda>(_, len, input). Inr (take_piece (unat len) input))"

definition GetFixLength64PrefixedString :: "bool \<Rightarrow> octet list \<Rightarrow> (octet list option \<times> octet list) result" where
  "GetFixLength64PrefixedString le input =
     ub_bind (GetFixed64_string le input) (\<lambda>(len, input). Inr (take_piece (unat len) input))"

definition GetVarint32 :: "octet list \<Rightarrow> (32 word option \<times> octet list)" where
  "GetVarint32 input = (case GetVarint32Ptr input of None \<Rightarrow> (None, input) | Some (v, q) \<Rightarrow> (Some v, drop q input))"

definition GetVarint64 :: "octet list \<Rightarrow> (64 word option \<times> octet list)" where
  "GetVarint64 input = (case GetVarint64Ptr input of None \<Rightarrow> (None, input) | Some (v, q) \<Rightarrow> (Some v, drop q input))"

text \<open>The overloads on \<open>string\<close> erase the bytes they read.\<close>

definition GetVarint32_string :: "octet list \<Rightarrow> (32 word option \<times> octet list)" where
  "GetVarint32_string input = (case GetVarint32Ptr input of None \<Rightarrow> (None, input) | Some (v, q) \<Rightarrow> (Some v, drop q input))"

definition GetVarint64_string :: "octet list \<Rightarrow> (64 word option \<times> octet list)" where
  "GetVarint64_string input = (case GetVarint64Ptr input of None \<Rightarrow> (None, input) | Some (v, q) \<Rightarrow> (Some v, drop q input))"

definition GetVarLength32PrefixedStringPiece :: "octet list \<Rightarrow> octet list option \<times> octet list" where
  "GetVarLength32PrefixedStringPiece input =
     (case GetVarint32 input of (None, input) \<Rightarrow> (None, input) | (Some len, input) \<Rightarrow> take_piece (unat len) input)"

definition GetVarLength64PrefixedStringPiece :: "octet list \<Rightarrow> octet list option \<times> octet list" where
  "GetVarLength64PrefixedStringPiece input =
     (case GetVarint64 input of (None, input) \<Rightarrow> (None, input) | (Some len, input) \<Rightarrow> take_piece (unat len) input)"

definition GetVarLength32PrefixedString :: "octet list \<Rightarrow> octet list option \<times> octet list" where
  "GetVarLength32PrefixedString input =
     (case GetVarint32_string input of (None, input) \<Rightarrow> (None, input) | (Some len, input) \<Rightarrow> take_piece (unat len) input)"

definition GetVarLength64PrefixedString :: "octet list \<Rightarrow> octet list option \<times> octet list" where
  "GetVarLength64PrefixedString input =
     (case GetVarint64_string input of (None, input) \<Rightarrow> (None, input) | (Some len, input) \<Rightarrow> take_piece (unat len) input)"

text \<open>The loop counter \<open>len\<close> is a \<open>uint32_t\<close>; slices of \<open>2^32\<close> bytes and more are not considered.\<close>

primrec until_loop :: "octet \<Rightarrow> octet list \<Rightarrow> nat \<Rightarrow> nat" where
  "until_loop delimiter [] len = len"
| "until_loop delimiter (c # cs) len = (if c \<noteq> delimiter then until_loop delimiter cs (len + 1) else len)"

definition GetStringPieceUntil :: "octet \<Rightarrow> octet list \<Rightarrow> octet list \<times> octet list" where
  "GetStringPieceUntil delimiter sl =
     (let len = until_loop delimiter sl 0
      in (take len sl, drop (len + (if len < length sl then 1 else 0)) sl))"

primrec EndianTransform_loop :: "nat \<Rightarrow> octet list \<Rightarrow> nat \<Rightarrow> 64 word \<Rightarrow> 64 word" where
  "EndianTransform_loop 0 pos sz ret_val = ret_val"
| "EndianTransform_loop (Suc k) pos sz ret_val =
     EndianTransform_loop k pos sz (ret_val OR push_bit ((sz - (sz - Suc k) - 1) * 8) (ucast (pos ! (sz - Suc k))))"

definition EndianTransform :: "bool \<Rightarrow> 64 word \<Rightarrow> nat \<Rightarrow> 64 word result" where
  "EndianTransform le input sz =
     (if sz \<le> 8 then Inr (EndianTransform_loop sz (raw le 8 input) sz 0) else Inl OutOfBounds)"

declare EncodeVarint64.simps [simp del] VarintLength_loop.simps [simp del]

section \<open>Bits and bytes\<close>

lemma length_le_bytes [simp]: "length (le_bytes n w) = n"
  by (induction n arbitrary: w) auto

lemma from_le_bytes: "from_le (le_bytes n w) = take_bit (8 * n) (w :: 'a :: len word)"
proof (induction n arbitrary: w)
  case (Suc n)
  have "ucast (ucast w :: octet) OR push_bit 8 (take_bit (8 * n) (drop_bit 8 w)) = take_bit (8 * Suc n) w"
    by (rule bit_word_eqI) (auto simp: bit_simps)
  then show ?case using Suc by simp
qed simp

lemma raw_roundtrip: "unraw le (raw le n w) = take_bit (8 * n) (w :: 'a :: len word)"
  by (simp add: raw_def unraw_def from_le_bytes)

lemma length_raw [simp]: "length (raw le n w) = n"
  by (simp add: raw_def)

lemma and_ff: "w AND 0xff = take_bit 8 w" for w :: "'a :: len word"
  by (simp add: take_bit_eq_mask mask_eq_exp_minus_1)

lemma ucast_take_8: "ucast (take_bit 8 w) = (ucast w :: octet)" for w :: "'a :: len word"
  by (rule bit_word_eqI) (auto simp: bit_simps dest: bit_imp_le_length)

lemma le_bytes_num: "le_bytes (numeral k) w = ucast w # le_bytes (pred_numeral k) (drop_bit 8 w)"
  by (simp add: numeral_eq_Suc)

lemmas byte_simps = and_ff ucast_take_8 le_bytes_num drop_bit_drop_bit

lemma EncodeFixed_eq:
  "EncodeFixed16 le v = le_bytes 2 v" "EncodeFixed32 le w = le_bytes 4 w" "EncodeFixed64 le x = le_bytes 8 x"
  by (simp_all add: EncodeFixed16_def EncodeFixed32_def EncodeFixed64_def raw_def byte_simps)

lemma EncodeBigEndian_eq: "EncodeBigEndian32 w = rev (le_bytes 4 w)" "EncodeBigEndian64 x = rev (le_bytes 8 x)"
  by (simp_all add: EncodeBigEndian32_def EncodeBigEndian64_def byte_simps)

text \<open>The decoders read the little-endian bytes back, whatever the order of the host.\<close>

lemma load_append: "length bs = n \<Longrightarrow> load n (bs @ rest) = Inr bs"
  by (simp add: load_def)

lemma take_bit_full: "LENGTH('a) \<le> n \<Longrightarrow> take_bit n w = (w :: 'a :: len word)"
  by (rule bit_word_eqI) (auto simp: bit_simps)

lemma from_le_le: "8 * n = LENGTH('a) \<Longrightarrow> from_le (le_bytes n w) = (w :: 'a :: len word)"
  by (simp add: from_le_bytes take_bit_full)

lemmas join_simps = push_bit_or push_bit_push_bit or.assoc or.commute or.left_commute

lemma nth_drop_bytes: "i < n \<Longrightarrow> le_bytes n w ! i = ucast (drop_bit (8 * i) w)"
proof (induction n arbitrary: i w)
  case (Suc n)
  then show ?case by (cases i) (simp_all add: drop_bit_drop_bit add.commute)
qed simp

lemma DecodeFixed16_bytes: "DecodeFixed16 le (le_bytes 2 v @ rest) = Inr v"
  using from_le_le [of 2 v]
  by (simp add: DecodeFixed16_def load_append unraw_def nth_drop_bytes) (simp add: byte_simps join_simps)

lemma DecodeFixed32_bytes: "DecodeFixed32 le (le_bytes 4 v @ rest) = Inr v"
  using from_le_le [of 4 v]
  by (simp add: DecodeFixed32_def load_append unraw_def nth_drop_bytes) (simp add: byte_simps join_simps)

lemma DecodeFixed64_bytes: "DecodeFixed64 le (le_bytes 8 v @ rest) = Inr v"
proof (cases le)
  case True
  then show ?thesis using from_le_le [of 8 v] by (simp add: DecodeFixed64_def load_append unraw_def)
next
  case False
  have split: "le_bytes 8 v = le_bytes 4 (ucast v :: 32 word) @ le_bytes 4 (ucast (drop_bit 32 v) :: 32 word)"
    by (simp add: byte_simps, intro conjI; rule bit_word_eqI) (auto simp: bit_simps)
  have "push_bit 32 (ucast (ucast (drop_bit 32 v) :: 32 word)) OR ucast (ucast v :: 32 word) = v"
    by (rule bit_word_eqI) (auto simp: bit_simps)
  then show ?thesis using False unfolding DecodeFixed64_def split by (simp add: DecodeFixed32_bytes)
qed

text \<open>Every string of the right length is the encoding of a word.\<close>

lemma le_bytes_surj:
  assumes "8 * n = LENGTH('a :: len)" and "length bs = n"
  obtains w :: "'a :: len word" where "bs = le_bytes n w"
proof -
  let ?L = "{xs :: octet list. length xs = n}"
  have inj: "inj (le_bytes n :: 'a word \<Rightarrow> octet list)" using from_le_le [OF assms(1)] by (intro injI) metis
  have fin: "finite ?L" using finite_lists_length_eq [of "UNIV :: octet set" n] by simp
  have "card ?L = 2 ^ (8 * n)" using card_lists_length_eq [of "UNIV :: octet set" n] by (simp add: card_word power_mult)
  moreover have "card (range (le_bytes n :: 'a word \<Rightarrow> octet list)) = 2 ^ (8 * n)"
    using card_image [OF inj] assms(1) by (simp add: card_word)
  ultimately have "range (le_bytes n :: 'a word \<Rightarrow> octet list) = ?L" using fin by (intro card_subset_eq) auto
  then show ?thesis using assms(2) that by blast
qed

text \<open>The decoders give the little-endian value of the bytes, whatever the byte order of the host.\<close>

lemma DecodeFixed32_from_le: "4 \<le> length p \<Longrightarrow> DecodeFixed32 le p = Inr (from_le (take 4 p))"
proof -
  assume "4 \<le> length p"
  then obtain w :: "32 word" where w: "take 4 p = le_bytes 4 w" using le_bytes_surj [of 4 "take 4 p", where ?'a = 32] by auto
  have "DecodeFixed32 le (take 4 p @ drop 4 p) = Inr w" using DecodeFixed32_bytes [of le w] by (simp only: w)
  then have "DecodeFixed32 le p = Inr w" by (simp only: append_take_drop_id)
  then show ?thesis using from_le_le [of 4 w] by (simp add: w)
qed

lemma DecodeFixed64_from_le: "8 \<le> length p \<Longrightarrow> DecodeFixed64 le p = Inr (from_le (take 8 p))"
proof -
  assume "8 \<le> length p"
  then obtain w :: "64 word" where w: "take 8 p = le_bytes 8 w" using le_bytes_surj [of 8 "take 8 p", where ?'a = 64] by auto
  have "DecodeFixed64 le (take 8 p @ drop 8 p) = Inr w" using DecodeFixed64_bytes [of le w] by (simp only: w)
  then have "DecodeFixed64 le p = Inr w" by (simp only: append_take_drop_id)
  then show ?thesis using from_le_le [of 8 w] by (simp add: w)
qed

lemma DecodeBigEndian_bytes:
  "DecodeBigEndian32 (EncodeBigEndian32 w @ rest) = Inr w" "DecodeBigEndian64 (EncodeBigEndian64 x @ rest) = Inr x"
proof -
  have nrw: "(ucast (push_bit n (ucast b :: 64 word)) :: 32 word) = push_bit n (ucast b)" "(ucast (ucast b :: 64 word) :: 32 word) = ucast b"
    for n and b :: octet by (rule bit_word_eqI, auto simp: bit_simps)+
  have "ucast (push_bit 24 (ucast (ucast (drop_bit 24 w) :: octet) :: 64 word) OR push_bit 16 (ucast (ucast (drop_bit 16 w) :: octet))
      OR push_bit 8 (ucast (ucast (drop_bit 8 w) :: octet)) OR ucast (ucast w :: octet)) = (from_le (le_bytes 4 w) :: 32 word)"
    by (simp add: byte_simps unsigned_or_eq nrw) (simp add: join_simps)
  also have "\<dots> = w" by (rule from_le_le) simp
  finally show "DecodeBigEndian32 (EncodeBigEndian32 w @ rest) = Inr w"
    by (simp add: DecodeBigEndian32_def EncodeBigEndian32_def load_def byte_simps)
  show "DecodeBigEndian64 (EncodeBigEndian64 x @ rest) = Inr x"
    using from_le_le [of 8 x] by (simp add: DecodeBigEndian64_def EncodeBigEndian64_def load_def byte_simps join_simps)
qed

section \<open>Varints round trip\<close>

lemma high_bit: "(ucast b :: 'a :: len word) AND 128 \<noteq> 0 \<longleftrightarrow> bit b 7" if "8 \<le> LENGTH('a)" for b :: octet
proof -
  have "(ucast b :: 'a word) AND 2 ^ 7 = 0 \<longleftrightarrow> \<not> bit (ucast b :: 'a word) 7" by (rule and_exp_eq_0_iff_not_bit)
  then show ?thesis using that by (simp add: bit_simps)
qed

lemma low_bits: "w AND 127 = take_bit 7 w" for w :: "'a :: len word"
  by (simp add: take_bit_eq_mask mask_eq_exp_minus_1)

text \<open>A continuation byte carries seven bits; the last byte carries the rest.\<close>

lemma bit_128: "bit (128 :: int) n \<longleftrightarrow> n = 7"
  using bit_exp_iff [of 7 n, where ?'a = int] by auto

lemma bit_127: "bit (127 :: int) n \<longleftrightarrow> n < 7"
proof -
  have "(127 :: int) = mask 7" by (simp add: mask_eq_exp_minus_1)
  then show ?thesis by (simp only: bit_mask_iff) simp
qed

lemmas varint_bits = bit_128 bit_127

lemma cont_byte:
  fixes w :: "'a :: len word"
  assumes "8 \<le> LENGTH('a)"
  shows "bit (ucast (w OR 128) :: octet) 7" and "ucast (ucast (w OR 128) :: octet) AND 127 = take_bit 7 w"
proof -
  show "bit (ucast (w OR 128) :: octet) 7" using assms by (simp add: bit_simps varint_bits)
  show "ucast (ucast (w OR 128) :: octet) AND 127 = take_bit 7 w"
    by (rule bit_word_eqI) (use assms in \<open>auto simp: bit_simps varint_bits\<close>)
qed

lemma cont_byte_masked: "(ucast ((w AND 127) OR 128) :: octet) = ucast (w OR 128)" for w :: "'a :: len word"
  by (rule bit_word_eqI) (auto simp: bit_simps varint_bits dest: bit_imp_le_length)

lemma less_exp_drop: "v < push_bit k 1 \<longleftrightarrow> drop_bit k v = 0" if "k < LENGTH('a)" for v :: "'a :: len word"
proof -
  have "unat (push_bit k (1 :: 'a word)) = take_bit LENGTH('a) (push_bit k (unat (1 :: 'a word)))" by (rule unsigned_push_bit_eq)
  also have "\<dots> = 2 ^ k" using that by (simp add: take_bit_nat_eq_self)
  finally have "unat (push_bit k (1 :: 'a word)) = 2 ^ k" .
  then have "v < push_bit k 1 \<longleftrightarrow> unat v div 2 ^ k = 0" by (simp add: word_less_nat_alt div_eq_0_iff)
  also have "\<dots> \<longleftrightarrow> unat (drop_bit k v) = 0" by (metis unat_drop_bit_eq drop_bit_eq_div)
  finally show ?thesis by (simp add: unat_eq_0)
qed

lemma ge_128: "128 \<le> v \<longleftrightarrow> drop_bit 7 v \<noteq> 0" if "8 \<le> LENGTH('a)" for v :: "'a :: len word"
  using less_exp_drop [of 7 v] that by (auto simp: not_le)

lemma last_byte:
  fixes w :: "'a :: len word"
  assumes "drop_bit 7 w = 0"
  shows "\<not> bit (ucast w :: octet) 7" and "8 \<le> LENGTH('a) \<Longrightarrow> ucast (ucast w :: octet) = w"
proof -
  have h: "\<not> bit w n" if "7 \<le> n" for n
  proof -
    have "\<not> bit (drop_bit 7 w) (n - 7)" using assms by simp
    then show ?thesis using that by (simp add: bit_simps)
  qed
  then show "\<not> bit (ucast w :: octet) 7" by (simp add: bit_simps)
  have "n < 8" if "bit w n" for n using h [of n] that by (cases "7 \<le> n") auto
  then show "ucast (ucast w :: octet) = w" by (intro bit_word_eqI) (auto simp: bit_simps)
qed

text \<open>The recursive form of the encoding, at any width.\<close>

function varint :: "'a :: len word \<Rightarrow> octet list" where
  "varint v = (if drop_bit 7 v \<noteq> 0 then ucast (v OR 128) # varint (drop_bit 7 v) else [ucast v])"
  by pat_completeness auto
termination
  by (relation "measure unat") (auto intro!: drop_bit_less)

declare varint.simps [simp del]

lemma EncodeVarint64_varint: "EncodeVarint64 v = varint v"
proof (induction v rule: varint.induct)
  case (1 v)
  show ?case using 1 ge_128 [of v] by (subst EncodeVarint64.simps, subst varint.simps) (simp add: cont_byte_masked)
qed

lemma EncodeVarint32_varint: "EncodeVarint32 v = varint v"
proof -
  have z: "drop_bit n v = 0 \<Longrightarrow> drop_bit m v = 0" if "n \<le> m" for n m
    using that drop_bit_drop_bit [of "m - n" n v] by simp
  have "drop_bit 35 v = 0" by (rule bit_word_eqI) (simp add: bit_simps)
  moreover have t: "v < push_bit 7 1 \<longleftrightarrow> drop_bit 7 v = 0" "v < push_bit 14 1 \<longleftrightarrow> drop_bit 14 v = 0"
    "v < push_bit 21 1 \<longleftrightarrow> drop_bit 21 v = 0" "v < push_bit 28 1 \<longleftrightarrow> drop_bit 28 v = 0"
    by (rule less_exp_drop; simp)+
  ultimately show ?thesis unfolding EncodeVarint32_def t using z [of 7 14] z [of 14 21] z [of 21 28]
    by (auto simp: varint.simps drop_bit_drop_bit)
qed

lemma take_or_push: "take_bit s v OR push_bit s (drop_bit s v) = v" for v :: "'a :: len word"
proof (rule bit_word_eqI)
  fix n assume "n < LENGTH('a)"
  then show "bit (take_bit s v OR push_bit s (drop_bit s v)) n = bit v n" by (cases "n < s") (auto simp: bit_simps)
qed

lemma varint_ne: "varint v \<noteq> []"
  by (simp add: varint.simps)

lemma Varint_loop_varint:
  fixes v :: "'a :: len word"
  assumes len: "8 \<le> LENGTH('a)" and mx: "\<And>t. drop_bit t v \<noteq> 0 \<Longrightarrow> 7 dvd t \<Longrightarrow> t \<le> mx"
    and "7 dvd s" and "s \<le> mx"
  shows "Varint_loop mx s (take_bit s v) (varint (drop_bit s v) @ rest) n = Some (v, n + length (varint (drop_bit s v)))"
  using assms(3,4)
proof (induction "drop_bit s v" arbitrary: s n rule: varint.induct)
  case 1
  let ?w = "drop_bit s v"
  show ?case
  proof (cases "drop_bit 7 ?w = 0")
    case True
    have "take_bit s v OR push_bit s ?w = v" by (rule take_or_push)
    then show ?thesis using True last_byte [OF True] len high_bit [OF len, of "ucast ?w"] "1.prems"
      by (simp add: varint.simps [of ?w])
  next
    case False
    have d: "drop_bit (s + 7) v = drop_bit 7 ?w" by (simp add: drop_bit_drop_bit add.commute)
    then have "7 dvd s + 7" "s + 7 \<le> mx" using False mx [of "s + 7"] "1.prems"(1) by simp_all
    from "1.hyps" [OF False, of "s + 7" "n + 1", OF d [symmetric] this]
    have ih: "Varint_loop mx (s + 7) (take_bit (s + 7) v) (varint (drop_bit 7 ?w) @ rest) (n + 1)
        = Some (v, n + 1 + length (varint (drop_bit 7 ?w)))" by (simp only: d)
    have t: "take_bit s v OR push_bit s (take_bit 7 ?w) = take_bit (s + 7) v"
      by (rule bit_word_eqI) (auto simp: bit_simps)
    show ?thesis using False "1.prems" ih cont_byte [OF len, of ?w] high_bit [OF len, of "ucast (?w OR 128)"] t
      by (simp add: varint.simps [of ?w])
  qed
qed

lemma drop_bit_word_0: "LENGTH('a) \<le> t \<Longrightarrow> drop_bit t v = 0" for v :: "'a :: len word"
  by (rule bit_word_eqI) (auto simp: bit_simps dest: bit_imp_le_length)

lemma GetVarint64Ptr_varint: "GetVarint64Ptr (varint v @ rest) = Some (v, length (varint v))"
proof -
  have "t \<le> 63" if "drop_bit t v \<noteq> 0" for t using drop_bit_word_0 [of t v] that by (cases "64 \<le> t") auto
  then show ?thesis using Varint_loop_varint [of v 63 0 rest 0] by (simp add: GetVarint64Ptr_def)
qed

lemma GetVarint32Ptr_varint: "GetVarint32Ptr (varint v @ rest) = Some (v, length (varint v))"
proof -
  have "t \<le> 28" if "drop_bit t v \<noteq> 0" "7 dvd t" for t
  proof -
    have "t < 32" using drop_bit_word_0 [of t v] that(1) by (cases "32 \<le> t") auto
    then show ?thesis using that(2) by presburger
  qed
  then have f: "GetVarint32PtrFallback (varint v @ rest) = Some (v, length (varint v))"
    using Varint_loop_varint [of v 28 0 rest 0] by (simp add: GetVarint32PtrFallback_def)
  show ?thesis
  proof (cases "drop_bit 7 v = 0")
    case True
    then show ?thesis using f last_byte [OF True] by (simp add: GetVarint32Ptr_def varint.simps [of v])
  next
    case False
    then show ?thesis using f high_bit [where ?'a = 32, of "ucast (v OR 128)"] cont_byte [of v]
      by (simp add: GetVarint32Ptr_def varint.simps [of v])
  qed
qed

lemma varint_length_drop: "length (varint v) = 1 \<or> drop_bit (7 * (length (varint v) - 1)) v \<noteq> 0"
proof (induction v rule: varint.induct)
  case (1 v)
  show ?case
  proof (cases "drop_bit 7 v = 0")
    case False
    then have l: "length (varint v) - 1 = length (varint (drop_bit 7 v))" "length (varint v) \<noteq> 1"
      using varint.simps [of v] varint.simps [of "drop_bit 7 v"] by (simp_all split: if_splits)
    show ?thesis
    proof (cases "length (varint (drop_bit 7 v)) = 1")
      case True
      then show ?thesis using False l by simp
    next
      case n: False
      then obtain k where "length (varint (drop_bit 7 v)) = Suc k" using varint_ne [of "drop_bit 7 v"] by (cases "varint (drop_bit 7 v)") auto
      then show ?thesis using "1.IH" [OF False] n l by (simp add: drop_bit_drop_bit add.commute)
    qed
  qed (simp add: varint.simps)
qed

lemma length_varint32: "length (varint (v :: 32 word)) \<le> 5"
  using varint_length_drop [of v] drop_bit_word_0 [of "7 * (length (varint v) - 1)" v] by (cases "length (varint v) \<le> 5") auto

lemma length_varint64: "length (varint (v :: 64 word)) \<le> 10"
  using varint_length_drop [of v] drop_bit_word_0 [of "7 * (length (varint v) - 1)" v] by (cases "length (varint v) \<le> 10") auto

lemma VarintLength_varint: "VarintLength v = length (varint v)"
proof -
  have "VarintLength_loop v len = len + length (varint v) - 1" for len
  proof (induction v arbitrary: len rule: varint.induct)
    case (1 v)
    show ?case using 1 ge_128 [of v] by (subst VarintLength_loop.simps, subst varint.simps) simp
  qed
  then show ?thesis by (simp add: VarintLength_def)
qed

lemma overloads:
  "GetVarint32_string = GetVarint32" "GetVarint64_string = GetVarint64"
  "GetVarLength32PrefixedStringPiece = GetVarLength32PrefixedString" "GetVarLength64PrefixedStringPiece = GetVarLength64PrefixedString"
  "PutVarLength32PrefixedStringPiece = PutVarLength32PrefixedString" "PutVarLength64PrefixedStringPiece = PutVarLength64PrefixedString"
  "PutFixLength64PrefixedStringPiece = PutFixLength64PrefixedString"
  by (simp_all add: fun_eq_iff GetVarint32_string_def GetVarint32_def GetVarint64_string_def GetVarint64_def
      GetVarLength32PrefixedStringPiece_def GetVarLength32PrefixedString_def GetVarLength64PrefixedStringPiece_def
      GetVarLength64PrefixedString_def PutVarLength32PrefixedStringPiece_def PutVarLength32PrefixedString_def
      PutVarLength64PrefixedStringPiece_def PutVarLength64PrefixedString_def PutFixLength64PrefixedStringPiece_def
      PutFixLength64PrefixedString_def cong: option.case_cong)

section \<open>Streams of values\<close>

text \<open>
  A pair of a \<open>Put\<close> and a \<open>Get\<close> routine: the writer appends an encoding of each acceptable value, and
  the reader takes exactly that encoding off the front of the input.
\<close>

locale coder =
  fixes put :: "'v \<Rightarrow> octet list \<Rightarrow> octet list result" and get :: "octet list \<Rightarrow> ('v option \<times> octet list) result"
    and enc :: "'v \<Rightarrow> octet list" and fits :: "'v \<Rightarrow> bool"
  assumes put: "fits v \<Longrightarrow> put v dst = Inr (dst @ enc v)"
    and get: "fits v \<Longrightarrow> get (enc v @ rest) = Inr (Some v, rest)"
begin

text \<open>No encoding is a prefix of another one.\<close>

lemma prefix_free: "fits v \<Longrightarrow> fits w \<Longrightarrow> enc v @ r = enc w @ s \<Longrightarrow> v = w \<and> r = s"
  by (metis get option.inject prod.inject sum.inject(2))

lemma put_get: "fits v \<Longrightarrow> \<exists>bs. put v dst = Inr (dst @ bs) \<and> get (bs @ rest) = Inr (Some v, rest)"
  using put get by blast

end

text \<open>A reader of strings after a reader of lengths.\<close>

locale length_coder = coder put get enc fits
  for put :: "'a :: len word \<Rightarrow> octet list \<Rightarrow> octet list result" and get enc fits +
  assumes all_fit: "fits v"
begin

lemma string_put_get:
  assumes "length s < 2 ^ LENGTH('a)"
  shows "ub_bind (put (of_nat (length s)) dst) (\<lambda>dst. Inr (dst @ s)) = Inr (dst @ enc (of_nat (length s)) @ s)"
    and "get ((enc (of_nat (length s)) @ s) @ rest) = Inr (Some (of_nat (length s)), s @ rest)"
    and "take_piece (unat (of_nat (length s) :: 'a word)) (s @ rest) = (Some s, rest)"
  using put [OF all_fit] get [OF all_fit] assms by (simp_all add: take_piece_def unat_of_nat take_bit_nat_eq_self)

end

definition get_fixed32 :: "bool \<Rightarrow> octet list \<Rightarrow> (32 word option \<times> octet list) result" where
  "get_fixed32 le input = ub_bind (GetFixed32 le 0 input) (\<lambda>(ok, v, rest). Inr (if ok then Some v else None, rest))"

definition get_fixed64 :: "bool \<Rightarrow> octet list \<Rightarrow> (64 word option \<times> octet list) result" where
  "get_fixed64 le input = ub_bind (GetFixed64 le 0 input) (\<lambda>(ok, v, rest). Inr (if ok then Some v else None, rest))"

interpretation fixed32: length_coder "PutFixed32 le" "get_fixed32 le" "le_bytes 4" "\<lambda>_. True"
  by unfold_locales
    (simp_all add: PutFixed32_def append_buf_def EncodeFixed_eq get_fixed32_def GetFixed32_def DecodeFixed32_bytes)

interpretation fixed64: length_coder "PutFixed64 le" "get_fixed64 le" "le_bytes 8" "\<lambda>_. True"
  by unfold_locales
    (simp_all add: PutFixed64_def append_buf_def EncodeFixed_eq get_fixed64_def GetFixed64_def DecodeFixed64_bytes)

interpretation varint32: length_coder PutVarint32 "\<lambda>i. Inr (GetVarint32 i)" varint "\<lambda>_. True"
  by unfold_locales
    (simp_all add: PutVarint32_def append_buf_def EncodeVarint32_varint length_varint32 GetVarint32_def GetVarint32Ptr_varint)

interpretation varint64: length_coder PutVarint64 "\<lambda>i. Inr (GetVarint64 i)" varint "\<lambda>_. True"
  by unfold_locales
    (simp_all add: PutVarint64_def append_buf_def EncodeVarint64_varint length_varint64 GetVarint64_def GetVarint64Ptr_varint)

interpretation string32: coder PutVarLength32PrefixedString "\<lambda>i. Inr (GetVarLength32PrefixedString i)"
  "\<lambda>s. varint (of_nat (length s) :: 32 word) @ s" "\<lambda>s. length s < 2 ^ 32"
proof
  fix s dst rest :: "octet list" assume "length s < 2 ^ 32"
  then have "length s < 2 ^ LENGTH(32)" by simp
  note l = varint32.string_put_get [OF this]
  show "PutVarLength32PrefixedString s dst = Inr (dst @ varint (of_nat (length s) :: 32 word) @ s)"
    using l(1) by (simp add: PutVarLength32PrefixedString_def)
  show "Inr (GetVarLength32PrefixedString ((varint (of_nat (length s) :: 32 word) @ s) @ rest)) = Inr (Some s, rest)"
    using l(2,3) [of rest] by (simp add: GetVarLength32PrefixedString_def overloads)
qed

interpretation string64: coder PutVarLength64PrefixedString "\<lambda>i. Inr (GetVarLength64PrefixedString i)"
  "\<lambda>s. varint (of_nat (length s) :: 64 word) @ s" "\<lambda>s. length s < 2 ^ 64"
proof
  fix s dst rest :: "octet list" assume "length s < 2 ^ 64"
  then have "length s < 2 ^ LENGTH(64)" by simp
  note l = varint64.string_put_get [OF this]
  show "PutVarLength64PrefixedString s dst = Inr (dst @ varint (of_nat (length s) :: 64 word) @ s)"
    using l(1) by (simp add: PutVarLength64PrefixedString_def)
  show "Inr (GetVarLength64PrefixedString ((varint (of_nat (length s) :: 64 word) @ s) @ rest)) = Inr (Some s, rest)"
    using l(2,3) [of rest] by (simp add: GetVarLength64PrefixedString_def overloads)
qed

interpretation fixstring64: coder "PutFixLength64PrefixedString le" "GetFixLength64PrefixedStringPiece le"
  "\<lambda>s. le_bytes 8 (of_nat (length s) :: 64 word) @ s" "\<lambda>s. length s < 2 ^ 64"
proof
  fix s dst rest :: "octet list" assume "length s < 2 ^ 64"
  then have "length s < 2 ^ LENGTH(64)" by simp
  note l = fixed64.string_put_get [OF this]
  show "PutFixLength64PrefixedString le s dst = Inr (dst @ le_bytes 8 (of_nat (length s) :: 64 word) @ s)"
    using l(1) by (simp add: PutFixLength64PrefixedString_def)
  show "GetFixLength64PrefixedStringPiece le ((le_bytes 8 (of_nat (length s) :: 64 word) @ s) @ rest) = Inr (Some s, rest)"
    using l(3) [of rest] by (simp add: GetFixLength64PrefixedStringPiece_def GetFixed64_def DecodeFixed64_bytes)
qed

text \<open>A stream of values of the kinds that have a reader.\<close>

datatype item = Fixed32 "32 word" | Fixed64 "64 word" | Varint32 "32 word" | Varint64 "64 word"
  | String32 "octet list" | String64 "octet list" | FixString64 "octet list"

fun put_item :: "bool \<Rightarrow> item \<Rightarrow> octet list \<Rightarrow> octet list result" where
  "put_item le (Fixed32 v) = PutFixed32 le v"
| "put_item le (Fixed64 v) = PutFixed64 le v"
| "put_item le (Varint32 v) = PutVarint32 v"
| "put_item le (Varint64 v) = PutVarint64 v"
| "put_item le (String32 s) = PutVarLength32PrefixedString s"
| "put_item le (String64 s) = PutVarLength64PrefixedString s"
| "put_item le (FixString64 s) = PutFixLength64PrefixedString le s"

definition tag :: "('v \<Rightarrow> item) \<Rightarrow> ('v option \<times> octet list) result \<Rightarrow> (item option \<times> octet list) result" where
  "tag f r = ub_bind r (\<lambda>(v, rest). Inr (map_option f v, rest))"

text \<open>The reader for the kind of an item; it does not look at the item's value.\<close>

fun get_item :: "bool \<Rightarrow> item \<Rightarrow> octet list \<Rightarrow> (item option \<times> octet list) result" where
  "get_item le (Fixed32 _) i = tag Fixed32 (get_fixed32 le i)"
| "get_item le (Fixed64 _) i = tag Fixed64 (get_fixed64 le i)"
| "get_item le (Varint32 _) i = tag Varint32 (Inr (GetVarint32 i))"
| "get_item le (Varint64 _) i = tag Varint64 (Inr (GetVarint64 i))"
| "get_item le (String32 _) i = tag String32 (Inr (GetVarLength32PrefixedString i))"
| "get_item le (String64 _) i = tag String64 (Inr (GetVarLength64PrefixedString i))"
| "get_item le (FixString64 _) i = tag FixString64 (GetFixLength64PrefixedStringPiece le i)"

fun item_fits :: "item \<Rightarrow> bool" where
  "item_fits (String32 s) = (length s < 2 ^ 32)"
| "item_fits (String64 s) = (length s < 2 ^ 64)"
| "item_fits (FixString64 s) = (length s < 2 ^ 64)"
| "item_fits _ = True"

primrec put_items :: "bool \<Rightarrow> item list \<Rightarrow> octet list \<Rightarrow> octet list result" where
  "put_items le [] dst = Inr dst"
| "put_items le (x # xs) dst = ub_bind (put_item le x dst) (put_items le xs)"

primrec get_items :: "bool \<Rightarrow> item list \<Rightarrow> octet list \<Rightarrow> (item option list \<times> octet list) result" where
  "get_items le [] i = Inr ([], i)"
| "get_items le (x # xs) i =
     ub_bind (get_item le x i) (\<lambda>(v, i). ub_bind (get_items le xs i) (\<lambda>(vs, i). Inr (v # vs, i)))"

lemma tag_Inr: "r = Inr (Some v, rest) \<Longrightarrow> tag f r = Inr (Some (f v), rest)"
  by (simp add: tag_def)

lemma item_put_get: "item_fits x \<Longrightarrow> \<exists>bs. (\<forall>dst. put_item le x dst = Inr (dst @ bs)) \<and> (\<forall>rest. get_item le x (bs @ rest) = Inr (Some x, rest))"
proof (cases x)
  case (Fixed32 v)
  then show ?thesis using fixed32.put fixed32.get by (intro exI [of _ "le_bytes 4 v"]) (simp add: tag_Inr)
next
  case (Fixed64 v)
  then show ?thesis using fixed64.put fixed64.get by (intro exI [of _ "le_bytes 8 v"]) (simp add: tag_Inr)
next
  case (Varint32 v)
  then show ?thesis using varint32.put varint32.get by (intro exI [of _ "varint v"]) (simp add: tag_Inr)
next
  case (Varint64 v)
  then show ?thesis using varint64.put varint64.get by (intro exI [of _ "varint v"]) (simp add: tag_Inr)
next
  case (String32 s)
  assume "item_fits x"
  then show ?thesis using String32 string32.put string32.get
    by (intro exI [of _ "varint (of_nat (length s) :: 32 word) @ s"]) (simp add: tag_Inr)
next
  case (String64 s)
  assume "item_fits x"
  then show ?thesis using String64 string64.put string64.get
    by (intro exI [of _ "varint (of_nat (length s) :: 64 word) @ s"]) (simp add: tag_Inr)
next
  case (FixString64 s)
  assume "item_fits x"
  then show ?thesis using FixString64 fixstring64.put fixstring64.get
    by (intro exI [of _ "le_bytes 8 (of_nat (length s) :: 64 word) @ s"]) (simp add: tag_Inr)
qed

lemma items_put_get:
  "list_all item_fits xs \<Longrightarrow>
   \<exists>bs. (\<forall>dst. put_items le xs dst = Inr (dst @ bs)) \<and> (\<forall>rest. get_items le xs (bs @ rest) = Inr (map Some xs, rest))"
proof (induction xs)
  case (Cons x xs)
  obtain bs cs where "\<forall>dst. put_item le x dst = Inr (dst @ bs)" "\<forall>rest. get_item le x (bs @ rest) = Inr (Some x, rest)"
    "\<forall>dst. put_items le xs dst = Inr (dst @ cs)" "\<forall>rest. get_items le xs (cs @ rest) = Inr (map Some xs, rest)"
    using item_put_get [of x le] Cons by auto
  then show ?case by (intro exI [of _ "bs @ cs"]) simp
qed (intro exI [of _ "[]"], simp)

lemma until_loop_found: "d \<notin> set s \<Longrightarrow> until_loop d (s @ d # rest) n = n + length s"
  by (induction s arbitrary: n) auto



section \<open>Lengths and malformed input\<close>

lemma length_varint_le: "length (varint v) \<le> Suc n \<longleftrightarrow> drop_bit (7 * Suc n) v = 0" for v :: "'a :: len word"
proof (induction n arbitrary: v)
  case 0
  show ?case using varint_ne [of "drop_bit 7 v"] by (simp add: varint.simps [of v])
next
  case (Suc n)
  have z: "drop_bit 7 v = 0 \<Longrightarrow> drop_bit (7 * Suc (Suc n)) v = 0"
    using drop_bit_drop_bit [of "7 * Suc n" 7 v] by (simp add: add.commute)
  have "drop_bit (7 * Suc n) (drop_bit 7 v) = drop_bit (7 * Suc (Suc n)) v" by (simp add: drop_bit_drop_bit add.commute)
  then show ?case using Suc [of "drop_bit 7 v"] z by (simp add: varint.simps [of v])
qed

lemma varint_ucast: "varint (ucast v :: 64 word) = varint (v :: 32 word)"
proof (induction v rule: varint.induct)
  case (1 v)
  have d: "drop_bit 7 (ucast v :: 64 word) = ucast (drop_bit 7 v)" by (rule bit_word_eqI) (auto simp: bit_simps dest: bit_imp_le_length)
  have z: "(ucast x :: 64 word) = 0 \<longleftrightarrow> x = 0" for x :: "32 word"
  proof
    assume "(ucast x :: 64 word) = 0"
    then have "(ucast (ucast x :: 64 word) :: 32 word) = 0" by simp
    moreover have "(ucast (ucast x :: 64 word) :: 32 word) = x" by (rule bit_word_eqI) (auto simp: bit_simps)
    ultimately show "x = 0" by simp
  qed simp
  have b: "(ucast ((ucast v :: 64 word) OR 128) :: octet) = ucast (v OR 128)" "(ucast (ucast v :: 64 word) :: octet) = ucast v"
    by (rule bit_word_eqI, auto simp: bit_simps)+
  show ?case using 1 by (simp add: varint.simps [of v] varint.simps [of "ucast v :: 64 word"] d z b)
qed

text \<open>The bytes of an encoding before its last one all ask for more.\<close>

lemma varint_butlast: "8 \<le> LENGTH('a) \<Longrightarrow> b \<in> set (butlast (varint v)) \<Longrightarrow> bit b 7" for v :: "'a :: len word"
proof (induction v rule: varint.induct)
  case (1 v)
  then show ?case using cont_byte(1) [of v] varint_ne [of "drop_bit 7 v"]
      varint.simps [of v] by (auto split: if_splits)
qed

lemma Varint_loop_more:
  "8 \<le> LENGTH('a) \<Longrightarrow> \<forall>b \<in> set ps. bit b 7 \<Longrightarrow> Varint_loop mx shift (r :: 'a :: len word) ps n = None"
  by (induction ps arbitrary: shift r n) (auto simp: high_bit Let_def)

lemma Varint_loop_reads:
  "Varint_loop mx shift r ps n = Some (v, q) \<Longrightarrow> n < q \<and> q \<le> n + length ps \<and> shift + 7 * (q - n - 1) \<le> mx"
proof (induction ps arbitrary: shift r n)
  case (Cons p ps)
  then show ?case by (fastforce simp: Let_def split: if_splits)
qed simp

lemma strict_prefix_butlast:
  assumes "cs \<noteq> []" and "varint v = bs @ cs"
  shows "set bs \<subseteq> set (butlast (varint v))"
  using assms by (simp add: butlast_append)

lemma varint_truncated:
  assumes "cs \<noteq> []"
  shows "EncodeVarint32 v = bs @ cs \<Longrightarrow> GetVarint32 bs = (None, bs)" and "EncodeVarint64 w = bs @ cs \<Longrightarrow> GetVarint64 bs = (None, bs)"
proof -
  show "GetVarint32 bs = (None, bs)" if "EncodeVarint32 v = bs @ cs"
  proof -
    have "\<forall>b \<in> set bs. bit b 7"
      using strict_prefix_butlast [OF assms, of v bs] varint_butlast [of _ v] that by (auto simp: EncodeVarint32_varint)
    moreover from this have "bs = [] \<or> bit (bs ! 0) 7" by (cases bs) auto
    ultimately show ?thesis using high_bit [where ?'a = 32, of "bs ! 0"]
      by (simp add: GetVarint32_def GetVarint32Ptr_def GetVarint32PtrFallback_def Varint_loop_more)
  qed
  show "GetVarint64 bs = (None, bs)" if "EncodeVarint64 w = bs @ cs"
  proof -
    have "\<forall>b \<in> set bs. bit b 7"
      using strict_prefix_butlast [OF assms, of w bs] varint_butlast [of _ w] that by (auto simp: EncodeVarint64_varint)
    then show ?thesis by (simp add: GetVarint64_def GetVarint64Ptr_def Varint_loop_more)
  qed
qed

lemma varint_reads:
  shows "GetVarint32Ptr p = Some (v, q) \<Longrightarrow> 1 \<le> q \<and> q \<le> length p \<and> q \<le> 5"
    and "GetVarint64Ptr p = Some (w, q) \<Longrightarrow> 1 \<le> q \<and> q \<le> length p \<and> q \<le> 10"
  using Varint_loop_reads [of 28 0 0 p 0 v q] Varint_loop_reads [of 63 0 0 p 0 w q]
  by (cases p; auto simp: GetVarint32Ptr_def GetVarint32PtrFallback_def GetVarint64Ptr_def split: if_splits)+

text \<open>
  C36. Lengths of varints.  The unrolled \<open>EncodeVarint32\<close> gives the bytes of \<open>EncodeVarint64\<close>; \<open>VarintLength\<close> is the
  number of bytes written, at most 5 and 10 for the two widths, and the least \<open>n\<close> with
  \<open>7 * n\<close> bits enough for the value; no routine that puts several varints overflows its
  local buffer.
\<close>

theorem varint_length_bounds:
  "EncodeVarint32 v = EncodeVarint64 (ucast v)
   \<and> length (EncodeVarint64 w) = VarintLength w
   \<and> length (EncodeVarint32 v) \<le> 5 \<and> 1 \<le> VarintLength w \<and> VarintLength w \<le> 10
   \<and> (VarintLength w \<le> Suc n \<longleftrightarrow> drop_bit (7 * Suc n) w = 0)
   \<and> PutVarint32Varint32 v v' dst = Inr (dst @ EncodeVarint32 v @ EncodeVarint32 v')
   \<and> PutVarint32Varint32Varint32 v v' v'' dst = Inr (dst @ EncodeVarint32 v @ EncodeVarint32 v' @ EncodeVarint32 v'')
   \<and> PutVarint64Varint64 w w' dst = Inr (dst @ EncodeVarint64 w @ EncodeVarint64 w')
   \<and> PutVarint32Varint64 v w dst = Inr (dst @ EncodeVarint32 v @ EncodeVarint64 w)
   \<and> PutVarint32Varint32Varint64 v v' w dst = Inr (dst @ EncodeVarint32 v @ EncodeVarint32 v' @ EncodeVarint64 w)"
proof -
  note l = length_varint32 [of v] length_varint32 [of v'] length_varint32 [of v''] length_varint64 [of w] length_varint64 [of w']
  have "1 \<le> length (varint w)" using varint_ne [of w] by (cases "varint w") auto
  then show ?thesis using l
    by (simp add: EncodeVarint32_varint EncodeVarint64_varint varint_ucast VarintLength_varint length_varint_le
        PutVarint32Varint32_def PutVarint32Varint32Varint32_def PutVarint64Varint64_def PutVarint32Varint64_def
        PutVarint32Varint32Varint64_def append_buf_def)
qed

text \<open>
  C37. Malformed input.  A reader of varints reads at least one byte, none past the limit, and at
  most 5 or 10; on every proper prefix of an encoding it fails and leaves the input alone.  The
  fixed-width reader rejects short input.  A prefixed string whose announced length exceeds
  the rest of the input is rejected; but the reader of strings with a fixed-width length
  ignores the failure of \<open>GetFixed64\<close>, so that every input of fewer than 8 bytes is accepted as
  the empty string, and its overload on \<open>string\<close> reads past the end of such an input.
\<close>

theorem coding_malformed_input:
  "(\<forall>v q. GetVarint32Ptr p = Some (v, q) \<longrightarrow> 1 \<le> q \<and> q \<le> length p \<and> q \<le> 5)
   \<and> (\<forall>w q. GetVarint64Ptr p = Some (w, q) \<longrightarrow> 1 \<le> q \<and> q \<le> length p \<and> q \<le> 10)
   \<and> (cs \<noteq> [] \<longrightarrow> EncodeVarint32 v = bs @ cs \<longrightarrow> GetVarint32 bs = (None, bs))
   \<and> (cs \<noteq> [] \<longrightarrow> EncodeVarint64 w = bs @ cs \<longrightarrow> GetVarint64 bs = (None, bs))
   \<and> (length p < 4 \<longrightarrow> GetFixed32 le v p = Inr (False, v, p)) \<and> (length p < 8 \<longrightarrow> GetFixed64 le w p = Inr (False, w, p))
   \<and> (length p < unat v \<longrightarrow> GetVarLength32PrefixedString (EncodeVarint32 v @ p) = (None, p))
   \<and> (length p < unat w \<longrightarrow> GetVarLength64PrefixedString (EncodeVarint64 w @ p) = (None, p))
   \<and> (length p < 8 \<longrightarrow> GetFixLength64PrefixedStringPiece le p = Inr (Some [], p))
   \<and> (length p < 7 \<longrightarrow> GetFixLength64PrefixedString le p = Inl OutOfBounds)"
proof (intro conjI allI impI)
  show "length p < unat v \<Longrightarrow> GetVarLength32PrefixedString (EncodeVarint32 v @ p) = (None, p)"
    using varint32.get [of v p] by (simp add: EncodeVarint32_varint GetVarLength32PrefixedString_def overloads take_piece_def)
  show "length p < unat w \<Longrightarrow> GetVarLength64PrefixedString (EncodeVarint64 w @ p) = (None, p)"
    using varint64.get [of w p] by (simp add: EncodeVarint64_varint GetVarLength64PrefixedString_def overloads take_piece_def)
  show "length p < 7 \<Longrightarrow> GetFixLength64PrefixedString le p = Inl OutOfBounds"
    by (cases le) (auto simp: GetFixLength64PrefixedString_def GetFixed64_string_def DecodeFixed64_def DecodeFixed32_def load_def)
qed (use varint_reads varint_truncated in \<open>auto simp: GetFixed32_def GetFixed64_def GetFixLength64PrefixedStringPiece_def take_piece_def\<close>)

theorem coding_malformed_input_witness:
  "GetVarint32 [172] = (None, [172 :: octet]) \<and> GetFixLength64PrefixedStringPiece True [1, 2, 3] = Inr (Some [], [1, 2, 3])"
proof -
  have "EncodeVarint32 300 = [172] @ [2]" by (simp add: EncodeVarint32_def)
  then show ?thesis
    using coding_malformed_input [of "[1, 2, 3]" "[2]" 300 "[172]" 0 True] by simp
qed

end
