(* ===== verification/Base64.thy ===== *)
theory Base64
  imports Coding_Util "HOL-Library.Code_Target_Numeral"
begin

unbundle bit_operations_syntax

text \<open>
  \<open>base64.cpp\<close>: base64 with the URL-safe alphabet.  A \<open>char\<close> is an 8-bit word; where the code computes
  with it as an \<open>int\<close> it is sign-extended to 32 bits and \<open>>>\<close> is the arithmetic shift.  The
  \<open>Status\<close> of the two routines is a sum with the kind of the error; the bytes written to the local
  buffers are checked against the sizes the buffers are allocated with.
\<close>

section \<open>The routines\<close>

datatype b64_error = InvalidCharacter | LengthOneModuloFour

definition kBase64Bytes :: "octet list" where
  "kBase64Bytes =
    [-1, -1, -1, -1, -1, -1, -1, -1, -1, -1, -1, -1,
     -1, -1, -1, -1, -1, -1, -1, -1, -1, -1, -1, -1,
     -1, -1, -1, -1, -1, -1, -1, -1, -1, -1, -1, -1,
     -1, -1, -1, -1, -1, -1, -1, -1, -1, 0x3E, -1, -1,
     0x34, 0x35, 0x36, 0x37, 0x38, 0x39, 0x3A, 0x3B, 0x3C, 0x3D, -1, -1,
     -1, -1, -1, -1, -1, 0x00, 0x01, 0x02, 0x03, 0x04, 0x05, 0x06,
     0x07, 0x08, 0x09, 0x0A, 0x0B, 0x0C, 0x0D, 0x0E, 0x0F, 0x10, 0x11, 0x12,
     0x13, 0x14, 0x15, 0x16, 0x17, 0x18, 0x19, -1, -1, -1, -1, 0x3F,
     -1, 0x1A, 0x1B, 0x1C, 0x1D, 0x1E, 0x1F, 0x20, 0x21, 0x22, 0x23, 0x24,
     0x25, 0x26, 0x27, 0x28, 0x29, 0x2A, 0x2B, 0x2C, 0x2D, 0x2E, 0x2F, 0x30,
     0x31, 0x32, 0x33, -1, -1, -1, -1, -1]"

definition kBase64UrlSafeChars :: "octet list" where
  "kBase64UrlSafeChars = map of_char ''ABCDEFGHIJKLMNOPQRSTUVWXYZabcdefghijklmnopqrstuvwxyz0123456789-_''"

definition kPadChar :: octet where
  "kPadChar = of_char (CHR ''='')"

definition Convert :: "octet \<Rightarrow> 32 word" where
  "Convert x =
     (let y = kBase64Bytes ! unat (x AND 0x7F) OR (x AND 0x80)
      in scast y)"

definition DecodeThreeChars :: "octet list \<Rightarrow> b64_error + octet list" where
  "DecodeThreeChars codes =
     (let packed = push_bit 18 (Convert (codes ! 0)) OR push_bit 12 (Convert (codes ! 1))
                   OR push_bit 6 (Convert (codes ! 2)) OR Convert (codes ! 3)
      in if packed AND 0xFF000000 \<noteq> 0 then Inl InvalidCharacter
         else Inr [ucast (drop_bit 16 packed), ucast (drop_bit 8 packed), ucast packed])"

text \<open>The loop over the blocks before the last one; it gives the bytes written and the rest of the input.\<close>

function Decode_blocks :: "octet list \<Rightarrow> octet list \<Rightarrow> b64_error + (octet list \<times> octet list)" where
  "Decode_blocks b64 out =
     (if length b64 > 4 then
        (case DecodeThreeChars (take 4 b64) of Inl e \<Rightarrow> Inl e | Inr r \<Rightarrow> Decode_blocks (drop 4 b64) (out @ r))
      else Inr (out, b64))"
  by pat_completeness auto
termination
  by (relation "measure (\<lambda>(b64, out). length b64)") auto

declare Decode_blocks.simps [simp del]

definition Decode_remain :: "octet list \<Rightarrow> nat" where
  "Decode_remain b64 =
     (if length b64 = 4 then
        (if b64 ! 2 = kPadChar \<and> b64 ! 3 = kPadChar then 2
         else if b64 ! 2 \<noteq> kPadChar \<and> b64 ! 3 = kPadChar then 3 else 4)
      else length b64)"

definition Base64Decode :: "octet list \<Rightarrow> (b64_error + octet list) result" where
  "Base64Decode data =
     (if data = [] then Inr (Inr [])
      else
        let max_decoded_size = 3 * (length data div 4) + 3
        in case Decode_blocks data [] of
             Inl e \<Rightarrow> Inr (Inl e)
           | Inr (out, b64) \<Rightarrow>
               let remain = Decode_remain b64
               in if remain = 1 then Inr (Inl LengthOneModuloFour)
                  else let tail = take remain b64 @ replicate (4 - remain) (kBase64UrlSafeChars ! 0)
                       in case DecodeThreeChars tail of
                            Inl e \<Rightarrow> Inr (Inl e)
                          | Inr r \<Rightarrow>
                              if length out + 3 > max_decoded_size then Inl OutOfBounds
                              else Inr (Inr (out @ take (remain - 1) r)))"

text \<open>The indices into the alphabet, computed as \<open>int\<close>.\<close>

definition b64_char :: "32 word \<Rightarrow> octet" where
  "b64_char i = kBase64UrlSafeChars ! unat i"

definition as_int :: "octet \<Rightarrow> 32 word" where
  "as_int x = scast x"

definition idx0 :: "octet \<Rightarrow> 32 word" where
  "idx0 x = signed_drop_bit 2 (as_int x) AND 0x3F"

definition idx1 :: "octet \<Rightarrow> octet \<Rightarrow> 32 word" where
  "idx1 x y = push_bit 4 (as_int x AND 0x03) OR (signed_drop_bit 4 (as_int y) AND 0x0F)"

definition idx2 :: "octet \<Rightarrow> octet \<Rightarrow> 32 word" where
  "idx2 y z = push_bit 2 (as_int y AND 0x0F) OR (signed_drop_bit 6 (as_int z) AND 0x03)"

definition idx3 :: "octet \<Rightarrow> 32 word" where
  "idx3 z = as_int z AND 0x3F"

fun Encode_blocks :: "bool \<Rightarrow> octet list \<Rightarrow> octet list" where
  "Encode_blocks pad (x # y # z # data) =
     b64_char (idx0 x) # b64_char (idx1 x y) # b64_char (idx2 y z) # b64_char (idx3 z) # Encode_blocks pad data"
| "Encode_blocks pad [x, y] =
     [b64_char (idx0 x), b64_char (idx1 x y), b64_char (push_bit 2 (as_int y AND 0x0F))] @ (if pad then [kPadChar] else [])"
| "Encode_blocks pad [x] =
     [b64_char (idx0 x), b64_char (push_bit 4 (as_int x AND 0x03))] @ (if pad then [kPadChar, kPadChar] else [])"
| "Encode_blocks pad [] = []"

definition Base64Encode :: "octet list \<Rightarrow> bool \<Rightarrow> octet list result" where
  "Base64Encode source with_padding =
     (let max_encoded_size = 4 * (length source div 3) + 4;
          encoded = Encode_blocks with_padding source
      in if length encoded > max_encoded_size then Inl OutOfBounds else Inr encoded)"

section \<open>The alphabet\<close>

lemma alphabet_numerals:
  "kBase64UrlSafeChars =
    [65, 66, 67, 68, 69, 70, 71, 72, 73, 74, 75, 76, 77, 78, 79, 80,
     81, 82, 83, 84, 85, 86, 87, 88, 89, 90, 97, 98, 99, 100, 101, 102,
     103, 104, 105, 106, 107, 108, 109, 110, 111, 112, 113, 114, 115, 116, 117, 118,
     119, 120, 121, 122, 48, 49, 50, 51, 52, 53, 54, 55, 56, 57, 45, 95]"
  by (simp add: kBase64UrlSafeChars_def)

lemma pad_numeral: "kPadChar = 61"
  by (simp add: kPadChar_def)

lemma Convert_alphabet: "map Convert kBase64UrlSafeChars = map of_nat [0..<64]"
proof -
  have "[0..<64] =
    [0, 1, 2, 3, 4, 5, 6, 7, 8, 9, 10, 11, 12, 13, 14, 15,
     16, 17, 18, 19, 20, 21, 22, 23, 24, 25, 26, 27, 28, 29, 30, 31,
     32, 33, 34, 35, 36, 37, 38, 39, 40, 41, 42, 43, 44, 45, 46, 47,
     48, 49, 50, 51, 52, 53, 54, 55, 56, 57, 58, 59, 60, 61, 62, 63]"
    by code_simp
  then show ?thesis unfolding alphabet_numerals by (simp add: Convert_def kBase64Bytes_def)
qed

lemma length_alphabet: "length kBase64UrlSafeChars = 64"
  by (simp add: alphabet_numerals)

lemma pad_not_in_alphabet: "kPadChar \<notin> set kBase64UrlSafeChars"
  by (simp add: alphabet_numerals pad_numeral)

lemma Convert_b64_char:
  assumes "i < 64"
  shows "Convert (b64_char i) = i" and "b64_char i \<noteq> kPadChar"
proof -
  have i: "unat i < 64" using assms by (simp add: word_less_nat_alt)
  have "map Convert kBase64UrlSafeChars ! unat i = map of_nat [0..<64] ! unat i" by (simp only: Convert_alphabet)
  then show "Convert (b64_char i) = i" using i by (simp add: b64_char_def length_alphabet)
  have "b64_char i \<in> set kBase64UrlSafeChars" using i nth_mem [of "unat i" kBase64UrlSafeChars]
    by (simp add: b64_char_def length_alphabet)
  then show "b64_char i \<noteq> kPadChar" using pad_not_in_alphabet by auto
qed

section \<open>Blocks\<close>

lemma mask_numerals: "(0x3F :: 32 word) = mask 6" "(0x0F :: 32 word) = mask 4" "(0x03 :: 32 word) = mask 2"
  by (simp_all add: mask_eq_exp_minus_1)

lemmas idx_defs = idx0_def idx1_def idx2_def idx3_def as_int_def

lemma less_64: "i < 64" if "\<And>n. 6 \<le> n \<Longrightarrow> \<not> bit i n" for i :: "32 word"
proof -
  have "n < 6" if "bit i n" for n using \<open>\<And>n. 6 \<le> n \<Longrightarrow> \<not> bit i n\<close> [of n] that by (cases "6 \<le> n") auto
  then have "take_bit 6 i = i" by (intro bit_word_eqI) (auto simp: bit_simps)
  then have "i = i AND 63" by (metis mask_numerals(1) take_bit_eq_mask)
  moreover have "i AND 63 \<le> 63" by (rule word_and_le1)
  ultimately have "i \<le> 63" by simp
  then show ?thesis by (simp add: word_le_nat_alt word_less_nat_alt)
qed

lemma idx_less: "idx0 x < 64" "idx1 x y < 64" "idx2 y z < 64" "idx3 z < 64"
  "push_bit 2 (as_int y AND 0x0F) < 64" "push_bit 4 (as_int x AND 0x03) < 64"
  by (rule less_64, auto simp: idx_defs mask_numerals bit_simps simp del: mask_numerals [symmetric])+

lemma pack_bytes:
  fixes x y z :: octet
  defines "packed \<equiv> push_bit 18 (idx0 x) OR push_bit 12 (idx1 x y) OR push_bit 6 (idx2 y z) OR idx3 z"
  shows "packed AND 0xFF000000 = 0" and "ucast (drop_bit 16 packed) = x" and "ucast (drop_bit 8 packed) = y" and "ucast packed = z"
proof -
  have m: "(0xFF000000 :: 32 word) = push_bit 24 (mask 8)" by (simp add: mask_eq_exp_minus_1)
  show "packed AND 0xFF000000 = 0" unfolding m packed_def idx_defs mask_numerals
    by (rule bit_word_eqI) (auto simp: bit_simps)
  show "ucast (drop_bit 16 packed) = x"
  proof (rule bit_word_eqI)
    fix n assume "n < LENGTH(8)"
    then show "bit (ucast (drop_bit 16 packed) :: octet) n = bit x n"
    proof (cases "n < 2")
      case True
      then show ?thesis unfolding packed_def idx_defs mask_numerals by (auto simp: bit_simps)
    next
      case False
      then obtain k where k: "n = k + 2" using le_Suc_ex [of 2 n] by (auto simp: not_less add.commute)
      then show ?thesis using \<open>n < LENGTH(8)\<close> unfolding packed_def idx_defs mask_numerals by (auto simp: bit_simps)
    qed
  qed
  show "ucast (drop_bit 8 packed) = y" unfolding packed_def idx_defs mask_numerals
    by (rule bit_word_eqI) (auto simp: bit_simps)
  show "ucast packed = z" unfolding packed_def idx_defs mask_numerals
    by (rule bit_word_eqI) (auto simp: bit_simps)
qed

lemma Decode_four:
  "DecodeThreeChars [b64_char (idx0 x), b64_char (idx1 x y), b64_char (idx2 y z), b64_char (idx3 z)] = Inr [x, y, z]"
  using pack_bytes [of x y z] by (simp add: DecodeThreeChars_def Convert_b64_char idx_less)

lemma idx_zero: "push_bit 4 (as_int x AND 0x03) = idx1 x 0" "push_bit 2 (as_int y AND 0x0F) = idx2 y 0" "idx2 0 0 = 0" "idx3 0 = 0"
  by (simp_all add: idx_defs)

lemma Encode_tail:
  "Encode_blocks pad [x, y] = [b64_char (idx0 x), b64_char (idx1 x y), b64_char (idx2 y 0)] @ (if pad then [kPadChar] else [])"
  "Encode_blocks pad [x] = [b64_char (idx0 x), b64_char (idx1 x 0)] @ (if pad then [kPadChar, kPadChar] else [])"
  by (simp_all only: Encode_blocks.simps idx_zero)

declare Encode_blocks.simps(2,3) [simp del] Encode_tail [simp]

lemma letter_A: "kBase64UrlSafeChars ! 0 = b64_char 0"
  by (simp add: b64_char_def)

lemma Decode_blocks_step:
  "length b64 > 4 \<Longrightarrow> DecodeThreeChars (take 4 b64) = Inr r \<Longrightarrow> Decode_blocks b64 out = Decode_blocks (drop 4 b64) (out @ r)"
  by (subst Decode_blocks.simps) simp

lemma Decode_blocks_stop: "length b64 \<le> 4 \<Longrightarrow> Decode_blocks b64 out = Inr (out, b64)"
  by (subst Decode_blocks.simps) simp

lemma length_Encode_blocks:
  "length (Encode_blocks pad s) = (if pad then 4 * ((length s + 2) div 3) else (4 * length s + 2) div 3)"
proof (induction pad s rule: Encode_blocks.induct)
  case (1 pad x y z data)
  have "(4 * length data + 14) div 3 = (4 * length data + 2) div 3 + 4" "(length data + 5) div 3 = (length data + 2) div 3 + 1"
    by presburger+
  then show ?case using 1 by (simp add: add.commute)
qed auto

lemma Encode_blocks_ne: "s \<noteq> [] \<Longrightarrow> Encode_blocks pad s \<noteq> []"
  by (cases "(pad, s)" rule: Encode_blocks.cases) auto

text \<open>The loop decodes the blocks before the last one.\<close>

lemma Decode_Encode_blocks:
  "s \<noteq> [] \<Longrightarrow> \<exists>f l. s = f @ l \<and> l \<noteq> [] \<and> length l \<le> 3 \<and> 4 * length f \<le> 3 * length (Encode_blocks pad s) - 3
     \<and> length f mod 3 = 0 \<and> Decode_blocks (Encode_blocks pad s) out = Inr (out @ f, Encode_blocks pad l)"
proof (induction pad s arbitrary: out rule: Encode_blocks.induct)
  case (1 pad x y z data)
  show ?case
  proof (cases "data = []")
    case True
    then show ?thesis by (intro exI [of _ "[]"] exI [of _ "[x, y, z]"]) (simp add: Decode_blocks_stop)
  next
    case False
    then obtain f l where fl: "data = f @ l" "l \<noteq> []" "length l \<le> 3" "4 * length f \<le> 3 * length (Encode_blocks pad data) - 3"
      "length f mod 3 = 0"
      "Decode_blocks (Encode_blocks pad data) (out @ [x, y, z]) = Inr ((out @ [x, y, z]) @ f, Encode_blocks pad l)"
      using "1.IH" [OF False, of "out @ [x, y, z]"] by (elim exE conjE) (rule that)
    have "Decode_blocks (Encode_blocks pad (x # y # z # data)) out = Decode_blocks (Encode_blocks pad data) (out @ [x, y, z])"
      using Encode_blocks_ne [OF False] Decode_four [of x y z]
        Decode_blocks_step [of "Encode_blocks pad (x # y # z # data)" "[x, y, z]" out] by simp
    moreover have "3 * length (Encode_blocks pad data) - 3 + 12 = 3 * length (Encode_blocks pad (x # y # z # data)) - 3"
      using Encode_blocks_ne [OF False] by (cases "Encode_blocks pad data") auto
    then have "4 * length (x # y # z # f) \<le> 3 * length (Encode_blocks pad (x # y # z # data)) - 3" using fl(4) by simp
    moreover have "length (x # y # z # f) mod 3 = 0" using fl(5) by simp
    ultimately show ?thesis using fl(1,2,3,6) by (intro exI [of _ "x # y # z # f"] exI [of _ l]) auto
  qed
next
  case (2 pad x y)
  show ?case by (intro exI [of _ "[]"] exI [of _ "[x, y]"]) (simp add: Decode_blocks_stop)
next
  case (3 pad x)
  show ?case by (intro exI [of _ "[]"] exI [of _ "[x]"]) (simp add: Decode_blocks_stop)
qed simp

lemma Decode_tail:
  fixes pad :: bool
  assumes "l \<noteq> []" and "length l \<le> 3"
  defines "n \<equiv> Decode_remain (Encode_blocks pad l)"
  shows "n \<noteq> 1 \<and> (\<exists>r. DecodeThreeChars (take n (Encode_blocks pad l) @ replicate (4 - n) (kBase64UrlSafeChars ! 0)) = Inr r
    \<and> take (n - 1) r = l)"
proof -
  consider x where "l = [x]" | x y where "l = [x, y]" | x y z where "l = [x, y, z]"
    using assms(1,2) by (cases l rule: remdups_adj.cases) (auto simp: le_Suc_eq length_Suc_conv numeral_3_eq_3)
  then show ?thesis
  proof cases
    case (1 x)
    then show ?thesis using Decode_four [of x 0 0]
      by (cases pad) (auto simp: n_def Decode_remain_def idx_zero letter_A numeral_2_eq_2)
  next
    case (2 x y)
    then show ?thesis using Decode_four [of x y 0] idx_less Convert_b64_char(2)
      by (cases pad) (auto simp: n_def Decode_remain_def idx_zero letter_A numeral_3_eq_3 numeral_2_eq_2)
  next
    case (3 x y z)
    then show ?thesis using Decode_four [of x y z] idx_less Convert_b64_char(2) by (auto simp: n_def Decode_remain_def)
  qed
qed

section \<open>Invalid characters\<close>

lemma table_codes:
  "list_all (\<lambda>(i, b). b = 255 \<or> i \<in> set kBase64UrlSafeChars) (zip (map of_nat [0..<128]) kBase64Bytes)"
proof -
  have u: "[0..<128] = [0, 1, 2, 3, 4, 5, 6, 7, 8, 9, 10, 11, 12, 13, 14, 15,
     16, 17, 18, 19, 20, 21, 22, 23, 24, 25, 26, 27, 28, 29, 30, 31,
     32, 33, 34, 35, 36, 37, 38, 39, 40, 41, 42, 43, 44, 45, 46, 47,
     48, 49, 50, 51, 52, 53, 54, 55, 56, 57, 58, 59, 60, 61, 62, 63,
     64, 65, 66, 67, 68, 69, 70, 71, 72, 73, 74, 75, 76, 77, 78, 79,
     80, 81, 82, 83, 84, 85, 86, 87, 88, 89, 90, 91, 92, 93, 94, 95,
     96, 97, 98, 99, 100, 101, 102, 103, 104, 105, 106, 107, 108, 109, 110, 111,
     112, 113, 114, 115, 116, 117, 118, 119, 120, 121, 122, 123, 124, 125, 126, 127]"
    by code_simp
  show ?thesis unfolding u alphabet_numerals kBase64Bytes_def by simp
qed

lemma Convert_invalid:
  assumes "x \<notin> set kBase64UrlSafeChars" and "7 \<le> n" and "n < 32"
  shows "bit (Convert x) n"
proof -
  let ?i = "unat (x AND 0x7F)"
  have e: "(0x7F :: octet) = mask 7" "(0x80 :: octet) = push_bit 7 1" by (simp_all add: mask_eq_exp_minus_1)
  have len: "length kBase64Bytes = 128" by (simp add: kBase64Bytes_def)
  have "x AND 0x7F \<le> 0x7F" by (rule word_and_le1)
  then have i: "?i < 128" by (simp add: word_le_nat_alt)
  have "bit (kBase64Bytes ! ?i OR (x AND 0x80)) 7"
  proof (cases "bit x 7")
    case True
    then show ?thesis unfolding e by (simp add: bit_simps)
  next
    case False
    have "x AND 0x7F = x" unfolding e
    proof (rule bit_word_eqI)
      fix k assume "k < LENGTH(8)"
      then show "bit (x AND mask 7) k = bit x k" using False by (cases "k = 7") (auto simp: bit_simps)
    qed
    then have "(of_nat ?i :: octet) \<notin> set kBase64UrlSafeChars" using assms(1) by simp
    moreover have "kBase64Bytes ! ?i = 255 \<or> (of_nat ?i :: octet) \<in> set kBase64UrlSafeChars"
      using table_codes i len by (auto simp: list_all_length)
    ultimately show ?thesis by (simp add: bit_simps)
  qed
  then show ?thesis using assms(2,3) by (simp add: Convert_def Let_def bit_simps min_def)
qed

lemma DecodeThreeChars_valid:
  assumes "DecodeThreeChars codes = Inr r" and "i < 4"
  shows "codes ! i \<in> set kBase64UrlSafeChars" and "length r = 3"
proof -
  let ?p = "push_bit 18 (Convert (codes ! 0)) OR push_bit 12 (Convert (codes ! 1)) OR push_bit 6 (Convert (codes ! 2)) OR Convert (codes ! 3)"
  have p: "?p AND 0xFF000000 = 0" using assms(1) by (simp add: DecodeThreeChars_def Let_def split: if_splits)
  have m: "(0xFF000000 :: 32 word) = push_bit 24 (mask 8)" by (simp add: mask_eq_exp_minus_1)
  have "\<not> bit (?p AND 0xFF000000) 31" using p by simp
  then have b: "\<not> bit ?p 31" unfolding m by (simp add: bit_simps)
  have "i = 0 \<or> i = 1 \<or> i = 2 \<or> i = 3" using assms(2) by auto
  then show "codes ! i \<in> set kBase64UrlSafeChars"
    using b Convert_invalid [of "codes ! i" 13] Convert_invalid [of "codes ! i" 19] Convert_invalid [of "codes ! i" 25]
      Convert_invalid [of "codes ! i" 31] by (auto simp: bit_simps)
  show "length r = 3" using assms(1) by (auto simp: DecodeThreeChars_def Let_def split: if_splits)
qed

lemma Decode_blocks_valid:
  "Decode_blocks b64 out = Inr (out', rest) \<Longrightarrow>
   \<exists>f. b64 = f @ rest \<and> set f \<subseteq> set kBase64UrlSafeChars \<and> length rest \<le> 4 \<and> (b64 \<noteq> [] \<longrightarrow> rest \<noteq> [])
     \<and> 4 * (length out' - length out) = 3 * length f \<and> length out \<le> length out'"
proof (induction b64 out rule: Decode_blocks.induct)
  case (1 b64 out)
  show ?case
  proof (cases "length b64 > 4")
    case False
    then show ?thesis using "1.prems" Decode_blocks_stop [of b64 out] by (intro exI [of _ "[]"]) auto
  next
    case True
    then obtain r where r: "DecodeThreeChars (take 4 b64) = Inr r" "Decode_blocks (drop 4 b64) (out @ r) = Inr (out', rest)"
      using "1.prems" by (subst (asm) Decode_blocks.simps) (auto split: sum.splits)
    obtain f where f: "drop 4 b64 = f @ rest" "set f \<subseteq> set kBase64UrlSafeChars" "length rest \<le> 4" "drop 4 b64 \<noteq> [] \<longrightarrow> rest \<noteq> []"
      "4 * (length out' - length (out @ r)) = 3 * length f" "length (out @ r) \<le> length out'"
      using "1.IH" [OF True r] by blast
    have v: "take 4 b64 ! i \<in> set kBase64UrlSafeChars" "length r = 3" if "i < 4" for i
      using DecodeThreeChars_valid [OF r(1) that] by blast+
    have "set (take 4 b64) \<subseteq> set kBase64UrlSafeChars" using v(1) True by (auto simp: in_set_conv_nth)
    moreover have "b64 = (take 4 b64 @ f) @ rest" using f(1) append_take_drop_id [of 4 b64] by simp
    moreover have "4 * (length out' - length out) = 3 * length (take 4 b64 @ f)" using f(5,6) v(2) [of 0] True by simp
    ultimately show ?thesis using f True by (intro exI [of _ "take 4 b64 @ f"]) auto
  qed
qed

lemma Decode_remain_le: "Decode_remain b64 \<le> length b64"
  by (auto simp: Decode_remain_def)

lemma pads_only: "length b64 \<le> 4 \<Longrightarrow> Decode_remain b64 \<le> i \<Longrightarrow> i < length b64 \<Longrightarrow> b64 ! i = kPadChar"
proof -
  assume a: "length b64 \<le> 4" "Decode_remain b64 \<le> i" "i < length b64"
  then have "length b64 = 4" by (auto simp: Decode_remain_def split: if_splits)
  moreover from this have "2 \<le> i" "i < 4" using a by (auto simp: Decode_remain_def split: if_splits)
  then have "i = 2 \<or> i = 3" by auto
  ultimately show ?thesis using a by (elim disjE) (auto simp: Decode_remain_def split: if_splits)
qed

lemma Base64Decode_accepts:
  assumes "Base64Decode data = Inr (Inr out)" and "c \<in> set data"
  shows "c \<in> set kBase64UrlSafeChars \<or> c = kPadChar"
proof -
  have ne: "data \<noteq> []" using assms(2) by auto
  obtain out' b64 where b: "Decode_blocks data [] = Inr (out', b64)"
    using assms(1) ne by (auto simp: Base64Decode_def Let_def split: sum.splits)
  let ?n = "Decode_remain b64"
  let ?t = "take ?n b64 @ replicate (4 - ?n) (kBase64UrlSafeChars ! 0)"
  obtain f where f: "data = f @ b64" "set f \<subseteq> set kBase64UrlSafeChars" "length b64 \<le> 4" using Decode_blocks_valid [OF b] by blast
  obtain r where r: "DecodeThreeChars ?t = Inr r"
    using assms(1) ne b by (auto simp: Base64Decode_def Let_def split: sum.splits if_splits)
  have "b64 ! i \<in> set kBase64UrlSafeChars \<or> b64 ! i = kPadChar" if i: "i < length b64" for i
  proof (cases "i < ?n")
    case True
    then have "?t ! i = b64 ! i" using i by (simp add: nth_append)
    moreover have "i < 4" using i f(3) by simp
    ultimately show ?thesis using DecodeThreeChars_valid(1) [OF r, of i] by simp
  next
    case False
    then show ?thesis using pads_only [of b64 i] i f(3) by simp
  qed
  then show ?thesis using assms(2) f by (auto simp: in_set_conv_nth subset_iff)
qed

lemma Base64Decode_total: "\<exists>r. Base64Decode data = Inr r"
proof (cases "Decode_blocks data []")
  case (Inr p)
  obtain out b64 where p: "p = (out, b64)" by fastforce
  obtain f where "data = f @ b64" "data \<noteq> [] \<longrightarrow> b64 \<noteq> []" "4 * length out = 3 * length f"
    using Decode_blocks_valid [of data "[]" out b64] Inr p by auto
  then have "length out \<le> 3 * (length data div 4)" by simp presburger
  then show ?thesis using Inr p by (auto simp: Base64Decode_def Let_def split: sum.splits)
qed (simp add: Base64Decode_def)

lemma Base64Encode_total: "Base64Encode s pad = Inr (Encode_blocks pad s)"
proof -
  have "length (Encode_blocks pad s) \<le> 4 * (length s div 3) + 4" unfolding length_Encode_blocks by (cases pad) (simp; presburger)+
  then show ?thesis by (simp add: Base64Encode_def Let_def)
qed

lemma Base64_decode_encode: "Base64Decode (Encode_blocks pad s) = Inr (Inr s)"
proof (cases "s = []")
  case False
  let ?e = "Encode_blocks pad s"
  obtain f l where fl: "s = f @ l" "l \<noteq> []" "length l \<le> 3" "4 * length f \<le> 3 * length ?e - 3" "length f mod 3 = 0"
    "Decode_blocks ?e [] = Inr ([] @ f, Encode_blocks pad l)"
    using Decode_Encode_blocks [OF False, of pad "[]"] by (elim exE conjE) (rule that)
  let ?n = "Decode_remain (Encode_blocks pad l)"
  obtain r where r: "?n \<noteq> 1" "DecodeThreeChars (take ?n (Encode_blocks pad l) @ replicate (4 - ?n) (kBase64UrlSafeChars ! 0)) = Inr r"
    "take (?n - 1) r = l" using Decode_tail [OF fl(2,3), of pad] by (elim conjE exE) (rule that)
  obtain k where k: "length f = 3 * k" using fl(5) by (metis mod_0_imp_dvd dvdE)
  then have "k * 4 \<le> length ?e" using fl(4) by linarith
  then have "k \<le> length ?e div 4" by (simp add: less_eq_div_iff_mult_less_eq)
  then have "length f \<le> 3 * (length ?e div 4)" using k by simp
  then show ?thesis using r fl(1,6) Encode_blocks_ne [OF False] by (simp add: Base64Decode_def Let_def)
qed (simp add: Base64Decode_def)

text \<open>
  C31. Base64.  Encoding never overflows its buffer and gives the documented number of
  characters; decoding an encoding, padded or not, gives the source back.  Decoding is defined
  on every input, never overflows its buffer, and accepts only letters of the URL-safe alphabet
  and padding characters.
\<close>

theorem Base64_roundtrip:
  "(\<exists>e. Base64Encode s pad = Inr e \<and> Base64Decode e = Inr (Inr s)
      \<and> length e = (if pad then 4 * ((length s + 2) div 3) else (4 * length s + 2) div 3))
   \<and> (\<exists>r. Base64Decode data = Inr r)
   \<and> (\<forall>out. Base64Decode data = Inr (Inr out) \<longrightarrow> set data \<subseteq> insert kPadChar (set kBase64UrlSafeChars))"
  using Base64Encode_total [of s pad] Base64_decode_encode [of pad s] length_Encode_blocks [of pad s] Base64Decode_total [of data]
    Base64Decode_accepts [of data] by auto

theorem Base64_roundtrip_witness:
  "\<exists>e. Base64Encode [102, 111] True = Inr e \<and> Base64Decode e = Inr (Inr [102, 111]) \<and> length e = 4
     \<and> set e \<subseteq> insert kPadChar (set kBase64UrlSafeChars)"
proof -
  obtain e where e: "Base64Encode [102, 111] True = Inr e" "Base64Decode e = Inr (Inr [102, 111])" "length e = 4"
    using Base64_roundtrip [of "[102, 111]" True "[]"] by auto
  then show ?thesis using Base64_roundtrip [of "[]" True e] by auto
qed

end
