(* ===== verification/Bit_Map.thy ===== *)
theory Bit_Map
  imports Prelude "HOL-Library.Code_Target_Numeral"
begin

unbundle bit_operations_syntax

text \<open>
  \<open>bitmap.h\<close> and \<open>bitmap.cpp\<close>: the class \<open>Bitmap\<close> over 32-bit words, the \<open>bit_array\<close> routines over 64-bit words
  and the class \<open>DynamicBitset\<close>.  An array is the list of its words and every access to it is
  checked.  Sizes and positions are \<open>uint64_t\<close> values used without overflow.  The mask of
  \<open>FirstUnset\<close> is written \<open>msk\<close>.
\<close>

section \<open>Bitmap\<close>

record Bitmap =
  bm_nbits :: nat
  bm_word :: "32 word list"

definition kBits :: nat where
  "kBits = 32"

definition NumWords :: "nat \<Rightarrow> nat" where
  "NumWords n = (n + kBits - 1) div kBits"

definition Bitmap_Mask :: "nat \<Rightarrow> 32 word" where
  "Bitmap_Mask i = push_bit i 1"

definition Bitmap_empty :: Bitmap where
  "Bitmap_empty = \<lparr>bm_nbits = 0, bm_word = []\<rparr>"

definition Bitmap_Reset :: "nat \<Rightarrow> Bitmap \<Rightarrow> Bitmap result" where
  "Bitmap_Reset n bm =
     (let num_words = NumWords n;
          w = (if num_words \<noteq> NumWords (bm_nbits bm) then replicate num_words 0 else bm_word bm)
      in if num_words > length w then Inl OutOfBounds
         else Inr \<lparr>bm_nbits = n, bm_word = replicate num_words 0 @ drop num_words w\<rparr>)"

definition Bitmap_new :: "nat \<Rightarrow> Bitmap result" where
  "Bitmap_new n = Bitmap_Reset n Bitmap_empty"

definition word_at :: "Bitmap \<Rightarrow> nat \<Rightarrow> 32 word result" where
  "word_at bm i = (if i < length (bm_word bm) then Inr (bm_word bm ! i) else Inl OutOfBounds)"

definition Bitmap_get :: "Bitmap \<Rightarrow> nat \<Rightarrow> bool result" where
  "Bitmap_get bm i = ub_bind (word_at bm (i div kBits)) (\<lambda>w. Inr (w AND Bitmap_Mask (i mod kBits) \<noteq> 0))"

definition Bitmap_set :: "nat \<Rightarrow> Bitmap \<Rightarrow> Bitmap result" where
  "Bitmap_set i bm =
     ub_bind (word_at bm (i div kBits)) (\<lambda>w.
     Inr (bm\<lparr>bm_word := (bm_word bm)[i div kBits := w OR Bitmap_Mask (i mod kBits)]\<rparr>))"

definition Bitmap_clear :: "nat \<Rightarrow> Bitmap \<Rightarrow> Bitmap result" where
  "Bitmap_clear i bm =
     ub_bind (word_at bm (i div kBits)) (\<lambda>w.
     Inr (bm\<lparr>bm_word := (bm_word bm)[i div kBits := w AND NOT (Bitmap_Mask (i mod kBits))]\<rparr>))"

definition kLowestBitSet :: "nat list" where
  "kLowestBitSet =
    [0, 1, 2, 1, 3, 1, 2, 1, 4, 1, 2, 1, 3, 1, 2, 1,
     5, 1, 2, 1, 3, 1, 2, 1, 4, 1, 2, 1, 3, 1, 2, 1,
     6, 1, 2, 1, 3, 1, 2, 1, 4, 1, 2, 1, 3, 1, 2, 1,
     5, 1, 2, 1, 3, 1, 2, 1, 4, 1, 2, 1, 3, 1, 2, 1,
     7, 1, 2, 1, 3, 1, 2, 1, 4, 1, 2, 1, 3, 1, 2, 1,
     5, 1, 2, 1, 3, 1, 2, 1, 4, 1, 2, 1, 3, 1, 2, 1,
     6, 1, 2, 1, 3, 1, 2, 1, 4, 1, 2, 1, 3, 1, 2, 1,
     5, 1, 2, 1, 3, 1, 2, 1, 4, 1, 2, 1, 3, 1, 2, 1,
     8, 1, 2, 1, 3, 1, 2, 1, 4, 1, 2, 1, 3, 1, 2, 1,
     5, 1, 2, 1, 3, 1, 2, 1, 4, 1, 2, 1, 3, 1, 2, 1,
     6, 1, 2, 1, 3, 1, 2, 1, 4, 1, 2, 1, 3, 1, 2, 1,
     5, 1, 2, 1, 3, 1, 2, 1, 4, 1, 2, 1, 3, 1, 2, 1,
     7, 1, 2, 1, 3, 1, 2, 1, 4, 1, 2, 1, 3, 1, 2, 1,
     5, 1, 2, 1, 3, 1, 2, 1, 4, 1, 2, 1, 3, 1, 2, 1,
     6, 1, 2, 1, 3, 1, 2, 1, 4, 1, 2, 1, 3, 1, 2, 1,
     5, 1, 2, 1, 3, 1, 2, 1, 4, 1, 2, 1, 3, 1, 2, 1]"

definition FindFirstSet :: "32 word \<Rightarrow> nat" where
  "FindFirstSet w =
     (if w AND 0xff \<noteq> 0 then kLowestBitSet ! unat (w AND 0xff)
      else if drop_bit 8 w AND 0xff \<noteq> 0 then kLowestBitSet ! unat (drop_bit 8 w AND 0xff) + 8
      else if drop_bit 16 w AND 0xff \<noteq> 0 then kLowestBitSet ! unat (drop_bit 16 w AND 0xff) + 16
      else if drop_bit 24 w AND 0xff \<noteq> 0 then kLowestBitSet ! unat (drop_bit 24 w AND 0xff) + 24
      else 0)"

text \<open>The loop of \<open>FirstUnset\<close>; \<open>msk\<close> is the 64-bit mask, cut to the width of a word by the store.\<close>

function FirstUnset_loop :: "Bitmap \<Rightarrow> nat \<Rightarrow> nat \<Rightarrow> 64 word \<Rightarrow> nat result" where
  "FirstUnset_loop bm nwords i msk =
     (if i < nwords then
        ub_bind (word_at bm i) (\<lambda>w.
          let word = w OR ucast msk;
              r = FindFirstSet (NOT word)
          in if r \<noteq> 0 then
               (let result = i * kBits + (r - 1)
                in Inr (if result > bm_nbits bm then bm_nbits bm else result))
             else FirstUnset_loop bm nwords (i + 1) 0)
      else Inr (bm_nbits bm))"
  by pat_completeness auto
termination
  by (relation "measure (\<lambda>(bm, nwords, i, msk). nwords - i)") auto

declare FirstUnset_loop.simps [simp del]

definition FirstUnset :: "Bitmap \<Rightarrow> nat \<Rightarrow> nat result" where
  "FirstUnset bm start =
     (if start \<ge> bm_nbits bm then Inr (bm_nbits bm)
      else FirstUnset_loop bm (NumWords (bm_nbits bm)) (start div kBits) (push_bit (start mod kBits) 1 - 1))"

primrec ToString_loop :: "Bitmap \<Rightarrow> nat \<Rightarrow> nat \<Rightarrow> string result" where
  "ToString_loop bm i 0 = Inr []"
| "ToString_loop bm i (Suc k) =
     ub_bind (Bitmap_get bm i) (\<lambda>b. ub_bind (ToString_loop bm (i + 1) k) (\<lambda>s. Inr ((if b then CHR ''1'' else CHR ''0'') # s)))"

definition Bitmap_ToString :: "Bitmap \<Rightarrow> string result" where
  "Bitmap_ToString bm = ToString_loop bm 0 (bm_nbits bm)"

section \<open>Bit arrays\<close>

definition arr_at :: "64 word list \<Rightarrow> nat \<Rightarrow> 64 word result" where
  "arr_at a i = (if i < length a then Inr (a ! i) else Inl OutOfBounds)"

definition bit_array_words :: "nat \<Rightarrow> nat" where
  "bit_array_words nbit = (nbit + 63) div 64"

definition bit_array_clear :: "64 word list \<Rightarrow> nat \<Rightarrow> 64 word list result" where
  "bit_array_clear a nbit =
     (let off = nbit div 64; lst = off * 64
      in if off > length a then Inl OutOfBounds
         else let a = replicate off 0 @ drop off a
              in if lst \<noteq> nbit then
                   ub_bind (arr_at a off) (\<lambda>w. Inr (a[off := w AND NOT (push_bit (nbit - lst) 1 - 1)]))
                 else Inr a)"

definition bit_array_set :: "64 word list \<Rightarrow> nat \<Rightarrow> 64 word list result" where
  "bit_array_set a i =
     (let off = i div 64 in ub_bind (arr_at a off) (\<lambda>w. Inr (a[off := w OR push_bit (i - off * 64) 1])))"

definition bit_array_unset :: "64 word list \<Rightarrow> nat \<Rightarrow> 64 word list result" where
  "bit_array_unset a i =
     (let off = i div 64 in ub_bind (arr_at a off) (\<lambda>w. Inr (a[off := w AND NOT (push_bit (i - off * 64) 1)])))"

definition bit_array_get :: "64 word list \<Rightarrow> nat \<Rightarrow> 64 word result" where
  "bit_array_get a i =
     (let off = i div 64 in ub_bind (arr_at a off) (\<lambda>w. Inr (w AND push_bit (i - off * 64) 1)))"

section \<open>DynamicBitset\<close>

type_synonym DynamicBitset = "bool list"

primrec reset_loop :: "nat \<Rightarrow> nat \<Rightarrow> DynamicBitset \<Rightarrow> DynamicBitset" where
  "reset_loop i 0 s = s"
| "reset_loop i (Suc k) s = reset_loop (i + 1) k (s[i := False])"

definition DynamicBitset_reset :: "DynamicBitset \<Rightarrow> DynamicBitset" where
  "DynamicBitset_reset s = reset_loop 0 (length s) s"

definition DynamicBitset_set :: "nat \<Rightarrow> bool \<Rightarrow> DynamicBitset \<Rightarrow> DynamicBitset" where
  "DynamicBitset_set pos val s = (if pos < length s then s[pos := val] else s)"

definition DynamicBitset_test :: "nat \<Rightarrow> DynamicBitset \<Rightarrow> bool" where
  "DynamicBitset_test pos s = (if pos < length s then s ! pos else False)"

primrec DynamicBitset_all :: "DynamicBitset \<Rightarrow> bool" where
  "DynamicBitset_all [] = True"
| "DynamicBitset_all (b # bs) = (if \<not> b then False else DynamicBitset_all bs)"

primrec DynamicBitset_any :: "DynamicBitset \<Rightarrow> bool" where
  "DynamicBitset_any [] = False"
| "DynamicBitset_any (b # bs) = (if b then True else DynamicBitset_any bs)"

definition DynamicBitset_resize :: "nat \<Rightarrow> DynamicBitset \<Rightarrow> DynamicBitset" where
  "DynamicBitset_resize new_size s =
     (let old_size = length s;
          s = take new_size s @ replicate (new_size - old_size) False
      in reset_loop old_size (length s - old_size) s)"

section \<open>The lowest set bit\<close>

text \<open>\<open>first_bit n w\<close>: \<open>n\<close> is the position of the lowest set bit of \<open>w\<close>.\<close>

definition first_bit :: "nat \<Rightarrow> 'a :: semiring_bits \<Rightarrow> bool" where
  "first_bit n w \<longleftrightarrow> bit w n \<and> (\<forall>m < n. \<not> bit w m)"

fun lowest :: "nat \<Rightarrow> nat" where
  "lowest n = (if n = 0 then 0 else if odd n then 1 else 1 + lowest (n div 2))"

declare lowest.simps [simp del]

lemma lowest_first: "n \<noteq> 0 \<Longrightarrow> lowest n \<noteq> 0 \<and> first_bit (lowest n - 1) n"
proof (induction n rule: lowest.induct)
  case (1 n)
  show ?case
  proof (cases "odd n")
    case True
    then show ?thesis using 1 by (simp add: lowest.simps [of n] first_bit_def bit_0)
  next
    case False
    then have n: "n div 2 \<noteq> 0" using "1.prems" by (auto elim!: evenE)
    then have ih: "lowest (n div 2) \<noteq> 0" "first_bit (lowest (n div 2) - 1) (n div 2)" using 1 False by auto
    then obtain k where k: "lowest (n div 2) = Suc k" by (cases "lowest (n div 2)") auto
    have "first_bit (Suc k) n" using ih(2) k False
      by (auto simp: first_bit_def bit_Suc bit_0 less_Suc_eq_0_disj)
    then show ?thesis using False "1.prems" k by (simp add: lowest.simps [of n])
  qed
qed

lemma table_lowest: "kLowestBitSet = map lowest [0..<256]"
  by code_simp

lemma lowest_byte: "b \<noteq> 0 \<Longrightarrow> b < 256 \<Longrightarrow> kLowestBitSet ! b \<noteq> 0 \<and> first_bit (kLowestBitSet ! b - 1) b"
  using lowest_first [of b] by (simp add: table_lowest)

lemma and_ff_32: "(w :: 32 word) AND 0xff = take_bit 8 w"
  by (simp add: take_bit_eq_mask mask_eq_exp_minus_1)

lemma byte_step:
  fixes w :: "32 word"
  assumes z: "\<forall>m < k. \<not> bit w m" and nz: "drop_bit k w AND 0xff \<noteq> 0"
  shows "kLowestBitSet ! unat (drop_bit k w AND 0xff) \<noteq> 0
    \<and> first_bit (kLowestBitSet ! unat (drop_bit k w AND 0xff) + k - 1) w"
proof -
  let ?b = "take_bit 8 (drop_bit k w)"
  have "unat ?b = take_bit 8 (unat (drop_bit k w))" by (rule unsigned_take_bit_eq)
  then have "unat ?b < 256" using take_bit_nat_less_exp [of 8 "unat (drop_bit k w)"] by simp
  moreover have "unat ?b \<noteq> 0" using nz by (simp add: and_ff_32 unat_eq_0)
  ultimately have l: "kLowestBitSet ! unat ?b \<noteq> 0" "first_bit (kLowestBitSet ! unat ?b - 1) (unat ?b)" using lowest_byte by blast+
  then obtain n where n: "kLowestBitSet ! unat ?b = Suc n" by (cases "kLowestBitSet ! unat ?b") auto
  have f: "first_bit n ?b" using l(2) n by (simp add: first_bit_def bit_unsigned_iff [symmetric] bit_unsigned_iff)
  then have "bit w (k + n)" by (simp add: first_bit_def bit_simps)
  moreover have "\<not> bit w m" if "m < k + n" for m
  proof (cases "m < k")
    case False
    then have "m - k < n" using that by simp
    then have "\<not> bit ?b (m - k)" using f by (simp add: first_bit_def)
    moreover have "m - k < 8" using f \<open>m - k < n\<close> by (simp add: first_bit_def bit_simps)
    ultimately show ?thesis using False by (simp add: bit_simps)
  qed (use z in simp)
  ultimately show ?thesis using n l(1) by (simp add: and_ff_32 first_bit_def add.commute)
qed

lemma zero_byte:
  fixes w :: "32 word"
  assumes "\<forall>m < k. \<not> bit w m" and "drop_bit k w AND 0xff = 0"
  shows "\<forall>m < k + 8. \<not> bit w m"
proof (intro allI impI)
  fix m assume "m < k + 8"
  moreover have "\<not> bit (take_bit 8 (drop_bit k w)) (m - k)" using assms(2) by (simp add: and_ff_32)
  ultimately show "\<not> bit w m" using assms(1) by (cases "m < k") (auto simp: bit_simps)
qed

definition ffs_ok :: "32 word \<Rightarrow> nat \<Rightarrow> bool" where
  "ffs_ok w r \<longleftrightarrow> (if w = 0 then r = 0 else r \<noteq> 0 \<and> first_bit (r - 1) w)"

lemma byte_found:
  "\<forall>m < k. \<not> bit w m \<Longrightarrow> drop_bit k w AND 0xff \<noteq> 0 \<Longrightarrow> ffs_ok w (kLowestBitSet ! unat (drop_bit k w AND 0xff) + k)"
  using byte_step [of k w] by (auto simp: ffs_ok_def)

lemma FindFirstSet_spec: "ffs_ok w (FindFirstSet w)"
proof (cases "drop_bit 0 w AND 0xff = 0")
  case False
  then show ?thesis using byte_found [of 0 w] by (simp add: FindFirstSet_def)
next
  case a: True
  have z8: "\<forall>m < 8. \<not> bit w m" using zero_byte [OF _ a] by simp
  show ?thesis
  proof (cases "drop_bit 8 w AND 0xff = 0")
    case False
    then show ?thesis using byte_found [OF z8 False] a by (simp add: FindFirstSet_def)
  next
    case b: True
    have z16: "\<forall>m < 16. \<not> bit w m" using zero_byte [OF z8 b] by simp
    show ?thesis
    proof (cases "drop_bit 16 w AND 0xff = 0")
      case False
      then show ?thesis using byte_found [OF z16 False] a b by (simp add: FindFirstSet_def)
    next
      case c: True
      have z24: "\<forall>m < 24. \<not> bit w m" using zero_byte [OF z16 c] by simp
      show ?thesis
      proof (cases "drop_bit 24 w AND 0xff = 0")
        case False
        then show ?thesis using byte_found [OF z24 False] a b c by (simp add: FindFirstSet_def)
      next
        case d: True
        have "\<forall>m < 32. \<not> bit w m" using zero_byte [OF z24 d] by simp
        then have "w = 0" by (intro bit_word_eqI) simp
        then show ?thesis by (simp add: FindFirstSet_def ffs_ok_def)
      qed
    qed
  qed
qed

section \<open>A bitmap is a vector of bits\<close>

definition bm_ok :: "Bitmap \<Rightarrow> bool" where
  "bm_ok bm \<longleftrightarrow> length (bm_word bm) = NumWords (bm_nbits bm)"

definition bm_bit :: "Bitmap \<Rightarrow> nat \<Rightarrow> bool" where
  "bm_bit bm i = bit (bm_word bm ! (i div 32)) (i mod 32)"

definition bm_abs :: "Bitmap \<Rightarrow> bool list" where
  "bm_abs bm = map (bm_bit bm) [0..<bm_nbits bm]"

lemma NumWords_ge: "n \<le> 32 * NumWords n"
  by (simp add: NumWords_def kBits_def)

lemma NumWords_index: "i < n \<Longrightarrow> i div 32 < NumWords n"
  by (simp add: NumWords_def kBits_def)

lemma and_Mask: "(w AND Bitmap_Mask k \<noteq> 0) = bit w k" for w :: "32 word"
  using and_exp_eq_0_iff_not_bit [of w k] by (simp add: Bitmap_Mask_def)

lemma word_at_ok: "bm_ok bm \<Longrightarrow> i < bm_nbits bm \<Longrightarrow> word_at bm (i div 32) = Inr (bm_word bm ! (i div 32))"
  using NumWords_index by (simp add: bm_ok_def word_at_def)

lemma get_ok: "bm_ok bm \<Longrightarrow> i < bm_nbits bm \<Longrightarrow> Bitmap_get bm i = Inr (bm_bit bm i)"
  using and_Mask by (simp add: Bitmap_get_def kBits_def word_at_ok bm_bit_def)

lemma bm_bit_update:
  assumes "bm_ok bm" and "i < bm_nbits bm" and "\<And>k. k < 32 \<Longrightarrow> bit w k \<longleftrightarrow> (if k = i mod 32 then b else bit (bm_word bm ! (i div 32)) k)"
  shows "bm_abs (bm\<lparr>bm_word := (bm_word bm)[i div 32 := w]\<rparr>) = (bm_abs bm)[i := b]"
proof (rule nth_equalityI)
  fix j assume "j < length (bm_abs (bm\<lparr>bm_word := (bm_word bm)[i div 32 := w]\<rparr>))"
  then have j: "j < bm_nbits bm" by (simp add: bm_abs_def)
  have len: "i div 32 < length (bm_word bm)" using assms(1,2) NumWords_index by (simp add: bm_ok_def)
  have "i = j \<longleftrightarrow> i div 32 = j div 32 \<and> i mod 32 = j mod 32" by (metis div_mult_mod_eq)
  then have "bm_bit (bm\<lparr>bm_word := (bm_word bm)[i div 32 := w]\<rparr>) j = (if j = i then b else bm_bit bm j)"
    using assms(3) [of "j mod 32"] len by (auto simp: bm_bit_def nth_list_update)
  then show "bm_abs (bm\<lparr>bm_word := (bm_word bm)[i div 32 := w]\<rparr>) ! j = (bm_abs bm)[i := b] ! j"
    using j assms(2) by (simp add: bm_abs_def nth_list_update)
qed (simp add: bm_abs_def)

lemma set_ok:
  assumes "bm_ok bm" and "i < bm_nbits bm"
  shows "\<exists>bm'. Bitmap_set i bm = Inr bm' \<and> bm_ok bm' \<and> bm_nbits bm' = bm_nbits bm \<and> bm_abs bm' = (bm_abs bm)[i := True]"
    and "\<exists>bm'. Bitmap_clear i bm = Inr bm' \<and> bm_ok bm' \<and> bm_nbits bm' = bm_nbits bm \<and> bm_abs bm' = (bm_abs bm)[i := False]"
proof -
  let ?w = "bm_word bm ! (i div 32)"
  have "bit (?w OR Bitmap_Mask (i mod 32)) k \<longleftrightarrow> (if k = i mod 32 then True else bit ?w k)" if "k < 32" for k
    using that by (auto simp: Bitmap_Mask_def bit_simps)
  from bm_bit_update [OF assms this]
  show "\<exists>bm'. Bitmap_set i bm = Inr bm' \<and> bm_ok bm' \<and> bm_nbits bm' = bm_nbits bm \<and> bm_abs bm' = (bm_abs bm)[i := True]"
    using assms by (simp add: Bitmap_set_def kBits_def word_at_ok bm_ok_def)
  have "bit (?w AND NOT (Bitmap_Mask (i mod 32))) k \<longleftrightarrow> (if k = i mod 32 then False else bit ?w k)" if "k < 32" for k
    using that by (auto simp: Bitmap_Mask_def bit_simps)
  from bm_bit_update [OF assms this]
  show "\<exists>bm'. Bitmap_clear i bm = Inr bm' \<and> bm_ok bm' \<and> bm_nbits bm' = bm_nbits bm \<and> bm_abs bm' = (bm_abs bm)[i := False]"
    using assms by (simp add: Bitmap_clear_def kBits_def word_at_ok bm_ok_def)
qed

lemma Reset_ok:
  assumes "bm_ok bm"
  shows "\<exists>bm'. Bitmap_Reset n bm = Inr bm' \<and> bm_ok bm' \<and> bm_abs bm' = replicate n False"
proof -
  let ?w = "if NumWords n \<noteq> NumWords (bm_nbits bm) then replicate (NumWords n) 0 else bm_word bm"
  let ?bm = "\<lparr>bm_nbits = n, bm_word = replicate (NumWords n) 0\<rparr>"
  have "length ?w = NumWords n" using assms by (simp add: bm_ok_def)
  then have "Bitmap_Reset n bm = Inr ?bm" by (simp add: Bitmap_Reset_def Let_def)
  moreover have "bm_abs ?bm = replicate n False"
    by (rule nth_equalityI) (simp_all add: bm_abs_def bm_bit_def NumWords_index)
  ultimately show ?thesis by (simp add: bm_ok_def)
qed

lemma FirstUnset_loop_ok:
  assumes ok: "bm_ok bm" and "k < 32" and "ucast msk = (mask k :: 32 word)"
  shows "\<exists>r. FirstUnset_loop bm (NumWords (bm_nbits bm)) i msk = Inr r \<and> r \<le> bm_nbits bm
    \<and> (\<forall>j. 32 * i + k \<le> j \<and> j < r \<longrightarrow> bm_bit bm j) \<and> (r < bm_nbits bm \<longrightarrow> 32 * i + k \<le> r \<and> \<not> bm_bit bm r)"
  using assms(2,3)
proof (induction "NumWords (bm_nbits bm) - i" arbitrary: i k msk)
  case 0
  then have "32 * NumWords (bm_nbits bm) \<le> 32 * i" by simp
  then have "bm_nbits bm \<le> 32 * i" using NumWords_ge [of "bm_nbits bm"] by linarith
  then show ?case using 0 by (subst FirstUnset_loop.simps) auto
next
  case (Suc d)
  let ?w = "bm_word bm ! i" and ?n = "bm_nbits bm"
  let ?v = "NOT (?w OR mask k)"
  have i: "i < NumWords ?n" using Suc.hyps(2) by simp
  then have wa: "word_at bm i = Inr ?w" using ok by (simp add: word_at_def bm_ok_def)
  have bv: "bit ?v m \<longleftrightarrow> \<not> bit ?w m \<and> k \<le> m" if "m < 32" for m using that by (auto simp: bit_simps)
  have bb: "bm_bit bm (32 * i + m) = bit ?w m" if "m < 32" for m using that by (simp add: bm_bit_def)
  have ffs: "ffs_ok ?v (FindFirstSet ?v)" by (rule FindFirstSet_spec)
  show ?case
  proof (cases "FindFirstSet ?v")
    case 0
    then have "?v = 0" using ffs by (auto simp: ffs_ok_def split: if_splits)
    then have all: "bit ?w m" if "k \<le> m" "m < 32" for m using bv [of m] that by simp
    obtain r where r: "FirstUnset_loop bm (NumWords ?n) (Suc i) 0 = Inr r" "r \<le> ?n"
      "\<forall>j. 32 * Suc i + 0 \<le> j \<and> j < r \<longrightarrow> bm_bit bm j" "r < ?n \<longrightarrow> 32 * Suc i + 0 \<le> r \<and> \<not> bm_bit bm r"
    proof -
      have "d = NumWords ?n - Suc i" using Suc.hyps(2) by simp
      then have "\<exists>r. FirstUnset_loop bm (NumWords ?n) (Suc i) 0 = Inr r \<and> r \<le> ?n
        \<and> (\<forall>j. 32 * Suc i + 0 \<le> j \<and> j < r \<longrightarrow> bm_bit bm j) \<and> (r < ?n \<longrightarrow> 32 * Suc i + 0 \<le> r \<and> \<not> bm_bit bm r)"
        by (rule Suc.hyps(1)) simp_all
      then show thesis by (elim exE conjE) (rule that)
    qed
    have "bm_bit bm j" if "32 * i + k \<le> j" "j < r" for j
      using r(3) that bb [of "j - 32 * i"] all [of "j - 32 * i"] by (cases "j < 32 * Suc i") auto
    moreover have "FirstUnset_loop bm (NumWords ?n) i msk = Inr r"
      using r(1) i wa 0 Suc.prems(2) by (subst FirstUnset_loop.simps) simp
    ultimately show ?thesis using r(2,4) Suc.prems(1) by auto
  next
    case (Suc n)
    then have f: "first_bit n ?v" using ffs by (auto simp: ffs_ok_def split: if_splits)
    have n: "n < 32" using f bit_imp_le_length [of ?v n] by (simp add: first_bit_def)
    have nb: "k \<le> n" "\<not> bit ?w n" using f bv [OF n] by (simp_all add: first_bit_def)
    have set: "bit ?w m" if "k \<le> m" "m < n" for m using f bv [of m] that n by (simp add: first_bit_def)
    have "FirstUnset_loop bm (NumWords ?n) i msk = Inr (min (32 * i + n) ?n)"
      using i wa Suc Suc.prems(2) by (subst FirstUnset_loop.simps) (simp add: kBits_def min_def mult.commute)
    moreover have "bm_bit bm j" if "32 * i + k \<le> j" "j < min (32 * i + n) ?n" for j
      using that bb [of "j - 32 * i"] set [of "j - 32 * i"] n by auto
    moreover have "32 * i + k \<le> min (32 * i + n) ?n \<and> \<not> bm_bit bm (min (32 * i + n) ?n)" if "min (32 * i + n) ?n < ?n"
      using that nb bb [OF n] by (auto simp: min_def split: if_splits)
    ultimately show ?thesis by (intro exI [of _ "min (32 * i + n) ?n"]) auto
  qed
qed

lemma ToString_loop_ok:
  "bm_ok bm \<Longrightarrow> i + k \<le> bm_nbits bm \<Longrightarrow>
   ToString_loop bm i k = Inr (map (\<lambda>j. if bm_bit bm j then CHR ''1'' else CHR ''0'') [i..<i + k])"
proof (induction k arbitrary: i)
  case (Suc k)
  then show ?case using get_ok [of bm i] upt_conv_Cons [of i "i + Suc k"] by simp
qed simp

lemma start_mask: "k < 32 \<Longrightarrow> (ucast (push_bit k 1 - 1 :: 64 word) :: 32 word) = mask k"
proof -
  assume "k < 32"
  have "(push_bit k 1 - 1 :: 64 word) = mask k" by (simp add: mask_eq_exp_minus_1)
  then show ?thesis by (simp only:) (rule bit_word_eqI, auto simp: bit_simps)
qed

lemma FirstUnset_ok:
  assumes ok: "bm_ok bm"
  shows "\<exists>r. FirstUnset bm start = Inr r \<and> r \<le> bm_nbits bm \<and> (\<forall>j. start \<le> j \<and> j < r \<longrightarrow> bm_bit bm j)
    \<and> (r < bm_nbits bm \<longrightarrow> start \<le> r \<and> \<not> bm_bit bm r)"
proof (cases "start \<ge> bm_nbits bm")
  case True
  then show ?thesis by (auto simp: FirstUnset_def)
next
  case False
  have "32 * (start div 32) + start mod 32 = start" by simp
  then show ?thesis using FirstUnset_loop_ok [OF ok _ start_mask, of "start mod 32" "start div 32"] False
    by (simp add: FirstUnset_def kBits_def)
qed

section \<open>Bit arrays and dynamic bitsets\<close>

definition arr_bit :: "64 word list \<Rightarrow> nat \<Rightarrow> bool" where
  "arr_bit a i = bit (a ! (i div 64)) (i mod 64)"

lemma bit_index: "i - i div 64 * 64 = i mod 64" for i :: nat
  by (simp add: minus_div_mult_eq_mod)

lemma arr_update:
  assumes "i div 64 < length a" and "\<And>k. k < 64 \<Longrightarrow> bit w k \<longleftrightarrow> (if k = i mod 64 then b else bit (a ! (i div 64)) k)"
  shows "arr_bit (a[i div 64 := w]) j = (if j = i then b else arr_bit a j)"
proof -
  have "i = j \<longleftrightarrow> i div 64 = j div 64 \<and> i mod 64 = j mod 64" by (metis div_mult_mod_eq)
  then show ?thesis using assms(2) [of "j mod 64"] assms(1) by (auto simp: arr_bit_def nth_list_update)
qed

lemma bit_array_ops:
  assumes i: "i div 64 < length a"
  shows "\<exists>a'. bit_array_set a i = Inr a' \<and> length a' = length a \<and> (\<forall>j. arr_bit a' j = (if j = i then True else arr_bit a j))"
    and "\<exists>a'. bit_array_unset a i = Inr a' \<and> length a' = length a \<and> (\<forall>j. arr_bit a' j = (if j = i then False else arr_bit a j))"
    and "\<exists>w. bit_array_get a i = Inr w \<and> (w \<noteq> 0) = arr_bit a i"
proof -
  let ?w = "a ! (i div 64)"
  have "bit (?w OR push_bit (i mod 64) 1) k \<longleftrightarrow> (if k = i mod 64 then True else bit ?w k)" if "k < 64" for k
    using that by (auto simp: bit_simps)
  from arr_update [OF i this]
  show "\<exists>a'. bit_array_set a i = Inr a' \<and> length a' = length a \<and> (\<forall>j. arr_bit a' j = (if j = i then True else arr_bit a j))"
    using i by (simp add: bit_array_set_def Let_def arr_at_def bit_index)
  have "bit (?w AND NOT (push_bit (i mod 64) 1)) k \<longleftrightarrow> (if k = i mod 64 then False else bit ?w k)" if "k < 64" for k
    using that by (auto simp: bit_simps)
  from arr_update [OF i this]
  show "\<exists>a'. bit_array_unset a i = Inr a' \<and> length a' = length a \<and> (\<forall>j. arr_bit a' j = (if j = i then False else arr_bit a j))"
    using i by (simp add: bit_array_unset_def Let_def arr_at_def bit_index)
  show "\<exists>w. bit_array_get a i = Inr w \<and> (w \<noteq> 0) = arr_bit a i"
    using i and_exp_eq_0_iff_not_bit [of ?w "i mod 64"] by (simp add: bit_array_get_def Let_def arr_at_def bit_index arr_bit_def)
qed

lemma bit_array_clear_ok:
  assumes "bit_array_words nbit \<le> length a"
  shows "\<exists>a'. bit_array_clear a nbit = Inr a' \<and> length a' = length a
    \<and> (\<forall>j < 64 * length a. arr_bit a' j = (j \<ge> nbit \<and> arr_bit a j))"
proof -
  let ?off = "nbit div 64" and ?k = "nbit mod 64"
  let ?z = "replicate ?off 0 @ drop ?off a"
  let ?a = "if ?k \<noteq> 0 then ?z[?off := ?z ! ?off AND NOT (mask ?k)] else ?z"
  have "?off \<le> (nbit + 63) div 64" by (simp add: div_le_mono)
  then have off1: "?off \<le> length a" using assms by (simp add: bit_array_words_def)
  have off2: "?off < length a" if "?k \<noteq> 0"
  proof -
    have "1 \<le> ?k" using that by simp
    then have "Suc ?off * 64 \<le> nbit + 63" using div_mult_mod_eq [of nbit 64] unfolding mult_Suc by linarith
    then have "Suc ?off \<le> (nbit + 63) div 64" by (simp only: less_eq_div_iff_mult_less_eq)
    then show ?thesis using assms by (simp add: bit_array_words_def)
  qed
  note off = off1 off2
  have m: "(push_bit ?k 1 - 1 :: 64 word) = mask ?k" by (simp add: mask_eq_exp_minus_1)
  have lst: "?off * 64 \<noteq> nbit \<longleftrightarrow> ?k \<noteq> 0" using div_mult_mod_eq [of nbit 64] by linarith
  have "bit_array_clear a nbit = Inr ?a"
    using off1 off2 unfolding bit_array_clear_def Let_def lst bit_index m by (simp add: arr_at_def)
  moreover have "length ?a = length a" using off(1) by simp
  moreover have "arr_bit ?a j = (j \<ge> nbit \<and> arr_bit a j)" if "j < 64 * length a" for j
  proof -
    have d: "j div 64 < length a" using that by (simp add: less_mult_imp_div_less mult.commute)
    have z: "?z ! (j div 64) = (if j div 64 < ?off then 0 else a ! (j div 64))" using d off(1) by (auto simp: nth_append)
    consider "j div 64 < ?off" | "j div 64 = ?off" | "j div 64 > ?off" by linarith
    then show ?thesis
    proof cases
      case 1
      then have "j < nbit" by (metis div_le_mono leD leI)
      then show ?thesis using 1 z by (auto simp: arr_bit_def)
    next
      case 2
      then have "nbit \<le> j \<longleftrightarrow> ?k \<le> j mod 64" using div_mult_mod_eq [of nbit 64] div_mult_mod_eq [of j 64] by linarith
      then show ?thesis using 2 z d by (auto simp: arr_bit_def bit_simps not_less)
    next
      case 3
      then have "nbit \<le> j" by (metis div_le_mono leD nat_le_linear)
      then show ?thesis using 3 z by (auto simp: arr_bit_def)
    qed
  qed
  ultimately show ?thesis by blast
qed

lemma reset_loop_ok: "i + k \<le> length s \<Longrightarrow> reset_loop i k s = take i s @ replicate k False @ drop (i + k) s"
proof (induction k arbitrary: i s)
  case (Suc k)
  have "reset_loop (i + 1) k (s[i := False]) = take (i + 1) (s[i := False]) @ replicate k False @ drop (i + 1 + k) (s[i := False])"
    by (rule Suc.IH) (use Suc.prems in simp)
  then show ?case using Suc.prems by (simp add: take_Suc_conv_app_nth)
qed simp

lemma DynamicBitset_ok:
  "DynamicBitset_reset s = replicate (length s) False" "DynamicBitset_all s = list_all id s" "DynamicBitset_any s = list_ex id s"
  "DynamicBitset_resize n s = take n s @ replicate (n - length s) False"
proof -
  show "DynamicBitset_reset s = replicate (length s) False" by (simp add: DynamicBitset_reset_def reset_loop_ok)
  show "DynamicBitset_all s = list_all id s" "DynamicBitset_any s = list_ex id s" by (induction s) auto
  show "DynamicBitset_resize n s = take n s @ replicate (n - length s) False"
  proof (cases "length s \<le> n")
    case True
    then show ?thesis by (simp add: DynamicBitset_resize_def Let_def reset_loop_ok)
  qed (simp add: DynamicBitset_resize_def Let_def)
qed



end
