(* ===== verification/Latches.thy ===== *)
theory Latches
  imports Monitor
begin

text \<open>
  The waitable objects of \<open>locks_util.h\<close> that are built from a mutex and one condition variable:
  \<open>BlockingCounter\<close>, \<open>AutoResetEvent\<close>, \<open>ManualResetEvent\<close>, \<open>CountDownLatch\<close>, \<open>Notification\<close>,
  \<open>CThreadInterrupt\<close>, \<open>CondVarSem\<close> with its grants, and \<open>FutureResult\<close>.  Each method is its critical
  section in the thread model of \<open>Monitor\<close>.  Atomic flags that are also read or cleared outside the
  mutex are accessed in one step, as a critical section of its own.  \<open>SFail\<close> is a result for
  behaviour the language or an assertion rules out.
\<close>

section \<open>The classes\<close>

datatype one_cond = Cond

datatype sync_ret = SVoid | SBool bool | SCount "64 word" | SFail ub

type_synonym 's sync_outcome = "('s, sync_ret, one_cond) outcome"

subsection \<open>BlockingCounter\<close>

record BlockingCounter =
  bc_counter :: "64 word"

definition BlockingCounter_new :: "64 word \<Rightarrow> BlockingCounter" where
  "BlockingCounter_new n = \<lparr>bc_counter = n\<rparr>"

definition BlockingCounter_decrement :: "BlockingCounter \<Rightarrow> BlockingCounter sync_outcome" where
  "BlockingCounter_decrement s =
     (let n = bc_counter s - 1
      in Done (SBool (n = 0)) (s\<lparr>bc_counter := n\<rparr>) (if n = 0 then [Broadcast Cond] else []))"

definition BlockingCounter_reset :: "64 word \<Rightarrow> BlockingCounter \<Rightarrow> BlockingCounter sync_outcome" where
  "BlockingCounter_reset n s = Done SVoid (s\<lparr>bc_counter := n\<rparr>) []"

definition BlockingCounter_wait :: "BlockingCounter \<Rightarrow> BlockingCounter sync_outcome" where
  "BlockingCounter_wait s = (if bc_counter s \<noteq> 0 then Wait Cond s else Done SVoid s [])"

datatype bc_method = BCDecrement | BCReset "64 word" | BCWait

primrec BlockingCounter_call :: "bc_method \<Rightarrow> phase \<Rightarrow> BlockingCounter \<Rightarrow> BlockingCounter sync_outcome" where
  "BlockingCounter_call BCDecrement ph = BlockingCounter_decrement"
| "BlockingCounter_call (BCReset n) ph = BlockingCounter_reset n"
| "BlockingCounter_call BCWait ph = BlockingCounter_wait"

subsection \<open>AutoResetEvent\<close>

record AutoResetEvent =
  ar_signaled :: bool

definition AutoResetEvent_new :: AutoResetEvent where
  "AutoResetEvent_new = \<lparr>ar_signaled = False\<rparr>"

definition AutoResetEvent_wait :: "AutoResetEvent \<Rightarrow> AutoResetEvent sync_outcome" where
  "AutoResetEvent_wait s =
     (if \<not> ar_signaled s then Wait Cond s else Done SVoid (s\<lparr>ar_signaled := False\<rparr>) [])"

definition AutoResetEvent_waitFor :: "phase \<Rightarrow> AutoResetEvent \<Rightarrow> AutoResetEvent sync_outcome" where
  "AutoResetEvent_waitFor ph s =
     (if \<not> ar_signaled s \<and> ph = First then Wait Cond s
      else let ret = ar_signaled s in Done (SBool ret) (s\<lparr>ar_signaled := False\<rparr>) [])"

definition AutoResetEvent_tryWait :: "phase \<Rightarrow> AutoResetEvent \<Rightarrow> AutoResetEvent sync_outcome" where
  "AutoResetEvent_tryWait ph s = AutoResetEvent_waitFor ph s"

definition AutoResetEvent_set :: "AutoResetEvent \<Rightarrow> AutoResetEvent sync_outcome" where
  "AutoResetEvent_set s = Done SVoid (s\<lparr>ar_signaled := True\<rparr>) [Signal Cond]"

definition AutoResetEvent_reset :: "AutoResetEvent \<Rightarrow> AutoResetEvent sync_outcome" where
  "AutoResetEvent_reset s = Done SVoid (s\<lparr>ar_signaled := False\<rparr>) []"

datatype event_method = EWait | EWaitFor | ETryWait | ESet | EReset

primrec AutoResetEvent_call :: "event_method \<Rightarrow> phase \<Rightarrow> AutoResetEvent \<Rightarrow> AutoResetEvent sync_outcome" where
  "AutoResetEvent_call EWait ph = AutoResetEvent_wait"
| "AutoResetEvent_call EWaitFor ph = AutoResetEvent_waitFor ph"
| "AutoResetEvent_call ETryWait ph = AutoResetEvent_tryWait ph"
| "AutoResetEvent_call ESet ph = AutoResetEvent_set"
| "AutoResetEvent_call EReset ph = AutoResetEvent_reset"

subsection \<open>ManualResetEvent\<close>

record ManualResetEvent =
  mr_signaled :: bool

definition ManualResetEvent_wait :: "ManualResetEvent \<Rightarrow> ManualResetEvent sync_outcome" where
  "ManualResetEvent_wait s = (if \<not> mr_signaled s then Wait Cond s else Done SVoid s [])"

definition ManualResetEvent_waitFor :: "phase \<Rightarrow> ManualResetEvent \<Rightarrow> ManualResetEvent sync_outcome" where
  "ManualResetEvent_waitFor ph s =
     (if \<not> mr_signaled s \<and> ph = First then Wait Cond s else Done (SBool (mr_signaled s)) s [])"

definition ManualResetEvent_tryWait :: "phase \<Rightarrow> ManualResetEvent \<Rightarrow> ManualResetEvent sync_outcome" where
  "ManualResetEvent_tryWait ph s = ManualResetEvent_waitFor ph s"

definition ManualResetEvent_set :: "ManualResetEvent \<Rightarrow> ManualResetEvent sync_outcome" where
  "ManualResetEvent_set s = Done SVoid (s\<lparr>mr_signaled := True\<rparr>) [Broadcast Cond]"

definition ManualResetEvent_reset :: "ManualResetEvent \<Rightarrow> ManualResetEvent sync_outcome" where
  "ManualResetEvent_reset s = Done SVoid (s\<lparr>mr_signaled := False\<rparr>) []"

primrec ManualResetEvent_call :: "event_method \<Rightarrow> phase \<Rightarrow> ManualResetEvent \<Rightarrow> ManualResetEvent sync_outcome" where
  "ManualResetEvent_call EWait ph = ManualResetEvent_wait"
| "ManualResetEvent_call EWaitFor ph = ManualResetEvent_waitFor ph"
| "ManualResetEvent_call ETryWait ph = ManualResetEvent_tryWait ph"
| "ManualResetEvent_call ESet ph = ManualResetEvent_set"
| "ManualResetEvent_call EReset ph = ManualResetEvent_reset"

subsection \<open>CountDownLatch\<close>

text \<open>
  The error of \<open>pthread_cond_timedwait\<close> after a wait, and what \<open>CondVar::waitUtil\<close> and
  \<open>CondVar::waitFor\<close> make of it (any other error aborts the program).
\<close>

datatype wait_err = NoError | ETIMEDOUT

definition timedwait_err :: "phase \<Rightarrow> wait_err" where
  "timedwait_err ph = (if ph = TimedOut then ETIMEDOUT else NoError)"

definition CondVar_waitUtil :: "phase \<Rightarrow> bool" where
  "CondVar_waitUtil ph = (let err = timedwait_err ph in err = NoError \<or> err = ETIMEDOUT)"

definition CondVar_waitFor :: "phase \<Rightarrow> bool" where
  "CondVar_waitFor ph = (let err = timedwait_err ph in err = NoError \<or> err = ETIMEDOUT)"

record CountDownLatch =
  cl_count :: "64 word"

definition CountDownLatch_new :: "64 word \<Rightarrow> CountDownLatch" where
  "CountDownLatch_new count = \<lparr>cl_count = count\<rparr>"

definition CountDownLatch_countDown :: "64 word \<Rightarrow> CountDownLatch \<Rightarrow> CountDownLatch sync_outcome" where
  "CountDownLatch_countDown amount s =
     (if cl_count s = 0 then Done SVoid s []
      else let n = (if amount \<ge> cl_count s then 0 else cl_count s - amount)
           in Done SVoid (s\<lparr>cl_count := n\<rparr>) (if n = 0 then [Broadcast Cond] else []))"

definition CountDownLatch_countDown_one :: "CountDownLatch \<Rightarrow> CountDownLatch sync_outcome" where
  "CountDownLatch_countDown_one s = CountDownLatch_countDown 1 s"

definition CountDownLatch_wait :: "CountDownLatch \<Rightarrow> CountDownLatch sync_outcome" where
  "CountDownLatch_wait s = (if cl_count s > 0 then Wait Cond s else Done SVoid s [])"

definition CountDownLatch_waitUntil :: "phase \<Rightarrow> CountDownLatch \<Rightarrow> CountDownLatch sync_outcome" where
  "CountDownLatch_waitUntil ph s =
     (if ph \<noteq> First \<and> \<not> CondVar_waitUtil ph then Done (SBool False) s []
      else if cl_count s > 0 then Wait Cond s
      else Done (SBool True) s [])"

definition CountDownLatch_waitFor :: "phase \<Rightarrow> CountDownLatch \<Rightarrow> CountDownLatch sync_outcome" where
  "CountDownLatch_waitFor ph s =
     (if ph \<noteq> First \<and> \<not> CondVar_waitFor ph then Done (SBool False) s []
      else if cl_count s > 0 then Wait Cond s
      else Done (SBool True) s [])"

definition CountDownLatch_reset :: "64 word \<Rightarrow> CountDownLatch \<Rightarrow> CountDownLatch sync_outcome" where
  "CountDownLatch_reset count s =
     Done SVoid (s\<lparr>cl_count := count\<rparr>) (if count = 0 then [Broadcast Cond] else [])"

definition CountDownLatch_count :: "CountDownLatch \<Rightarrow> CountDownLatch sync_outcome" where
  "CountDownLatch_count s = Done (SCount (cl_count s)) s []"

datatype latch_method = LCountDown "64 word" | LCountDownOne | LWait | LWaitUntil | LWaitFor
  | LReset "64 word" | LCount

primrec CountDownLatch_call :: "latch_method \<Rightarrow> phase \<Rightarrow> CountDownLatch \<Rightarrow> CountDownLatch sync_outcome" where
  "CountDownLatch_call (LCountDown amount) ph = CountDownLatch_countDown amount"
| "CountDownLatch_call LCountDownOne ph = CountDownLatch_countDown_one"
| "CountDownLatch_call LWait ph = CountDownLatch_wait"
| "CountDownLatch_call LWaitUntil ph = CountDownLatch_waitUntil ph"
| "CountDownLatch_call LWaitFor ph = CountDownLatch_waitFor ph"
| "CountDownLatch_call (LReset count) ph = CountDownLatch_reset count"
| "CountDownLatch_call LCount ph = CountDownLatch_count"

subsection \<open>Notification and CThreadInterrupt\<close>

record Notification =
  nt_notified :: bool

definition Notification_new :: Notification where
  "Notification_new = \<lparr>nt_notified = False\<rparr>"

definition Notification_hasBeenNotified :: "Notification \<Rightarrow> Notification sync_outcome" where
  "Notification_hasBeenNotified s = Done (SBool (nt_notified s)) s []"

definition Notification_notify :: "Notification \<Rightarrow> Notification sync_outcome" where
  "Notification_notify s =
     (if nt_notified s then Done (SFail AssertFailed) s []
      else Done SVoid (s\<lparr>nt_notified := True\<rparr>) [Broadcast Cond])"

definition Notification_wait :: "Notification \<Rightarrow> Notification sync_outcome" where
  "Notification_wait s = (if \<not> nt_notified s then Wait Cond s else Done SVoid s [])"

definition Notification_wait_timeout :: "phase \<Rightarrow> Notification \<Rightarrow> Notification sync_outcome" where
  "Notification_wait_timeout ph s =
     (if ph = TimedOut then Done (SBool False) s []
      else if \<not> nt_notified s then Wait Cond s
      else Done (SBool True) s [])"

datatype notification_method = NHas | NNotify | NWait | NWaitTimeout

primrec Notification_call :: "notification_method \<Rightarrow> phase \<Rightarrow> Notification \<Rightarrow> Notification sync_outcome" where
  "Notification_call NHas ph = Notification_hasBeenNotified"
| "Notification_call NNotify ph = Notification_notify"
| "Notification_call NWait ph = Notification_wait"
| "Notification_call NWaitTimeout ph = Notification_wait_timeout ph"

record CThreadInterrupt =
  ti_flag :: bool

definition CThreadInterrupt_bool :: "CThreadInterrupt \<Rightarrow> CThreadInterrupt sync_outcome" where
  "CThreadInterrupt_bool s = Done (SBool (ti_flag s)) s []"

definition CThreadInterrupt_reset :: "CThreadInterrupt \<Rightarrow> CThreadInterrupt sync_outcome" where
  "CThreadInterrupt_reset s = Done SVoid (s\<lparr>ti_flag := False\<rparr>) []"

definition CThreadInterrupt_interrupt :: "CThreadInterrupt \<Rightarrow> CThreadInterrupt sync_outcome" where
  "CThreadInterrupt_interrupt s = Done SVoid (s\<lparr>ti_flag := True\<rparr>) [Broadcast Cond]"

definition CThreadInterrupt_sleep_for :: "phase \<Rightarrow> CThreadInterrupt \<Rightarrow> CThreadInterrupt sync_outcome" where
  "CThreadInterrupt_sleep_for ph s =
     (if \<not> ti_flag s \<and> ph \<noteq> TimedOut then Wait Cond s else Done (SBool (\<not> ti_flag s)) s [])"

datatype interrupt_method = IBool | IReset | IInterrupt | ISleepFor

primrec CThreadInterrupt_call ::
    "interrupt_method \<Rightarrow> phase \<Rightarrow> CThreadInterrupt \<Rightarrow> CThreadInterrupt sync_outcome" where
  "CThreadInterrupt_call IBool ph = CThreadInterrupt_bool"
| "CThreadInterrupt_call IReset ph = CThreadInterrupt_reset"
| "CThreadInterrupt_call IInterrupt ph = CThreadInterrupt_interrupt"
| "CThreadInterrupt_call ISleepFor ph = CThreadInterrupt_sleep_for ph"

subsection \<open>CondVarSem and its grants\<close>

record CondVarSem =
  cs_value :: int

definition CondVarSem_new :: "int \<Rightarrow> CondVarSem" where
  "CondVarSem_new n = \<lparr>cs_value = n\<rparr>"

definition CondVarSem_wait :: "CondVarSem \<Rightarrow> CondVarSem sync_outcome" where
  "CondVarSem_wait s =
     (if cs_value s < 1 then Wait Cond s else Done SVoid (s\<lparr>cs_value := cs_value s - 1\<rparr>) [])"

definition CondVarSem_try_wait :: "CondVarSem \<Rightarrow> CondVarSem sync_outcome" where
  "CondVarSem_try_wait s =
     (if cs_value s < 1 then Done (SBool False) s []
      else Done (SBool True) (s\<lparr>cs_value := cs_value s - 1\<rparr>) [])"

definition CondVarSem_post :: "CondVarSem \<Rightarrow> CondVarSem sync_outcome" where
  "CondVarSem_post s =
     (if cs_value s + 1 \<ge> 2 ^ 31 then Done (SFail SignedOverflow) s []
      else Done SVoid (s\<lparr>cs_value := cs_value s + 1\<rparr>) [Signal Cond])"

datatype sem_method = SWait | STryWait | SPost

primrec CondVarSem_call :: "sem_method \<Rightarrow> phase \<Rightarrow> CondVarSem \<Rightarrow> CondVarSem sync_outcome" where
  "CondVarSem_call SWait ph = CondVarSem_wait"
| "CondVarSem_call STryWait ph = CondVarSem_try_wait"
| "CondVarSem_call SPost ph = CondVarSem_post"

text \<open>
  The grants on one semaphore.  \<open>gr_sem\<close> tells whether the pointer \<open>sem\<close> of a grant is set; using a null
  pointer is an error.  A grant is created unset or with its pointer set, and in the second
  case its constructor goes on with \<open>acquire\<close> or \<open>tryAcquire\<close>; its destructor is \<open>release\<close>.
\<close>

record CondVarSemGrant =
  gr_sem :: bool
  gr_have :: bool

record grant_world =
  gw_sem :: CondVarSem
  gw_grant :: "nat \<Rightarrow> CondVarSemGrant"

definition set_have :: "nat \<Rightarrow> bool \<Rightarrow> grant_world \<Rightarrow> grant_world" where
  "set_have g b w = w\<lparr>gw_grant := (gw_grant w)(g := gw_grant w g\<lparr>gr_have := b\<rparr>)\<rparr>"

definition Grant_acquire :: "nat \<Rightarrow> phase \<Rightarrow> grant_world \<Rightarrow> grant_world sync_outcome" where
  "Grant_acquire g ph w =
     (if ph = First \<and> gr_have (gw_grant w g) then Done SVoid w []
      else if ph = First \<and> \<not> gr_sem (gw_grant w g) then Done (SFail OutOfBounds) w []
      else case CondVarSem_wait (gw_sem w) of
        Wait c s \<Rightarrow> Wait c (w\<lparr>gw_sem := s\<rparr>)
      | Done r s ns \<Rightarrow> Done SVoid (set_have g True (w\<lparr>gw_sem := s\<rparr>)) ns)"

definition Grant_release :: "nat \<Rightarrow> grant_world \<Rightarrow> grant_world sync_outcome" where
  "Grant_release g w =
     (if \<not> gr_have (gw_grant w g) then Done SVoid w []
      else if \<not> gr_sem (gw_grant w g) then Done (SFail OutOfBounds) w []
      else case CondVarSem_post (gw_sem w) of
        Wait c s \<Rightarrow> Wait c (w\<lparr>gw_sem := s\<rparr>)
      | Done (SFail e) s ns \<Rightarrow> Done (SFail e) w ns
      | Done r s ns \<Rightarrow> Done SVoid (set_have g False (w\<lparr>gw_sem := s\<rparr>)) ns)"

definition Grant_tryAcquire :: "nat \<Rightarrow> grant_world \<Rightarrow> grant_world sync_outcome" where
  "Grant_tryAcquire g w =
     (if gr_have (gw_grant w g) then Done (SBool True) w []
      else if \<not> gr_sem (gw_grant w g) then Done (SFail OutOfBounds) w []
      else case CondVarSem_try_wait (gw_sem w) of
        Wait c s \<Rightarrow> Wait c (w\<lparr>gw_sem := s\<rparr>)
      | Done r s ns \<Rightarrow>
          (let w' = w\<lparr>gw_sem := s\<rparr>; w'' = (if r = SBool True then set_have g True w' else w')
           in Done (SBool (gr_have (gw_grant w'' g))) w'' ns))"

definition Grant_moveTo :: "nat \<Rightarrow> nat \<Rightarrow> grant_world \<Rightarrow> grant_world sync_outcome" where
  "Grant_moveTo g grant w =
     (case Grant_release grant w of
        Wait c w' \<Rightarrow> Wait c w'
      | Done (SFail e) w' ns \<Rightarrow> Done (SFail e) w' ns
      | Done r w' ns \<Rightarrow>
          Done SVoid (set_have g False (w'\<lparr>gw_grant := (gw_grant w')(grant := gw_grant w' g)\<rparr>)) ns)"

definition Grant_construct :: "nat \<Rightarrow> bool \<Rightarrow> phase \<Rightarrow> grant_world \<Rightarrow> grant_world sync_outcome" where
  "Grant_construct g fTry ph w = (if fTry then Grant_tryAcquire g w else Grant_acquire g ph w)"

definition Grant_bool :: "nat \<Rightarrow> grant_world \<Rightarrow> grant_world sync_outcome" where
  "Grant_bool g w = Done (SBool (gr_have (gw_grant w g))) w []"

datatype grant_method = GAcquire nat | GRelease nat | GTryAcquire nat | GMoveTo nat nat
  | GConstruct nat bool | GBool nat

primrec Grant_call :: "grant_method \<Rightarrow> phase \<Rightarrow> grant_world \<Rightarrow> grant_world sync_outcome" where
  "Grant_call (GAcquire g) ph = Grant_acquire g ph"
| "Grant_call (GRelease g) ph = Grant_release g"
| "Grant_call (GTryAcquire g) ph = Grant_tryAcquire g"
| "Grant_call (GMoveTo g grant) ph = Grant_moveTo g grant"
| "Grant_call (GConstruct g fTry) ph = Grant_construct g fTry ph"
| "Grant_call (GBool g) ph = Grant_bool g"

subsection \<open>FutureResult\<close>

record 'a FutureResult =
  ft_latch :: CountDownLatch
  ft_error :: int
  ft_result :: "'a option"

datatype 'a future_ret = FRet sync_ret | FGet "'a option"

definition FutureResult_new :: "'a FutureResult" where
  "FutureResult_new = \<lparr>ft_latch = CountDownLatch_new 1, ft_error = 0, ft_result = None\<rparr>"

definition FutureResult_done :: "'a \<Rightarrow> int \<Rightarrow> 'a FutureResult \<Rightarrow> ('a FutureResult, 'a future_ret, one_cond) outcome" where
  "FutureResult_done v err s =
     (case CountDownLatch_countDown_one (ft_latch s) of
        Wait c l \<Rightarrow> Wait c (s\<lparr>ft_latch := l\<rparr>)
      | Done r l ns \<Rightarrow> Done (FRet r) (s\<lparr>ft_error := err, ft_result := Some v, ft_latch := l\<rparr>) ns)"

definition FutureResult_await :: "phase \<Rightarrow> 'a FutureResult \<Rightarrow> ('a FutureResult, 'a future_ret, one_cond) outcome" where
  "FutureResult_await ph s =
     (case CountDownLatch_waitFor ph (ft_latch s) of
        Wait c l \<Rightarrow> Wait c (s\<lparr>ft_latch := l\<rparr>)
      | Done r l ns \<Rightarrow> Done (FRet r) (s\<lparr>ft_latch := l\<rparr>) ns)"

definition FutureResult_isDone :: "'a FutureResult \<Rightarrow> ('a FutureResult, 'a future_ret, one_cond) outcome" where
  "FutureResult_isDone s =
     (case CountDownLatch_count (ft_latch s) of
        Wait c l \<Rightarrow> Wait c (s\<lparr>ft_latch := l\<rparr>)
      | Done r l ns \<Rightarrow> Done (FRet (SBool (r = SCount 0))) (s\<lparr>ft_latch := l\<rparr>) ns)"

definition resultOrThrow :: "'a FutureResult \<Rightarrow> 'a future_ret" where
  "resultOrThrow s =
     (if ft_error s \<noteq> 0 then FGet None
      else case ft_result s of None \<Rightarrow> FRet (SFail Uninitialised) | Some v \<Rightarrow> FGet (Some v))"

definition FutureResult_get :: "phase \<Rightarrow> 'a FutureResult \<Rightarrow> ('a FutureResult, 'a future_ret, one_cond) outcome" where
  "FutureResult_get ph s =
     (case FutureResult_await ph s of
        Wait c s' \<Rightarrow> Wait c s'
      | Done occurred s' ns \<Rightarrow>
          (if occurred = FRet (SBool True) then Done (resultOrThrow s') s' ns else Done (FGet None) s' ns))"

datatype 'a future_method = FDone 'a int | FAwait | FIsDone | FGetFor

primrec FutureResult_call ::
    "'a future_method \<Rightarrow> phase \<Rightarrow> 'a FutureResult \<Rightarrow> ('a FutureResult, 'a future_ret, one_cond) outcome" where
  "FutureResult_call (FDone v err) ph = FutureResult_done v err"
| "FutureResult_call FAwait ph = FutureResult_await ph"
| "FutureResult_call FIsDone ph = FutureResult_isDone"
| "FutureResult_call FGetFor ph = FutureResult_get ph"

section \<open>The monitor contracts\<close>

lemmas BlockingCounter_defs = BlockingCounter_decrement_def BlockingCounter_reset_def BlockingCounter_wait_def

lemmas AutoResetEvent_defs = AutoResetEvent_wait_def AutoResetEvent_waitFor_def AutoResetEvent_tryWait_def
  AutoResetEvent_set_def AutoResetEvent_reset_def

lemmas ManualResetEvent_defs = ManualResetEvent_wait_def ManualResetEvent_waitFor_def ManualResetEvent_tryWait_def
  ManualResetEvent_set_def ManualResetEvent_reset_def

lemma CondVar_timed_waits [simp]: "CondVar_waitUtil ph" "CondVar_waitFor ph"
  by (simp_all add: CondVar_waitUtil_def CondVar_waitFor_def timedwait_err_def)

lemmas CountDownLatch_defs = CountDownLatch_countDown_def CountDownLatch_countDown_one_def CountDownLatch_wait_def
  CountDownLatch_waitUntil_def CountDownLatch_waitFor_def CountDownLatch_reset_def CountDownLatch_count_def

lemmas Notification_defs = Notification_hasBeenNotified_def Notification_notify_def Notification_wait_def
  Notification_wait_timeout_def

lemmas CThreadInterrupt_defs = CThreadInterrupt_bool_def CThreadInterrupt_reset_def
  CThreadInterrupt_interrupt_def CThreadInterrupt_sleep_for_def

lemmas CondVarSem_defs = CondVarSem_wait_def CondVarSem_try_wait_def CondVarSem_post_def

lemmas Grant_defs = Grant_acquire_def Grant_release_def Grant_tryAcquire_def Grant_moveTo_def
  Grant_construct_def Grant_bool_def

lemmas FutureResult_defs = FutureResult_done_def FutureResult_await_def FutureResult_isDone_def FutureResult_get_def

lemma one_cond_eq: "c = Cond"
  by (cases c) simp

interpretation ar: counting_monitor AutoResetEvent_call "\<lambda>_. True" "\<lambda>m _. m \<in> {EWait, EWaitFor, ETryWait}"
    "\<lambda>_ s. of_bool (ar_signaled s)" "\<lambda>_ _. False"
  apply unfold_locales
  subgoal by simp
  subgoal for s m by (cases m) (auto simp: AutoResetEvent_defs split: if_splits)
  subgoal for s m by (cases m) (auto simp: AutoResetEvent_defs split: if_splits)
  subgoal for s m c0 ph c by (cases c; cases c0) simp
  subgoal by simp
  subgoal for s m ph r s' ns c by (cases m; cases c) (auto simp: AutoResetEvent_defs split: if_splits)
  subgoal for s m c by (cases m; cases c) (auto simp: AutoResetEvent_defs split: if_splits)
  done

interpretation cs: counting_monitor CondVarSem_call "\<lambda>_. True" "\<lambda>m _. m = SWait"
    "\<lambda>_ s. nat (cs_value s)" "\<lambda>_ _. False"
  apply unfold_locales
  subgoal by simp
  subgoal for s m by (cases m) (auto simp: CondVarSem_defs split: if_splits)
  subgoal for s m by (cases m) (auto simp: CondVarSem_defs split: if_splits)
  subgoal for s m c0 ph c by (cases c; cases c0) simp
  subgoal by simp
  subgoal for s m ph r s' ns c by (cases m; cases c) (auto simp: CondVarSem_defs split: if_splits)
  subgoal for s m c by (cases m; cases c) (auto simp: CondVarSem_defs split: if_splits)
  done

interpretation mr: gate ManualResetEvent_call Cond "\<lambda>m. m \<in> {EWait, EWaitFor, ETryWait}" mr_signaled "\<lambda>m. m \<noteq> EReset"
  apply unfold_locales
  subgoal for m by (cases m) (auto simp: ManualResetEvent_defs split: if_splits)
  subgoal for m by (cases m) (auto simp: ManualResetEvent_defs split: if_splits)
  subgoal for m by (cases m) (auto simp: ManualResetEvent_defs split: if_splits)
  done

interpretation cl: gate CountDownLatch_call Cond "\<lambda>m. m \<in> {LWait, LWaitUntil, LWaitFor}"
    "\<lambda>s. cl_count s = 0" "\<lambda>m. \<forall>n. m = LReset n \<longrightarrow> n = 0"
  apply unfold_locales
  subgoal for m by (cases m) (auto simp: CountDownLatch_defs Let_def split: if_splits)
  subgoal for m by (cases m) (auto simp: CountDownLatch_defs Let_def split: if_splits)
  subgoal for m by (cases m) (auto simp: CountDownLatch_defs Let_def split: if_splits)
  done

interpretation nt: gate Notification_call Cond "\<lambda>m. m \<in> {NWait, NWaitTimeout}" nt_notified "\<lambda>_. True"
  apply unfold_locales
  subgoal for m by (cases m) (auto simp: Notification_defs split: if_splits)
  subgoal for m by (cases m) (auto simp: Notification_defs split: if_splits)
  subgoal for m by (cases m) (auto simp: Notification_defs split: if_splits)
  done

interpretation ti: gate CThreadInterrupt_call Cond "\<lambda>m. m = ISleepFor" ti_flag "\<lambda>m. m \<noteq> IReset"
  apply unfold_locales
  subgoal for m by (cases m) (auto simp: CThreadInterrupt_defs split: if_splits)
  subgoal for m by (cases m) (auto simp: CThreadInterrupt_defs split: if_splits)
  subgoal for m by (cases m) (auto simp: CThreadInterrupt_defs split: if_splits)
  done

text \<open>A \<open>BlockingCounter\<close> whose clients reset it only to positive counts.\<close>

primrec positive_reset :: "bc_method \<Rightarrow> bc_method" where
  "positive_reset BCDecrement = BCDecrement"
| "positive_reset (BCReset n) = BCReset (if n = 0 then 1 else n)"
| "positive_reset BCWait = BCWait"

interpretation bc: gate "\<lambda>m. BlockingCounter_call (positive_reset m)" Cond "\<lambda>m. m = BCWait"
    "\<lambda>s. bc_counter s = 0" "\<lambda>m. m = BCWait"
  apply unfold_locales
  subgoal for m by (cases m) (auto simp: BlockingCounter_defs Let_def split: if_splits)
  subgoal for m by (cases m) (auto simp: BlockingCounter_defs Let_def split: if_splits)
  subgoal for m by (cases m) (auto simp: BlockingCounter_defs Let_def split: if_splits)
  done

lemmas future_unfold = FutureResult_defs CountDownLatch_defs Let_def resultOrThrow_def

interpretation ft: gate FutureResult_call Cond "\<lambda>m. m \<in> {FAwait, FGetFor}" "\<lambda>s. cl_count (ft_latch s) = 0" "\<lambda>_. True"
  apply unfold_locales
  subgoal for m by (cases m) (auto simp: future_unfold split: if_splits)
  subgoal for m by (cases m) (auto simp: future_unfold split: if_splits)
  subgoal for m by (cases m) (auto simp: future_unfold split: if_splits)
  done

section \<open>Grants\<close>

definition held :: "grant_world \<Rightarrow> nat set" where
  "held w = {g. gr_have (gw_grant w g)}"

text \<open>\<open>n\<close> is the value the semaphore was created with.\<close>

definition grants_ok :: "int \<Rightarrow> grant_world \<Rightarrow> bool" where
  "grants_ok n w \<longleftrightarrow> n < 2 ^ 31 \<and> finite (held w) \<and> 0 \<le> cs_value (gw_sem w)
     \<and> cs_value (gw_sem w) + int (card (held w)) \<le> n"

lemma held_set_have [simp]:
  "held (set_have g b w) = (if b then insert g (held w) else held w - {g})"
  by (auto simp: held_def set_have_def)

lemma set_have_fields [simp]:
  "gw_sem (set_have g b w) = gw_sem w" "gr_sem (gw_grant (set_have g b w) h) = gr_sem (gw_grant w h)"
  by (auto simp: set_have_def)

lemma held_sem [simp]: "held (w\<lparr>gw_sem := s\<rparr>) = held w"
  by (simp add: held_def)

lemma have_held: "gr_have (gw_grant w g) \<longleftrightarrow> g \<in> held w"
  by (simp add: held_def)

lemma Grant_release_cases:
  assumes "grants_ok n w"
  obtains (free) "g \<notin> held w" "Grant_release g w = Done SVoid w []"
    | (unset) "g \<in> held w" "Grant_release g w = Done (SFail OutOfBounds) w []"
    | (posted) "g \<in> held w" "Grant_release g w =
        Done SVoid (set_have g False (w\<lparr>gw_sem := gw_sem w\<lparr>cs_value := cs_value (gw_sem w) + 1\<rparr>\<rparr>)) [Signal Cond]"
proof (cases "g \<in> held w")
  case True
  with assms have "0 < card (held w)" by (subst card_gt_0_iff) (auto simp: grants_ok_def)
  with assms have "cs_value (gw_sem w) + 1 < 2 ^ 31" by (simp add: grants_ok_def)
  then show thesis using True unset posted
    by (cases "gr_sem (gw_grant w g)") (auto simp: Grant_release_def have_held CondVarSem_post_def)
next
  case False
  then show thesis by (intro free) (auto simp: Grant_release_def have_held)
qed

lemma grants_ok_take:
  assumes "grants_ok n w" and "1 \<le> cs_value (gw_sem w)"
  shows "grants_ok n (set_have g True (w\<lparr>gw_sem := gw_sem w\<lparr>cs_value := cs_value (gw_sem w) - 1\<rparr>\<rparr>))"
  using assms by (auto simp: grants_ok_def card_insert_if)

lemma grants_ok_give:
  assumes "grants_ok n w" and "g \<in> held w"
  shows "grants_ok n (set_have g False (w\<lparr>gw_sem := gw_sem w\<lparr>cs_value := cs_value (gw_sem w) + 1\<rparr>\<rparr>))"
proof -
  have "card (held w) = Suc (card (held w - {g}))" by (rule card.remove) (use assms in \<open>auto simp: grants_ok_def\<close>)
  then show ?thesis using assms by (auto simp: grants_ok_def)
qed

lemma grants_ok_copy:
  assumes ok: "grants_ok n w" and "h \<notin> held w"
  shows "grants_ok n (set_have g False (w\<lparr>gw_grant := (gw_grant w)(h := gw_grant w g)\<rparr>))" (is "grants_ok n ?w")
proof -
  have h: "held ?w = (if g \<in> held w then insert h (held w) else held w) - {g}"
    using assms(2) by (auto simp: held_def set_have_def)
  have "card (held ?w) \<le> card (held w)"
  proof (cases "g \<in> held w")
    case True
    then have "held ?w = insert h (held w - {g})" using h assms(2) by auto
    moreover have "card (held w) = Suc (card (held w - {g}))"
      by (rule card.remove) (use ok True in \<open>auto simp: grants_ok_def\<close>)
    ultimately show ?thesis using ok by (simp add: card_insert_if grants_ok_def)
  next
    case False
    then show ?thesis using h by simp
  qed
  then show ?thesis using ok h by (auto simp: grants_ok_def set_have_def)
qed

lemma Grant_acquire_cases:
  assumes "grants_ok n w"
  obtains (stay) r where "ph = First" "Grant_acquire g ph w = Done r w []"
    | (wait) "cs_value (gw_sem w) = 0" "Grant_acquire g ph w = Wait Cond w"
    | (take) "1 \<le> cs_value (gw_sem w)" "Grant_acquire g ph w =
        Done SVoid (set_have g True (w\<lparr>gw_sem := gw_sem w\<lparr>cs_value := cs_value (gw_sem w) - 1\<rparr>\<rparr>)) []"
  using assms
  by (cases "ph = First"; cases "gr_have (gw_grant w g)"; cases "gr_sem (gw_grant w g)"; cases "cs_value (gw_sem w) < 1")
    (auto simp: Grant_acquire_def CondVarSem_wait_def grants_ok_def)

lemma Grant_tryAcquire_cases:
  obtains (stay) r where "Grant_tryAcquire g w = Done r w []"
    | (take) "1 \<le> cs_value (gw_sem w)" "Grant_tryAcquire g w =
        Done (SBool True) (set_have g True (w\<lparr>gw_sem := gw_sem w\<lparr>cs_value := cs_value (gw_sem w) - 1\<rparr>\<rparr>)) []"
  by (cases "gr_have (gw_grant w g)"; cases "gr_sem (gw_grant w g)"; cases "cs_value (gw_sem w) < 1")
    (auto simp: Grant_tryAcquire_def CondVarSem_try_wait_def set_have_def)

text \<open>The four effects a grant method can have on the semaphore.\<close>

lemma Grant_call_effect:
  assumes ok: "grants_ok n w"
  shows "(\<exists>r w' ns. Grant_call m ph w = Done r w' ns \<and> grants_ok n w'
       \<and> (cs_value (gw_sem w') \<le> cs_value (gw_sem w) \<and> ns = []
          \<or> cs_value (gw_sem w') = cs_value (gw_sem w) + 1 \<and> ns = [Signal Cond]))
    \<or> (cs_value (gw_sem w) = 0 \<and> Grant_call m ph w = Wait Cond w)"
proof -
  have acquire: ?thesis if "Grant_call m ph w = Grant_acquire g ph w" for g
    by (rule Grant_acquire_cases [OF ok, of ph g]) (use that ok grants_ok_take [OF ok] in auto)
  have attempt: ?thesis if "Grant_call m ph w = Grant_tryAcquire g w" for g
    by (rule Grant_tryAcquire_cases [of g w]) (use that ok grants_ok_take [OF ok] in auto)
  show ?thesis
  proof (cases m)
    case (GAcquire g)
    then show ?thesis by (intro acquire) simp
  next
    case (GTryAcquire g)
    then show ?thesis by (intro attempt) simp
  next
    case (GConstruct g t)
    then show ?thesis using acquire [of g] attempt [of g] by (cases t) (auto simp: Grant_construct_def)
  next
    case (GRelease g)
    then show ?thesis by (rule_tac Grant_release_cases [OF ok, of g]) (use grants_ok_give [OF ok, of g] ok in auto)
  next
    case (GMoveTo g h)
    show ?thesis
    proof (cases rule: Grant_release_cases [OF ok, of h, case_names free unset posted])
      case unset
      then show ?thesis using GMoveTo ok by (auto simp: Grant_moveTo_def)
    next
      case free
      then show ?thesis using GMoveTo grants_ok_copy [OF ok, of h g] by (auto simp: Grant_moveTo_def)
    next
      case posted
      then show ?thesis using GMoveTo grants_ok_copy [OF grants_ok_give [OF ok], of h h g]
        by (auto simp: Grant_moveTo_def)
    qed
  next
    case (GBool g)
    then show ?thesis using ok by (auto simp: Grant_bool_def)
  qed
qed

lemma Grant_wait_on: "Grant_call m ph w = Wait c w' \<Longrightarrow> grants_ok n w \<Longrightarrow> \<exists>g. m = GAcquire g \<or> m = GConstruct g False"
proof (cases m)
  case (GTryAcquire g)
  then show "Grant_call m ph w = Wait c w' \<Longrightarrow> ?thesis" by (rule_tac Grant_tryAcquire_cases [of g w]) auto
next
  case (GConstruct g t)
  then show "Grant_call m ph w = Wait c w' \<Longrightarrow> ?thesis"
    by (rule_tac Grant_tryAcquire_cases [of g w]) (auto simp: Grant_construct_def split: if_splits)
next
  case (GRelease g)
  then show "Grant_call m ph w = Wait c w' \<Longrightarrow> grants_ok n w \<Longrightarrow> ?thesis"
    by (rule_tac Grant_release_cases [of n w g]) auto
next
  case (GMoveTo g h)
  then show "Grant_call m ph w = Wait c w' \<Longrightarrow> grants_ok n w \<Longrightarrow> ?thesis"
    by (rule_tac Grant_release_cases [of n w h]) (auto simp: Grant_moveTo_def)
qed (auto simp: Grant_bool_def)

interpretation gw: counting_monitor Grant_call "grants_ok n" "\<lambda>m _. \<exists>g. m = GAcquire g \<or> m = GConstruct g False"
    "\<lambda>_ w. nat (cs_value (gw_sem w))" "\<lambda>_ _. False" for n
  apply unfold_locales
  subgoal for w m ph by (use Grant_call_effect [of n w m ph] in auto)
  subgoal for w m ph by (rule Grant_wait_on)
  subgoal for w m ph by (use Grant_call_effect [of n w m ph] in auto)
  subgoal for w m c0 ph c by (cases c; cases c0) simp
  subgoal for w m ph by (use Grant_call_effect [of n w m ph] in auto)
  subgoal for w m ph r w' ns c by (cases c) (use Grant_call_effect [of n w m ph] in auto)
  subgoal for w m c ph
    by (rule Grant_acquire_cases [of n w ph "case m of GAcquire g \<Rightarrow> g | GConstruct g _ \<Rightarrow> g"])
      (auto simp: Grant_construct_def)
  done

section \<open>Wake-ups\<close>

lemma reset_to_zero_strands:
  "mon_reach BlockingCounter_call (BlockingCounter_new 1)
     \<lparr>mon_state = \<lparr>bc_counter = 0\<rparr>, mon_pc = (\<lambda>_. Idle)(0 := Blocked Cond BCWait)\<rparr>"
proof -
  have "mon_reach BlockingCounter_call (BlockingCounter_new 1)
      \<lparr>mon_state = BlockingCounter_new 1, mon_pc = (\<lambda>_. Idle)(0 := Blocked Cond BCWait)\<rparr>"
    by (rule reach_sleep [OF mon_reach.init [unfolded mon_init_def]])
      (simp_all add: BlockingCounter_wait_def BlockingCounter_new_def)
  then show ?thesis
    by (rule reach_return [where t = 1 and m = "BCReset 0"]) (simp_all add: BlockingCounter_reset_def BlockingCounter_new_def)
qed

text \<open>
  C17. No wake-up is lost by the waitable objects, under any interleaving of any number of threads: when
  no thread is running or about to be notified, a thread that still sleeps in \<open>AutoResetEvent\<close>,
  \<open>ManualResetEvent\<close>, \<open>CountDownLatch\<close>, \<open>Notification\<close>, \<open>CThreadInterrupt\<close>, \<open>FutureResult\<close> or
  \<open>CondVarSem\<close> does so because the event is not signalled, the count not zero, the value not positive.
  For \<open>BlockingCounter\<close> this holds when the counter is only reset to positive values, and fails otherwise.
\<close>
theorem locks_no_lost_wakeup:
  "sound_sleep AutoResetEvent_call AutoResetEvent_new (\<lambda>_ s. \<not> ar_signaled s)
   \<and> sound_sleep ManualResetEvent_call e0 (\<lambda>_ s. \<not> mr_signaled s)
   \<and> sound_sleep CountDownLatch_call (CountDownLatch_new n) (\<lambda>_ s. cl_count s > 0)
   \<and> sound_sleep Notification_call Notification_new (\<lambda>_ s. \<not> nt_notified s)
   \<and> sound_sleep CThreadInterrupt_call i0 (\<lambda>_ s. \<not> ti_flag s)
   \<and> sound_sleep FutureResult_call FutureResult_new (\<lambda>_ s. cl_count (ft_latch s) > 0)
   \<and> sound_sleep CondVarSem_call (CondVarSem_new v) (\<lambda>_ s. cs_value s < 1)
   \<and> sound_sleep (\<lambda>m. BlockingCounter_call (positive_reset m)) (BlockingCounter_new n) (\<lambda>_ s. bc_counter s > 0)
   \<and> \<not> sound_sleep BlockingCounter_call (BlockingCounter_new 1) (\<lambda>_ s. bc_counter s > 0)"
proof (intro conjI)
  show "sound_sleep AutoResetEvent_call AutoResetEvent_new (\<lambda>_ s. \<not> ar_signaled s)"
    by (rule ar.sound_sleepI) auto
  show "sound_sleep CondVarSem_call (CondVarSem_new v) (\<lambda>_ s. cs_value s < 1)"
    by (rule cs.sound_sleepI) auto
  have "quiescent \<lparr>mon_state = s, mon_pc = (\<lambda>_. Idle)(0 := Blocked c m)\<rparr>" for s c m
    by (simp add: quiescent_def)
  then show "\<not> sound_sleep BlockingCounter_call (BlockingCounter_new 1) (\<lambda>_ s. bc_counter s > 0)"
    using reset_to_zero_strands unfolding sound_sleep_def by fastforce
qed (rule mr.sound_sleepI cl.sound_sleepI nt.sound_sleepI ti.sound_sleepI ft.sound_sleepI bc.sound_sleepI;
      auto simp: one_cond_eq word_gt_0)+

text \<open>
  C16. Once it is open, a latch lets every caller through: from every reachable state of a
  \<open>CountDownLatch\<close> of count zero (no reset to a positive count being executed), of a signalled
  \<open>ManualResetEvent\<close> (no \<open>reset\<close> being executed), of a \<open>Notification\<close> that has happened or of a
  completed \<open>FutureResult\<close>, all calls in progress return after a bounded number of steps,
  whatever the order in which the threads are scheduled.
\<close>
theorem latch_releases_all:
  "releases_all CountDownLatch_call (CountDownLatch_new n) (\<lambda>s. cl_count s = 0) (\<lambda>m. m \<notin> range LReset - {LReset 0})
   \<and> releases_all ManualResetEvent_call e0 mr_signaled (\<lambda>m. m \<noteq> EReset)
   \<and> releases_all Notification_call Notification_new nt_notified (\<lambda>_. True)
   \<and> releases_all FutureResult_call FutureResult_new (\<lambda>s. cl_count (ft_latch s) = 0) (\<lambda>_. True)"
proof (intro conjI)
  have "(\<lambda>m. m \<notin> range LReset - {LReset 0}) = (\<lambda>m. \<forall>n. m = LReset n \<longrightarrow> n = 0)" by auto
  then show "releases_all CountDownLatch_call (CountDownLatch_new n) (\<lambda>s. cl_count s = 0)
      (\<lambda>m. m \<notin> range LReset - {LReset 0})"
    using cl.releases_allI by simp
qed (simp_all add: mr.releases_allI nt.releases_allI ft.releases_allI)

text \<open>A state to which the previous theorem applies: a sleeping waiter when the count has reached zero.\<close>

lemma latch_opened_on_waiter:
  "mon_reach CountDownLatch_call (CountDownLatch_new 1)
     \<lparr>mon_state = \<lparr>cl_count = 0\<rparr>,
      mon_pc = (\<lambda>_. Idle)(0 := Blocked Cond LWait, 1 := Notifying [Broadcast Cond] SVoid)\<rparr>"
proof -
  have "mon_reach CountDownLatch_call (CountDownLatch_new 1)
      \<lparr>mon_state = CountDownLatch_new 1, mon_pc = (\<lambda>_. Idle)(0 := Blocked Cond LWait)\<rparr>"
    by (rule reach_sleep [OF mon_reach.init [unfolded mon_init_def]])
      (simp_all add: CountDownLatch_wait_def CountDownLatch_new_def)
  then show ?thesis
    by (rule reach_done [where m = LCountDownOne])
      (simp_all add: CountDownLatch_countDown_one_def CountDownLatch_countDown_def CountDownLatch_new_def)
qed


definition one_permit :: grant_world where
  "one_permit = \<lparr>gw_sem = CondVarSem_new 1, gw_grant = (\<lambda>_. \<lparr>gr_sem = True, gr_have = False\<rparr>)\<rparr>"

definition permit_taken :: "(grant_world, grant_method, sync_ret, one_cond) monitor" where
  "permit_taken = \<lparr>mon_state = \<lparr>gw_sem = CondVarSem_new 0,
       gw_grant = (\<lambda>_. \<lparr>gr_sem = True, gr_have = False\<rparr>)(4 := \<lparr>gr_sem = True, gr_have = True\<rparr>)\<rparr>,
     mon_pc = (\<lambda>_. Idle)(1 := Blocked Cond (GAcquire 5))\<rparr>"

lemma permit_taken_reach: "mon_reach Grant_call one_permit permit_taken"
proof -
  let ?w = "mon_state permit_taken"
  have "mon_reach Grant_call one_permit \<lparr>mon_state = ?w, mon_pc = (\<lambda>_. Idle)\<rparr>"
    by (rule reach_return [OF mon_reach.init [unfolded mon_init_def], where m = "GAcquire 4" and r = SVoid])
      (simp_all add: Grant_acquire_def CondVarSem_wait_def one_permit_def permit_taken_def CondVarSem_new_def set_have_def)
  then have "mon_reach Grant_call one_permit \<lparr>mon_state = ?w, mon_pc = (\<lambda>_. Idle)(1 := Blocked Cond (GAcquire 5))\<rparr>"
    by (rule reach_sleep) (simp_all add: Grant_acquire_def CondVarSem_wait_def permit_taken_def CondVarSem_new_def)
  then show ?thesis by (simp add: permit_taken_def)
qed


text \<open>
  What the operations of the latches do: \<open>countDown\<close> subtracts and stops at zero, and broadcasts exactly
  when it reaches zero; \<open>reset\<close> to zero broadcasts too; the timed waits of a \<open>CountDownLatch\<close>, and with them
  \<open>FutureResult::await\<close> and \<open>get\<close>, ignore their time limit and wait until the count is zero; \<open>get\<close> then
  returns the result, or failure when an error was reported; an \<open>AutoResetEvent\<close> lets one waiter
  through per signalled state; a \<open>BlockingCounter\<close> decremented below zero wraps around.
\<close>
theorem latch_operations:
  "(\<exists>s' ns. CountDownLatch_countDown amount s = Done SVoid s' ns
      \<and> unat (cl_count s') = unat (cl_count s) - unat amount
      \<and> ns = (if cl_count s \<noteq> 0 \<and> cl_count s' = 0 then [Broadcast Cond] else []))
   \<and> CountDownLatch_reset 0 s = Done SVoid \<lparr>cl_count = 0\<rparr> [Broadcast Cond]
   \<and> CountDownLatch_waitFor ph s = (if cl_count s = 0 then Done (SBool True) s [] else Wait Cond s)
   \<and> CountDownLatch_waitUntil ph s = CountDownLatch_waitFor ph s
   \<and> FutureResult_get ph f = (if cl_count (ft_latch f) = 0 then Done (resultOrThrow f) f [] else Wait Cond f)
   \<and> (\<exists>f' ns. FutureResult_done v err f = Done (FRet SVoid) f' ns
      \<and> resultOrThrow f' = FGet (if err = 0 then Some v else None)
      \<and> unat (cl_count (ft_latch f')) = unat (cl_count (ft_latch f)) - 1)
   \<and> AutoResetEvent_wait a = (if ar_signaled a then Done SVoid AutoResetEvent_new [] else Wait Cond a)
   \<and> BlockingCounter_decrement (BlockingCounter_new 0) = Done (SBool False) (BlockingCounter_new (2 ^ 64 - 1)) []"
proof (intro conjI)
  show down: "\<exists>s' ns. CountDownLatch_countDown amount s = Done SVoid s' ns
      \<and> unat (cl_count s') = unat (cl_count s) - unat amount
      \<and> ns = (if cl_count s \<noteq> 0 \<and> cl_count s' = 0 then [Broadcast Cond] else [])" for amount s
    by (auto simp: CountDownLatch_countDown_def Let_def word_le_nat_alt unat_sub)
  show "\<exists>f' ns. FutureResult_done v err f = Done (FRet SVoid) f' ns
      \<and> resultOrThrow f' = FGet (if err = 0 then Some v else None)
      \<and> unat (cl_count (ft_latch f')) = unat (cl_count (ft_latch f)) - 1"
  proof -
    obtain l ns where "CountDownLatch_countDown 1 (ft_latch f) = Done SVoid l ns"
      "unat (cl_count l) = unat (cl_count (ft_latch f)) - 1" using down [of 1 "ft_latch f"] by auto
    then show ?thesis by (simp add: FutureResult_done_def CountDownLatch_countDown_one_def resultOrThrow_def)
  qed
qed (auto simp: CountDownLatch_defs FutureResult_defs AutoResetEvent_defs BlockingCounter_defs word_gt_0
      BlockingCounter_new_def AutoResetEvent_new_def)

end
