(* ===== verification/Wait_Queues.thy ===== *)
theory Wait_Queues
  imports Blocking_Queue Top_N_Heap
begin

text \<open>
  The other queues of \<open>blocking_queue.h\<close> with waiting consumers: \<open>MPMCBlockingQueue\<close>, \<open>QueueRing\<close>,
  \<open>BlockChannel\<close>, \<open>SimpleBlockingQueue\<close>, \<open>SimpleCircularQueue\<close> and \<open>ConcurrentBlockingQueue\<close>.  A method is
  its critical section in the thread model of \<open>Monitor\<close>; a size or emptiness test that the code does
  without the mutex is a step of its own.
\<close>

section \<open>The classes\<close>

datatype 'a wq_ret = WVoid | WElem "'a option" | WBool bool | WSize nat | WFail ub

subsection \<open>MPMCBlockingQueue\<close>

datatype wq_cond = WCond

record 'a MPMCBlockingQueue =
  mp_queue :: "'a list"

type_synonym 'a mp_outcome = "('a MPMCBlockingQueue, 'a wq_ret, wq_cond) outcome"

definition MPMC_produce :: "'a \<Rightarrow> 'a MPMCBlockingQueue \<Rightarrow> 'a mp_outcome" where
  "MPMC_produce value q = Done WVoid (q\<lparr>mp_queue := mp_queue q @ [value]\<rparr>) [Signal WCond]"

definition MPMC_wait_and_consume :: "'a MPMCBlockingQueue \<Rightarrow> 'a mp_outcome" where
  "MPMC_wait_and_consume q =
     (case mp_queue q of [] \<Rightarrow> Wait WCond q | x # xs \<Rightarrow> Done (WElem (Some x)) (q\<lparr>mp_queue := xs\<rparr>) [])"

definition MPMC_try_consume :: "'a MPMCBlockingQueue \<Rightarrow> 'a mp_outcome" where
  "MPMC_try_consume q =
     (case mp_queue q of [] \<Rightarrow> Done (WElem None) q [] | x # xs \<Rightarrow> Done (WElem (Some x)) (q\<lparr>mp_queue := xs\<rparr>) [])"

definition MPMC_empty :: "'a MPMCBlockingQueue \<Rightarrow> 'a mp_outcome" where
  "MPMC_empty q = Done (WBool (mp_queue q = [])) q []"

definition MPMC_size :: "'a MPMCBlockingQueue \<Rightarrow> 'a mp_outcome" where
  "MPMC_size q = Done (WSize (length (mp_queue q))) q []"

datatype 'a mp_method = MProduce 'a | MConsume | MTryConsume | MEmpty | MSize

primrec MPMC_call :: "'a mp_method \<Rightarrow> phase \<Rightarrow> 'a MPMCBlockingQueue \<Rightarrow> 'a mp_outcome" where
  "MPMC_call (MProduce v) ph = MPMC_produce v"
| "MPMC_call MConsume ph = MPMC_wait_and_consume"
| "MPMC_call MTryConsume ph = MPMC_try_consume"
| "MPMC_call MEmpty ph = MPMC_empty"
| "MPMC_call MSize ph = MPMC_size"

subsection \<open>QueueRing\<close>

text \<open>
  A bucket is a monitor of its own.  The ring deals its operations to the buckets in turn; the
  counters are advanced before the bucket is locked and are taken not to overflow.
\<close>

record 'a QueueBucket =
  qb_entries :: "'a list"

type_synonym 'a qb_outcome = "('a QueueBucket, 'a wq_ret, wq_cond) outcome"

definition QueueBucket_enqueue :: "'a \<Rightarrow> 'a QueueBucket \<Rightarrow> 'a qb_outcome" where
  "QueueBucket_enqueue entry q =
     Done WVoid (q\<lparr>qb_entries := qb_entries q @ [entry]\<rparr>) (if qb_entries q = [] then [Signal WCond] else [])"

definition QueueBucket_dequeue :: "phase \<Rightarrow> 'a QueueBucket \<Rightarrow> 'a qb_outcome" where
  "QueueBucket_dequeue ph q =
     (case qb_entries q of
        [] \<Rightarrow> if ph = First then Wait WCond q else Done (WFail AssertFailed) q []
      | x # xs \<Rightarrow> Done (WElem (Some x)) (q\<lparr>qb_entries := xs\<rparr>) [])"

datatype 'a qb_method = QEnqueue 'a | QDequeue

primrec QueueBucket_call :: "'a qb_method \<Rightarrow> phase \<Rightarrow> 'a QueueBucket \<Rightarrow> 'a qb_outcome" where
  "QueueBucket_call (QEnqueue x) ph = QueueBucket_enqueue x"
| "QueueBucket_call QDequeue ph = QueueBucket_dequeue ph"

record 'a QueueRing =
  qr_buckets :: "'a QueueBucket list"
  qr_cur_read :: nat
  qr_cur_write :: nat

definition QueueRing_new :: "nat \<Rightarrow> 'a QueueRing" where
  "QueueRing_new n = \<lparr>qr_buckets = replicate n \<lparr>qb_entries = []\<rparr>, qr_cur_read = 0, qr_cur_write = 0\<rparr>"

definition on_bucket :: "nat \<Rightarrow> ('a QueueBucket \<Rightarrow> 'a qb_outcome) \<Rightarrow> 'a QueueRing \<Rightarrow> ('a QueueRing, 'a wq_ret, nat) outcome result" where
  "on_bucket j f r =
     (if qr_buckets r = [] then Inl OutOfBounds
      else let i = j mod length (qr_buckets r)
           in case f (qr_buckets r ! i) of
                Wait c b \<Rightarrow> Inr (Wait i (r\<lparr>qr_buckets := (qr_buckets r)[i := b]\<rparr>))
              | Done x b ns \<Rightarrow> Inr (Done x (r\<lparr>qr_buckets := (qr_buckets r)[i := b]\<rparr>) (map (map_notify (\<lambda>_. i)) ns)))"

definition QueueRing_enqueue :: "'a \<Rightarrow> 'a QueueRing \<Rightarrow> ('a QueueRing, 'a wq_ret, nat) outcome result" where
  "QueueRing_enqueue entry r =
     (let j = qr_cur_write r + 1 in on_bucket j (QueueBucket_enqueue entry) (r\<lparr>qr_cur_write := j\<rparr>))"

definition QueueRing_dequeue :: "'a QueueRing \<Rightarrow> ('a QueueRing, 'a wq_ret, nat) outcome result" where
  "QueueRing_dequeue r =
     (let j = qr_cur_read r + 1 in on_bucket j (QueueBucket_dequeue First) (r\<lparr>qr_cur_read := j\<rparr>))"

subsection \<open>BlockChannel\<close>

record 'a BlockChannel =
  ch_buffer :: "'a list"
  ch_eof :: bool

type_synonym 'a ch_outcome = "('a BlockChannel, 'a wq_ret, wq_cond) outcome"

definition BlockChannel_new :: "'a BlockChannel" where
  "BlockChannel_new = \<lparr>ch_buffer = [], ch_eof = False\<rparr>"

definition BlockChannel_SendEof :: "'a BlockChannel \<Rightarrow> 'a ch_outcome" where
  "BlockChannel_SendEof s = Done WVoid (s\<lparr>ch_eof := True\<rparr>) [Broadcast WCond]"

definition BlockChannel_Eof :: "'a BlockChannel \<Rightarrow> 'a ch_outcome" where
  "BlockChannel_Eof s = Done (WBool (ch_buffer s = [] \<and> ch_eof s)) s []"

definition BlockChannel_Size :: "'a BlockChannel \<Rightarrow> 'a ch_outcome" where
  "BlockChannel_Size s = Done (WSize (length (ch_buffer s))) s []"

definition BlockChannel_Write :: "'a \<Rightarrow> 'a BlockChannel \<Rightarrow> 'a ch_outcome" where
  "BlockChannel_Write elem s = Done WVoid (s\<lparr>ch_buffer := ch_buffer s @ [elem]\<rparr>) [Signal WCond]"

definition BlockChannel_Read :: "'a BlockChannel \<Rightarrow> 'a ch_outcome" where
  "BlockChannel_Read s =
     (if \<not> (ch_eof s \<or> ch_buffer s \<noteq> []) then Wait WCond s
      else case ch_buffer s of
        [] \<Rightarrow> Done (WElem None) s []
      | x # xs \<Rightarrow> Done (WElem (Some x)) (s\<lparr>ch_buffer := xs\<rparr>) [Signal WCond])"

datatype 'a ch_method = CSendEof | CEof | CSize | CWrite 'a | CRead

primrec BlockChannel_call :: "'a ch_method \<Rightarrow> phase \<Rightarrow> 'a BlockChannel \<Rightarrow> 'a ch_outcome" where
  "BlockChannel_call CSendEof ph = BlockChannel_SendEof"
| "BlockChannel_call CEof ph = BlockChannel_Eof"
| "BlockChannel_call CSize ph = BlockChannel_Size"
| "BlockChannel_call (CWrite x) ph = BlockChannel_Write x"
| "BlockChannel_call CRead ph = BlockChannel_Read"

subsection \<open>SimpleBlockingQueue\<close>

text \<open>
  The one condition variable \<open>queueCV_\<close> has two groups of waiters, for elements and for emptiness; it is
  only ever notified with \<open>notify_all\<close>, which wakes both.
\<close>

datatype sb_cond = SomeElement | NoElement

record 'a SimpleBlockingQueue =
  sb_elements :: "'a list"
  sb_num :: int

type_synonym 'a sb_outcome = "('a SimpleBlockingQueue, 'a wq_ret, sb_cond) outcome"

definition queueCV_notify_all :: "sb_cond notify list" where
  "queueCV_notify_all = [Broadcast SomeElement, Broadcast NoElement]"

definition SimpleBlockingQueue_new :: "'a SimpleBlockingQueue" where
  "SimpleBlockingQueue_new = \<lparr>sb_elements = [], sb_num = 0\<rparr>"

definition SimpleBlockingQueue_enqueue :: "'a \<Rightarrow> 'a SimpleBlockingQueue \<Rightarrow> 'a sb_outcome" where
  "SimpleBlockingQueue_enqueue el q =
     (if sb_num q + 1 \<ge> 2 ^ 31 then Done (WFail SignedOverflow) q []
      else Done WVoid (q\<lparr>sb_elements := sb_elements q @ [el], sb_num := sb_num q + 1\<rparr>) queueCV_notify_all)"

definition SimpleBlockingQueue_dequeue :: "'a SimpleBlockingQueue \<Rightarrow> 'a sb_outcome" where
  "SimpleBlockingQueue_dequeue q =
     (if sb_num q = 0 then Wait SomeElement q
      else case sb_elements q of
        [] \<Rightarrow> Done (WFail OutOfBounds) q []
      | x # xs \<Rightarrow> Done (WElem (Some x)) (q\<lparr>sb_elements := xs, sb_num := sb_num q - 1\<rparr>)
          (if sb_num q - 1 = 0 then queueCV_notify_all else []))"

definition SimpleBlockingQueue_size :: "'a SimpleBlockingQueue \<Rightarrow> 'a sb_outcome" where
  "SimpleBlockingQueue_size q = Done (WSize (nat (sb_num q))) q []"

definition SimpleBlockingQueue_empty :: "'a SimpleBlockingQueue \<Rightarrow> 'a sb_outcome" where
  "SimpleBlockingQueue_empty q = Done (WBool (sb_num q = 0)) q []"

definition SimpleBlockingQueue_waitEmpty :: "'a SimpleBlockingQueue \<Rightarrow> 'a sb_outcome" where
  "SimpleBlockingQueue_waitEmpty q = (if sb_num q \<noteq> 0 then Wait NoElement q else Done WVoid q [])"

definition SimpleBlockingQueue_waitNotEmptyFor :: "phase \<Rightarrow> 'a SimpleBlockingQueue \<Rightarrow> 'a sb_outcome" where
  "SimpleBlockingQueue_waitNotEmptyFor ph q =
     (if sb_num q = 0 \<and> ph \<noteq> TimedOut then Wait SomeElement q else Done (WBool (sb_num q \<noteq> 0)) q [])"

datatype 'a sb_method = BEnqueue 'a | BDequeue | BSize | BEmpty | BWaitEmpty | BWaitNotEmptyFor

primrec SimpleBlockingQueue_call :: "'a sb_method \<Rightarrow> phase \<Rightarrow> 'a SimpleBlockingQueue \<Rightarrow> 'a sb_outcome" where
  "SimpleBlockingQueue_call (BEnqueue x) ph = SimpleBlockingQueue_enqueue x"
| "SimpleBlockingQueue_call BDequeue ph = SimpleBlockingQueue_dequeue"
| "SimpleBlockingQueue_call BSize ph = SimpleBlockingQueue_size"
| "SimpleBlockingQueue_call BEmpty ph = SimpleBlockingQueue_empty"
| "SimpleBlockingQueue_call BWaitEmpty ph = SimpleBlockingQueue_waitEmpty"
| "SimpleBlockingQueue_call BWaitNotEmptyFor ph = SimpleBlockingQueue_waitNotEmptyFor ph"

subsection \<open>SimpleCircularQueue\<close>

record 'a SimpleCircularQueue =
  sc_capacity :: nat
  sc_queue :: "'a list"

type_synonym 'a sc_outcome = "('a SimpleCircularQueue, 'a wq_ret, bq_cond) outcome"

definition SimpleCircularQueue_new :: "nat \<Rightarrow> 'a SimpleCircularQueue" where
  "SimpleCircularQueue_new capacity = \<lparr>sc_capacity = capacity, sc_queue = []\<rparr>"

definition SimpleCircularQueue_enqueue :: "'a \<Rightarrow> 'a SimpleCircularQueue \<Rightarrow> 'a sc_outcome" where
  "SimpleCircularQueue_enqueue x q =
     (if \<not> length (sc_queue q) < sc_capacity q then Wait NotFull q
      else Done WVoid (q\<lparr>sc_queue := sc_queue q @ [x]\<rparr>) [Signal NotEmpty])"

definition SimpleCircularQueue_dequeue :: "'a SimpleCircularQueue \<Rightarrow> 'a sc_outcome" where
  "SimpleCircularQueue_dequeue q =
     (case sc_queue q of [] \<Rightarrow> Wait NotEmpty q
      | x # xs \<Rightarrow> Done (WElem (Some x)) (q\<lparr>sc_queue := xs\<rparr>) [Signal NotFull])"

definition SimpleCircularQueue_size :: "'a SimpleCircularQueue \<Rightarrow> 'a sc_outcome" where
  "SimpleCircularQueue_size q = Done (WSize (length (sc_queue q))) q []"

definition SimpleCircularQueue_empty :: "'a SimpleCircularQueue \<Rightarrow> 'a sc_outcome" where
  "SimpleCircularQueue_empty q = Done (WBool (sc_queue q = [])) q []"

datatype 'a sc_method = CEnqueue 'a | CDequeue | CqSize | CqEmpty

primrec SimpleCircularQueue_call :: "'a sc_method \<Rightarrow> phase \<Rightarrow> 'a SimpleCircularQueue \<Rightarrow> 'a sc_outcome" where
  "SimpleCircularQueue_call (CEnqueue x) ph = SimpleCircularQueue_enqueue x"
| "SimpleCircularQueue_call CDequeue ph = SimpleCircularQueue_dequeue"
| "SimpleCircularQueue_call CqSize ph = SimpleCircularQueue_size"
| "SimpleCircularQueue_call CqEmpty ph = SimpleCircularQueue_empty"

subsection \<open>ConcurrentBlockingQueue\<close>

text \<open>
  \<open>ty\<close> is the template parameter and \<open>alg\<close> the standard heap algorithms for the order of \<open>Entry\<close>.
  The consumers count themselves in \<open>nwait_consumer_\<close>, and a producer notifies only when it is not zero.
\<close>

datatype ConcurrentQueueType = kFIFO | kPriority

record 'a Entry =
  en_data :: 'a
  en_priority :: int

definition Entry_less :: "'a Entry \<Rightarrow> 'a Entry \<Rightarrow> bool" where
  "Entry_less a b \<longleftrightarrow> en_priority a < en_priority b"

record 'a ConcurrentBlockingQueue =
  cb_exit_now :: bool
  cb_nwait :: int
  cb_priority_queue :: "'a Entry list"
  cb_fifo_queue :: "'a list"

type_synonym 'a cb_outcome = "('a ConcurrentBlockingQueue, 'a wq_ret, wq_cond) outcome"

definition ConcurrentBlockingQueue_new :: "'a ConcurrentBlockingQueue" where
  "ConcurrentBlockingQueue_new = \<lparr>cb_exit_now = False, cb_nwait = 0, cb_priority_queue = [], cb_fifo_queue = []\<rparr>"

definition cb_notify :: "'a ConcurrentBlockingQueue \<Rightarrow> wq_cond notify list" where
  "cb_notify q = (if cb_nwait q \<noteq> 0 then [Signal WCond] else [])"

definition cb_push_heap :: "'a Entry heap_alg \<Rightarrow> 'a \<Rightarrow> int \<Rightarrow> 'a ConcurrentBlockingQueue \<Rightarrow> 'a ConcurrentBlockingQueue" where
  "cb_push_heap alg e priority q = q\<lparr>cb_priority_queue :=
     alg_push_heap alg (cb_priority_queue q @ [\<lparr>en_data = e, en_priority = priority\<rparr>])\<rparr>"

definition ConcurrentBlockingQueue_Push ::
    "ConcurrentQueueType \<Rightarrow> 'a Entry heap_alg \<Rightarrow> 'a \<Rightarrow> int \<Rightarrow> 'a ConcurrentBlockingQueue \<Rightarrow> 'a cb_outcome" where
  "ConcurrentBlockingQueue_Push ty alg e priority q =
     (if ty = kFIFO then Done WVoid (q\<lparr>cb_fifo_queue := cb_fifo_queue q @ [e]\<rparr>) (cb_notify q)
      else Done WVoid (cb_push_heap alg e priority q) (cb_notify q))"

definition ConcurrentBlockingQueue_PushFront ::
    "ConcurrentQueueType \<Rightarrow> 'a Entry heap_alg \<Rightarrow> 'a \<Rightarrow> int \<Rightarrow> 'a ConcurrentBlockingQueue \<Rightarrow> 'a cb_outcome" where
  "ConcurrentBlockingQueue_PushFront ty alg e priority q =
     (if ty = kFIFO then Done WVoid (q\<lparr>cb_fifo_queue := e # cb_fifo_queue q\<rparr>) (cb_notify q)
      else Done WVoid (cb_push_heap alg e priority q) (cb_notify q))"

definition ConcurrentBlockingQueue_Pop ::
    "ConcurrentQueueType \<Rightarrow> 'a Entry heap_alg \<Rightarrow> phase \<Rightarrow> 'a ConcurrentBlockingQueue \<Rightarrow> 'a cb_outcome" where
  "ConcurrentBlockingQueue_Pop ty alg ph q =
     (let q1 = (if ph = First then q\<lparr>cb_nwait := cb_nwait q + 1\<rparr> else q);
          q2 = q1\<lparr>cb_nwait := cb_nwait q1 - 1\<rparr>
      in if ty = kFIFO then
           if \<not> (cb_fifo_queue q1 \<noteq> [] \<or> cb_exit_now q1) then Wait WCond q1
           else if \<not> cb_exit_now q1
           then Done (WElem (Some (hd (cb_fifo_queue q2)))) (q2\<lparr>cb_fifo_queue := tl (cb_fifo_queue q2)\<rparr>) []
           else Done (WElem None) q2 []
         else
           if \<not> (cb_priority_queue q1 \<noteq> [] \<or> cb_exit_now q1) then Wait WCond q1
           else if \<not> cb_exit_now q1
           then let d = alg_pop_heap alg (cb_priority_queue q2)
                in Done (WElem (Some (en_data (last d)))) (q2\<lparr>cb_priority_queue := butlast d\<rparr>) []
           else Done (WElem None) q2 [])"

definition ConcurrentBlockingQueue_SignalForKill :: "'a ConcurrentBlockingQueue \<Rightarrow> 'a cb_outcome" where
  "ConcurrentBlockingQueue_SignalForKill q = Done WVoid (q\<lparr>cb_exit_now := True\<rparr>) [Broadcast WCond]"

definition cb_length :: "ConcurrentQueueType \<Rightarrow> 'a ConcurrentBlockingQueue \<Rightarrow> nat" where
  "cb_length ty q = (if ty = kFIFO then length (cb_fifo_queue q) else length (cb_priority_queue q))"

definition ConcurrentBlockingQueue_Size :: "ConcurrentQueueType \<Rightarrow> 'a ConcurrentBlockingQueue \<Rightarrow> 'a cb_outcome" where
  "ConcurrentBlockingQueue_Size ty q = Done (WSize (cb_length ty q)) q []"

datatype 'a cb_method = CBPush 'a int | CBPushFront 'a int | CBPop | CBSignalForKill | CBSize

primrec ConcurrentBlockingQueue_call ::
    "ConcurrentQueueType \<Rightarrow> 'a Entry heap_alg \<Rightarrow> 'a cb_method \<Rightarrow> phase \<Rightarrow> 'a ConcurrentBlockingQueue \<Rightarrow> 'a cb_outcome" where
  "ConcurrentBlockingQueue_call ty alg (CBPush e p) ph = ConcurrentBlockingQueue_Push ty alg e p"
| "ConcurrentBlockingQueue_call ty alg (CBPushFront e p) ph = ConcurrentBlockingQueue_PushFront ty alg e p"
| "ConcurrentBlockingQueue_call ty alg CBPop ph = ConcurrentBlockingQueue_Pop ty alg ph"
| "ConcurrentBlockingQueue_call ty alg CBSignalForKill ph = ConcurrentBlockingQueue_SignalForKill"
| "ConcurrentBlockingQueue_call ty alg CBSize ph = ConcurrentBlockingQueue_Size ty"

section \<open>The monitor contracts\<close>

lemmas MPMC_defs = MPMC_produce_def MPMC_wait_and_consume_def MPMC_try_consume_def MPMC_empty_def MPMC_size_def

lemmas BlockChannel_defs = BlockChannel_SendEof_def BlockChannel_Eof_def BlockChannel_Size_def
  BlockChannel_Write_def BlockChannel_Read_def

lemmas SimpleBlockingQueue_defs = SimpleBlockingQueue_enqueue_def SimpleBlockingQueue_dequeue_def
  SimpleBlockingQueue_size_def SimpleBlockingQueue_empty_def SimpleBlockingQueue_waitEmpty_def
  SimpleBlockingQueue_waitNotEmptyFor_def queueCV_notify_all_def

lemmas SimpleCircularQueue_defs = SimpleCircularQueue_enqueue_def SimpleCircularQueue_dequeue_def
  SimpleCircularQueue_size_def SimpleCircularQueue_empty_def

interpretation mp: counting_monitor MPMC_call "\<lambda>_. True" "\<lambda>m _. m = MConsume" "\<lambda>_ q. length (mp_queue q)" "\<lambda>_ _. False"
  apply unfold_locales
  subgoal by simp
  subgoal for s m by (cases m) (auto simp: MPMC_defs split: list.splits)
  subgoal for s m by (cases m) (auto simp: MPMC_defs split: list.splits)
  subgoal for s m c0 ph c by (cases c; cases c0) simp
  subgoal by simp
  subgoal for s m ph r s' ns c by (cases m; cases c) (auto simp: MPMC_defs split: list.splits)
  subgoal for s m by (cases m) (auto simp: MPMC_defs split: list.splits)
  done

interpretation ch: counting_monitor BlockChannel_call "\<lambda>_. True" "\<lambda>m _. m = CRead"
    "\<lambda>_ s. length (ch_buffer s)" "\<lambda>_. ch_eof"
  apply unfold_locales
  subgoal by simp
  subgoal for s m by (cases m) (auto simp: BlockChannel_defs split: if_splits list.splits)
  subgoal for s m by (cases m) (auto simp: BlockChannel_defs split: if_splits list.splits)
  subgoal for s m c0 ph c by (cases c; cases c0) simp
  subgoal by simp
  subgoal for s m ph r s' ns c by (cases m; cases c) (auto simp: BlockChannel_defs split: if_splits list.splits)
  subgoal for s m by (cases m) (auto simp: BlockChannel_defs split: if_splits list.splits)
  done

definition sb_ok :: "'a SimpleBlockingQueue \<Rightarrow> bool" where
  "sb_ok q \<longleftrightarrow> sb_num q = int (length (sb_elements q))"

primrec sb_waits :: "'a sb_method \<Rightarrow> sb_cond \<Rightarrow> bool" where
  "sb_waits (BEnqueue x) c = False"
| "sb_waits BDequeue c = (c = SomeElement)"
| "sb_waits BSize c = False"
| "sb_waits BEmpty c = False"
| "sb_waits BWaitEmpty c = (c = NoElement)"
| "sb_waits BWaitNotEmptyFor c = (c = SomeElement)"

primrec sb_plenty :: "sb_cond \<Rightarrow> 'a SimpleBlockingQueue \<Rightarrow> bool" where
  "sb_plenty SomeElement q = (sb_num q \<noteq> 0)"
| "sb_plenty NoElement q = (sb_num q = 0)"

interpretation sb: counting_monitor SimpleBlockingQueue_call sb_ok sb_waits "\<lambda>_ _. 0" sb_plenty
  apply unfold_locales
  subgoal for s m by (cases m) (auto simp: SimpleBlockingQueue_defs split: if_splits list.splits)
  subgoal for s m by (cases m) (auto simp: SimpleBlockingQueue_defs split: if_splits list.splits)
  subgoal for s m by (cases m) (auto simp: SimpleBlockingQueue_defs split: if_splits list.splits)
  subgoal for s m by (cases m) (auto simp: SimpleBlockingQueue_defs split: if_splits list.splits)
  subgoal for s m by (cases m) (auto simp: SimpleBlockingQueue_defs sb_ok_def split: if_splits list.splits)
  subgoal for s m ph r s' ns c
    by (cases m; cases c) (auto simp: SimpleBlockingQueue_defs sb_ok_def split: if_splits list.splits)
  subgoal by simp
  done

definition sc_ok :: "nat \<Rightarrow> 'a SimpleCircularQueue \<Rightarrow> bool" where
  "sc_ok n q \<longleftrightarrow> sc_capacity q = n \<and> length (sc_queue q) \<le> n"

primrec sc_waits :: "'a sc_method \<Rightarrow> bq_cond \<Rightarrow> bool" where
  "sc_waits (CEnqueue x) c = (c = NotFull)"
| "sc_waits CDequeue c = (c = NotEmpty)"
| "sc_waits CqSize c = False"
| "sc_waits CqEmpty c = False"

primrec sc_avail :: "bq_cond \<Rightarrow> 'a SimpleCircularQueue \<Rightarrow> nat" where
  "sc_avail NotEmpty q = length (sc_queue q)"
| "sc_avail NotFull q = sc_capacity q - length (sc_queue q)"

interpretation sc: counting_monitor SimpleCircularQueue_call "sc_ok n" sc_waits sc_avail "\<lambda>_ _. False" for n
  apply unfold_locales
  subgoal for s m by (cases m) (auto simp: SimpleCircularQueue_defs split: if_splits list.splits)
  subgoal for s m by (cases m) (auto simp: SimpleCircularQueue_defs split: if_splits list.splits)
  subgoal for s m by (cases m) (auto simp: SimpleCircularQueue_defs split: if_splits list.splits)
  subgoal for s m by (cases m) (auto simp: SimpleCircularQueue_defs split: if_splits list.splits)
  subgoal for s m by (cases m) (auto simp: SimpleCircularQueue_defs sc_ok_def split: if_splits list.splits)
  subgoal for s m ph r s' ns c
    by (cases m; cases c) (auto simp: SimpleCircularQueue_defs sc_ok_def split: if_splits list.splits)
  subgoal for s m c by (cases m; cases c) (auto simp: SimpleCircularQueue_defs sc_ok_def split: if_splits list.splits)
  done

section \<open>ConcurrentBlockingQueue\<close>

text \<open>
  A variant that notifies on every push meets the monitor contract.  The class itself notifies
  only when \<open>nwait_consumer_\<close> is not zero; the counter is the number of threads in the wait, so a
  notification it leaves out would wake nobody, and every state it reaches is one of the variant.
\<close>

lemmas ConcurrentBlockingQueue_defs = ConcurrentBlockingQueue_Push_def ConcurrentBlockingQueue_PushFront_def
  ConcurrentBlockingQueue_Pop_def ConcurrentBlockingQueue_SignalForKill_def ConcurrentBlockingQueue_Size_def
  cb_push_heap_def cb_length_def cb_notify_def Let_def

primrec pushes :: "'a cb_method \<Rightarrow> bool" where
  "pushes (CBPush e p) = True"
| "pushes (CBPushFront e p) = True"
| "pushes CBPop = False"
| "pushes CBSignalForKill = False"
| "pushes CBSize = False"

definition cb_noisy ::
    "ConcurrentQueueType \<Rightarrow> 'a Entry heap_alg \<Rightarrow> 'a cb_method \<Rightarrow> phase \<Rightarrow> 'a ConcurrentBlockingQueue \<Rightarrow> 'a cb_outcome" where
  "cb_noisy ty alg m ph q =
     (case ConcurrentBlockingQueue_call ty alg m ph q of
        Done r q' ns \<Rightarrow> Done r q' (if pushes m then [Signal WCond] else ns)
      | Wait c q' \<Rightarrow> Wait c q')"

definition cb_ok :: "'a ConcurrentBlockingQueue \<Rightarrow> bool" where
  "cb_ok q \<longleftrightarrow> heap_from Entry_less (cb_priority_queue q)"

lemma cb_ok_exit [simp]: "cb_ok (q\<lparr>cb_exit_now := b\<rparr>) = cb_ok q"
  by (simp add: cb_ok_def)

locale entry_heap = std_heap Entry_less alg
  for alg :: "'a Entry heap_alg"
begin

lemma push_length: "heap_from Entry_less d \<Longrightarrow> length (alg_push_heap alg (d @ [x])) = Suc (length d)"
  using push [of d x] by (metis size_add_mset size_mset)

lemma pop_last:
  assumes "heap_from Entry_less d" and "d \<noteq> []"
  shows "heap_from Entry_less (butlast (alg_pop_heap alg d))"
    and "mset d = add_mset (last (alg_pop_heap alg d)) (mset (butlast (alg_pop_heap alg d)))"
    and "last (alg_pop_heap alg d) = hd d"
proof -
  obtain x xs where d: "d = x # xs" using assms(2) by (cases d) auto
  then obtain d' where "alg_pop_heap alg d = d' @ [x]" "heap_from Entry_less d'" "mset d' = mset xs"
    using pop [of x xs] assms(1) by blast
  then show "heap_from Entry_less (butlast (alg_pop_heap alg d))"
    "mset d = add_mset (last (alg_pop_heap alg d)) (mset (butlast (alg_pop_heap alg d)))"
    "last (alg_pop_heap alg d) = hd d" using d by simp_all
qed

lemma pop_length: "heap_from Entry_less d \<Longrightarrow> d \<noteq> [] \<Longrightarrow> length d = Suc (length (butlast (alg_pop_heap alg d)))"
  using pop_last(2) [of d] by (metis size_add_mset size_mset)

lemma noisy_wait:
  "cb_noisy ty alg m ph q = Wait c q' \<Longrightarrow> m = CBPop \<and> cb_length ty q = 0 \<and> \<not> cb_exit_now q
     \<and> cb_priority_queue q' = cb_priority_queue q \<and> cb_fifo_queue q' = cb_fifo_queue q \<and> cb_exit_now q' = cb_exit_now q"
  by (cases m) (auto simp: cb_noisy_def ConcurrentBlockingQueue_defs split: if_splits)

lemma noisy_push:
  "cb_ok q \<Longrightarrow> cb_noisy ty alg m ph q = Done r q' ns \<Longrightarrow> pushes m \<Longrightarrow>
     cb_ok q' \<and> cb_length ty q' \<le> Suc (cb_length ty q) \<and> cb_exit_now q' = cb_exit_now q \<and> ns = [Signal WCond]"
  by (cases m) (auto simp: cb_noisy_def ConcurrentBlockingQueue_defs cb_ok_def push push_length split: if_splits)

lemma noisy_pop:
  "cb_ok q \<Longrightarrow> cb_noisy ty alg CBPop ph q = Done r q' ns \<Longrightarrow>
     cb_ok q' \<and> cb_length ty q' = cb_length ty q - of_bool (\<not> cb_exit_now q) \<and> cb_exit_now q' = cb_exit_now q"
  using pop_length [of "cb_priority_queue q"]
  by (auto simp: cb_noisy_def ConcurrentBlockingQueue_defs cb_ok_def pop_last split: if_splits)

lemma noisy_other:
  "cb_noisy ty alg CBSize ph q = Done r q' ns \<Longrightarrow> q' = q"
  "cb_noisy ty alg CBSignalForKill ph q = Done r q' ns \<Longrightarrow> q' = q\<lparr>cb_exit_now := True\<rparr> \<and> ns = [Broadcast WCond]"
  by (auto simp: cb_noisy_def ConcurrentBlockingQueue_defs)

end

sublocale entry_heap \<subseteq> noisy: counting_monitor "cb_noisy ty alg" cb_ok "\<lambda>m _. m = CBPop"
    "\<lambda>_ q. if cb_exit_now q then 0 else cb_length ty q" "\<lambda>_. cb_exit_now" for ty
  apply unfold_locales
  subgoal by (auto dest!: noisy_wait simp: cb_ok_def)
  subgoal by (auto dest!: noisy_wait)
  subgoal by (auto dest!: noisy_wait simp: cb_length_def)
  subgoal for s m c0 ph c by (cases c; cases c0) simp
  subgoal for s m by (cases m) (auto dest: noisy_push noisy_pop noisy_other)
  subgoal for s m ph r s' ns c
    by (cases m; cases c) (auto dest: noisy_push noisy_pop noisy_other split: if_splits)
  subgoal for s m by (auto dest: noisy_pop split: if_splits)
  done

context entry_heap
begin

lemma noisy_sound:
  "sound_sleep (cb_noisy ty alg) ConcurrentBlockingQueue_new (\<lambda>_ q. cb_length ty q = 0 \<and> \<not> cb_exit_now q)"
  by (rule noisy.sound_sleepI [of _ ty])
    (auto simp: cb_ok_def ConcurrentBlockingQueue_new_def heap_from_def split: if_splits)

end

interpretation entry_order: strict_weak Entry_less
  by unfold_locales (auto simp: Entry_less_def)

interpretation entry_std: entry_heap "std_alg Entry_less"
  using entry_order.alg.std_heap_axioms by (simp add: entry_heap_def)

definition waiting :: "('m, 'r, 'c) tpc \<Rightarrow> bool" where
  "waiting p \<longleftrightarrow> (\<exists>c m. p = Blocked c m \<or> p = Resumed c m)"

lemma waiting_simps [simp]:
  "\<not> waiting Idle" "\<not> waiting (Start m)" "\<not> waiting (Notifying ns r)" "waiting (Blocked c m)" "waiting (Resumed c m)"
  by (simp_all add: waiting_def)

lemma waiting_wake_all [simp]: "waiting (wake_all c pc t) = waiting (pc t)"
  by (auto simp: wake_all_def split: tpc.split)

definition cb_counted :: "('a ConcurrentBlockingQueue, 'a cb_method, 'a wq_ret, wq_cond) monitor \<Rightarrow> bool" where
  "cb_counted x \<longleftrightarrow> finite {t. waiting (mon_pc x t)} \<and> cb_nwait (mon_state x) = int (cnt waiting (mon_pc x))
     \<and> (\<forall>t c m. mon_pc x t = Blocked c m \<or> mon_pc x t = Resumed c m \<longrightarrow> m = CBPop)"

lemma cb_call_wait:
  "ConcurrentBlockingQueue_call ty alg m ph q = Wait c q' \<Longrightarrow> m = CBPop \<and> cb_nwait q' = cb_nwait q + of_bool (ph = First)"
  by (cases m) (auto simp: ConcurrentBlockingQueue_defs split: if_splits)

lemma cb_call_done:
  "ConcurrentBlockingQueue_call ty alg m ph q = Done r q' ns \<Longrightarrow>
     cb_nwait q' = cb_nwait q - of_bool (m = CBPop \<and> ph \<noteq> First) \<and> (pushes m \<longrightarrow> ns = cb_notify q)"
  by (cases m) (auto simp: ConcurrentBlockingQueue_defs split: if_splits)

lemma cb_counted_upd:
  assumes "cb_counted \<lparr>mon_state = s, mon_pc = pc\<rparr>"
    and "cb_nwait s' = cb_nwait s + of_bool (waiting p) - of_bool (waiting (pc t))"
    and "\<And>c m. p = Blocked c m \<or> p = Resumed c m \<Longrightarrow> m = CBPop"
  shows "cb_counted \<lparr>mon_state = s', mon_pc = pc(t := p)\<rparr>"
proof -
  have fin: "finite {t. waiting (pc t)}" using assms(1) by (simp add: cb_counted_def)
  have "cnt waiting (pc(t := p)) + of_bool (waiting (pc t)) = cnt waiting pc + of_bool (waiting p)"
    by (rule cnt_upd [where P = waiting and pc = pc, OF fin])
  then have "int (cnt waiting (pc(t := p))) = int (cnt waiting pc) + of_bool (waiting p) - of_bool (waiting (pc t))"
    by (cases "waiting p"; cases "waiting (pc t)") simp_all
  then show ?thesis using assms finite_upd [where P = waiting and pc = pc, OF fin]
    by (auto simp: cb_counted_def)
qed

lemma cb_counted_wake_all:
  "cb_counted \<lparr>mon_state = s, mon_pc = pc\<rparr> \<Longrightarrow> cb_counted \<lparr>mon_state = s, mon_pc = wake_all c pc\<rparr>"
  unfolding cb_counted_def by (auto simp: cnt_def wake_all_other)

lemma cb_counted_step:
  assumes "mon_step (ConcurrentBlockingQueue_call ty alg) x y" and "cb_counted x"
  shows "cb_counted y"
  using assms(1)
proof cases
  case (enter_wait pc t m s c s')
  then show ?thesis using cb_counted_upd [of s pc s' "Blocked c m" t] cb_call_wait [OF enter_wait(4)] assms(2)
    by (simp add: pending_def)
next
  case (enter_done pc t m s r s' ns)
  then show ?thesis using cb_counted_upd [of s pc s' "Notifying ns r" t] cb_call_done [OF enter_done(4)] assms(2)
    by simp
next
  case (resume_wait pc t c0 m ph s c s')
  then show ?thesis using cb_counted_upd [of s pc s' "Blocked c m" t] cb_call_wait [OF resume_wait(5)] assms(2)
    by (simp add: pending_def)
next
  case (resume_done pc t c0 m ph s r s' ns)
  then have "m = CBPop" using assms(2) by (auto simp: cb_counted_def)
  then show ?thesis using resume_done cb_counted_upd [of s pc s' "Notifying ns r" t] cb_call_done [OF resume_done(5)] assms(2)
    by simp
next
  case (signal_one pc t c ns r u m s)
  have m: "m = CBPop" using signal_one assms(2) by (auto simp: cb_counted_def)
  have "cb_counted \<lparr>mon_state = s, mon_pc = pc(t := Notifying ns r)\<rparr>"
    by (rule cb_counted_upd [where s = s]) (use signal_one assms(2) in auto)
  then have "cb_counted \<lparr>mon_state = s, mon_pc = (pc(t := Notifying ns r))(u := Resumed c m)\<rparr>"
    by (rule cb_counted_upd) (use signal_one m in auto)
  then show ?thesis using signal_one by simp
next
  case (signal_all pc t c ns r s)
  have "cb_counted \<lparr>mon_state = s, mon_pc = pc(t := Notifying ns r)\<rparr>"
    by (rule cb_counted_upd [where s = s]) (use signal_all assms(2) in auto)
  then show ?thesis using signal_all cb_counted_wake_all by simp
next
  case (call pc t s m)
  then show ?thesis using cb_counted_upd [of s pc s "Start m" t] assms(2) by simp
next
  case (wake_self pc t c m s)
  moreover from this have "m = CBPop" using assms(2) by (auto simp: cb_counted_def)
  ultimately show ?thesis using cb_counted_upd [of s pc s "Resumed c m" t] assms(2) by simp
next
  case (signal_none pc t c ns r s)
  then show ?thesis using cb_counted_upd [of s pc s "Notifying ns r" t] assms(2) by simp
next
  case (finish pc t r s)
  then show ?thesis using cb_counted_upd [of s pc s Idle t] assms(2) by simp
qed

lemma cb_noisy_same:
  "ConcurrentBlockingQueue_call ty alg m ph q = Wait c q' \<Longrightarrow> cb_noisy ty alg m ph q = Wait c q'"
  "ConcurrentBlockingQueue_call ty alg m ph q = Done r q' ns \<Longrightarrow>
     cb_noisy ty alg m ph q = Done r q' (if pushes m then [Signal WCond] else ns)"
  by (simp_all add: cb_noisy_def)

text \<open>A push with nobody waiting: the variant sends its signal to no one.\<close>

lemma cb_quiet_push:
  assumes "mon_reach (cb_noisy ty alg) s0 \<lparr>mon_state = s, mon_pc = pc\<rparr>"
    and counted: "cb_counted \<lparr>mon_state = s, mon_pc = pc\<rparr>" and "cb_nwait s = 0"
    and t: "pc t = Start m" and out: "cb_noisy ty alg m First s = Done r s' [Signal WCond]"
  shows "mon_reach (cb_noisy ty alg) s0 \<lparr>mon_state = s', mon_pc = pc(t := Notifying [] r)\<rparr>"
proof -
  have "\<not> waiting (pc u)" for u
    using counted assms(3) cnt_pos [where P = waiting and pc = pc and t = u] by (auto simp: cb_counted_def)
  then have none: "pc u \<noteq> Blocked c m'" for u c m' by (metis waiting_simps(4))
  have "mon_reach (cb_noisy ty alg) s0 \<lparr>mon_state = s', mon_pc = pc(t := Notifying [Signal WCond] r)\<rparr>"
    using mon_reach.step [OF assms(1) mon_step.enter_done] t out by blast
  from mon_reach.step [OF this mon_step.signal_none [of "pc(t := Notifying [Signal WCond] r)" t WCond "[]" r]]
  show ?thesis using none by simp
qed

lemma cb_noisy_step:
  assumes "mon_step (ConcurrentBlockingQueue_call ty alg) x y" and counted: "cb_counted x"
    and reach: "mon_reach (cb_noisy ty alg) s0 x"
  shows "mon_reach (cb_noisy ty alg) s0 y"
  using assms(1)
proof cases
  case (enter_done pc t m s r s' ns)
  note out = cb_noisy_same(2) [OF enter_done(4)]
  show ?thesis
  proof (cases "pushes m \<and> cb_nwait s = 0")
    case True
    then have "ns = []" using cb_call_done [OF enter_done(4)] by (simp add: cb_notify_def)
    then show ?thesis
      using cb_quiet_push [of ty alg s0 s pc t m r s'] reach counted enter_done True out by simp
  next
    case False
    then have "cb_noisy ty alg m First s = Done r s' ns"
      using out cb_call_done [OF enter_done(4)] by (auto simp: cb_notify_def)
    from mon_step.enter_done [of pc t m "cb_noisy ty alg" s r s' ns, OF enter_done(3) this]
    show ?thesis using mon_reach.step [of "cb_noisy ty alg" s0 x y] reach enter_done(1,2) by simp
  qed
next
  case (resume_done pc t c0 m ph s r s' ns)
  then have "m = CBPop" using counted by (auto simp: cb_counted_def)
  then have "cb_noisy ty alg m ph s = Done r s' ns" using cb_noisy_same(2) [OF resume_done(5)] by simp
  from mon_step.resume_done [of pc t c0 m ph "cb_noisy ty alg" s r s' ns, OF resume_done(3,4) this]
  show ?thesis using mon_reach.step [of "cb_noisy ty alg" s0 x y] reach resume_done(1,2) by simp
next
  case (enter_wait pc t m s c s')
  from mon_step.enter_wait [of pc t m "cb_noisy ty alg" s c s', OF enter_wait(3) cb_noisy_same(1) [OF enter_wait(4)]]
  show ?thesis using mon_reach.step [of "cb_noisy ty alg" s0 x y] reach enter_wait(1,2) by simp
next
  case (resume_wait pc t c0 m ph s c s')
  from mon_step.resume_wait [of pc t c0 m ph "cb_noisy ty alg" s c s', OF resume_wait(3,4) cb_noisy_same(1) [OF resume_wait(5)]]
  show ?thesis using mon_reach.step [of "cb_noisy ty alg" s0 x y] reach resume_wait(1,2) by simp
next
  case (call pc t s m)
  then show ?thesis using reach by (metis mon_reach.step mon_step.call)
next
  case (wake_self pc t c m s)
  then show ?thesis using reach by (metis mon_reach.step mon_step.wake_self)
next
  case (signal_one pc t c ns r u m s)
  then show ?thesis using reach by (metis mon_reach.step mon_step.signal_one)
next
  case (signal_none pc t c ns r s)
  then show ?thesis using reach by (metis mon_reach.step mon_step.signal_none)
next
  case (signal_all pc t c ns r s)
  then show ?thesis using reach by (metis mon_reach.step mon_step.signal_all)
next
  case (finish pc t r s)
  then show ?thesis using reach by (metis mon_reach.step mon_step.finish)
qed

lemma cb_reach:
  "mon_reach (ConcurrentBlockingQueue_call ty alg) ConcurrentBlockingQueue_new x \<Longrightarrow>
     mon_reach (cb_noisy ty alg) ConcurrentBlockingQueue_new x \<and> cb_counted x"
proof (induction rule: mon_reach.induct)
  case init
  show ?case
    by (rule conjI [OF mon_reach.init]) (simp add: cb_counted_def mon_init_def cnt_def ConcurrentBlockingQueue_new_def)
next
  case (step x y)
  then show ?case using cb_noisy_step cb_counted_step by blast
qed

lemma cb_sound_sleep:
  assumes "std_heap Entry_less alg"
  shows "sound_sleep (ConcurrentBlockingQueue_call ty alg) ConcurrentBlockingQueue_new
    (\<lambda>_ q. cb_length ty q = 0 \<and> \<not> cb_exit_now q)"
proof -
  have "entry_heap alg" using assms by (simp add: entry_heap_def)
  from entry_heap.noisy_sound [OF this, of ty] show ?thesis using cb_reach unfolding sound_sleep_def by blast
qed

section \<open>Wake-ups\<close>

text \<open>
  In a bucket of \<open>QueueRing\<close> two consumers sleep and two elements arrive; only the first arrival signals,
  since the bucket is no longer empty at the second, and one consumer is left asleep beside an element.
\<close>

abbreviation empty_bucket :: "nat QueueBucket" where
  "empty_bucket \<equiv> \<lparr>qb_entries = []\<rparr>"

definition stranded :: "(nat QueueBucket, nat qb_method, nat wq_ret, wq_cond) monitor" where
  "stranded = \<lparr>mon_state = \<lparr>qb_entries = [8]\<rparr>, mon_pc = (\<lambda>_. Idle)(1 := Blocked WCond QDequeue)\<rparr>"

lemma QueueBucket_strands: "mon_reach QueueBucket_call empty_bucket stranded"
proof -
  let ?pc2 = "(\<lambda>_. Idle)(0 := Blocked WCond QDequeue, 1 := Blocked WCond QDequeue)
    :: nat \<Rightarrow> (nat qb_method, nat wq_ret, wq_cond) tpc"
  note bucket = QueueBucket_enqueue_def QueueBucket_dequeue_def
  have "mon_reach QueueBucket_call empty_bucket \<lparr>mon_state = empty_bucket, mon_pc = (\<lambda>_. Idle)(0 := Blocked WCond QDequeue)\<rparr>"
    by (rule reach_sleep [OF mon_reach.init [unfolded mon_init_def]]) (simp_all add: bucket)
  then have "mon_reach QueueBucket_call empty_bucket \<lparr>mon_state = empty_bucket, mon_pc = ?pc2\<rparr>"
    by (rule reach_sleep) (simp_all add: bucket)
  then have "mon_reach QueueBucket_call empty_bucket
      \<lparr>mon_state = \<lparr>qb_entries = [7]\<rparr>, mon_pc = ?pc2(2 := Notifying [Signal WCond] WVoid)\<rparr>"
    by (rule reach_done [where m = "QEnqueue 7"]) (simp_all add: bucket)
  then have both: "mon_reach QueueBucket_call empty_bucket
      \<lparr>mon_state = \<lparr>qb_entries = [7, 8]\<rparr>, mon_pc = ?pc2(2 := Notifying [Signal WCond] WVoid)\<rparr>"
    by (rule reach_return [where m = "QEnqueue 8" and t = 3]) (simp_all add: bucket)
  let ?pc3 = "?pc2(2 := Notifying [] WVoid, 0 := Resumed WCond QDequeue)"
  have "mon_reach QueueBucket_call empty_bucket \<lparr>mon_state = \<lparr>qb_entries = [7, 8]\<rparr>, mon_pc = ?pc3\<rparr>"
    using mon_reach.step [OF both mon_step.signal_one [of _ 2 WCond "[]" WVoid 0 QDequeue]] by simp
  then have "mon_reach QueueBucket_call empty_bucket
      \<lparr>mon_state = \<lparr>qb_entries = [8]\<rparr>, mon_pc = ?pc3(0 := Notifying [] (WElem (Some 7)))\<rparr>"
    by (rule mon_reach.step) (rule mon_step.resume_done [where ph = Woken and m = QDequeue], auto simp: bucket)
  then have "mon_reach QueueBucket_call empty_bucket
      \<lparr>mon_state = \<lparr>qb_entries = [8]\<rparr>, mon_pc = ?pc3(0 := Notifying [] (WElem (Some 7)), 0 := Idle)\<rparr>"
    by (rule mon_reach.step) (rule mon_step.finish, simp)
  then have "mon_reach QueueBucket_call empty_bucket
      \<lparr>mon_state = \<lparr>qb_entries = [8]\<rparr>, mon_pc = ?pc3(0 := Notifying [] (WElem (Some 7)), 0 := Idle, 2 := Idle)\<rparr>"
    by (rule mon_reach.step) (rule mon_step.finish, simp)
  moreover have "?pc3(0 := Notifying [] (WElem (Some 7)), 0 := Idle, 2 := Idle) = mon_pc stranded"
    by (auto simp: stranded_def)
  ultimately show ?thesis by (simp add: stranded_def)
qed

text \<open>A consumer that wakes up on its own finds the bucket empty and fails the assertion.\<close>

lemma QueueBucket_asserts:
  "mon_reach QueueBucket_call empty_bucket
     \<lparr>mon_state = empty_bucket, mon_pc = (\<lambda>_. Idle)(0 := Notifying [] (WFail AssertFailed))\<rparr>"
proof -
  have "mon_reach QueueBucket_call empty_bucket \<lparr>mon_state = empty_bucket, mon_pc = (\<lambda>_. Idle)(0 := Blocked WCond QDequeue)\<rparr>"
    by (rule reach_sleep [OF mon_reach.init [unfolded mon_init_def]]) (simp_all add: QueueBucket_dequeue_def)
  then have "mon_reach QueueBucket_call empty_bucket
      \<lparr>mon_state = empty_bucket, mon_pc = (\<lambda>_. Idle)(0 := Blocked WCond QDequeue, 0 := Resumed WCond QDequeue)\<rparr>"
    by (rule mon_reach.step) (rule mon_step.wake_self, simp)
  then have "mon_reach QueueBucket_call empty_bucket \<lparr>mon_state = empty_bucket,
      mon_pc = (\<lambda>_. Idle)(0 := Blocked WCond QDequeue, 0 := Resumed WCond QDequeue, 0 := Notifying [] (WFail AssertFailed))\<rparr>"
    by (rule mon_reach.step) (rule mon_step.resume_done [where ph = Woken and m = QDequeue], auto simp: QueueBucket_dequeue_def)
  then show ?thesis by simp
qed

text \<open>
  C18. Under every interleaving, when nothing is under way a consumer that sleeps in an
  \<open>MPMCBlockingQueue\<close>, \<open>BlockChannel\<close>, \<open>SimpleBlockingQueue\<close>, \<open>SimpleCircularQueue\<close> or
  \<open>ConcurrentBlockingQueue\<close> finds the queue empty (and the channel open, the queue not killed), a
  producer that sleeps finds it full, and a thread in \<open>waitEmpty\<close> finds it not empty.  A bucket
  of \<open>QueueRing\<close> does not have this property, and its assertion can fail.
\<close>
theorem wait_queues_no_lost_wakeup:
  assumes "std_heap Entry_less alg"
  shows "sound_sleep MPMC_call \<lparr>mp_queue = []\<rparr> (\<lambda>_ q. mp_queue q = [])
   \<and> sound_sleep BlockChannel_call BlockChannel_new (\<lambda>_ s. ch_buffer s = [] \<and> \<not> ch_eof s)
   \<and> sound_sleep SimpleBlockingQueue_call SimpleBlockingQueue_new
       (\<lambda>c q. if c = SomeElement then sb_elements q = [] else sb_elements q \<noteq> [])
   \<and> sound_sleep SimpleCircularQueue_call (SimpleCircularQueue_new n)
       (\<lambda>c q. if c = NotEmpty then sc_queue q = [] else length (sc_queue q) = n)
   \<and> sound_sleep (ConcurrentBlockingQueue_call ty alg) ConcurrentBlockingQueue_new
       (\<lambda>_ q. cb_length ty q = 0 \<and> \<not> cb_exit_now q)
   \<and> \<not> sound_sleep QueueBucket_call empty_bucket (\<lambda>_ q. qb_entries q = [])
   \<and> (\<exists>x t. mon_reach QueueBucket_call empty_bucket x \<and> mon_pc x t = Notifying [] (WFail AssertFailed))"
proof (intro conjI)
  show "sound_sleep MPMC_call \<lparr>mp_queue = []\<rparr> (\<lambda>_ q. mp_queue q = [])"
    by (rule mp.sound_sleepI) auto
  show "sound_sleep BlockChannel_call BlockChannel_new (\<lambda>_ s. ch_buffer s = [] \<and> \<not> ch_eof s)"
    by (rule ch.sound_sleepI) auto
  show "sound_sleep SimpleBlockingQueue_call SimpleBlockingQueue_new
      (\<lambda>c q. if c = SomeElement then sb_elements q = [] else sb_elements q \<noteq> [])"
  proof (rule sb.sound_sleepI)
    show "sb_ok s \<Longrightarrow> 0 = (0 :: nat) \<Longrightarrow> \<not> sb_plenty c s \<Longrightarrow>
        if c = SomeElement then sb_elements s = [] else sb_elements s \<noteq> []" for c and s :: "'x SimpleBlockingQueue"
      by (cases c) (auto simp: sb_ok_def)
  qed (simp add: sb_ok_def SimpleBlockingQueue_new_def)
  show "sound_sleep SimpleCircularQueue_call (SimpleCircularQueue_new n)
      (\<lambda>c q. if c = NotEmpty then sc_queue q = [] else length (sc_queue q) = n)"
  proof (rule sc.sound_sleepI [where n = n])
    show "sc_ok n s \<Longrightarrow> sc_avail c s = 0 \<Longrightarrow> \<not> False \<Longrightarrow>
        if c = NotEmpty then sc_queue s = [] else length (sc_queue s) = n" for c and s :: "'y SimpleCircularQueue"
      by (cases c) (auto simp: sc_ok_def)
  qed (simp add: sc_ok_def SimpleCircularQueue_new_def)
  show "sound_sleep (ConcurrentBlockingQueue_call ty alg) ConcurrentBlockingQueue_new
      (\<lambda>_ q. cb_length ty q = 0 \<and> \<not> cb_exit_now q)"
    by (rule cb_sound_sleep [OF assms])
  have "quiescent stranded" "mon_pc stranded 1 = Blocked WCond QDequeue" "qb_entries (mon_state stranded) \<noteq> []"
    by (simp_all add: quiescent_def stranded_def)
  then show "\<not> sound_sleep QueueBucket_call empty_bucket (\<lambda>_ q. qb_entries q = [])"
    using QueueBucket_strands unfolding sound_sleep_def by blast
  show "\<exists>x t. mon_reach QueueBucket_call empty_bucket x \<and> mon_pc x t = Notifying [] (WFail AssertFailed)"
    using QueueBucket_asserts by fastforce
qed

theorem wait_queues_no_lost_wakeup_witness:
  "std_heap Entry_less (std_alg (Entry_less :: nat Entry \<Rightarrow> _))
   \<and> sound_sleep (ConcurrentBlockingQueue_call kPriority (std_alg (Entry_less :: nat Entry \<Rightarrow> _))) ConcurrentBlockingQueue_new
       (\<lambda>_ q. cb_length kPriority q = 0 \<and> \<not> cb_exit_now q)"
  using wait_queues_no_lost_wakeup [OF entry_order.alg.std_heap_axioms] entry_order.alg.std_heap_axioms by blast

section \<open>What the queues return\<close>

text \<open>The ring: element number \<open>j\<close> is in bucket \<open>j mod n\<close>, for the numbers not yet read.\<close>

definition qr_holds :: "(nat \<Rightarrow> 'a) \<Rightarrow> 'a QueueRing \<Rightarrow> bool" where
  "qr_holds f r \<longleftrightarrow> qr_buckets r \<noteq> [] \<and> qr_cur_read r \<le> qr_cur_write r
     \<and> (\<forall>i<length (qr_buckets r). qb_entries (qr_buckets r ! i)
          = map f (filter (\<lambda>j. j mod length (qr_buckets r) = i) [Suc (qr_cur_read r)..<Suc (qr_cur_write r)]))"

definition qr_contents :: "(nat \<Rightarrow> 'a) \<Rightarrow> 'a QueueRing \<Rightarrow> 'a list" where
  "qr_contents f r = map f [Suc (qr_cur_read r)..<Suc (qr_cur_write r)]"

lemma QueueRing_enqueue_holds:
  assumes "qr_holds f r"
  shows "\<exists>r' ns. QueueRing_enqueue x r = Inr (Done WVoid r' ns) \<and> qr_holds (f(Suc (qr_cur_write r) := x)) r'
    \<and> qr_contents (f(Suc (qr_cur_write r) := x)) r' = qr_contents f r @ [x]"
proof -
  let ?w = "qr_cur_write r" let ?n = "length (qr_buckets r)" let ?f = "f(Suc ?w := x)"
  let ?i = "Suc ?w mod ?n"
  have i: "?i < ?n" using assms by (auto simp: qr_holds_def intro: mod_less_divisor)
  have same: "map ?f (filter P [Suc (qr_cur_read r)..<Suc ?w]) = map f (filter P [Suc (qr_cur_read r)..<Suc ?w])" for P
    by (rule map_cong) auto
  have whole: "map ?f [Suc (qr_cur_read r)..<Suc ?w] = map f [Suc (qr_cur_read r)..<Suc ?w]"
    by (rule map_cong) auto
  have up: "[Suc (qr_cur_read r)..<Suc (Suc ?w)] = [Suc (qr_cur_read r)..<Suc ?w] @ [Suc ?w]"
    using assms by (auto simp: qr_holds_def)
  show ?thesis using assms i
    by (auto simp: QueueRing_enqueue_def on_bucket_def QueueBucket_enqueue_def qr_holds_def qr_contents_def Let_def
        up same whole nth_list_update fun_upd_same simp del: upt_Suc fun_upd_apply)
qed

lemma QueueRing_dequeue_holds:
  assumes "qr_holds f r" and "qr_contents f r = x # xs"
  shows "\<exists>r'. QueueRing_dequeue r = Inr (Done (WElem (Some x)) r' []) \<and> qr_holds f r' \<and> qr_contents f r' = xs"
proof -
  let ?r = "qr_cur_read r" let ?w = "qr_cur_write r" let ?n = "length (qr_buckets r)"
  let ?i = "Suc ?r mod ?n"
  have i: "?i < ?n" using assms by (auto simp: qr_holds_def intro: mod_less_divisor)
  have lt: "?r < ?w" using assms by (cases "?r < ?w") (auto simp: qr_holds_def qr_contents_def)
  then have up: "[Suc ?r..<Suc ?w] = Suc ?r # [Suc (Suc ?r)..<Suc ?w]" by (simp add: upt_conv_Cons del: upt_Suc)
  have x: "x = f (Suc ?r)" "xs = map f [Suc (Suc ?r)..<Suc ?w]"
    using assms(2) by (simp_all add: qr_contents_def up del: upt_Suc)
  have b: "qb_entries (qr_buckets r ! ?i) = x # map f (filter (\<lambda>j. j mod ?n = ?i) [Suc (Suc ?r)..<Suc ?w])"
    using assms(1) i by (simp add: qr_holds_def up x(1) del: upt_Suc)
  have other: "qb_entries (qr_buckets r ! k) = map f (filter (\<lambda>j. j mod ?n = k) [Suc (Suc ?r)..<Suc ?w])"
    if "k < ?n" "k \<noteq> ?i" for k
    using assms(1) that by (simp add: qr_holds_def up del: upt_Suc)
  let ?b = "(qr_buckets r ! ?i)\<lparr>qb_entries := map f (filter (\<lambda>j. j mod ?n = ?i) [Suc (Suc ?r)..<Suc ?w])\<rparr>"
  let ?r' = "r\<lparr>qr_cur_read := Suc ?r, qr_buckets := (qr_buckets r)[?i := ?b]\<rparr>"
  have "QueueBucket_dequeue First (qr_buckets r ! ?i) = Done (WElem (Some x)) ?b []"
    by (simp only: QueueBucket_dequeue_def b list.case)
  then have "QueueRing_dequeue r = Inr (Done (WElem (Some x)) ?r' [])"
    using assms(1) by (simp add: QueueRing_dequeue_def on_bucket_def qr_holds_def Let_def)
  moreover have "qr_holds f ?r'"
    using assms(1) i lt other by (auto simp: qr_holds_def nth_list_update simp del: upt_Suc)
  moreover have "qr_contents f ?r' = xs" using x by (simp add: qr_contents_def del: upt_Suc)
  ultimately show ?thesis by blast
qed

primrec enqueue_all :: "'a list \<Rightarrow> 'a QueueRing \<Rightarrow> 'a QueueRing option" where
  "enqueue_all [] r = Some r"
| "enqueue_all (x # xs) r = (case QueueRing_enqueue x r of Inr (Done WVoid r' ns) \<Rightarrow> enqueue_all xs r' | _ \<Rightarrow> None)"

primrec dequeue_many :: "nat \<Rightarrow> 'a QueueRing \<Rightarrow> ('a list \<times> 'a QueueRing) option" where
  "dequeue_many 0 r = Some ([], r)"
| "dequeue_many (Suc k) r =
     (case QueueRing_dequeue r of
        Inr (Done (WElem (Some x)) r' ns) \<Rightarrow> (case dequeue_many k r' of None \<Rightarrow> None | Some (xs, r'') \<Rightarrow> Some (x # xs, r''))
      | _ \<Rightarrow> None)"

lemma enqueue_all_holds:
  "qr_holds f r \<Longrightarrow> \<exists>r' f'. enqueue_all xs r = Some r' \<and> qr_holds f' r' \<and> qr_contents f' r' = qr_contents f r @ xs"
proof (induction xs arbitrary: f r)
  case (Cons x xs)
  obtain r1 ns where r1: "QueueRing_enqueue x r = Inr (Done WVoid r1 ns)" "qr_holds (f(Suc (qr_cur_write r) := x)) r1"
    "qr_contents (f(Suc (qr_cur_write r) := x)) r1 = qr_contents f r @ [x]"
    using QueueRing_enqueue_holds [OF Cons.prems, of x] by (elim exE conjE) (rule that)
  from Cons.IH [OF r1(2)] show ?case unfolding r1(3) using r1(1) by simp
qed auto

lemma dequeue_many_holds:
  "qr_holds f r \<Longrightarrow> qr_contents f r = xs @ ys \<Longrightarrow>
     \<exists>r'. dequeue_many (length xs) r = Some (xs, r') \<and> qr_holds f r' \<and> qr_contents f r' = ys"
proof (induction xs arbitrary: r)
  case (Cons x xs)
  obtain r1 where "QueueRing_dequeue r = Inr (Done (WElem (Some x)) r1 [])" "qr_holds f r1" "qr_contents f r1 = xs @ ys"
    using QueueRing_dequeue_holds [OF Cons.prems(1), of x "xs @ ys"] Cons.prems(2) by auto
  then show ?case using Cons.IH [of r1] by auto
qed auto



text \<open>
  A \<open>QueueRing\<close> of \<open>n\<close> buckets is a FIFO queue as long as no dequeue overtakes the enqueues: after any
  list of enqueues, any number of dequeues up to its length returns its elements in order,
  although consecutive elements are in different buckets, and the ring can be used on.
\<close>
theorem QueueRing_fifo:
  fixes xs ys zs :: "'a list"
  assumes "0 < n"
  shows "\<exists>r1 r2 r3. enqueue_all (xs @ ys) (QueueRing_new n) = Some r1
    \<and> dequeue_many (length xs) r1 = Some (xs, r2)
    \<and> (\<exists>r4. enqueue_all zs r2 = Some r4 \<and> dequeue_many (length (ys @ zs)) r4 = Some (ys @ zs, r3))"
proof -
  have "qr_holds (undefined :: nat \<Rightarrow> 'a) (QueueRing_new n)" "qr_contents (undefined :: nat \<Rightarrow> 'a) (QueueRing_new n) = []"
    using assms by (auto simp: qr_holds_def qr_contents_def QueueRing_new_def)
  then obtain r1 f where r1: "enqueue_all (xs @ ys) (QueueRing_new n) = Some r1" "qr_holds f r1" "qr_contents f r1 = xs @ ys"
    using enqueue_all_holds [of "undefined :: nat \<Rightarrow> 'a" "QueueRing_new n" "xs @ ys"] by auto
  then obtain r2 where r2: "dequeue_many (length xs) r1 = Some (xs, r2)" "qr_holds f r2" "qr_contents f r2 = ys"
    using dequeue_many_holds by blast
  obtain r4 g where r4: "enqueue_all zs r2 = Some r4" "qr_holds g r4" "qr_contents g r4 = ys @ zs"
    using enqueue_all_holds [OF r2(2), of zs] r2(3) by auto
  then obtain r3 where "dequeue_many (length (ys @ zs)) r4 = Some (ys @ zs, r3)"
    using dequeue_many_holds [OF r4(2), of "ys @ zs" "[]"] by auto
  then show ?thesis using r1(1) r2(1) r4(1) by blast
qed

theorem QueueRing_fifo_witness:
  "\<exists>r1 r2. enqueue_all [1, 2, 3, 4, 5 :: nat] (QueueRing_new 3) = Some r1 \<and> dequeue_many 4 r1 = Some ([1, 2, 3, 4], r2)"
  using QueueRing_fifo [of 3 "[1, 2, 3, 4 :: nat]" "[5]" "[]"] by (auto simp: numeral_eq_Suc)

end
