(* ===== verification/String_Piece.thy ===== *)
theory String_Piece
  imports Coding_Util "HOL-Library.Sublist"
begin

unbundle bit_operations_syntax

text \<open>
  \<open>StringPiece\<close> of \<open>stringpiece.h\<close> and \<open>stringpiece.cpp\<close>: a view of a range of bytes, modelled as the list of
  those bytes, with its searches, comparison and hexadecimal form, and the bytewise
  comparator.  Positions are naturals; \<open>npos\<close> is \<open>None\<close> in results and larger than every size in
  arguments.
\<close>

section \<open>The class\<close>

type_synonym StringPiece = "octet list"

definition npos :: nat where
  "npos = 2 ^ 64 - 1"

definition StringPiece_at :: "StringPiece \<Rightarrow> nat \<Rightarrow> octet result" where
  "StringPiece_at s n = (if n < length s then Inr (s ! n) else Inl AssertFailed)"

definition substr_copy :: "StringPiece \<Rightarrow> nat \<Rightarrow> octet list result" where
  "substr_copy s start = (if start \<le> length s then Inr (drop start s) else Inl AssertFailed)"

definition remove_prefix :: "nat \<Rightarrow> StringPiece \<Rightarrow> StringPiece result" where
  "remove_prefix n s = (if n \<le> length s then Inr (drop n s) else Inl AssertFailed)"

definition remove_suffix :: "nat \<Rightarrow> StringPiece \<Rightarrow> StringPiece result" where
  "remove_suffix n s = (if length s \<ge> n then Inr (take (length s - n) s) else Inl AssertFailed)"

text \<open>\<open>memcmp\<close> on the first \<open>n\<close> bytes: the sign of the first difference, as unsigned bytes.\<close>

fun memcmp :: "octet list \<Rightarrow> octet list \<Rightarrow> nat \<Rightarrow> int" where
  "memcmp (x # xs) (y # ys) (Suc n) = (if x < y then - 1 else if y < x then 1 else memcmp xs ys n)"
| "memcmp xs ys n = 0"

definition starts_with :: "StringPiece \<Rightarrow> StringPiece \<Rightarrow> bool" where
  "starts_with s x \<longleftrightarrow> length s \<ge> length x \<and> memcmp s x (length x) = 0"

definition ends_with :: "StringPiece \<Rightarrow> StringPiece \<Rightarrow> bool" where
  "ends_with s x \<longleftrightarrow> length s \<ge> length x \<and> memcmp (drop (length s - length x) s) x (length x) = 0"

definition StringPiece_consume :: "StringPiece \<Rightarrow> StringPiece \<Rightarrow> (bool \<times> StringPiece) result" where
  "StringPiece_consume s x =
     (if starts_with s x then ub_bind (remove_prefix (length x) s) (\<lambda>s. Inr (True, s)) else Inr (False, s))"

primrec memchr :: "octet list \<Rightarrow> octet \<Rightarrow> nat option" where
  "memchr [] c = None"
| "memchr (x # xs) c = (if x = c then Some 0 else map_option Suc (memchr xs c))"

definition StringPiece_find :: "StringPiece \<Rightarrow> octet \<Rightarrow> nat \<Rightarrow> nat option" where
  "StringPiece_find s c pos =
     (if pos \<ge> length s then None else map_option (\<lambda>i. pos + i) (memchr (drop pos s) c))"

primrec rfind_loop :: "StringPiece \<Rightarrow> octet \<Rightarrow> nat \<Rightarrow> nat option" where
  "rfind_loop s c 0 = (if s ! 0 = c then Some 0 else None)"
| "rfind_loop s c (Suc p) = (if s ! Suc p = c then Some (Suc p) else rfind_loop s c p)"

definition StringPiece_rfind :: "StringPiece \<Rightarrow> octet \<Rightarrow> nat \<Rightarrow> nat option" where
  "StringPiece_rfind s c pos = (if length s = 0 then None else rfind_loop s c (min pos (length s - 1)))"

text \<open>\<open>std::search\<close>: the first position of \<open>x\<close>, or the end of the range.\<close>

fun std_search :: "octet list \<Rightarrow> octet list \<Rightarrow> nat" where
  "std_search s x = (if take (length x) s = x then 0 else case s of [] \<Rightarrow> 0 | _ # s' \<Rightarrow> Suc (std_search s' x))"

declare std_search.simps [simp del]

definition StringPiece_contains :: "StringPiece \<Rightarrow> StringPiece \<Rightarrow> bool" where
  "StringPiece_contains s x \<longleftrightarrow> std_search s x \<noteq> length s"

definition StringPiece_substr :: "StringPiece \<Rightarrow> nat \<Rightarrow> nat \<Rightarrow> StringPiece" where
  "StringPiece_substr s pos n =
     (let pos = (if pos > length s then length s else pos);
          n = (if n > length s - pos then length s - pos else n)
      in take n (drop pos s))"

definition StringPiece_compare :: "StringPiece \<Rightarrow> StringPiece \<Rightarrow> int" where
  "StringPiece_compare a b =
     (let min_len = (if length a < length b then length a else length b);
          r = memcmp a b min_len
      in if r = 0 then (if length a < length b then - 1 else if length a > length b then 1 else r) else r)"

definition StringPiece_eq :: "StringPiece \<Rightarrow> StringPiece \<Rightarrow> bool" where
  "StringPiece_eq x y \<longleftrightarrow> length x = length y \<and> memcmp x y (length x) = 0"

definition toHex :: "octet \<Rightarrow> octet" where
  "toHex v = (if v \<le> 9 then 48 + v else 65 + v - 10)"

text \<open>\<open>char\<close> is signed: bytes from 128 on are negative and below every digit.\<close>

definition fromHex :: "octet \<Rightarrow> int" where
  "fromHex c =
     (let c = sint c;
          c = (if c \<ge> 97 \<and> c \<le> 102 then c - 32 else c)
      in if c < 48 \<or> (c > 57 \<and> (c < 65 \<or> c > 70)) then - 1
         else if c \<le> 57 then c - 48
         else c - 65 + 10)"

definition StringPiece_toString :: "bool \<Rightarrow> StringPiece \<Rightarrow> octet list" where
  "StringPiece_toString hex s = (if hex then concat (map (\<lambda>c. [toHex (drop_bit 4 c), toHex (c AND 0xf)]) s) else s)"

fun decodeHex_loop :: "StringPiece \<Rightarrow> octet list \<Rightarrow> bool \<times> octet list" where
  "decodeHex_loop (a # b # s) result =
     (let h1 = fromHex a in
      if h1 < 0 then (False, result)
      else let h2 = fromHex b in
           if h2 < 0 then (False, result)
           else decodeHex_loop s (result @ [word_of_int (push_bit 4 h1 OR h2)]))"
| "decodeHex_loop s result = (True, result)"

text \<open>The result string is \<open>None\<close> for the null pointer.\<close>

definition decodeHex :: "StringPiece \<Rightarrow> octet list option \<Rightarrow> bool \<times> octet list option" where
  "decodeHex s result =
     (if length s mod 2 \<noteq> 0 then (False, result)
      else case result of None \<Rightarrow> (False, None) | Some _ \<Rightarrow> map_prod id Some (decodeHex_loop s []))"

function diff_loop :: "octet list \<Rightarrow> octet list \<Rightarrow> nat \<Rightarrow> nat \<Rightarrow> nat" where
  "diff_loop a b len off = (if off < len then (if a ! off \<noteq> b ! off then off else diff_loop a b len (off + 1)) else off)"
  by pat_completeness auto
termination
  by (relation "measure (\<lambda>(a, b, len, off). len - off)") auto

declare diff_loop.simps [simp del]

definition difference_offset :: "StringPiece \<Rightarrow> StringPiece \<Rightarrow> nat" where
  "difference_offset a b = diff_loop a b (if length a < length b then length a else length b) 0"

section \<open>The bytewise comparator\<close>

definition FindShortestSeparator :: "octet list \<Rightarrow> StringPiece \<Rightarrow> octet list result" where
  "FindShortestSeparator start limit =
     (let min_length = min (length start) (length limit);
          diff_index = diff_loop start limit min_length 0
      in if diff_index \<ge> min_length then Inr start
         else let diff_byte = start ! diff_index in
              if diff_byte < 0xff \<and> unat diff_byte + 1 < unat (limit ! diff_index)
              then let start = take (diff_index + 1) (start[diff_index := diff_byte + 1])
                   in if StringPiece_compare start limit < 0 then Inr start else Inl AssertFailed
              else Inr start)"

function succ_loop :: "octet list \<Rightarrow> nat \<Rightarrow> octet list" where
  "succ_loop key i =
     (if i < length key then
        let byte = key ! i in
        if byte \<noteq> 0xff then take (i + 1) (key[i := byte + 1]) else succ_loop key (i + 1)
      else key)"
  by pat_completeness auto
termination
  by (relation "measure (\<lambda>(key, i). length key - i)") auto

declare succ_loop.simps [simp del]

definition FindShortSuccessor :: "octet list \<Rightarrow> octet list" where
  "FindShortSuccessor key = succ_loop key 0"

section \<open>Order\<close>

abbreviation bytes_less :: "octet list \<Rightarrow> octet list \<Rightarrow> bool" where
  "bytes_less \<equiv> ord_class.lexordp"

lemma memcmp_0: "memcmp xs ys 0 = 0"
  by (cases xs; cases ys) auto

lemma memcmp_eq: "n \<le> length xs \<Longrightarrow> n \<le> length ys \<Longrightarrow> memcmp xs ys n = 0 \<longleftrightarrow> take n xs = take n ys"
  by (induction xs ys n rule: memcmp.induct) auto

lemma compare_simps [simp]:
  "StringPiece_compare [] [] = 0" "StringPiece_compare [] (y # ys) = - 1" "StringPiece_compare (x # xs) [] = 1"
  "StringPiece_compare (x # xs) (y # ys) = (if x < y then - 1 else if y < x then 1 else StringPiece_compare xs ys)"
  by (simp_all add: StringPiece_compare_def Let_def memcmp_0)

text \<open>The comparison decides the lexicographic order of the bytes.\<close>

lemma compare_lex: "StringPiece_compare a b = (if bytes_less a b then - 1 else if a = b then 0 else 1)"
  by (induction a b rule: list_induct2') auto

lemma compare_less: "StringPiece_compare a b < 0 \<longleftrightarrow> bytes_less a b"
  by (simp add: compare_lex)

lemma bytes_less_irrefl [simp]: "\<not> bytes_less a a"
  by (induction a) auto

lemma bytes_less_asym: "bytes_less a b \<Longrightarrow> \<not> bytes_less b a"
  using lexordp_trans [of a b a] by auto

lemma compare_greater: "StringPiece_compare a b > 0 \<longleftrightarrow> bytes_less b a"
  using lexordp_linear [of a b] bytes_less_asym [of a b] by (auto simp: compare_lex)

lemma compare_zero: "StringPiece_compare a b = 0 \<longleftrightarrow> a = b"
  by (auto simp: compare_lex)

lemma bytes_less_split: "x < y \<Longrightarrow> bytes_less (p @ x # xs) (p @ y # ys)"
  by (induction p) auto

lemma bytes_less_prefix: "s \<noteq> [] \<Longrightarrow> bytes_less p (p @ s)"
  by (induction p) (cases s, auto)

section \<open>Searches\<close>

lemma memchr_spec: "memchr s c = Some i \<longleftrightarrow> i < length s \<and> s ! i = c \<and> c \<notin> set (take i s)"
proof (induction s arbitrary: i)
  case (Cons x s)
  then show ?case by (cases i) auto
qed simp

lemma rfind_loop_spec: "rfind_loop s c p = Some i \<longleftrightarrow> i \<le> p \<and> s ! i = c \<and> (\<forall>j. i < j \<and> j \<le> p \<longrightarrow> s ! j \<noteq> c)"
proof (induction p)
  case (Suc p)
  show ?case
  proof (cases "s ! Suc p = c")
    case True
    then show ?thesis by (auto simp: le_less)
  qed (use Suc in \<open>auto simp: le_Suc_eq\<close>)
qed auto

lemma StringPiece_find_spec:
  "StringPiece_find s c pos = Some i \<longleftrightarrow> pos \<le> i \<and> i < length s \<and> s ! i = c \<and> c \<notin> set (take (i - pos) (drop pos s))"
proof -
  have "StringPiece_find s c pos = Some i \<longleftrightarrow> pos < length s \<and> pos \<le> i \<and> memchr (drop pos s) c = Some (i - pos)"
    by (auto simp: StringPiece_find_def)
  then show ?thesis by (auto simp: memchr_spec)
qed

lemma StringPiece_rfind_spec:
  "StringPiece_rfind s c pos = Some i
   \<longleftrightarrow> i < length s \<and> i \<le> pos \<and> s ! i = c \<and> c \<notin> set (drop (Suc i) (take (Suc pos) s))"
proof (cases "s = []")
  case False
  let ?p = "min pos (length s - 1)"
  have "c \<in> set (drop (Suc i) (take (Suc pos) s)) \<longleftrightarrow> (\<exists>j. i < j \<and> j \<le> ?p \<and> s ! j = c)"
  proof
    assume "c \<in> set (drop (Suc i) (take (Suc pos) s))"
    then obtain k where "k < length (drop (Suc i) (take (Suc pos) s))" "drop (Suc i) (take (Suc pos) s) ! k = c"
      by (auto simp: in_set_conv_nth)
    moreover from this have "Suc i \<le> length (take (Suc pos) s)" by (simp del: length_take)
    ultimately show "\<exists>j. i < j \<and> j \<le> ?p \<and> s ! j = c"
      by (intro exI [of _ "Suc i + k"]) auto
  next
    assume "\<exists>j. i < j \<and> j \<le> ?p \<and> s ! j = c"
    then obtain j where j: "i < j" "j \<le> ?p" "s ! j = c" by blast
    then have "j < length s" using False by (cases s) auto
    then show "c \<in> set (drop (Suc i) (take (Suc pos) s))"
      using j by (auto simp: in_set_conv_nth intro!: exI [of _ "j - Suc i"])
  qed
  moreover have "i \<le> ?p \<longleftrightarrow> i < length s \<and> i \<le> pos" using False by (cases s) auto
  ultimately show ?thesis using False by (auto simp: StringPiece_rfind_def rfind_loop_spec)
qed (simp add: StringPiece_rfind_def)

lemma std_search_eq: "take (length x) s = x \<Longrightarrow> std_search s x = 0"
  "take (length x) (y # s) \<noteq> x \<Longrightarrow> std_search (y # s) x = Suc (std_search s x)"
  "std_search [] x = 0"
  by (subst std_search.simps, simp)+

lemma take_eq_prefix: "take (length x) s = x \<longleftrightarrow> prefix x s"
  by (metis append_eq_conv_conj prefix_def)

lemma std_search_found: "std_search s x < length s \<longleftrightarrow> s \<noteq> [] \<and> sublist x s"
proof (induction s)
  case (Cons y s)
  show ?case
  proof (cases "prefix x (y # s)")
    case True
    then show ?thesis by (simp add: std_search_eq take_eq_prefix)
  next
    case False
    then have "sublist x s \<Longrightarrow> s \<noteq> []" by auto
    then show ?thesis using False Cons by (auto simp: std_search_eq take_eq_prefix sublist_Cons_right)
  qed
qed (simp add: std_search_eq)

lemma std_search_le: "std_search s x \<le> length s"
proof (induction s)
  case (Cons y s)
  then show ?case by (cases "take (length x) (y # s) = x") (simp_all add: std_search_eq)
qed (simp add: std_search_eq)

lemma diff_loop_eq:
  "off < len \<Longrightarrow> a ! off = b ! off \<Longrightarrow> diff_loop a b len off = diff_loop a b len (off + 1)"
  "off < len \<Longrightarrow> a ! off \<noteq> b ! off \<Longrightarrow> diff_loop a b len off = off"
  "\<not> off < len \<Longrightarrow> diff_loop a b len off = off"
  by (subst diff_loop.simps, simp)+

lemma diff_loop_spec:
  assumes "off \<le> len" and "\<forall>i<off. a ! i = b ! i"
  shows "diff_loop a b len off \<le> len \<and> (\<forall>i<diff_loop a b len off. a ! i = b ! i)
         \<and> (diff_loop a b len off < len \<longrightarrow> a ! diff_loop a b len off \<noteq> b ! diff_loop a b len off)"
  using assms
proof (induction a b len off rule: diff_loop.induct)
  case (1 a b len off)
  consider "off < len" "a ! off = b ! off" | "off < len" "a ! off \<noteq> b ! off" | "off = len" using "1.prems" by linarith
  then show ?case
  proof cases
    case 1
    then show ?thesis using "1.IH" "1.prems" by (simp add: diff_loop_eq less_Suc_eq)
  next
    case 2
    then show ?thesis using "1.prems" diff_loop_eq(2) [of off len a b] by auto
  next
    case 3
    then show ?thesis using "1.prems" diff_loop_eq(3) [of off len a b] by auto
  qed
qed

text \<open>Up to the first difference the two are equal; there they are not, or one of them ends.\<close>

lemma diff_loop_first:
  fixes a b :: "octet list"
  defines "d \<equiv> diff_loop a b (min (length a) (length b)) 0"
  shows "d \<le> length a" "d \<le> length b" "take d a = take d b" "d < min (length a) (length b) \<Longrightarrow> a ! d \<noteq> b ! d"
proof -
  have d: "d \<le> min (length a) (length b)" "\<forall>i<d. a ! i = b ! i" "d < min (length a) (length b) \<longrightarrow> a ! d \<noteq> b ! d"
    using diff_loop_spec [of 0 "min (length a) (length b)" a b] by (simp_all add: d_def)
  show "d \<le> length a" "d \<le> length b" using d(1) by auto
  show "take d a = take d b" using d(1,2) by (intro nth_equalityI) auto
  show "d < min (length a) (length b) \<Longrightarrow> a ! d \<noteq> b ! d" using d(3) by simp
qed

section \<open>Hexadecimal form\<close>

text \<open>Upper case of the digits \<open>a-f\<close>.\<close>

definition upper_digit :: "octet \<Rightarrow> octet" where
  "upper_digit c = (if 97 \<le> c \<and> c \<le> 102 then c - 32 else c)"

lemma fromHex_uint:
  "fromHex c = (if 48 \<le> uint c \<and> uint c \<le> 57 then uint c - 48
                else if 65 \<le> uint c \<and> uint c \<le> 70 then uint c - 55
                else if 97 \<le> uint c \<and> uint c \<le> 102 then uint c - 87 else - 1)"
  using uint_lt2p [of c] by (auto simp: fromHex_def Let_def sint_uint_char)

lemma uint_upper_digit: "uint (upper_digit c) = (if 97 \<le> uint c \<and> uint c \<le> 102 then uint c - 32 else uint c)"
  by (auto simp: upper_digit_def word_le_def uint_sub_if')

lemma uint_toHex: "v < 16 \<Longrightarrow> uint (toHex v) = (if uint v \<le> 9 then uint v + 48 else uint v + 55)"
  by (auto simp: toHex_def word_le_def word_less_def uint_word_ariths)

lemma fromHex_iff: "v < 16 \<Longrightarrow> fromHex a = uint v \<longleftrightarrow> upper_digit a = toHex v"
proof -
  have "- 1 \<noteq> uint v" using uint_ge_0 [of v] by linarith
  then show "v < 16 \<Longrightarrow> fromHex a = uint v \<longleftrightarrow> upper_digit a = toHex v"
    using uint_lt2p [of a]
    by (auto simp: fromHex_uint word_uint_eq_iff uint_upper_digit uint_toHex word_less_def split: if_splits)
qed

lemma fromHex_cases:
  obtains "fromHex a < 0" "\<And>v. v < 16 \<Longrightarrow> upper_digit a \<noteq> toHex v"
  | v where "v < 16" "fromHex a = uint v" "upper_digit a = toHex v"
proof (cases "fromHex a < 0")
  case True
  then show ?thesis using that(1) fromHex_iff [of _ a] by (metis not_less uint_ge_0)
next
  case False
  have "uint (word_of_int (fromHex a) :: octet) = fromHex a" "(word_of_int (fromHex a) :: octet) < 16"
    using False by (auto simp: fromHex_uint uint_word_of_int word_less_def split: if_splits)
  then show ?thesis using that(2) fromHex_iff by metis
qed

lemma bit_low_nibble: "bit (0xf :: int) n \<longleftrightarrow> n < 4"
proof -
  have "(0xf :: int) = mask 4" by (simp add: mask_eq_exp_minus_1)
  then show ?thesis by (simp only: bit_mask_iff) auto
qed

lemma nibbles:
  fixes v w :: octet
  assumes "v < 16" "w < 16"
  shows "word_of_int (push_bit 4 (uint v) OR uint w) = push_bit 4 v OR w"
    and "drop_bit 4 (push_bit 4 v OR w) = v" and "(push_bit 4 v OR w) AND 0xf = w"
proof -
  have hi: "\<not> bit v n" "\<not> bit w n" if "4 \<le> n" for n
    using assms that less_exp_drop [of 4 v] less_exp_drop [of 4 w] bit_drop_bit_eq [of 4 v] bit_drop_bit_eq [of 4 w]
    by (auto simp: fun_eq_iff dest: spec [of _ "n - 4"])
  show "word_of_int (push_bit 4 (uint v) OR uint w) = push_bit 4 v OR w"
    by (rule bit_word_eqI) (auto simp: bit_simps)
  show "drop_bit 4 (push_bit 4 v OR w) = v"
    by (rule bit_word_eqI) (use hi not_le in \<open>auto simp: bit_simps\<close>)
  show "(push_bit 4 v OR w) AND 0xf = w"
    by (rule bit_word_eqI) (use hi not_le in \<open>auto simp: bit_and_iff bit_or_iff bit_push_bit_iff bit_drop_bit_eq bit_low_nibble\<close>)
qed

lemma toHex_inj: "v < 16 \<Longrightarrow> w < 16 \<Longrightarrow> toHex v = toHex w \<Longrightarrow> v = w"
  by (auto simp: word_uint_eq_iff uint_toHex word_less_def split: if_splits)

lemma nibbles_less: "drop_bit 4 (c :: octet) < 16" "c AND 0xf < 16"
proof -
  have "drop_bit 4 (drop_bit 4 c) = 0" by (rule bit_word_eqI) (auto simp: bit_simps dest: bit_imp_le_length)
  then show "drop_bit 4 c < 16" using less_exp_drop [of 4 "drop_bit 4 c"] by simp
  show "c AND 0xf < 16" using word_and_le1 [of c "0xf"] by (simp add: word_le_def word_less_def)
qed

lemma octet_nibbles: "push_bit 4 (drop_bit 4 c) OR (c AND 0xf) = (c :: octet)"
  by (rule bit_word_eqI) (auto simp: bit_and_iff bit_or_iff bit_push_bit_iff bit_drop_bit_eq bit_low_nibble)

text \<open>A failing decode leaves what it had decoded before the wrong digit.\<close>

lemma decodeHex_loop_spec:
  "even (length s) \<Longrightarrow>
   (\<exists>bs. decodeHex_loop s r = (True, r @ bs) \<and> map upper_digit s = StringPiece_toString True bs)
   \<or> (\<exists>bs. decodeHex_loop s r = (False, r @ bs)) \<and> (\<forall>bs. map upper_digit s \<noteq> StringPiece_toString True bs)"
proof (induction s r rule: decodeHex_loop.induct)
  case (1 a b s r)
  have no: "\<forall>bs. map upper_digit (a # b # s) \<noteq> StringPiece_toString True bs"
    if "\<And>v. v < 16 \<Longrightarrow> upper_digit a \<noteq> toHex v \<or> (\<forall>w<16. upper_digit b \<noteq> toHex w)"
  proof
    fix bs
    show "map upper_digit (a # b # s) \<noteq> StringPiece_toString True bs"
      using that nibbles_less by (cases bs) (auto simp: StringPiece_toString_def)
  qed
  show ?case
  proof (cases rule: fromHex_cases [of a])
    case 1
    then show ?thesis using no by simp
  next
    case (2 v)
    note a = this
    show ?thesis
    proof (cases rule: fromHex_cases [of b])
      case 1
      then show ?thesis using no a by simp
    next
      case (2 w)
      let ?c = "push_bit 4 v OR w"
      have step: "decodeHex_loop (a # b # s) r = decodeHex_loop s (r @ [?c])"
        using a 2 by (simp add: Let_def not_less nibbles(1) del: word_of_int_uint)
      have split: "map upper_digit (a # b # s) = StringPiece_toString True bs
        \<longleftrightarrow> (\<exists>bs'. bs = ?c # bs' \<and> map upper_digit s = StringPiece_toString True bs')" for bs
        using a 2 nibbles_less toHex_inj octet_nibbles nibbles(2,3) [OF a(1) 2(1)]
        by (cases bs) (auto simp: StringPiece_toString_def, metis+)
      have "even (length s)" using "1.prems" by simp
      then have "(\<exists>bs. decodeHex_loop s (r @ [?c]) = (True, (r @ [?c]) @ bs) \<and> map upper_digit s = StringPiece_toString True bs)
        \<or> (\<exists>bs. decodeHex_loop s (r @ [?c]) = (False, (r @ [?c]) @ bs)) \<and> (\<forall>bs. map upper_digit s \<noteq> StringPiece_toString True bs)"
        using "1.IH" [of "uint v" "uint w"] a(2) 2(2) by (simp add: not_less nibbles(1) [OF a(1) 2(1)])
      then show ?thesis unfolding step split by auto
    qed
  qed
qed (auto simp: StringPiece_toString_def intro!: exI [of _ "[]"])

section \<open>The comparator's short keys\<close>

lemma octet_Suc: "c \<noteq> 0xff \<Longrightarrow> c < c + 1" for c :: octet
  using uint_lt2p [of c] by (auto simp: word_less_def uint_word_ariths word_uint_eq_iff)

lemma bump_at:
  assumes "i < length s"
  shows "take (i + 1) (s[i := c]) = take i s @ [c]"
  using assms by (simp add: take_Suc_conv_app_nth)

lemma bytes_less_bump:
  assumes "i < length s" "s ! i \<noteq> 0xff"
  shows "bytes_less s (take i s @ [s ! i + 1])"
  using bytes_less_split [OF octet_Suc [OF assms(2)], of "take i s" "drop (Suc i) s" "[]"] id_take_nth_drop [OF assms(1)]
  by simp

lemma FindShortestSeparator_spec:
  "\<exists>r. FindShortestSeparator a b = Inr r \<and> (r = a \<or> bytes_less a r \<and> bytes_less r b \<and> length r \<le> length a)"
proof -
  let ?m = "min (length a) (length b)" let ?d = "diff_loop a b ?m 0"
  show ?thesis
  proof (cases "?d < ?m \<and> a ! ?d < 0xff \<and> unat (a ! ?d) + 1 < unat (b ! ?d)")
    case True
    then have d: "?d < length a" "?d < length b" by auto
    let ?r = "take ?d a @ [a ! ?d + 1]"
    have "a ! ?d + 1 < b ! ?d" using True by (auto simp: word_less_nat_alt unat_word_ariths)
    then have lt: "bytes_less ?r b"
      using bytes_less_split [of "a ! ?d + 1" "b ! ?d" "take ?d b" "[]" "drop (Suc ?d) b"] id_take_nth_drop [OF d(2)]
        diff_loop_first(3) [of a b] by simp
    have "FindShortestSeparator a b = Inr ?r"
      using True lt bump_at [OF d(1)] d by (auto simp: FindShortestSeparator_def Let_def compare_less)
    moreover have "bytes_less a ?r" using bytes_less_bump [OF d(1)] True by auto
    ultimately show ?thesis using lt d by auto
  qed (auto simp: FindShortestSeparator_def Let_def)
qed

lemma succ_loop_spec:
  assumes "i \<le> length key" "set (take i key) \<subseteq> {0xff}"
  shows "length (succ_loop key i) \<le> length key
         \<and> (if set key \<subseteq> {0xff} then succ_loop key i = key else bytes_less key (succ_loop key i))"
  using assms
proof (induction key i rule: succ_loop.induct)
  case (1 key i)
  show ?case
  proof (cases "i < length key \<and> key ! i = 0xff")
    case True
    then have "succ_loop key i = succ_loop key (i + 1)" by (subst succ_loop.simps) simp
    then show ?thesis using True "1.IH" "1.prems" by (simp add: take_Suc_conv_app_nth split: if_splits)
  next
    case False
    show ?thesis
    proof (cases "i < length key")
      case lt: True
      then have "succ_loop key i = take i key @ [key ! i + 1]"
        using False bump_at [OF lt] by (subst succ_loop.simps) (simp add: Let_def)
      moreover have "\<not> set key \<subseteq> {0xff}" using False lt nth_mem [OF lt] by blast
      ultimately show ?thesis using lt False bytes_less_bump [OF lt] by auto
    next
      case ge: False
      then have "succ_loop key i = key" by (subst succ_loop.simps) simp
      then show ?thesis using "1.prems" ge by simp
    qed
  qed
qed

lemma FindShortSuccessor_spec:
  "length (FindShortSuccessor a) \<le> length a"
  "if set a \<subseteq> {0xff} then FindShortSuccessor a = a else bytes_less a (FindShortSuccessor a)"
  using succ_loop_spec [of 0 a] by (simp_all add: FindShortSuccessor_def)

section \<open>Properties\<close>

text \<open>
  C33. A \<open>StringPiece\<close> behaves as the sequence of its bytes: comparison is the lexicographic order of unsigned
  bytes, \<open>starts_with\<close>, \<open>ends_with\<close> and \<open>contains\<close> test for a prefix, a suffix and a contiguous part
  (\<open>contains\<close> fails on the empty piece), \<open>find\<close> and \<open>rfind\<close> give the first position from \<open>pos\<close> on
  and the last one up to it, \<open>substr\<close> clips its arguments, and \<open>difference_offset\<close> is the length
  of the common prefix.  The comparator's \<open>FindShortestSeparator\<close> leaves \<open>start\<close> alone or gives a string that
  is not longer and lies strictly between it and \<open>limit\<close>, without failing its assertion, and
  \<open>FindShortSuccessor\<close> gives a string that is not longer and larger, unless every byte is \<open>0xff\<close>.
\<close>
theorem StringPiece_is_byte_sequence:
  "(StringPiece_compare a b < 0 \<longleftrightarrow> bytes_less a b) \<and> (StringPiece_compare a b > 0 \<longleftrightarrow> bytes_less b a)
   \<and> (StringPiece_compare a b = 0 \<longleftrightarrow> a = b) \<and> (StringPiece_eq a b \<longleftrightarrow> a = b)
   \<and> (starts_with s x \<longleftrightarrow> prefix x s) \<and> (ends_with s x \<longleftrightarrow> suffix x s)
   \<and> (StringPiece_contains s x \<longleftrightarrow> s \<noteq> [] \<and> sublist x s)
   \<and> StringPiece_consume (x @ s) x = Inr (True, s)
   \<and> (StringPiece_find s c pos = Some i \<longleftrightarrow> pos \<le> i \<and> i < length s \<and> s ! i = c \<and> c \<notin> set (take (i - pos) (drop pos s)))
   \<and> (StringPiece_rfind s c pos = Some i \<longleftrightarrow> i < length s \<and> i \<le> pos \<and> s ! i = c \<and> c \<notin> set (drop (Suc i) (take (Suc pos) s)))
   \<and> StringPiece_substr s pos n = take n (drop pos s)
   \<and> take (difference_offset a b) a = take (difference_offset a b) b
   \<and> (if difference_offset a b < min (length a) (length b) then a ! difference_offset a b \<noteq> b ! difference_offset a b
      else difference_offset a b = min (length a) (length b))
   \<and> (\<exists>r. FindShortestSeparator a b = Inr r
          \<and> (r = a \<or> bytes_less a r \<and> bytes_less r b \<and> length r \<le> length a))
   \<and> length (FindShortSuccessor a) \<le> length a
   \<and> (if set a \<subseteq> {0xff} then FindShortSuccessor a = a else bytes_less a (FindShortSuccessor a))"
proof (intro conjI)
  show "StringPiece_compare a b < 0 \<longleftrightarrow> bytes_less a b" by (rule compare_less)
  show "StringPiece_compare a b > 0 \<longleftrightarrow> bytes_less b a" by (rule compare_greater)
  show "StringPiece_compare a b = 0 \<longleftrightarrow> a = b" by (rule compare_zero)
  show "StringPiece_eq a b \<longleftrightarrow> a = b" by (auto simp: StringPiece_eq_def memcmp_eq)
  have starts: "starts_with s x \<longleftrightarrow> prefix x s" for s x
    using prefix_length_le [of x s] by (auto simp: starts_with_def memcmp_eq take_eq_prefix)
  then show "starts_with s x \<longleftrightarrow> prefix x s" .
  show "ends_with s x \<longleftrightarrow> suffix x s"
    using suffix_length_le [of x s] suffix_drop [of "length s - length x" s]
    by (auto simp: ends_with_def memcmp_eq suffix_def)
  show "StringPiece_contains s x \<longleftrightarrow> s \<noteq> [] \<and> sublist x s"
    using std_search_found [of s x] std_search_le [of s x] by (auto simp: StringPiece_contains_def)
  show "StringPiece_consume (x @ s) x = Inr (True, s)"
    using starts [of "x @ s" x] by (simp add: StringPiece_consume_def remove_prefix_def)
  show "StringPiece_substr s pos n = take n (drop pos s)" by (auto simp: StringPiece_substr_def Let_def)
  have d: "difference_offset a b = diff_loop a b (min (length a) (length b)) 0"
    by (simp add: difference_offset_def min_def)
  show "take (difference_offset a b) a = take (difference_offset a b) b" using diff_loop_first(3) [of a b] by (simp add: d)
  show "if difference_offset a b < min (length a) (length b) then a ! difference_offset a b \<noteq> b ! difference_offset a b
    else difference_offset a b = min (length a) (length b)"
    using diff_loop_first [of a b] unfolding d by auto
qed (rule StringPiece_find_spec StringPiece_rfind_spec FindShortestSeparator_spec FindShortSuccessor_spec)+

text \<open>
  Hexadecimal form: \<open>decodeHex\<close> undoes \<open>toString(true)\<close>, and accepts a string exactly when, with \<open>a\<close>-\<open>f\<close>
  in upper case, it is the hexadecimal form of some bytes, which it returns.  A null result is
  refused, and a string of odd length leaves the result untouched.
\<close>
theorem StringPiece_hex_roundtrip:
  "decodeHex (StringPiece_toString True bs) (Some r) = (True, Some bs)
   \<and> (decodeHex s (Some r) = (True, Some bs) \<longleftrightarrow> map upper_digit s = StringPiece_toString True bs)
   \<and> fst (decodeHex s None) = False
   \<and> decodeHex (c # StringPiece_toString True bs) (Some r) = (False, Some r)"
proof -
  have even: "even (length (StringPiece_toString True bs))" for bs
    by (induction bs) (simp_all add: StringPiece_toString_def)
  have inj: "bs = bs'" if "StringPiece_toString True bs = StringPiece_toString True bs'" for bs bs'
    using that
  proof (induction bs bs' rule: list_induct2')
    case (4 x xs y ys)
    then have "toHex (drop_bit 4 x) = toHex (drop_bit 4 y)" "toHex (x AND 0xf) = toHex (y AND 0xf)" "xs = ys"
      by (simp_all add: StringPiece_toString_def)
    then have "drop_bit 4 x = drop_bit 4 y" "x AND 0xf = y AND 0xf" "xs = ys"
      using toHex_inj nibbles_less by metis+
    then show ?case using octet_nibbles [of x] octet_nibbles [of y] by metis
  qed (auto simp: StringPiece_toString_def)
  have iff: "decodeHex s (Some r) = (True, Some bs) \<longleftrightarrow> map upper_digit s = StringPiece_toString True bs" for s bs
  proof (cases "even (length s)")
    case True
    show ?thesis
      using decodeHex_loop_spec [OF True, of "[]"]
    proof
      assume "\<exists>bs. decodeHex_loop s [] = (True, [] @ bs) \<and> map upper_digit s = StringPiece_toString True bs"
      then obtain bs' where "decodeHex_loop s [] = (True, bs')" "map upper_digit s = StringPiece_toString True bs'" by auto
      moreover from this have "decodeHex s (Some r) = (True, Some bs')" using True by (simp add: decodeHex_def)
      ultimately show ?thesis using inj [of bs bs'] by auto
    qed (use True in \<open>auto simp: decodeHex_def\<close>)
  next
    case False
    then have "map upper_digit s \<noteq> StringPiece_toString True bs" using even [of bs] by (metis length_map)
    then show ?thesis using False by (auto simp: decodeHex_def even_iff_mod_2_eq_zero)
  qed
  have "upper_digit (toHex v) = toHex v" if "v < 16" for v
    using that by (auto simp: word_uint_eq_iff uint_upper_digit uint_toHex word_less_def)
  then have "map upper_digit (StringPiece_toString True bs) = StringPiece_toString True bs"
    by (induction bs) (simp_all add: StringPiece_toString_def nibbles_less)
  then have "decodeHex (StringPiece_toString True bs) (Some r) = (True, Some bs)" by (simp only: iff)
  moreover have "decodeHex (c # StringPiece_toString True bs) (Some r) = (False, Some r)"
    using even [of bs] by (simp add: decodeHex_def mod_Suc even_iff_mod_2_eq_zero)
  ultimately show ?thesis using iff by (simp add: decodeHex_def)
qed

end
