(* ===== verification/Status_Code.thy ===== *)
theory Status_Code
  imports String_Piece
begin

text \<open>
  \<open>Status\<close> of \<open>status.h\<close> and \<open>status.cpp\<close>, the result of an operation, and the base class \<open>Iterator\<close> of
  \<open>iterator.h\<close> and \<open>iterator.cpp\<close> with the empty iterator.
\<close>

section \<open>Status\<close>

record StatusState =
  st_code :: int
  st_msg :: "octet list"

text \<open>A null \<open>state_\<close> is the success.\<close>

type_synonym Status = "StatusState option"

definition lit :: "string \<Rightarrow> octet list" where
  "lit s = map of_char s"

definition kOk :: int where "kOk = 0"
definition kError :: int where "kError = 1"
definition kIOError :: int where "kIOError = 2"
definition kNotSupported :: int where "kNotSupported = 3"
definition kUserError :: int where "kUserError = 4"

lemmas status_codes = kOk_def kError_def kIOError_def kNotSupported_def kUserError_def

definition Status_OK :: Status where
  "Status_OK = None"

definition Status_code1 :: "int \<Rightarrow> Status result" where
  "Status_code1 code = (if code \<noteq> kOk then Inr (Some \<lparr>st_code = code, st_msg = []\<rparr>) else Inl AssertFailed)"

definition Status_code2 :: "int \<Rightarrow> StringPiece \<Rightarrow> Status result" where
  "Status_code2 code msg =
     (if code \<noteq> kOk then Inr (Some \<lparr>st_code = code, st_msg = StringPiece_toString False msg\<rparr>) else Inl AssertFailed)"

text \<open>The array \<open>result\<close> has 1024 bytes; \<open>size < 1024\<close> leaves room for the terminator.\<close>

definition Status_code3 :: "int \<Rightarrow> StringPiece \<Rightarrow> StringPiece \<Rightarrow> Status result" where
  "Status_code3 code msg msg2 =
     (if code = kOk then Inl AssertFailed
      else let len1 = length msg; len2 = length msg2;
               size = len1 + (if len2 \<noteq> 0 then 2 + len2 else 0)
           in if 1024 \<le> size then Inr (Some \<lparr>st_code = code, st_msg = lit ''StatusTooLongMsg''\<rparr>)
              else let res = msg @ (if len2 \<noteq> 0 then lit '': '' @ msg2 else [])
                   in Inr (Some \<lparr>st_code = code, st_msg = take size (res @ [0])\<rparr>))"

definition Status_Error :: "StringPiece \<Rightarrow> StringPiece \<Rightarrow> Status result" where
  "Status_Error msg msg2 = Status_code3 kError msg msg2"

definition Status_IOError :: "StringPiece \<Rightarrow> StringPiece \<Rightarrow> Status result" where
  "Status_IOError msg msg2 = Status_code3 kIOError msg msg2"

definition Status_NotSupported :: "StringPiece \<Rightarrow> StringPiece \<Rightarrow> Status result" where
  "Status_NotSupported msg msg2 = Status_code3 kNotSupported msg msg2"

definition Status_ok :: "Status \<Rightarrow> bool" where
  "Status_ok s \<longleftrightarrow> s = None"

definition Status_code :: "Status \<Rightarrow> int" where
  "Status_code s = (case s of None \<Rightarrow> kOk | Some st \<Rightarrow> st_code st)"

definition error_message :: "Status \<Rightarrow> octet list" where
  "error_message s = (case s of None \<Rightarrow> [] | Some st \<Rightarrow> st_msg st)"

text \<open>Copying makes a state of its own, equal to the one copied.\<close>

definition slowCopyFrom :: "StatusState option \<Rightarrow> Status" where
  "slowCopyFrom src = (case src of None \<Rightarrow> None | Some st \<Rightarrow> Some st)"

definition Status_assign :: "Status \<Rightarrow> Status \<Rightarrow> Status" where
  "Status_assign this s = (if this = None \<and> s = None then this else slowCopyFrom s)"

definition Status_update :: "Status \<Rightarrow> Status \<Rightarrow> Status" where
  "Status_update this new_status = (if Status_ok this then Status_assign this new_status else this)"

text \<open>\<open>%d\<close> of \<open>snprintf\<close>.\<close>

fun show_nat :: "nat \<Rightarrow> octet list" where
  "show_nat n = (if n < 10 then [48 + of_nat n] else show_nat (n div 10) @ [48 + of_nat (n mod 10)])"

declare show_nat.simps [simp del]

definition show_int :: "int \<Rightarrow> octet list" where
  "show_int i = (if i < 0 then 45 # show_nat (nat (- i)) else show_nat (nat i))"

definition Status_toString :: "Status \<Rightarrow> octet list" where
  "Status_toString s =
     (case s of None \<Rightarrow> lit ''OK''
      | Some st \<Rightarrow>
          let code = Status_code s;
              type = (if code = kError then lit ''Error''
                      else if code = kIOError then lit ''IOError''
                      else if code = kNotSupported then lit ''NotSupported''
                      else take 29 (lit ''UserError('' @ show_int code @ lit '')''))
          in type @ lit '': '' @ st_msg st)"

text \<open>
  Two non-null states are never the same object, so the comparison of the pointers succeeds when
  both are null (or a status is compared with itself).
\<close>

definition Status_eq :: "Status \<Rightarrow> Status \<Rightarrow> bool" where
  "Status_eq a x \<longleftrightarrow> (a = None \<and> x = None) \<or> Status_toString a = Status_toString x"

section \<open>Iterators\<close>

text \<open>A registered cleanup: the function and its two arguments.  \<open>cl_first\<close> is the embedded node, \<open>cl_next\<close> the chain.\<close>

record 'c Cleanups =
  cl_first :: "'c option"
  cl_next :: "'c list"

definition Iterator_new :: "'c Cleanups" where
  "Iterator_new = \<lparr>cl_first = None, cl_next = []\<rparr>"

definition RegisterCleanup :: "'c \<Rightarrow> 'c Cleanups \<Rightarrow> 'c Cleanups" where
  "RegisterCleanup c cs =
     (case cl_first cs of None \<Rightarrow> cs\<lparr>cl_first := Some c\<rparr> | Some _ \<Rightarrow> cs\<lparr>cl_next := c # cl_next cs\<rparr>)"

text \<open>The calls the destructor makes, in their order.\<close>

definition Iterator_destroy :: "'c Cleanups \<Rightarrow> 'c list" where
  "Iterator_destroy cs = (case cl_first cs of None \<Rightarrow> [] | Some c \<Rightarrow> c # cl_next cs)"

section \<open>Lemmas\<close>

lemma Status_assign_eq [simp]: "Status_assign s t = t"
  by (simp add: Status_assign_def slowCopyFrom_def split: option.splits)

lemma Status_update_first: "foldl Status_update Status_OK ss = (case filter (\<lambda>s. \<not> Status_ok s) ss of [] \<Rightarrow> Status_OK | s # _ \<Rightarrow> s)"
proof -
  have "foldl Status_update (Some st) ss = Some st" for st ss
    by (induction ss) (simp_all add: Status_update_def Status_ok_def)
  then show ?thesis
    by (induction ss) (auto simp: Status_update_def Status_ok_def Status_OK_def split: list.splits)
qed

lemma cleanup_order:
  fixes xs :: "'c list"
  shows "Iterator_destroy (foldl (\<lambda>cs c. RegisterCleanup c cs) Iterator_new xs) = (case xs of [] \<Rightarrow> [] | x # xs \<Rightarrow> x # rev xs)"
proof -
  have "foldl (\<lambda>cs c. RegisterCleanup c cs) \<lparr>cl_first = Some x, cl_next = ys\<rparr> xs
    = \<lparr>cl_first = Some x, cl_next = rev xs @ ys\<rparr>" for x :: 'c and ys xs
    by (induction xs arbitrary: ys) (simp_all add: RegisterCleanup_def)
  then show ?thesis by (cases xs) (simp_all add: Iterator_destroy_def RegisterCleanup_def Iterator_new_def)
qed

lemma digit_eq: "m < 10 \<Longrightarrow> n < 10 \<Longrightarrow> 48 + of_nat m = (48 + of_nat n :: octet) \<Longrightarrow> m = n"
  by (simp add: word_of_nat_eq_iff take_bit_eq_mod)

lemma show_nat_digits: "set (show_nat n) \<subseteq> {48..57}"
proof (induction n rule: show_nat.induct)
  case (1 n)
  have d: "48 + of_nat m \<in> {48..57 :: octet}" if "m < 10" for m
    using that by (simp add: word_le_nat_alt unat_word_ariths unat_of_nat)
  show ?case using 1 d [of n] d [of "n mod 10"] by (subst show_nat.simps) auto
qed

lemma show_nat_ne: "show_nat n \<noteq> []"
  by (subst show_nat.simps) simp

lemma show_nat_inj: "show_nat m = show_nat n \<Longrightarrow> m = n"
proof (induction m arbitrary: n rule: show_nat.induct)
  case (1 m)
  consider "m < 10" "n < 10" | "m < 10" "\<not> n < 10" | "\<not> m < 10" "n < 10" | "\<not> m < 10" "\<not> n < 10" by blast
  then show ?case
  proof cases
    case 4
    then have "show_nat (m div 10) = show_nat (n div 10)" "m mod 10 = n mod 10"
      using "1.prems" show_nat.simps [of m] show_nat.simps [of n] digit_eq [of "m mod 10" "n mod 10"] by auto
    then show ?thesis using "1.IH" [of "n div 10"] 4 by (metis div_mult_mod_eq)
  qed (use "1.prems" show_nat.simps [of m] show_nat.simps [of n] show_nat_ne [of "m div 10"]
      show_nat_ne [of "n div 10"] digit_eq [of m n] in auto)
qed

lemma show_int_inj: "show_int i = show_int j \<Longrightarrow> i = j"
proof -
  have h: "hd (show_nat n) \<noteq> 45" for n
    using show_nat_digits [of n] show_nat_ne [of n] hd_in_set [of "show_nat n"] by fastforce
  show "i = j" if eq: "show_int i = show_int j"
  proof (cases "i < 0"; cases "j < 0")
    assume "i < 0" "j < 0"
    then have "nat (- i) = nat (- j)" using eq by (auto simp: show_int_def intro: show_nat_inj)
    then show ?thesis using \<open>i < 0\<close> \<open>j < 0\<close> by simp
  next
    assume "\<not> i < 0" "\<not> j < 0"
    then have "nat i = nat j" using eq by (auto simp: show_int_def intro: show_nat_inj)
    then show ?thesis using \<open>\<not> i < 0\<close> \<open>\<not> j < 0\<close> by simp
  qed (use eq h in \<open>auto simp: show_int_def\<close>, (metis list.sel(1))+)
qed

lemma show_int_chars: "41 \<notin> set (show_int i)"
  using show_nat_digits [of "nat i"] show_nat_digits [of "nat (- i)"] by (auto simp: show_int_def subset_iff split: if_splits)

lemma length_show_nat: "n < 10 ^ k \<Longrightarrow> 0 < k \<Longrightarrow> length (show_nat n) \<le> k"
proof (induction k arbitrary: n)
  case (Suc k)
  show ?case
  proof (cases "n < 10")
    case False
    then have "0 < k" "n div 10 < 10 ^ k" using Suc.prems by (cases k; auto)+
    then show ?thesis using Suc.IH [of "n div 10"] False by (subst show_nat.simps) auto
  qed (subst show_nat.simps, simp)
qed simp

lemma show_int_32: "i \<in> {- (2 ^ 31)..<2 ^ 31} \<Longrightarrow> length (show_int i) \<le> 11"
  using length_show_nat [of "nat i" 10] length_show_nat [of "nat (- i)" 10]
  by (cases "i < 0") (simp_all add: show_int_def nat_less_iff)

text \<open>Codes are 32-bit and not \<open>kOk\<close>, as the constructors assert.\<close>

definition status_valid :: "Status \<Rightarrow> bool" where
  "status_valid s = (case s of None \<Rightarrow> True | Some st \<Rightarrow> st_code st \<noteq> kOk \<and> st_code st \<in> {- (2 ^ 31)..<2 ^ 31})"

lemma append_sep: "x \<notin> set a \<Longrightarrow> x \<notin> set b \<Longrightarrow> a @ x # c = b @ x # d \<Longrightarrow> a = b \<and> c = d"
proof (induction a arbitrary: b)
  case Nil
  then show ?case by (cases b) auto
next
  case (Cons y a)
  then show ?case by (cases b) auto
qed

definition type_name :: "int \<Rightarrow> octet list" where
  "type_name code = (if code = 1 then lit ''Error'' else if code = 2 then lit ''IOError'' else if code = 3 then lit ''NotSupported''
                     else lit ''UserError('' @ show_int code @ [41])"

lemma Status_toString_Some:
  assumes "status_valid (Some st)"
  shows "Status_toString (Some st) = type_name (st_code st) @ 58 # 32 # st_msg st"
proof -
  have "take 29 (lit ''UserError('' @ show_int (st_code st) @ lit '')'') = lit ''UserError('' @ show_int (st_code st) @ [41]"
    using show_int_32 [of "st_code st"] assms by (simp add: lit_def status_valid_def)
  then show ?thesis
    by (simp add: Status_toString_def Status_code_def Let_def status_codes type_name_def lit_def [of "'': ''"])
qed

lemma hd_type_name:
  "type_name c \<noteq> []" "hd (type_name c) = (if c = 1 then 69 else if c = 2 then 73 else if c = 3 then 78 else 85)"
  by (simp_all add: type_name_def lit_def)

lemma type_name_inj:
  assumes "type_name c @ 58 # xs = type_name d @ 58 # ys"
  shows "c = d"
proof (rule ccontr)
  assume ne: "c \<noteq> d"
  have "hd (type_name c) = hd (type_name d)" using assms hd_type_name(1) by (metis hd_append2)
  then have u: "c \<notin> {1, 2, 3}" "d \<notin> {1, 2, 3}" using ne by (auto simp: hd_type_name split: if_splits)
  then have "show_int c @ 41 # 58 # xs = show_int d @ 41 # 58 # ys" using assms by (simp add: type_name_def)
  then show False using append_sep [OF show_int_chars show_int_chars] show_int_inj ne by blast
qed

lemma Status_toString_inj:
  assumes "status_valid s" "status_valid t" "Status_toString s = Status_toString t"
  shows "s = t"
proof (cases s; cases t)
  fix a b assume st: "s = Some a" "t = Some b"
  have eq: "type_name (st_code a) @ 58 # 32 # st_msg a = type_name (st_code b) @ 58 # 32 # st_msg b"
    using assms by (simp add: st Status_toString_Some)
  show ?thesis using type_name_inj [OF eq] eq by (simp add: st)
next
  fix b assume st: "s = None" "t = Some b"
  have "hd (Status_toString t) \<noteq> 79" using assms(2) hd_type_name [of "st_code b"] by (simp add: st Status_toString_Some)
  moreover have "hd (Status_toString s) = 79" by (simp add: st Status_toString_def lit_def)
  ultimately show ?thesis using assms(3) by simp
next
  fix a assume st: "s = Some a" "t = None"
  have "hd (Status_toString s) \<noteq> 79" using assms(1) hd_type_name [of "st_code a"] by (simp add: st Status_toString_Some)
  moreover have "hd (Status_toString t) = 79" by (simp add: st Status_toString_def lit_def)
  ultimately show ?thesis using assms(3) by simp
qed simp

section \<open>Property\<close>

text \<open>
  C34. A constructed status is well formed, with a 32-bit code that is not \<open>kOk\<close>, or the assertion on \<open>kOk\<close> fails; a message
  of two parts is joined by \<open>": "\<close>, or replaced when it does not fit the array of 1024 bytes.  Assignment
  and \<open>update\<close> keep well-formedness, \<open>update\<close> keeps the first error of a sequence, and on well-formed
  statuses \<open>ok\<close> means the code \<open>kOk\<close> and \<open>==\<close>, which compares the printed forms, is equality.  The
  destructor of an iterator runs every registered cleanup once, the first one first and the
  others in reverse order.
\<close>
theorem Status_well_formed:
  assumes "code \<in> {- (2 ^ 31)..<2 ^ 31}" and "status_valid s" and "status_valid t"
  shows "Status_code3 code msg msg2 =
           (if code = kOk then Inl AssertFailed
            else Inr (Some \<lparr>st_code = code,
                            st_msg = (let m = (if msg2 = [] then msg else msg @ lit '': '' @ msg2)
                                      in if length m < 1024 then m else lit ''StatusTooLongMsg'')\<rparr>))
    \<and> pred_sum (\<lambda>e. e = AssertFailed \<and> code = kOk) status_valid (Status_code1 code)
    \<and> pred_sum (\<lambda>e. e = AssertFailed \<and> code = kOk) status_valid (Status_code2 code msg)
    \<and> status_valid (Status_assign s t) \<and> status_valid (Status_update s t)
    \<and> (Status_ok s \<longleftrightarrow> Status_code s = kOk) \<and> (Status_eq s t \<longleftrightarrow> s = t)
    \<and> foldl Status_update Status_OK ss = (case filter (\<lambda>s. \<not> Status_ok s) ss of [] \<Rightarrow> Status_OK | e # _ \<Rightarrow> e)
    \<and> Iterator_destroy (foldl (\<lambda>cs c. RegisterCleanup c cs) Iterator_new xs) = (case xs of [] \<Rightarrow> [] | x # xs \<Rightarrow> x # rev xs)"
proof (intro conjI)
  show "Status_code3 code msg msg2 =
           (if code = kOk then Inl AssertFailed
            else Inr (Some \<lparr>st_code = code,
                            st_msg = (let m = (if msg2 = [] then msg else msg @ lit '': '' @ msg2)
                                      in if length m < 1024 then m else lit ''StatusTooLongMsg'')\<rparr>))"
    by (auto simp: Status_code3_def Let_def lit_def)
  show "pred_sum (\<lambda>e. e = AssertFailed \<and> code = kOk) status_valid (Status_code1 code)"
    "pred_sum (\<lambda>e. e = AssertFailed \<and> code = kOk) status_valid (Status_code2 code msg)"
    using assms(1) by (simp_all add: Status_code1_def Status_code2_def status_valid_def)
  show "status_valid (Status_assign s t)" "status_valid (Status_update s t)"
    using assms by (simp_all add: Status_update_def)
  show "Status_ok s \<longleftrightarrow> Status_code s = kOk"
    using assms(2) by (auto simp: Status_ok_def Status_code_def status_valid_def split: option.splits)
  show "Status_eq s t \<longleftrightarrow> s = t"
    using Status_toString_inj [OF assms(2,3)] by (auto simp: Status_eq_def)
qed (rule Status_update_first cleanup_order)+

theorem Status_well_formed_witness:
  "Status_code3 kError (lit ''bad'') (lit ''key'') = Inr (Some \<lparr>st_code = kError, st_msg = lit ''bad: key''\<rparr>)
   \<and> \<not> Status_eq (Some \<lparr>st_code = kError, st_msg = []\<rparr>) (Some \<lparr>st_code = kIOError, st_msg = []\<rparr>)
   \<and> Iterator_destroy (foldl (\<lambda>cs c. RegisterCleanup c cs) Iterator_new [1 :: nat, 2, 3]) = [1, 3, 2]"
proof -
  let ?s = "Some \<lparr>st_code = kError, st_msg = []\<rparr>" and ?t = "Some \<lparr>st_code = kIOError, st_msg = []\<rparr>"
  have v: "kError \<in> {- (2 ^ 31)..<2 ^ 31}" "status_valid ?s" "status_valid ?t"
    by (simp_all add: status_valid_def status_codes)
  show ?thesis
    using Status_well_formed [OF v, of "lit ''bad''" "lit ''key''" "[]" "[1 :: nat, 2, 3]"]
    by (simp add: status_codes lit_def)
qed

end
