(* ===== verification/Table_Block.thy ===== *)
theory Table_Block
  imports Status_Code Crc_Util
begin

text \<open>
  Blocks of sorted tables, \<open>block.h\<close> and \<open>block.cpp\<close>: block handles and footers, reading a block from a file,
  the block with its iterator, and the block builder.  Pointers into a block are offsets into the
  list of its bytes, and every read of memory through them checks that the bytes are there.
\<close>

section \<open>Handles and footers\<close>

record BlockHandle =
  bh_offset :: "64 word"
  bh_size :: "64 word"

definition BlockHandle_new :: BlockHandle where
  "BlockHandle_new = \<lparr>bh_offset = NOT 0, bh_size = NOT 0\<rparr>"

definition kMaxEncodedLength :: nat where
  "kMaxEncodedLength = 10 + 10"

definition kEncodedLength :: nat where
  "kEncodedLength = 2 * kMaxEncodedLength + 8"

definition kTableMagicNumber :: "64 word" where
  "kTableMagicNumber = 0xdb4775248b80fb57"

definition kBlockTrailerSize :: "64 word" where
  "kBlockTrailerSize = 5"

definition BlockHandle_EncodeTo :: "BlockHandle \<Rightarrow> octet list \<Rightarrow> octet list result" where
  "BlockHandle_EncodeTo h dst =
     (if bh_offset h \<noteq> NOT 0 \<and> bh_size h \<noteq> NOT 0
      then ub_bind (PutVarint64 (bh_offset h) dst) (PutVarint64 (bh_size h))
      else Inl AssertFailed)"

text \<open>The status, the handle and what is left of the input.\<close>

definition BlockHandle_DecodeFrom :: "BlockHandle \<Rightarrow> StringPiece \<Rightarrow> (Status \<times> BlockHandle \<times> StringPiece) result" where
  "BlockHandle_DecodeFrom h input =
     (case GetVarint64 input of
        (None, input) \<Rightarrow> ub_bind (Status_Error (lit ''bad block handle'') []) (\<lambda>s. Inr (s, h, input))
      | (Some v, input) \<Rightarrow>
          (let h = h\<lparr>bh_offset := v\<rparr> in
           case GetVarint64 input of
             (None, input) \<Rightarrow> ub_bind (Status_Error (lit ''bad block handle'') []) (\<lambda>s. Inr (s, h, input))
           | (Some w, input) \<Rightarrow> Inr (Status_OK, h\<lparr>bh_size := w\<rparr>, input)))"

record Footer =
  ft_metaindex :: BlockHandle
  ft_index :: BlockHandle

definition Footer_new :: Footer where
  "Footer_new = \<lparr>ft_metaindex = BlockHandle_new, ft_index = BlockHandle_new\<rparr>"

text \<open>\<open>string::resize\<close> cuts, or fills with zero bytes.\<close>

definition resize :: "nat \<Rightarrow> octet list \<Rightarrow> octet list" where
  "resize n s = take n s @ replicate (n - length s) 0"

definition Footer_EncodeTo :: "bool \<Rightarrow> Footer \<Rightarrow> octet list \<Rightarrow> octet list result" where
  "Footer_EncodeTo le f dst =
     (let original_size = length dst in
      ub_bind (BlockHandle_EncodeTo (ft_metaindex f) dst) (\<lambda>dst.
      ub_bind (BlockHandle_EncodeTo (ft_index f) dst) (\<lambda>dst.
      let dst = resize (2 * kMaxEncodedLength) dst in
      ub_bind (PutFixed32 le (ucast (kTableMagicNumber AND 0xffffffff)) dst) (\<lambda>dst.
      ub_bind (PutFixed32 le (ucast (drop_bit 32 kTableMagicNumber)) dst) (\<lambda>dst.
      if length dst = original_size + kEncodedLength then Inr dst else Inl AssertFailed)))))"

definition Footer_DecodeFrom :: "bool \<Rightarrow> Footer \<Rightarrow> StringPiece \<Rightarrow> (Status \<times> Footer \<times> StringPiece) result" where
  "Footer_DecodeFrom le f input =
     (let magic_ptr = drop (kEncodedLength - 8) input in
      ub_bind (DecodeFixed32 le magic_ptr) (\<lambda>magic_lo.
      ub_bind (DecodeFixed32 le (drop 4 magic_ptr)) (\<lambda>magic_hi.
      let magic = push_bit 32 (ucast magic_hi) OR ucast magic_lo in
      if magic \<noteq> kTableMagicNumber
      then ub_bind (Status_Error (lit ''not an sstable (bad magic number)'') []) (\<lambda>s. Inr (s, f, input))
      else ub_bind (BlockHandle_DecodeFrom (ft_metaindex f) input) (\<lambda>(res, h, rest).
           let f = f\<lparr>ft_metaindex := h\<rparr> in
           if \<not> Status_ok res then Inr (res, f, rest)
           else ub_bind (BlockHandle_DecodeFrom (ft_index f) rest) (\<lambda>(res, h, rest).
                let f = f\<lparr>ft_index := h\<rparr> in
                if Status_ok res then Inr (res, f, drop 8 magic_ptr) else Inr (res, f, rest))))))"

section \<open>Reading a block\<close>

record BlockContents =
  bc_data :: StringPiece
  bc_cachable :: bool
  bc_heap_allocated :: bool

text \<open>
  \<open>RandomAccessFile::Read\<close> belongs to the file system layer: given an offset and a number of bytes it
  returns a status, the bytes, and whether they are in the buffer the caller passed.
\<close>

type_synonym read_file = "64 word \<Rightarrow> 64 word \<Rightarrow> Status \<times> octet list \<times> bool"

text \<open>\<open>pval\<close> is the address of the data.  The last component of the result says whether \<open>buf\<close> was deleted.\<close>

definition ReadBlock :: "bool \<Rightarrow> nat \<Rightarrow> read_file \<Rightarrow> BlockHandle \<Rightarrow> (Status \<times> BlockContents \<times> bool) result" where
  "ReadBlock le pval file handle =
     (let res = \<lparr>bc_data = [], bc_cachable = False, bc_heap_allocated = False\<rparr>;
          n = bh_size handle;
          (s, contents, in_buf) = file (bh_offset handle) (n + kBlockTrailerSize)
      in if \<not> Status_ok s then Inr (s, res, True)
         else if length contents \<noteq> unat (n + kBlockTrailerSize)
         then ub_bind (Status_Error (lit ''truncated block read'') []) (\<lambda>s. Inr (s, res, True))
         else ub_bind (DecodeFixed32 le (drop (unat n + 1) contents)) (\<lambda>masked.
              let crc = Crc32Unmask masked in
              ub_bind (load (unat (n + 1)) contents) (\<lambda>data.
              ub_bind (Crc32Value le pval data) (\<lambda>actual.
              if actual \<noteq> crc
              then ub_bind (Status_Error (lit ''block checksum mismatch'') []) (\<lambda>s. Inr (s, res, True))
              else if contents ! unat n = 0
              then if \<not> in_buf
                   then Inr (Status_OK, res\<lparr>bc_data := take (unat n) contents, bc_heap_allocated := False,
                                            bc_cachable := False\<rparr>, True)
                   else Inr (Status_OK, res\<lparr>bc_data := take (unat n) contents, bc_heap_allocated := True,
                                            bc_cachable := True\<rparr>, False)
              else ub_bind (Status_Error (lit ''bad block type'') []) (\<lambda>s. Inr (s, res, True))))))"

section \<open>Blocks\<close>

record Block =
  bl_data :: "octet list"
  bl_size :: nat
  bl_restart_offset :: "32 word option"
  bl_owned :: bool

definition NumRestarts :: "bool \<Rightarrow> Block \<Rightarrow> 32 word result" where
  "NumRestarts le b = (if bl_size b \<ge> 4 then DecodeFixed32 le (drop (bl_size b - 4) (bl_data b)) else Inl AssertFailed)"

definition Block_new :: "bool \<Rightarrow> BlockContents \<Rightarrow> Block result" where
  "Block_new le contents =
     (let b = \<lparr>bl_data = bc_data contents, bl_size = length (bc_data contents), bl_restart_offset = None,
               bl_owned = bc_heap_allocated contents\<rparr>
      in if bl_size b < 4 then Inr (b\<lparr>bl_size := 0\<rparr>)
         else let max_restarts_allowed = (bl_size b - 4) div 4 in
              ub_bind (NumRestarts le b) (\<lambda>n.
              if unat n > max_restarts_allowed then Inr (b\<lparr>bl_size := 0\<rparr>)
              else ub_bind (NumRestarts le b) (\<lambda>n.
                   Inr (b\<lparr>bl_restart_offset := Some (word_of_int (int (bl_size b) - int (unat (1 + n) * 4)))\<rparr>))))"

text \<open>
  \<open>DecodeEntry\<close> on the bytes from \<open>p\<close> to \<open>limit\<close> (none when \<open>p\<close> is past it).  It reads only those and returns
  the three numbers and how far \<open>p\<close> has moved.
\<close>

definition DecodeEntry :: "octet list \<Rightarrow> (32 word \<times> 32 word \<times> 32 word \<times> nat) option" where
  "DecodeEntry p =
     (if length p < 3 then None
      else let shared = ucast (p ! 0); non_shared = ucast (p ! 1); value_length = ucast (p ! 2);
               decoded = (if (shared OR non_shared OR value_length) < 128 then Some (shared, non_shared, value_length, 3)
                          else case GetVarint32Ptr p of None \<Rightarrow> None
                          | Some (shared, q1) \<Rightarrow>
                             (case GetVarint32Ptr (drop q1 p) of None \<Rightarrow> None
                              | Some (non_shared, q2) \<Rightarrow>
                                  (case GetVarint32Ptr (drop (q1 + q2) p) of None \<Rightarrow> None
                                   | Some (value_length, q3) \<Rightarrow> Some (shared, non_shared, value_length, q1 + q2 + q3))))
           in case decoded of None \<Rightarrow> None
              | Some (shared, non_shared, value_length, q) \<Rightarrow>
                  if of_nat (length p - q) < non_shared + value_length then None
                  else Some (shared, non_shared, value_length, q))"

section \<open>The iterator of a block\<close>

text \<open>
  \<open>it_value\<close> is the offset and length of the value, \<open>None\<close> when \<open>value_\<close> is the empty piece outside of the block.
\<close>

record Iter =
  it_data :: "octet list"
  it_restarts :: "32 word"
  it_num_restarts :: "32 word"
  it_current :: "32 word"
  it_restart_index :: "32 word"
  it_key :: "octet list"
  it_value :: "(nat \<times> nat) option"
  it_status :: Status

definition Iter_new :: "octet list \<Rightarrow> 32 word \<Rightarrow> 32 word \<Rightarrow> Iter result" where
  "Iter_new data restarts num_restarts =
     (if num_restarts > 0
      then Inr \<lparr>it_data = data, it_restarts = restarts, it_num_restarts = num_restarts, it_current = restarts,
                it_restart_index = num_restarts, it_key = [], it_value = None, it_status = Status_OK\<rparr>
      else Inl AssertFailed)"

definition NextEntryOffset :: "Iter \<Rightarrow> 32 word result" where
  "NextEntryOffset it = (case it_value it of None \<Rightarrow> Inl OutOfBounds | Some (off, len) \<Rightarrow> Inr (of_nat (off + len)))"

definition GetRestartPoint :: "bool \<Rightarrow> Iter \<Rightarrow> 32 word \<Rightarrow> 32 word result" where
  "GetRestartPoint le it index =
     (if index < it_num_restarts it then DecodeFixed32 le (drop (unat (it_restarts it) + unat index * 4) (it_data it))
      else Inl AssertFailed)"

definition SeekToRestartPoint :: "bool \<Rightarrow> 32 word \<Rightarrow> Iter \<Rightarrow> Iter result" where
  "SeekToRestartPoint le index it =
     (let it = it\<lparr>it_key := [], it_restart_index := index\<rparr> in
      ub_bind (GetRestartPoint le it index) (\<lambda>offset. Inr (it\<lparr>it_value := Some (unat offset, 0)\<rparr>)))"

definition Iter_Valid :: "Iter \<Rightarrow> bool" where
  "Iter_Valid it \<longleftrightarrow> it_current it < it_restarts it"

definition Iter_key :: "Iter \<Rightarrow> StringPiece result" where
  "Iter_key it = (if Iter_Valid it then Inr (it_key it) else Inl AssertFailed)"

text \<open>The bytes of the value, as a client of the piece reads them.\<close>

definition Iter_value :: "Iter \<Rightarrow> StringPiece result" where
  "Iter_value it =
     (if Iter_Valid it then case it_value it of None \<Rightarrow> Inr [] | Some (off, len) \<Rightarrow> load len (drop off (it_data it))
      else Inl AssertFailed)"

definition CorruptionError :: "Iter \<Rightarrow> Iter result" where
  "CorruptionError it =
     ub_bind (Status_Error (lit ''bad entry in block'') []) (\<lambda>s.
     Inr (it\<lparr>it_current := it_restarts it, it_restart_index := it_num_restarts it, it_status := s, it_key := [],
             it_value := None\<rparr>))"

function skip_restarts :: "bool \<Rightarrow> Iter \<Rightarrow> 32 word \<Rightarrow> 32 word result" where
  "skip_restarts le it ri =
     (if ri + 1 < it_num_restarts it then
        case GetRestartPoint le it (ri + 1) of Inl e \<Rightarrow> Inl e
        | Inr r \<Rightarrow> if r < it_current it then skip_restarts le it (ri + 1) else Inr ri
      else Inr ri)"
  by pat_completeness auto
termination
proof (relation "measure (\<lambda>(le, it, ri). unat (it_num_restarts it - (ri + 1)))", goal_cases)
  case (2 le it ri r)
  define n where "n = it_num_restarts it"
  define m where "m = ri + 1"
  have "m < n" using 2 by (simp add: m_def n_def)
  then have lt: "unat m < unat n" by (simp add: word_less_nat_alt)
  moreover have "unat n < 2 ^ 32" using unsigned_less [of n] by simp
  ultimately have "unat m + 1 < 2 ^ 32" by linarith
  then have u: "unat (m + 1) = unat m + 1" by (simp add: unat_word_ariths)
  have "unat (n - m) = unat n - unat m" "unat (n - (m + 1)) = unat n - unat (m + 1)"
    using lt u by (simp_all add: unat_sub word_le_nat_alt)
  then show ?case using lt u by (simp add: m_def n_def)
qed auto

declare skip_restarts.simps [simp del]

definition ParseNextKey :: "bool \<Rightarrow> Iter \<Rightarrow> (bool \<times> Iter) result" where
  "ParseNextKey le it =
     ub_bind (NextEntryOffset it) (\<lambda>off.
     let it = it\<lparr>it_current := off\<rparr>;
         p = unat off; limit = unat (it_restarts it)
     in if p \<ge> limit then Inr (False, it\<lparr>it_current := it_restarts it, it_restart_index := it_num_restarts it\<rparr>)
        else case DecodeEntry (drop p (take limit (it_data it))) of
               None \<Rightarrow> ub_bind (CorruptionError it) (\<lambda>it. Inr (False, it))
             | Some (shared, non_shared, value_length, q) \<Rightarrow>
                 if length (it_key it) < unat shared then ub_bind (CorruptionError it) (\<lambda>it. Inr (False, it))
                 else let p = p + q in
                      ub_bind (load (unat non_shared) (drop p (it_data it))) (\<lambda>delta.
                      let it = it\<lparr>it_key := resize (unat shared) (it_key it) @ delta,
                                  it_value := Some (p + unat non_shared, unat value_length)\<rparr> in
                      ub_bind (skip_restarts le it (it_restart_index it)) (\<lambda>ri.
                      Inr (True, it\<lparr>it_restart_index := ri\<rparr>))))"

definition Iter_Next :: "bool \<Rightarrow> Iter \<Rightarrow> Iter result" where
  "Iter_Next le it = (if Iter_Valid it then ub_bind (ParseNextKey le it) (\<lambda>(_, it). Inr it) else Inl AssertFailed)"

text \<open>The key stored at a restart point; \<open>None\<close> when its entry is corrupt.\<close>

definition mid_key :: "bool \<Rightarrow> Iter \<Rightarrow> 32 word \<Rightarrow> StringPiece option result" where
  "mid_key le it mid =
     ub_bind (GetRestartPoint le it mid) (\<lambda>region_offset.
     let p = unat region_offset in
     case DecodeEntry (drop p (take (unat (it_restarts it)) (it_data it))) of None \<Rightarrow> Inr None
     | Some (shared, non_shared, value_length, q) \<Rightarrow>
         if shared \<noteq> 0 then Inr None
         else ub_bind (load (unat non_shared) (drop (p + q) (it_data it))) (\<lambda>k. Inr (Some k)))"

text \<open>The binary search; \<open>None\<close> inside when it meets a corrupt entry, outside when it never ends.\<close>

partial_function (option) seek_restart ::
    "bool \<Rightarrow> Iter \<Rightarrow> StringPiece \<Rightarrow> 32 word \<Rightarrow> 32 word \<Rightarrow> 32 word option result option" where
  "seek_restart le it target left right =
     (if left < right then
        let mid = (left + right + 1) div 2 in
        case mid_key le it mid of Inl e \<Rightarrow> Some (Inl e)
        | Inr None \<Rightarrow> Some (Inr None)
        | Inr (Some k) \<Rightarrow>
            if StringPiece_compare k target < 0 then seek_restart le it target mid right
            else seek_restart le it target left (mid - 1)
      else Some (Inr (Some left)))"

partial_function (option) seek_linear :: "bool \<Rightarrow> StringPiece \<Rightarrow> Iter \<Rightarrow> Iter result option" where
  "seek_linear le target it =
     (case ParseNextKey le it of Inl e \<Rightarrow> Some (Inl e)
      | Inr (ok, it) \<Rightarrow>
          if \<not> ok then Some (Inr it)
          else if StringPiece_compare (it_key it) target \<ge> 0 then Some (Inr it)
          else seek_linear le target it)"

definition Iter_Seek :: "bool \<Rightarrow> StringPiece \<Rightarrow> Iter \<Rightarrow> Iter result option" where
  "Iter_Seek le target it =
     (case seek_restart le it target 0 (it_num_restarts it - 1) of None \<Rightarrow> None
      | Some (Inl e) \<Rightarrow> Some (Inl e)
      | Some (Inr None) \<Rightarrow> Some (CorruptionError it)
      | Some (Inr (Some left)) \<Rightarrow>
          (case SeekToRestartPoint le left it of Inl e \<Rightarrow> Some (Inl e) | Inr it \<Rightarrow> seek_linear le target it))"

definition Iter_SeekToFirst :: "bool \<Rightarrow> Iter \<Rightarrow> Iter result" where
  "Iter_SeekToFirst le it =
     ub_bind (SeekToRestartPoint le 0 it) (\<lambda>it. ub_bind (ParseNextKey le it) (\<lambda>(_, it). Inr it))"

text \<open>The classes behind the interface, and the dispatch of its virtual functions.\<close>

datatype Iterator = EmptyIterator Status | BlockIter Iter

definition NewIterator :: "bool \<Rightarrow> Block \<Rightarrow> Iterator result" where
  "NewIterator le b =
     (if bl_size b < 4 then ub_bind (Status_Error (lit ''bad block contents'') []) (\<lambda>s. Inr (EmptyIterator s))
      else ub_bind (NumRestarts le b) (\<lambda>num_restarts.
           if num_restarts = 0 then Inr (EmptyIterator Status_OK)
           else case bl_restart_offset b of None \<Rightarrow> Inl Uninitialised
                | Some off \<Rightarrow> ub_bind (Iter_new (bl_data b) off num_restarts) (\<lambda>it. Inr (BlockIter it))))"

fun Valid :: "Iterator \<Rightarrow> bool" where
  "Valid (EmptyIterator s) = False"
| "Valid (BlockIter it) = Iter_Valid it"

fun Seek :: "bool \<Rightarrow> StringPiece \<Rightarrow> Iterator \<Rightarrow> Iterator result option" where
  "Seek le target (EmptyIterator s) = Some (Inr (EmptyIterator s))"
| "Seek le target (BlockIter it) = map_option (\<lambda>r. ub_bind r (\<lambda>it. Inr (BlockIter it))) (Iter_Seek le target it)"

fun SeekToFirst :: "bool \<Rightarrow> Iterator \<Rightarrow> Iterator result" where
  "SeekToFirst le (EmptyIterator s) = Inr (EmptyIterator s)"
| "SeekToFirst le (BlockIter it) = ub_bind (Iter_SeekToFirst le it) (\<lambda>it. Inr (BlockIter it))"

fun Next :: "bool \<Rightarrow> Iterator \<Rightarrow> Iterator result" where
  "Next le (EmptyIterator s) = Inl AssertFailed"
| "Next le (BlockIter it) = ub_bind (Iter_Next le it) (\<lambda>it. Inr (BlockIter it))"

fun iterator_key :: "Iterator \<Rightarrow> StringPiece result" where
  "iterator_key (EmptyIterator s) = Inl AssertFailed"
| "iterator_key (BlockIter it) = Iter_key it"

fun iterator_value :: "Iterator \<Rightarrow> StringPiece result" where
  "iterator_value (EmptyIterator s) = Inl AssertFailed"
| "iterator_value (BlockIter it) = Iter_value it"

fun iterator_status :: "Iterator \<Rightarrow> Status" where
  "iterator_status (EmptyIterator s) = s"
| "iterator_status (BlockIter it) = it_status it"

section \<open>The builder\<close>

record BlockBuilder =
  bb_restart_interval :: int
  bb_buffer :: "octet list"
  bb_restarts :: "32 word list"
  bb_counter :: int
  bb_finished :: bool
  bb_last_key :: "octet list"

definition BlockBuilder_new :: "int \<Rightarrow> BlockBuilder result" where
  "BlockBuilder_new block_restart_interval =
     (if block_restart_interval \<ge> 1
      then Inr \<lparr>bb_restart_interval = block_restart_interval, bb_buffer = [], bb_restarts = [0], bb_counter = 0,
                bb_finished = False, bb_last_key = []\<rparr>
      else Inl AssertFailed)"

definition BlockBuilder_Reset :: "BlockBuilder \<Rightarrow> BlockBuilder" where
  "BlockBuilder_Reset b =
     b\<lparr>bb_buffer := [], bb_restarts := [0], bb_counter := 0, bb_finished := False, bb_last_key := []\<rparr>"

definition CurrentSizeEstimate :: "BlockBuilder \<Rightarrow> nat" where
  "CurrentSizeEstimate b = length (bb_buffer b) + length (bb_restarts b) * 4 + 4"

primrec put_restarts :: "bool \<Rightarrow> 32 word list \<Rightarrow> octet list \<Rightarrow> octet list result" where
  "put_restarts le [] buf = Inr buf"
| "put_restarts le (r # rs) buf = ub_bind (PutFixed32 le r buf) (put_restarts le rs)"

definition BlockBuilder_Finish :: "bool \<Rightarrow> BlockBuilder \<Rightarrow> (StringPiece \<times> BlockBuilder) result" where
  "BlockBuilder_Finish le b =
     ub_bind (put_restarts le (bb_restarts b) (bb_buffer b)) (\<lambda>buf.
     ub_bind (PutFixed32 le (of_nat (length (bb_restarts b))) buf) (\<lambda>buf.
     Inr (buf, b\<lparr>bb_buffer := buf, bb_finished := True\<rparr>)))"

definition BlockBuilder_Add :: "StringPiece \<Rightarrow> StringPiece \<Rightarrow> BlockBuilder \<Rightarrow> BlockBuilder result" where
  "BlockBuilder_Add key val b =
     (if bb_finished b \<or> \<not> bb_counter b \<le> bb_restart_interval b
         \<or> \<not> (bb_buffer b = [] \<or> StringPiece_compare key (bb_last_key b) > 0)
      then Inl AssertFailed
      else let (shared, b) =
                 (if bb_counter b < bb_restart_interval b
                  then (diff_loop (bb_last_key b) key (min (length (bb_last_key b)) (length key)) 0, b)
                  else (0, b\<lparr>bb_restarts := bb_restarts b @ [of_nat (length (bb_buffer b))], bb_counter := 0\<rparr>));
               non_shared = length key - shared
           in ub_bind (PutVarint32 (of_nat shared) (bb_buffer b)) (\<lambda>buf.
              ub_bind (PutVarint32 (of_nat non_shared) buf) (\<lambda>buf.
              ub_bind (PutVarint32 (of_nat (length val)) buf) (\<lambda>buf.
              let buf = buf @ take non_shared (drop shared key) @ val;
                  last_key = resize shared (bb_last_key b) @ take non_shared (drop shared key)
              in if StringPiece_eq last_key key
                 then Inr (b\<lparr>bb_buffer := buf, bb_last_key := last_key, bb_counter := bb_counter b + 1\<rparr>)
                 else Inl AssertFailed))))"

end
