(* ===== verification/Block_Layout.thy ===== *)
theory Block_Layout
  imports Table_Block
begin

unbundle bit_operations_syntax

text \<open>
  What the builder writes and what the iterator reads: the bytes of a block as a list of entries with
  the lengths of their shared prefixes, the positions of the restart points, and the iterator as a
  cursor over the entries.
\<close>

section \<open>Decoding an entry\<close>

text \<open>The fast path of \<open>DecodeEntry\<close> computes what three calls of \<open>GetVarint32Ptr\<close> do.\<close>

lemma or_less_128: "a OR b OR c < 128 \<longleftrightarrow> a < 128 \<and> b < 128 \<and> c < 128" for a b c :: "32 word"
proof -
  have "x < 128 \<longleftrightarrow> drop_bit 7 x = 0" for x :: "32 word" using ge_128 [of x] by (auto simp: not_le)
  then show ?thesis by (simp add: drop_bit_or or_eq_0_iff)
qed

lemma octet_less_128: "(ucast b :: 32 word) < 128 \<longleftrightarrow> (ucast b :: 32 word) AND 128 = 0" for b :: octet
proof -
  have "(ucast b :: 32 word) < 128 \<longleftrightarrow> drop_bit 7 (ucast b :: 32 word) = 0" using ge_128 [of "ucast b :: 32 word"] by (auto simp: not_le)
  also have "\<dots> \<longleftrightarrow> \<not> bit b 7"
  proof
    assume a: "\<not> bit b 7"
    have "n = 0" if "bit b (7 + n)" for n using bit_imp_le_length [OF that] by simp
    then have "\<not> bit b (7 + n)" for n using a by (metis add_0_right)
    then show "drop_bit 7 (ucast b :: 32 word) = 0" by (intro bit_word_eqI) (simp add: bit_simps)
  next
    assume "drop_bit 7 (ucast b :: 32 word) = 0"
    then have "\<not> bit (drop_bit 7 (ucast b :: 32 word)) 0" by simp
    then show "\<not> bit b 7" by (simp add: bit_simps)
  qed
  finally show ?thesis using high_bit [of b, where ?'a = 32] by auto
qed

definition three_varints :: "octet list \<Rightarrow> (32 word \<times> 32 word \<times> 32 word \<times> nat) option" where
  "three_varints p =
     (case GetVarint32Ptr p of None \<Rightarrow> None
      | Some (a, q1) \<Rightarrow>
         (case GetVarint32Ptr (drop q1 p) of None \<Rightarrow> None
          | Some (b, q2) \<Rightarrow>
              (case GetVarint32Ptr (drop (q1 + q2) p) of None \<Rightarrow> None
               | Some (c, q3) \<Rightarrow> Some (a, b, c, q1 + q2 + q3))))"

lemma DecodeEntry_varints:
  "DecodeEntry p =
     (if length p < 3 then None
      else case three_varints p of None \<Rightarrow> None
      | Some (a, b, c, q) \<Rightarrow> if of_nat (length p - q) < b + c then None else Some (a, b, c, q))"
proof (cases "length p < 3")
  case False
  then obtain x y z r where p: "p = x # y # z # r"
    by (cases p; cases "tl p"; cases "tl (tl p)") auto
  show ?thesis
  proof (cases "(ucast x OR ucast y OR ucast z :: 32 word) < 128")
    case True
    then have "three_varints p = Some (ucast x, ucast y, ucast z, 3)"
      by (simp add: or_less_128 octet_less_128 three_varints_def GetVarint32Ptr_def p)
    then show ?thesis using True unfolding p by (simp add: DecodeEntry_def)
  next
    case f: False
    then show ?thesis unfolding p by (simp add: DecodeEntry_def three_varints_def Let_def split: option.splits)
  qed
qed (simp add: DecodeEntry_def)

section \<open>Entries\<close>

text \<open>An entry: how many bytes it shares with the key before it, the key and the value.\<close>

type_synonym entry = "nat \<times> octet list \<times> octet list"

abbreviation e_shared :: "entry \<Rightarrow> nat" where "e_shared \<equiv> fst"
abbreviation e_key :: "entry \<Rightarrow> octet list" where "e_key e \<equiv> fst (snd e)"
abbreviation e_value :: "entry \<Rightarrow> octet list" where "e_value e \<equiv> snd (snd e)"

definition head_bytes :: "entry \<Rightarrow> octet list" where
  "head_bytes e = varint (of_nat (e_shared e) :: 32 word) @ varint (of_nat (length (e_key e) - e_shared e) :: 32 word)
                  @ varint (of_nat (length (e_value e)) :: 32 word)"

definition entry_bytes :: "entry \<Rightarrow> octet list" where
  "entry_bytes e = head_bytes e @ drop (e_shared e) (e_key e) @ e_value e"

lemma length_varint_pos: "1 \<le> length (varint v)"
  using varint_ne [of v] by (cases "varint v") auto

lemma length_head: "3 \<le> length (head_bytes e)" "length (head_bytes e) \<le> 15"
proof -
  let ?a = "of_nat (e_shared e) :: 32 word" and ?b = "of_nat (length (e_key e) - e_shared e) :: 32 word"
    and ?c = "of_nat (length (e_value e)) :: 32 word"
  have "length (head_bytes e) = length (varint ?a) + length (varint ?b) + length (varint ?c)" by (simp add: head_bytes_def)
  then show "3 \<le> length (head_bytes e)" "length (head_bytes e) \<le> 15"
    using length_varint_pos [of ?a] length_varint_pos [of ?b] length_varint_pos [of ?c]
      length_varint32 [of ?a] length_varint32 [of ?b] length_varint32 [of ?c] by linarith+
qed

lemma DecodeEntry_bytes:
  assumes "e_shared e \<le> length (e_key e)" "length (entry_bytes e @ rest) < 2 ^ 32"
  shows "DecodeEntry (entry_bytes e @ rest) =
    Some (of_nat (e_shared e), of_nat (length (e_key e) - e_shared e), of_nat (length (e_value e)), length (head_bytes e))"
proof -
  let ?p = "entry_bytes e @ rest"
  let ?b = "of_nat (length (e_key e) - e_shared e) :: 32 word" and ?c = "of_nat (length (e_value e)) :: 32 word"
  have "three_varints ?p = Some (of_nat (e_shared e), ?b, ?c, length (head_bytes e))"
    by (simp add: three_varints_def entry_bytes_def head_bytes_def GetVarint32Ptr_varint)
  moreover have "\<not> of_nat (length ?p - length (head_bytes e)) < ?b + ?c"
  proof -
    have l: "length ?p = length (head_bytes e) + (length (e_key e) - e_shared e) + length (e_value e) + length rest"
      by (simp add: entry_bytes_def)
    have "?b + ?c = of_nat (length (e_key e) - e_shared e + length (e_value e))" by simp
    moreover have "unat (of_nat n :: 32 word) = n" if "n < 2 ^ 32" for n using that by (simp add: unat_of_nat)
    ultimately show ?thesis using assms(2) unfolding l word_less_nat_alt by (simp del: of_nat_add)
  qed
  moreover have "\<not> length ?p < 3" using length_head(1) [of e] by (simp add: entry_bytes_def)
  ultimately show ?thesis unfolding DecodeEntry_varints by simp
qed

section \<open>Blocks\<close>

definition layout :: "entry list \<Rightarrow> octet list" where
  "layout es = concat (map entry_bytes es)"

definition offset :: "entry list \<Rightarrow> nat \<Rightarrow> nat" where
  "offset es i = length (layout (take i es))"

definition key_before :: "entry list \<Rightarrow> nat \<Rightarrow> octet list" where
  "key_before es i = (if i = 0 then [] else e_key (es ! (i - 1)))"

definition shares_ok :: "entry list \<Rightarrow> bool" where
  "shares_ok es \<longleftrightarrow> (\<forall>i<length es. e_shared (es ! i) \<le> length (e_key (es ! i)) \<and> e_shared (es ! i) \<le> length (key_before es i)
                       \<and> take (e_shared (es ! i)) (e_key (es ! i)) = take (e_shared (es ! i)) (key_before es i))"

text \<open>The indices of the entries at the restart points.\<close>

definition restarts_ok :: "entry list \<Rightarrow> nat list \<Rightarrow> bool" where
  "restarts_ok es idxs \<longleftrightarrow> idxs \<noteq> [] \<and> idxs ! 0 = 0
     \<and> (\<forall>j<length idxs. 0 < j \<longrightarrow> idxs ! j < length es \<and> e_shared (es ! (idxs ! j)) = 0)"

definition keys_sorted :: "entry list \<Rightarrow> bool" where
  "keys_sorted es \<longleftrightarrow> sorted_wrt bytes_less (map e_key es)"

definition block_bytes :: "entry list \<Rightarrow> nat list \<Rightarrow> octet list" where
  "block_bytes es idxs =
     layout es @ concat (map (\<lambda>i. le_bytes 4 (of_nat (offset es i) :: 32 word)) idxs) @ le_bytes 4 (of_nat (length idxs) :: 32 word)"

text \<open>An iterator over such a block.\<close>

definition iter_over :: "entry list \<Rightarrow> nat list \<Rightarrow> Iter \<Rightarrow> bool" where
  "iter_over es idxs it \<longleftrightarrow>
     it_data it = block_bytes es idxs \<and> it_restarts it = of_nat (length (layout es)) \<and> it_num_restarts it = of_nat (length idxs)
     \<and> length (block_bytes es idxs) < 2 ^ 32 \<and> shares_ok es \<and> restarts_ok es idxs \<and> keys_sorted es \<and> it_status it = Status_OK"

lemma layout_split: "i < length es \<Longrightarrow> layout es = layout (take i es) @ entry_bytes (es ! i) @ layout (drop (Suc i) es)"
  using id_take_nth_drop [of i es] by (metis (no_types, lifting) concat.simps(2) concat_append layout_def list.simps(9) map_append)

lemma offset_simps [simp]: "offset es 0 = 0" "offset es (length es) = length (layout es)"
  by (simp_all add: offset_def layout_def)

lemma offset_Suc: "i < length es \<Longrightarrow> offset es (Suc i) = offset es i + length (entry_bytes (es ! i))"
  by (simp add: offset_def layout_def take_Suc_conv_app_nth)

lemma offset_less: "i < length es \<Longrightarrow> offset es i < length (layout es)"
  using layout_split [of i es] length_head(1) [of "es ! i"] by (auto simp: offset_def entry_bytes_def)

lemma length_restarts: "length (concat (map (\<lambda>i. le_bytes 4 (f i :: 32 word)) idxs)) = 4 * length idxs"
  by (induction idxs) auto

lemma nth_restart: "j < length idxs \<Longrightarrow>
  \<exists>rest. drop (4 * j) (concat (map (\<lambda>i. le_bytes 4 (f i :: 32 word)) idxs)) = le_bytes 4 (f (idxs ! j)) @ rest"
proof (induction idxs arbitrary: j)
  case (Cons i idxs)
  then show ?case by (cases j) auto
qed simp

lemma length_block_bytes: "length (block_bytes es idxs) = length (layout es) + 4 * length idxs + 4"
  by (simp add: block_bytes_def length_restarts)

lemma unat_small [simp]: "n < 2 ^ 32 \<Longrightarrow> unat (of_nat n :: 32 word) = n"
  by (simp add: unat_of_nat)

lemma iter_over_sizes:
  assumes "iter_over es idxs it"
  shows "unat (it_restarts it) = length (layout es)" "unat (it_num_restarts it) = length idxs"
    "length (layout es) < 2 ^ 32" "length idxs < 2 ^ 31" "i \<le> length es \<Longrightarrow> offset es i < 2 ^ 32"
proof -
  have l: "length (layout es) + 4 * length idxs + 4 < 2 ^ 32" using assms by (simp add: iter_over_def length_block_bytes)
  then show "length (layout es) < 2 ^ 32" "length idxs < 2 ^ 31" by simp_all
  then show "unat (it_restarts it) = length (layout es)" "unat (it_num_restarts it) = length idxs"
    using assms by (simp_all add: iter_over_def unat_of_nat)
  show "i \<le> length es \<Longrightarrow> offset es i < 2 ^ 32"
    using l offset_less [of i es] by (cases "i = length es") auto
qed

lemma GetRestartPoint_ok:
  assumes "iter_over es idxs it" "unat j < length idxs"
  shows "GetRestartPoint le it j = Inr (of_nat (offset es (idxs ! unat j)))"
proof -
  note sz = iter_over_sizes [OF assms(1)]
  obtain rest where "drop (4 * unat j) (concat (map (\<lambda>i. le_bytes 4 (of_nat (offset es i) :: 32 word)) idxs))
      = le_bytes 4 (of_nat (offset es (idxs ! unat j)) :: 32 word) @ rest"
    using nth_restart [OF assms(2), of "\<lambda>i. of_nat (offset es i)"] by blast
  then have "drop (length (layout es) + unat j * 4) (block_bytes es idxs)
      = le_bytes 4 (of_nat (offset es (idxs ! unat j)) :: 32 word) @ rest @ le_bytes 4 (of_nat (length idxs) :: 32 word)"
    using assms(2) by (simp add: block_bytes_def mult.commute length_restarts)
  moreover have "j < it_num_restarts it" using assms(2) sz(2) by (simp add: word_less_nat_alt)
  ultimately show ?thesis
    using assms(1) sz(1) by (simp add: GetRestartPoint_def iter_over_def DecodeFixed32_bytes)
qed

lemma skip_restarts_ok: "iter_over es idxs it \<Longrightarrow> \<exists>ri'. skip_restarts le it ri = Inr ri'"
proof (induction le it ri rule: skip_restarts.induct)
  case (1 le it ri)
  show ?case
  proof (cases "ri + 1 < it_num_restarts it")
    case True
    then have "unat (ri + 1) < length idxs" using iter_over_sizes(2) [OF "1.prems"] by (simp add: word_less_nat_alt)
    from GetRestartPoint_ok [OF "1.prems" this]
    show ?thesis using "1.IH" [OF True] "1.prems" True by (subst skip_restarts.simps) auto
  qed (subst skip_restarts.simps, simp)
qed

lemma iter_over_upd [simp]:
  "iter_over es idxs (it\<lparr>it_current := c\<rparr>) = iter_over es idxs it" "iter_over es idxs (it\<lparr>it_key := k\<rparr>) = iter_over es idxs it"
  "iter_over es idxs (it\<lparr>it_value := v\<rparr>) = iter_over es idxs it" "iter_over es idxs (it\<lparr>it_restart_index := r\<rparr>) = iter_over es idxs it"
  by (simp_all add: iter_over_def)

text \<open>Before entry \<open>i\<close>: the previous value ends where it starts, and the key has what it shares.\<close>

definition before :: "entry list \<Rightarrow> nat \<Rightarrow> Iter \<Rightarrow> bool" where
  "before es i it \<longleftrightarrow> (\<exists>off len. it_value it = Some (off, len) \<and> off + len = offset es i)
     \<and> (i < length es \<longrightarrow> e_shared (es ! i) \<le> length (it_key it)
          \<and> take (e_shared (es ! i)) (it_key it) = take (e_shared (es ! i)) (e_key (es ! i)))"

text \<open>At entry \<open>i\<close>, or past the end.\<close>

definition at_entry :: "entry list \<Rightarrow> nat \<Rightarrow> Iter \<Rightarrow> bool" where
  "at_entry es i it \<longleftrightarrow>
     (if i < length es
      then it_current it = of_nat (offset es i) \<and> it_key it = e_key (es ! i)
           \<and> it_value it = Some (offset es (Suc i) - length (e_value (es ! i)), length (e_value (es ! i)))
      else it_current it = it_restarts it)"

lemma drop_layout:
  assumes "i < length es"
  shows "drop (offset es i) (layout es) = entry_bytes (es ! i) @ layout (drop (Suc i) es)"
  using layout_split [OF assms] by (metis append_eq_conv_conj offset_def)

lemma length_key:
  "shares_ok es \<Longrightarrow> i < length es \<Longrightarrow> length (e_key (es ! i)) \<le> offset es (Suc i)"
proof (induction i)
  case 0
  then have "e_shared (es ! 0) = 0" by (auto simp: shares_ok_def key_before_def)
  then show ?case using offset_Suc [of 0 es] "0.prems" by (simp add: entry_bytes_def)
next
  case (Suc i)
  then have "e_shared (es ! Suc i) \<le> length (e_key (es ! i))" by (auto simp: shares_ok_def key_before_def)
  also have "\<dots> \<le> offset es (Suc i)" using Suc by simp
  finally show ?case using offset_Suc [of "Suc i" es] Suc.prems by (simp add: entry_bytes_def)
qed

lemma ParseNextKey_entry:
  assumes o: "iter_over es idxs it" and b: "before es i it" and i: "i < length es"
  shows "\<exists>it'. ParseNextKey le it = Inr (True, it') \<and> iter_over es idxs it' \<and> at_entry es i it'"
proof -
  let ?e = "es ! i"
  note sz = iter_over_sizes [OF o]
  have s: "e_shared ?e \<le> length (e_key ?e)" using o i by (auto simp: iter_over_def shares_ok_def)
  have off: "offset es i < length (layout es)" "offset es i < 2 ^ 32" using offset_less [OF i] sz(5) i by auto
  have n: "NextEntryOffset it = Inr (of_nat (offset es i))" using b by (auto simp: before_def NextEntryOffset_def simp flip: of_nat_add)
  have data: "it_data it = layout es @ drop (length (layout es)) (block_bytes es idxs)"
    using o by (simp add: iter_over_def block_bytes_def)
  have d: "drop (offset es i) (take (length (layout es)) (it_data it)) = entry_bytes ?e @ layout (drop (Suc i) es)"
    by (simp add: data drop_layout [OF i])
  have len: "length (entry_bytes ?e @ layout (drop (Suc i) es)) < 2 ^ 32"
    using drop_layout [OF i] sz(3) by (metis length_drop less_imp_diff_less)
  have sum: "length (entry_bytes ?e) = length (head_bytes ?e) + (length (e_key ?e) - e_shared ?e) + length (e_value ?e)"
    by (simp add: entry_bytes_def)
  have small: "length (e_key ?e) - e_shared ?e < 2 ^ 32" "length (e_value ?e) < 2 ^ 32"
    using len sum by auto
  have "shares_ok es" using o by (simp add: iter_over_def)
  then have sh: "e_shared ?e < 2 ^ 32"
    using length_key [OF _ i] s sz(5) [of "Suc i"] i by (meson Suc_leI le_less_trans)
  have key: "e_shared ?e \<le> length (it_key it)" "resize (e_shared ?e) (it_key it) @ drop (e_shared ?e) (e_key ?e) = e_key ?e"
    using b i by (auto simp: before_def resize_def)
  let ?p = "offset es i + length (head_bytes ?e)"
  have delta: "load (length (e_key ?e) - e_shared ?e) (drop ?p (it_data it)) = Inr (drop (e_shared ?e) (e_key ?e))"
  proof -
    have "drop (offset es i) (it_data it) = entry_bytes ?e @ layout (drop (Suc i) es) @ drop (length (layout es)) (block_bytes es idxs)"
      using data drop_layout [OF i] off(1) by (simp add: less_imp_le)
    then have "drop ?p (it_data it) = drop (e_shared ?e) (e_key ?e) @ e_value ?e @ layout (drop (Suc i) es)
        @ drop (length (layout es)) (block_bytes es idxs)"
      by (simp add: entry_bytes_def flip: drop_drop add.commute [of "length (head_bytes ?e)"])
    then show ?thesis by (simp add: load_append)
  qed
  let ?v = "Some (?p + (length (e_key ?e) - e_shared ?e), length (e_value ?e))"
  have v: "?v = Some (offset es (Suc i) - length (e_value ?e), length (e_value ?e))"
    using offset_Suc [OF i] sum by simp
  let ?it = "it\<lparr>it_current := of_nat (offset es i), it_key := e_key ?e, it_value := ?v\<rparr>"
  obtain ri where ri: "skip_restarts le ?it (it_restart_index it) = Inr ri"
    using skip_restarts_ok [of es idxs ?it] o by auto
  have "ParseNextKey le it = Inr (True, ?it\<lparr>it_restart_index := ri\<rparr>)"
    using off sz(1) ri small sh key by (simp add: ParseNextKey_def n Let_def d DecodeEntry_bytes [OF s len] delta)
  moreover have "at_entry es i (?it\<lparr>it_restart_index := ri\<rparr>)" using i v by (simp add: at_entry_def)
  ultimately show ?thesis using o by auto
qed

lemma ParseNextKey_end:
  assumes o: "iter_over es idxs it" and b: "before es (length es) it"
  shows "\<exists>it'. ParseNextKey le it = Inr (False, it') \<and> iter_over es idxs it' \<and> at_entry es (length es) it'"
proof -
  have "NextEntryOffset it = Inr (of_nat (length (layout es)))" using b by (auto simp: before_def NextEntryOffset_def simp flip: of_nat_add)
  then show ?thesis using iter_over_sizes [OF o] o by (simp add: ParseNextKey_def Let_def at_entry_def)
qed

lemma at_entry_before:
  assumes "iter_over es idxs it" "at_entry es i it" "i < length es"
  shows "before es (Suc i) it"
proof -
  have "length (e_value (es ! i)) \<le> offset es (Suc i)" using offset_Suc [OF assms(3)] by (simp add: entry_bytes_def)
  moreover have "shares_ok es" using assms(1) by (simp add: iter_over_def)
  ultimately show ?thesis using assms(2,3) by (auto simp: at_entry_def before_def shares_ok_def key_before_def)
qed

lemma ParseNextKey_ok:
  assumes "iter_over es idxs it" "before es i it" "i \<le> length es"
  shows "\<exists>it'. ParseNextKey le it = Inr (i < length es, it') \<and> iter_over es idxs it' \<and> at_entry es i it'"
  using ParseNextKey_entry [OF assms(1,2)] ParseNextKey_end [OF assms(1)] assms by (cases "i = length es") auto

lemma SeekToRestartPoint_ok:
  assumes o: "iter_over es idxs it" and j: "unat j < length idxs"
  shows "\<exists>it'. SeekToRestartPoint le j it = Inr it' \<and> iter_over es idxs it' \<and> before es (idxs ! unat j) it'"
proof -
  let ?it = "it\<lparr>it_key := [], it_restart_index := j\<rparr>" and ?i = "idxs ! unat j"
  have r: "restarts_ok es idxs" "shares_ok es" using o by (simp_all add: iter_over_def)
  have i: "?i \<le> length es \<and> (?i < length es \<longrightarrow> e_shared (es ! ?i) = 0)"
  proof (cases "unat j = 0")
    case True
    then have "?i = 0" using r(1) by (simp add: restarts_ok_def)
    then show ?thesis using r(2) by (auto simp: shares_ok_def key_before_def)
  qed (use r(1) j in \<open>auto simp: restarts_ok_def\<close>)
  have "GetRestartPoint le ?it j = Inr (of_nat (offset es ?i))" using GetRestartPoint_ok [of es idxs ?it j] o j by simp
  then show ?thesis using iter_over_sizes(5) [OF o] i o by (simp add: SeekToRestartPoint_def before_def)
qed

lemma at_entry_reads:
  assumes o: "iter_over es idxs it" and a: "at_entry es i it"
  shows "Iter_Valid it \<longleftrightarrow> i < length es"
    and "i < length es \<Longrightarrow> Iter_key it = Inr (e_key (es ! i)) \<and> Iter_value it = Inr (e_value (es ! i))"
proof -
  note sz = iter_over_sizes [OF o]
  show v: "Iter_Valid it \<longleftrightarrow> i < length es"
    using a sz(1) sz(5) [of i] offset_less [of i es]
    by (cases "i < length es") (simp_all add: at_entry_def Iter_Valid_def word_less_nat_alt)
  show "Iter_key it = Inr (e_key (es ! i)) \<and> Iter_value it = Inr (e_value (es ! i))" if i: "i < length es"
  proof -
    let ?e = "es ! i"
    have "block_bytes es idxs = (layout (take i es) @ head_bytes ?e @ drop (e_shared ?e) (e_key ?e)) @ e_value ?e
        @ layout (drop (Suc i) es) @ drop (length (layout es)) (block_bytes es idxs)"
      using layout_split [OF i] by (simp add: block_bytes_def entry_bytes_def)
    moreover have "offset es (Suc i) - length (e_value ?e) = length (layout (take i es) @ head_bytes ?e @ drop (e_shared ?e) (e_key ?e))"
      using offset_Suc [OF i] by (simp add: entry_bytes_def offset_def)
    ultimately have "drop (offset es (Suc i) - length (e_value ?e)) (block_bytes es idxs)
        = e_value ?e @ layout (drop (Suc i) es) @ drop (length (layout es)) (block_bytes es idxs)"
      by (metis append_eq_conv_conj)
    then show ?thesis using v i a o by (simp add: Iter_key_def Iter_value_def at_entry_def iter_over_def load_append)
  qed
qed

section \<open>Seeking\<close>

lemma mid_key_ok:
  assumes o: "iter_over es idxs it" and j: "unat j < length idxs" "0 < unat j"
  shows "mid_key le it j = Inr (Some (e_key (es ! (idxs ! unat j))))"
proof -
  let ?i = "idxs ! unat j"
  note sz = iter_over_sizes [OF o]
  have i: "?i < length es" "e_shared (es ! ?i) = 0" using o j by (auto simp: iter_over_def restarts_ok_def)
  have data: "it_data it = layout es @ drop (length (layout es)) (block_bytes es idxs)"
    using o by (simp add: iter_over_def block_bytes_def)
  have d: "drop (offset es ?i) (take (length (layout es)) (it_data it)) = entry_bytes (es ! ?i) @ layout (drop (Suc ?i) es)"
    by (simp add: data drop_layout [OF i(1)])
  have len: "length (entry_bytes (es ! ?i) @ layout (drop (Suc ?i) es)) < 2 ^ 32"
    using drop_layout [OF i(1)] sz(3) by (metis length_drop less_imp_diff_less)
  then have small: "length (e_key (es ! ?i)) < 2 ^ 32" using i(2) by (simp add: entry_bytes_def)
  have "drop (offset es ?i) (it_data it) = entry_bytes (es ! ?i) @ layout (drop (Suc ?i) es) @ drop (length (layout es)) (block_bytes es idxs)"
    using data drop_layout [OF i(1)] offset_less [OF i(1)] by (simp add: less_imp_le)
  then have "drop (offset es ?i + length (head_bytes (es ! ?i))) (it_data it) = e_key (es ! ?i) @ e_value (es ! ?i)
      @ layout (drop (Suc ?i) es) @ drop (length (layout es)) (block_bytes es idxs)"
    using i(2) by (simp add: entry_bytes_def flip: drop_drop add.commute [of "length (head_bytes (es ! ?i))"])
  then have l: "load (length (e_key (es ! ?i))) (drop (offset es ?i + length (head_bytes (es ! ?i))) (it_data it)) = Inr (e_key (es ! ?i))"
    by (simp add: load_append)
  show ?thesis
    using sz(1) sz(5) [of ?i] i small
    by (simp add: mid_key_def GetRestartPoint_ok [OF o j(1)] d DecodeEntry_bytes [OF _ len] l)
qed

lemma mid_bounds:
  fixes l r :: "32 word"
  assumes "l < r" "unat r < 2 ^ 31"
  shows "unat ((l + r + 1) div 2) = (unat l + unat r + 1) div 2"
    and "l < (l + r + 1) div 2" and "(l + r + 1) div 2 \<le> r" and "unat ((l + r + 1) div 2 - 1) = (unat l + unat r + 1) div 2 - 1"
proof -
  have lt: "unat l < unat r" using assms(1) by (simp add: word_less_nat_alt)
  then have "unat (l + r + 1) = unat l + unat r + 1" using assms(2) by (simp add: unat_word_ariths)
  then show m: "unat ((l + r + 1) div 2) = (unat l + unat r + 1) div 2" by (simp add: unat_div)
  show "l < (l + r + 1) div 2" "(l + r + 1) div 2 \<le> r" using m lt by (simp_all add: word_less_nat_alt word_le_nat_alt)
  have "1 \<le> (l + r + 1) div 2" using m lt by (simp add: word_le_nat_alt)
  then show "unat ((l + r + 1) div 2 - 1) = (unat l + unat r + 1) div 2 - 1" using m by (simp add: unat_sub)
qed

lemma seek_restart_ok:
  assumes "iter_over es idxs it" "unat r < length idxs" "l \<le> r"
    "unat l = 0 \<or> bytes_less (e_key (es ! (idxs ! unat l))) target"
  shows "\<exists>l'. seek_restart le it target l r = Some (Inr (Some l')) \<and> unat l' < length idxs
    \<and> (unat l' = 0 \<or> bytes_less (e_key (es ! (idxs ! unat l'))) target)"
  using assms
proof (induction "unat r - unat l" arbitrary: l r rule: less_induct)
  case less
  note o = less.prems(1)
  show ?case
  proof (cases "l < r")
    case True
    let ?m = "(l + r + 1) div 2"
    have r: "unat r < 2 ^ 31" using less.prems(2) iter_over_sizes(4) [OF o] by linarith
    note m = mid_bounds [OF True r]
    have mk: "mid_key le it ?m = Inr (Some (e_key (es ! (idxs ! unat ?m))))"
      using mid_key_ok [OF o] m less.prems(2) by (simp add: word_less_nat_alt word_le_nat_alt)
    have lr: "unat l < unat r" using True by (simp add: word_less_nat_alt)
    show ?thesis
    proof (cases "bytes_less (e_key (es ! (idxs ! unat ?m))) target")
      case t: True
      have "unat r - unat ?m < unat r - unat l" using m(1) lr by simp
      from less.hyps [OF this o less.prems(2) m(3)] t
      show ?thesis using True mk by (subst seek_restart.simps) (simp add: compare_less Let_def)
    next
      case f: False
      have "unat (?m - 1) - unat l < unat r - unat l" "unat (?m - 1) < length idxs" "l \<le> ?m - 1"
        using m(1,4) lr less.prems(2) by (auto simp: word_le_nat_alt)
      from less.hyps [OF this(1) o this(2,3) less.prems(4)]
      show ?thesis using True mk f by (subst seek_restart.simps) (simp add: compare_less Let_def)
    qed
  next
    case False
    then have "l = r" using less.prems(3) by simp
    then show ?thesis using less.prems by (subst seek_restart.simps) auto
  qed
qed

text \<open>The first entry whose key is not below the target.\<close>

definition first_ge :: "octet list list \<Rightarrow> octet list \<Rightarrow> nat" where
  "first_ge ks target = length (takeWhile (\<lambda>k. bytes_less k target) ks)"

lemma seek_linear_ok:
  assumes "iter_over es idxs it" "before es i it" "i \<le> length es" "\<forall>j<i. bytes_less (e_key (es ! j)) target"
  shows "\<exists>it'. seek_linear le target it = Some (Inr it') \<and> iter_over es idxs it' \<and> at_entry es (first_ge (map e_key es) target) it'"
  using assms
proof (induction "length es - i" arbitrary: i it rule: less_induct)
  case less
  from ParseNextKey_ok [OF less.prems(1-3)] obtain it' where
    p: "ParseNextKey le it = Inr (i < length es, it')" and o: "iter_over es idxs it'" and a: "at_entry es i it'" by blast
  show ?case
  proof (cases "i < length es \<and> bytes_less (e_key (es ! i)) target")
    case True
    then have "before es (Suc i) it'" using at_entry_before [OF o a] by simp
    moreover have "\<forall>j<Suc i. bytes_less (e_key (es ! j)) target" using less.prems(4) True by (auto simp: less_Suc_eq)
    moreover have "it_key it' = e_key (es ! i)" using a True by (simp add: at_entry_def)
    moreover have "StringPiece_compare (e_key (es ! i)) target < 0" using True by (simp add: compare_less)
    ultimately show ?thesis
      using less.hyps [of "Suc i" it'] o True p by (subst seek_linear.simps) (auto simp: not_le)
  next
    case False
    have "first_ge (map e_key es) target = i"
    proof -
      have "takeWhile (\<lambda>k. bytes_less k target) (map e_key es) = take i (map e_key es)"
        using less.prems(3,4) False by (intro takeWhile_eq_take_P_nth) (auto simp: not_less)
      then show ?thesis using less.prems(3) by (simp add: first_ge_def)
    qed
    moreover have "seek_linear le target it = Some (Inr it')"
    proof (cases "i < length es")
      case True
      then have "it_key it' = e_key (es ! i)" using a by (simp add: at_entry_def)
      then show ?thesis using p False True by (subst seek_linear.simps) (auto simp: not_le compare_less)
    qed (use p in \<open>subst seek_linear.simps, simp\<close>)
    ultimately show ?thesis using o a by simp
  qed
qed

lemma Iter_Seek_ok:
  assumes o: "iter_over es idxs it"
  shows "\<exists>it'. Iter_Seek le target it = Some (Inr it') \<and> iter_over es idxs it' \<and> at_entry es (first_ge (map e_key es) target) it'"
proof -
  note sz = iter_over_sizes [OF o]
  have ne: "idxs \<noteq> []" using o by (simp add: iter_over_def restarts_ok_def)
  then have "1 \<le> it_num_restarts it" using sz(2) by (simp add: word_le_nat_alt Suc_le_eq)
  then have "unat (it_num_restarts it - 1) < length idxs" using sz(2) ne by (simp add: unat_sub)
  from seek_restart_ok [OF o this, of 0 target le] obtain l where
    l: "seek_restart le it target 0 (it_num_restarts it - 1) = Some (Inr (Some l))" "unat l < length idxs"
    "unat l = 0 \<or> bytes_less (e_key (es ! (idxs ! unat l))) target" by auto
  let ?i = "idxs ! unat l"
  from SeekToRestartPoint_ok [OF o l(2)] obtain it1 where
    it1: "SeekToRestartPoint le l it = Inr it1" "iter_over es idxs it1" "before es ?i it1" by blast
  have "?i \<le> length es \<and> (\<forall>j<?i. bytes_less (e_key (es ! j)) target)"
  proof (cases "unat l = 0")
    case True
    then show ?thesis using o by (simp add: iter_over_def restarts_ok_def)
  next
    case False
    then have i: "?i < length es" using o l(2) by (auto simp: iter_over_def restarts_ok_def)
    have "bytes_less (e_key (es ! j)) target" if "j < ?i" for j
    proof -
      have "bytes_less (e_key (es ! j)) (e_key (es ! ?i))"
        using o i that sorted_wrt_nth_less [of bytes_less "map e_key es" j ?i] by (simp add: iter_over_def keys_sorted_def)
      then show ?thesis using l(3) False lexordp_trans by blast
    qed
    then show ?thesis using i by simp
  qed
  then show ?thesis using seek_linear_ok [OF it1(2,3)] l(1) it1(1) by (simp add: Iter_Seek_def)
qed

lemma Iter_SeekToFirst_ok:
  assumes o: "iter_over es idxs it"
  shows "\<exists>it'. Iter_SeekToFirst le it = Inr it' \<and> iter_over es idxs it' \<and> at_entry es 0 it'"
proof -
  have r: "0 < length idxs" "idxs ! 0 = 0" using o by (auto simp: iter_over_def restarts_ok_def)
  obtain it1 where it1: "SeekToRestartPoint le 0 it = Inr it1" "iter_over es idxs it1" "before es 0 it1"
    using SeekToRestartPoint_ok [OF o, of 0 le] r by auto
  from ParseNextKey_ok [OF it1(2,3)] obtain it2 where "ParseNextKey le it1 = Inr (0 < length es, it2)" "iter_over es idxs it2" "at_entry es 0 it2"
    by auto
  then show ?thesis using it1(1) by (simp add: Iter_SeekToFirst_def)
qed

lemma Iter_Next_ok:
  assumes "iter_over es idxs it" "at_entry es i it" "i < length es"
  shows "\<exists>it'. Iter_Next le it = Inr it' \<and> iter_over es idxs it' \<and> at_entry es (Suc i) it'"
proof -
  obtain it' where "ParseNextKey le it = Inr (Suc i < length es, it')" "iter_over es idxs it'" "at_entry es (Suc i) it'"
    using ParseNextKey_ok [OF assms(1) at_entry_before [OF assms]] assms(3) by auto
  then show ?thesis using at_entry_reads(1) [OF assms(1,2)] assms(3) by (simp add: Iter_Next_def)
qed

section \<open>Building\<close>

definition builder_ok :: "(octet list \<times> octet list) list \<Rightarrow> entry list \<Rightarrow> nat list \<Rightarrow> BlockBuilder \<Rightarrow> bool" where
  "builder_ok kvs es idxs b \<longleftrightarrow>
     map snd es = kvs \<and> bb_buffer b = layout es \<and> bb_restarts b = map (\<lambda>i. of_nat (offset es i)) idxs
     \<and> shares_ok es \<and> restarts_ok es idxs \<and> keys_sorted es \<and> bb_last_key b = key_before es (length es)
     \<and> 1 \<le> bb_restart_interval b \<and> 0 \<le> bb_counter b \<and> bb_counter b \<le> bb_restart_interval b \<and> (es = [] \<longrightarrow> bb_counter b = 0)
     \<and> \<not> bb_finished b \<and> length idxs \<le> length es + 1"

lemma layout_snoc: "layout (es @ [e]) = layout es @ entry_bytes e"
  by (simp add: layout_def)

lemma layout_empty: "layout es = [] \<longleftrightarrow> es = []"
  using offset_less [of 0 es] by (cases es) (auto simp: layout_def)

lemma offset_append: "i \<le> length es \<Longrightarrow> offset (es @ es') i = offset es i"
  by (simp add: offset_def)

lemma key_before_append: "i \<le> length es \<Longrightarrow> key_before (es @ es') i = key_before es i"
  by (cases i) (simp_all add: key_before_def nth_append)

lemma shares_ok_snoc:
  assumes "shares_ok es" "s \<le> length k" "s \<le> length (key_before es (length es))" "take s k = take s (key_before es (length es))"
  shows "shares_ok (es @ [(s, k, v)])"
  unfolding shares_ok_def
proof (intro allI impI)
  fix i assume "i < length (es @ [(s, k, v)])"
  then show "e_shared ((es @ [(s, k, v)]) ! i) \<le> length (e_key ((es @ [(s, k, v)]) ! i))
    \<and> e_shared ((es @ [(s, k, v)]) ! i) \<le> length (key_before (es @ [(s, k, v)]) i)
    \<and> take (e_shared ((es @ [(s, k, v)]) ! i)) (e_key ((es @ [(s, k, v)]) ! i)) = take (e_shared ((es @ [(s, k, v)]) ! i)) (key_before (es @ [(s, k, v)]) i)"
    using assms by (cases "i < length es") (auto simp: shares_ok_def nth_append key_before_append less_Suc_eq)
qed

lemma put_head:
  "ub_bind (PutVarint32 (of_nat s) buf) (\<lambda>buf. ub_bind (PutVarint32 (of_nat (length k - s)) buf) (\<lambda>buf.
     ub_bind (PutVarint32 (of_nat (length v)) buf) f)) = f (buf @ head_bytes (s, k, v))"
  by (simp add: varint32.put head_bytes_def)

text \<open>One call of \<open>Add\<close> appends an entry; \<open>restart\<close> says whether it opens a restart point.\<close>

lemma BlockBuilder_Add_ok:
  assumes b: "builder_ok kvs es idxs b" and k: "\<forall>k'\<in>set (map e_key es). bytes_less k' k"
  shows "\<exists>b' s idxs'. BlockBuilder_Add k v b = Inr b' \<and> builder_ok (kvs @ [(k, v)]) (es @ [(s, k, v)]) idxs' b'
    \<and> bb_restart_interval b' = bb_restart_interval b"
proof -
  let ?last = "key_before es (length es)"
  let ?restart = "\<not> bb_counter b < bb_restart_interval b"
  define s where "s = (if ?restart then 0 else diff_loop ?last k (min (length ?last) (length k)) 0)"
  have cmp: "es = [] \<or> StringPiece_compare k ?last > 0"
    using k by (cases es rule: rev_cases) (auto simp: compare_greater key_before_def nth_append)
  have s: "s \<le> length k" "s \<le> length ?last" "take s k = take s ?last"
    using diff_loop_first(1-3) [of ?last k] by (auto simp: s_def)
  have key: "resize s ?last @ drop s k = k" using s by (simp add: resize_def flip: s(3))
  define idxs' where "idxs' = (if ?restart then idxs @ [length es] else idxs)"
  define b' where "b' = b\<lparr>bb_buffer := layout es @ entry_bytes (s, k, v), bb_last_key := k,
    bb_restarts := map (\<lambda>i. of_nat (offset (es @ [(s, k, v)]) i)) idxs',
    bb_counter := (if ?restart then 0 else bb_counter b) + 1\<rparr>"
  have idx: "i \<le> length es" if mem: "i \<in> set idxs" for i
  proof -
    obtain j where "j < length idxs" "idxs ! j = i" using mem by (auto simp: in_set_conv_nth)
    then show ?thesis using b by (cases "j = 0") (auto simp: builder_ok_def restarts_ok_def less_imp_le)
  qed
  have eq: "StringPiece_eq k k" by (simp add: StringPiece_eq_def memcmp_eq)
  have add: "BlockBuilder_Add k v b = Inr b'"
  proof (cases ?restart)
    case True
    then show ?thesis
      using b cmp key idx eq
      by (auto simp: BlockBuilder_Add_def builder_ok_def layout_empty put_head s_def b'_def idxs'_def entry_bytes_def
          offset_append cong: map_cong)
  next
    case False
    then show ?thesis
      using b cmp key idx eq
      by (auto simp: BlockBuilder_Add_def builder_ok_def layout_empty put_head s_def b'_def idxs'_def entry_bytes_def
          offset_append cong: map_cong)
  qed
  let ?es = "es @ [(s, k, v)]"
  have "restarts_ok ?es idxs'"
    using b by (auto simp: builder_ok_def restarts_ok_def idxs'_def s_def nth_append less_Suc_eq)
  moreover have "shares_ok ?es" using shares_ok_snoc s b by (simp add: builder_ok_def)
  moreover have "keys_sorted ?es" using b k by (simp add: builder_ok_def keys_sorted_def sorted_wrt_append)
  moreover have "key_before ?es (length ?es) = k" by (simp add: key_before_def)
  ultimately have "builder_ok (kvs @ [(k, v)]) ?es idxs' b'"
    using b by (auto simp: builder_ok_def b'_def layout_snoc idxs'_def)
  moreover have "bb_restart_interval b' = bb_restart_interval b" by (simp add: b'_def)
  ultimately show ?thesis using add by blast
qed

primrec add_all :: "(octet list \<times> octet list) list \<Rightarrow> BlockBuilder \<Rightarrow> BlockBuilder result" where
  "add_all [] b = Inr b"
| "add_all (kv # kvs) b = ub_bind (BlockBuilder_Add (fst kv) (snd kv) b) (add_all kvs)"

lemma add_all_ok:
  assumes "builder_ok kvs es idxs b" "sorted_wrt (\<lambda>x y. bytes_less (fst x) (fst y)) (kvs @ kvs')"
  shows "\<exists>b' es' idxs'. add_all kvs' b = Inr b' \<and> builder_ok (kvs @ kvs') es' idxs' b'"
  using assms
proof (induction kvs' arbitrary: kvs es idxs b)
  case (Cons kv kvs')
  have "\<forall>k'\<in>set (map e_key es). bytes_less k' (fst kv)"
    using Cons.prems by (auto simp: builder_ok_def sorted_wrt_append simp del: split_paired_All) force+
  from BlockBuilder_Add_ok [OF Cons.prems(1) this, of "snd kv"] obtain b' s idxs' where
    b': "BlockBuilder_Add (fst kv) (snd kv) b = Inr b'" "builder_ok (kvs @ [kv]) (es @ [(s, kv)]) idxs' b'" by auto
  show ?case using Cons.IH [OF b'(2)] Cons.prems(2) b'(1) by simp
qed auto

lemma put_restarts_ok: "put_restarts le rs buf = Inr (buf @ concat (map (le_bytes 4) rs))"
  by (induction rs arbitrary: buf) (simp_all add: fixed32.put)

lemma BlockBuilder_Finish_ok:
  assumes "builder_ok kvs es idxs b"
  shows "BlockBuilder_Finish le b = Inr (block_bytes es idxs, b\<lparr>bb_buffer := block_bytes es idxs, bb_finished := True\<rparr>)"
  using assms by (simp add: BlockBuilder_Finish_def builder_ok_def put_restarts_ok fixed32.put block_bytes_def comp_def)

text \<open>A block within these sizes has offsets of 32 bits: an entry takes at most 15 bytes beside its key and value.\<close>

definition block_fits :: "(octet list \<times> octet list) list \<Rightarrow> bool" where
  "block_fits kvs \<longleftrightarrow> (\<Sum>kv\<leftarrow>kvs. 19 + length (fst kv) + length (snd kv)) + 8 < 2 ^ 32"

lemma length_layout: "length (layout es) \<le> (\<Sum>e\<leftarrow>es. 15 + length (e_key e) + length (e_value e))"
proof (induction es)
  case (Cons e es)
  then show ?case using length_head(2) [of e] by (simp add: layout_def entry_bytes_def)
qed (simp add: layout_def)

lemma builder_fits:
  assumes "builder_ok kvs es idxs b" "block_fits kvs"
  shows "length (block_bytes es idxs) < 2 ^ 32"
proof -
  have "(\<Sum>e\<leftarrow>es. 19 + length (e_key e) + length (e_value e)) = (\<Sum>e\<leftarrow>es. 15 + length (e_key e) + length (e_value e)) + 4 * length es"
    by (induction es) auto
  moreover have "(\<Sum>e\<leftarrow>es. 19 + length (e_key e) + length (e_value e)) = (\<Sum>kv\<leftarrow>kvs. 19 + length (fst kv) + length (snd kv))"
    using assms(1) by (auto simp: builder_ok_def comp_def)
  moreover have "length idxs \<le> length es + 1" using assms(1) by (simp add: builder_ok_def)
  ultimately show ?thesis using length_layout [of es] assms(2) unfolding length_block_bytes block_fits_def by linarith
qed

lemma NewIterator_ok:
  assumes b: "builder_ok kvs es idxs b" and fits: "block_fits kvs"
    and c: "bc_data contents = block_bytes es idxs"
  shows "\<exists>blk it. Block_new le contents = Inr blk \<and> NewIterator le blk = Inr (BlockIter it)
    \<and> iter_over es idxs it \<and> at_entry es (length es) it"
proof -
  note len = builder_fits [OF b fits]
  have ne: "idxs \<noteq> []" using b by (simp add: builder_ok_def restarts_ok_def)
  have n: "length idxs < 2 ^ 30" using len by (simp add: length_block_bytes)
  have "drop (length (block_bytes es idxs) - 4) (block_bytes es idxs) = le_bytes 4 (of_nat (length idxs) :: 32 word)"
    by (simp add: block_bytes_def length_restarts)
  then have num: "NumRestarts le blk = Inr (of_nat (length idxs))"
    if "bl_data blk = block_bytes es idxs" "bl_size blk = length (block_bytes es idxs)" for blk
    using that DecodeFixed32_bytes [of le _ "[]"] by (simp add: NumRestarts_def length_block_bytes)
  let ?blk = "\<lparr>bl_data = block_bytes es idxs, bl_size = length (block_bytes es idxs),
    bl_restart_offset = Some (of_nat (length (layout es))), bl_owned = bc_heap_allocated contents\<rparr>"
  have one: "unat (1 + of_nat (length idxs) :: 32 word) = 1 + length idxs"
    using n unat_small [of "1 + length idxs"] by (simp del: unat_small)
  have "Block_new le contents = Inr ?blk"
    using n one len by (simp add: Block_new_def c num Let_def length_block_bytes)
  moreover have "unat (of_nat (length idxs) :: 32 word) \<noteq> 0" using n ne by simp
  then have "(of_nat (length idxs) :: 32 word) \<noteq> 0" by (metis unsigned_0)
  ultimately show ?thesis
    using len b by (simp add: NewIterator_def num Iter_new_def iter_over_def at_entry_def builder_ok_def length_block_bytes word_neq_0_conv)
qed

section \<open>The interface \<open>Iterator\<close>\<close>

text \<open>All entries from the current one on: the loop a client of the interface runs.\<close>

primrec scan_with :: "('i \<Rightarrow> bool) \<Rightarrow> ('i \<Rightarrow> 'k result) \<Rightarrow> ('i \<Rightarrow> 'v result) \<Rightarrow> ('i \<Rightarrow> 'i result) \<Rightarrow> nat \<Rightarrow> 'i \<Rightarrow> ('k \<times> 'v) list result" where
  "scan_with valid key val nxt 0 it = (if valid it then Inl Diverges else Inr [])"
| "scan_with valid key val nxt (Suc n) it =
     (if valid it then
        ub_bind (key it) (\<lambda>k. ub_bind (val it) (\<lambda>v. ub_bind (nxt it) (\<lambda>it.
        ub_bind (scan_with valid key val nxt n it) (\<lambda>kvs. Inr ((k, v) # kvs)))))
      else Inr [])"

text \<open>
  The contract of \<open>iterator.h\<close>: \<open>rep it i\<close> says that the iterator stands at entry \<open>i\<close> of the source, or past the
  end.
\<close>

locale cursor =
  fixes entries :: "('k \<times> 'v) list" and below :: "'k \<Rightarrow> 'k \<Rightarrow> bool" and rep :: "'i \<Rightarrow> nat \<Rightarrow> bool"
    and valid :: "'i \<Rightarrow> bool" and key :: "'i \<Rightarrow> 'k result" and val :: "'i \<Rightarrow> 'v result"
    and first :: "'i \<Rightarrow> 'i result" and nxt :: "'i \<Rightarrow> 'i result" and seek :: "'k \<Rightarrow> 'i \<Rightarrow> 'i result option"
  assumes valid: "rep it i \<Longrightarrow> valid it \<longleftrightarrow> i < length entries"
    and key: "rep it i \<Longrightarrow> i < length entries \<Longrightarrow> key it = Inr (fst (entries ! i))"
    and val: "rep it i \<Longrightarrow> i < length entries \<Longrightarrow> val it = Inr (snd (entries ! i))"
    and first: "rep it i \<Longrightarrow> \<exists>it'. first it = Inr it' \<and> rep it' 0"
    and nxt: "rep it i \<Longrightarrow> i < length entries \<Longrightarrow> \<exists>it'. nxt it = Inr it' \<and> rep it' (Suc i)"
    and seek: "rep it i \<Longrightarrow> \<exists>it'. seek t it = Some (Inr it') \<and> rep it' (length (takeWhile (\<lambda>e. below (fst e) t) entries))"
begin

lemma scan_rest:
  assumes "rep it i" "length entries - i \<le> n"
  shows "scan_with valid key val nxt n it = Inr (drop i entries)"
  using assms
proof (induction n arbitrary: it i)
  case 0
  then show ?case using valid by simp
next
  case (Suc n)
  show ?case
  proof (cases "i < length entries")
    case True
    then obtain it' where it': "nxt it = Inr it'" "rep it' (Suc i)" using nxt [OF Suc.prems(1)] by blast
    have "scan_with valid key val nxt n it' = Inr (drop (Suc i) entries)" using Suc.IH [OF it'(2)] Suc.prems(2) by simp
    then show ?thesis
      using True valid [OF Suc.prems(1)] key [OF Suc.prems(1)] val [OF Suc.prems(1)] it'(1) by (simp add: Cons_nth_drop_Suc)
  next
    case False
    then show ?thesis using valid [OF Suc.prems(1)] by simp
  qed
qed

lemma scan_all:
  assumes "rep it i" "length entries \<le> n"
  shows "ub_bind (first it) (scan_with valid key val nxt n) = Inr entries"
  using first [OF assms(1)] scan_rest [of _ 0 n] assms(2) by auto

lemma scan_from:
  assumes "rep it i" "length entries \<le> n"
  shows "\<exists>it'. seek t it = Some (Inr it') \<and> scan_with valid key val nxt n it' = Inr (dropWhile (\<lambda>e. below (fst e) t) entries)"
proof -
  obtain it' where it': "seek t it = Some (Inr it')" "rep it' (length (takeWhile (\<lambda>e. below (fst e) t) entries))"
    using seek [OF assms(1)] by blast
  from scan_rest [OF this(2), of n] it'(1) assms(2) show ?thesis by (simp add: dropWhile_eq_drop)
qed

end

text \<open>The iterator of a built block satisfies it.\<close>

definition block_rep :: "(octet list \<times> octet list) list \<Rightarrow> Iterator \<Rightarrow> nat \<Rightarrow> bool" where
  "block_rep kvs I i \<longleftrightarrow> (\<exists>es idxs it. I = BlockIter it \<and> map snd es = kvs \<and> iter_over es idxs it \<and> at_entry es i it)"

lemma block_repI: "iter_over es idxs it \<Longrightarrow> at_entry es i it \<Longrightarrow> block_rep (map snd es) (BlockIter it) i"
  by (auto simp: block_rep_def)

interpretation blk: cursor kvs bytes_less "block_rep kvs" Valid iterator_key iterator_value "SeekToFirst le" "Next le" "Seek le"
proof
  fix I i assume "block_rep kvs I i"
  then obtain es idxs it where I: "I = BlockIter it" "kvs = map snd es" "iter_over es idxs it" "at_entry es i it"
    by (auto simp: block_rep_def)
  show "Valid I \<longleftrightarrow> i < length kvs" using at_entry_reads(1) [OF I(3,4)] I by simp
  show "\<exists>I'. SeekToFirst le I = Inr I' \<and> block_rep kvs I' 0"
    using Iter_SeekToFirst_ok [OF I(3), of le] I by (auto intro: block_repI)
  have "first_ge (map e_key es) t = length (takeWhile (\<lambda>e. bytes_less (fst e) t) kvs)" for t
    using I(2) by (simp add: first_ge_def takeWhile_map comp_def)
  then show "\<exists>I'. Seek le t I = Some (Inr I') \<and> block_rep kvs I' (length (takeWhile (\<lambda>e. bytes_less (fst e) t) kvs))" for t
    using Iter_Seek_ok [OF I(3), of le t] I by (auto intro: block_repI)
  assume "i < length kvs"
  then have i: "i < length es" using I by simp
  show "iterator_key I = Inr (fst (kvs ! i))" "iterator_value I = Inr (snd (kvs ! i))"
    using at_entry_reads(2) [OF I(3,4) i] I i by auto
  show "\<exists>I'. Next le I = Inr I' \<and> block_rep kvs I' (Suc i)"
    using Iter_Next_ok [OF I(3,4) i, of le] I by (auto intro: block_repI)
qed

text \<open>The states a client can bring an iterator into.\<close>

inductive iterator_reach :: "bool \<Rightarrow> Iterator \<Rightarrow> Iterator \<Rightarrow> bool" for le I where
  start: "iterator_reach le I I"
| first: "iterator_reach le I I1 \<Longrightarrow> SeekToFirst le I1 = Inr I2 \<Longrightarrow> iterator_reach le I I2"
| nxt: "iterator_reach le I I1 \<Longrightarrow> Valid I1 \<Longrightarrow> Next le I1 = Inr I2 \<Longrightarrow> iterator_reach le I I2"
| seek: "iterator_reach le I I1 \<Longrightarrow> Seek le t I1 = Some (Inr I2) \<Longrightarrow> iterator_reach le I I2"

lemma reach_rep: "iterator_reach le I I' \<Longrightarrow> \<exists>i. block_rep kvs I i \<Longrightarrow> \<exists>i. block_rep kvs I' i"
proof (induction rule: iterator_reach.induct)
  case (first I1 I2)
  then obtain i where "block_rep kvs I1 i" by blast
  from blk.first [OF this, of le] show ?case using first.hyps(2) by auto
next
  case (nxt I1 I2)
  then obtain i where r: "block_rep kvs I1 i" by blast
  from blk.nxt [OF r, of le] blk.valid [OF r] show ?case using nxt.hyps(2,3) by auto
next
  case (seek I1 t I2)
  then obtain i where "block_rep kvs I1 i" by blast
  from blk.seek [OF this, of le t] show ?case using seek.hyps(2) by auto
qed

text \<open>The whole loop of a client: every entry from the current one on.\<close>

definition scan :: "bool \<Rightarrow> nat \<Rightarrow> Iterator \<Rightarrow> (octet list \<times> octet list) list result" where
  "scan le = scan_with Valid iterator_key iterator_value (Next le)"

definition build_block :: "bool \<Rightarrow> int \<Rightarrow> (octet list \<times> octet list) list \<Rightarrow> StringPiece result" where
  "build_block le interval kvs =
     ub_bind (BlockBuilder_new interval) (\<lambda>b. ub_bind (add_all kvs b) (\<lambda>b. ub_bind (BlockBuilder_Finish le b) (\<lambda>(data, _). Inr data)))"

definition open_block :: "bool \<Rightarrow> StringPiece \<Rightarrow> Iterator result" where
  "open_block le data =
     ub_bind (Block_new le \<lparr>bc_data = data, bc_cachable = True, bc_heap_allocated = True\<rparr>) (NewIterator le)"

lemma build_open:
  assumes "1 \<le> interval" "sorted_wrt (\<lambda>x y. bytes_less (fst x) (fst y)) kvs" "block_fits kvs"
  shows "\<exists>data I. build_block le interval kvs = Inr data \<and> open_block le data = Inr I \<and> (\<exists>i. block_rep kvs I i)"
proof -
  obtain b where b: "BlockBuilder_new interval = Inr b" using assms(1) by (simp add: BlockBuilder_new_def)
  then have "builder_ok [] [] [0] b"
    using assms(1)
    by (auto simp: BlockBuilder_new_def builder_ok_def layout_def shares_ok_def restarts_ok_def keys_sorted_def key_before_def)
  from add_all_ok [OF this, of kvs] obtain b' es idxs where b': "add_all kvs b = Inr b'" "builder_ok kvs es idxs b'"
    using assms(2) by auto
  let ?c = "\<lparr>bc_data = block_bytes es idxs, bc_cachable = True, bc_heap_allocated = True\<rparr>"
  obtain bl it where it: "Block_new le ?c = Inr bl" "NewIterator le bl = Inr (BlockIter it)"
      "iter_over es idxs it" "at_entry es (length es) it"
    using NewIterator_ok [OF b'(2) assms(3), of ?c le] by auto
  have "map snd es = kvs" using b'(2) by (simp add: builder_ok_def)
  then have "block_rep kvs (BlockIter it) (length es)" using block_repI [OF it(3,4)] by simp
  then show ?thesis
    using b b' it by (auto simp: build_block_def open_block_def BlockBuilder_Finish_ok)
qed

section \<open>Properties\<close>

text \<open>
  C8. A block built by \<open>Add\<close> from strictly increasing keys, for any restart interval, and opened as a \<open>Block\<close> is a sorted
  table: in every state a client can bring its iterator into, \<open>SeekToFirst\<close> and \<open>Next\<close> give all the entries
  in order, and \<open>Seek\<close> returns at the first key that is not below the target, from which \<open>Next\<close> gives
  the rest; no assertion fails and no status other than OK appears.
\<close>
theorem block_is_sorted_table:
  assumes "1 \<le> interval" and "sorted_wrt (\<lambda>x y. bytes_less (fst x) (fst y)) kvs" and "block_fits kvs" and "length kvs \<le> n"
  shows "\<exists>data I. build_block le interval kvs = Inr data \<and> open_block le data = Inr I
    \<and> (\<forall>I'. iterator_reach le I I' \<longrightarrow>
         ub_bind (SeekToFirst le I') (scan le n) = Inr kvs \<and> iterator_status I' = Status_OK
         \<and> (\<forall>t. \<exists>I''. Seek le t I' = Some (Inr I'') \<and> scan le n I'' = Inr (dropWhile (\<lambda>e. bytes_less (fst e) t) kvs)))"
proof -
  obtain data I where I: "build_block le interval kvs = Inr data" "open_block le data = Inr I" "\<exists>i. block_rep kvs I i"
    using build_open [OF assms(1-3)] by blast
  have "ub_bind (SeekToFirst le I') (scan le n) = Inr kvs \<and> iterator_status I' = Status_OK
         \<and> (\<forall>t. \<exists>I''. Seek le t I' = Some (Inr I'') \<and> scan le n I'' = Inr (dropWhile (\<lambda>e. bytes_less (fst e) t) kvs))"
    if reach: "iterator_reach le I I'" for I'
  proof -
    obtain i where r: "block_rep kvs I' i" using reach_rep [OF reach I(3)] by blast
    then have "iterator_status I' = Status_OK" by (auto simp: block_rep_def iter_over_def)
    then show ?thesis using blk.scan_all [OF r assms(4), where le = le] blk.scan_from [OF r assms(4), where le = le] by (simp add: scan_def)
  qed
  then show ?thesis using I(1,2) by blast
qed

theorem block_is_sorted_table_witness:
  "\<exists>data I. build_block True 2 [([1], [7]), ([1, 2], []), ([3], [8, 9])] = Inr data \<and> open_block True data = Inr I
     \<and> ub_bind (SeekToFirst True I) (scan True 3) = Inr [([1], [7]), ([1, 2], []), ([3], [8, 9])]
     \<and> (\<exists>I''. Seek True [2] I = Some (Inr I'') \<and> scan True 3 I'' = Inr [([3], [8, 9])])"
proof -
  let ?kvs = "[([1], [7]), ([1, 2], []), ([3], [8, 9])] :: (octet list \<times> octet list) list"
  have "sorted_wrt (\<lambda>x y. bytes_less (fst x) (fst y)) ?kvs" "block_fits ?kvs" by (simp_all add: block_fits_def)
  from block_is_sorted_table [of 2, OF _ this, of 3 True] obtain data I where
    *: "build_block True 2 ?kvs = Inr data" "open_block True data = Inr I"
    "ub_bind (SeekToFirst True I) (scan True 3) = Inr ?kvs"
    "\<forall>t. \<exists>I''. Seek True t I = Some (Inr I'') \<and> scan True 3 I'' = Inr (dropWhile (\<lambda>e. bytes_less (fst e) t) ?kvs)"
    using iterator_reach.start by auto
  from *(4) obtain I'' where "Seek True [2] I = Some (Inr I'')" "scan True 3 I'' = Inr (dropWhile (\<lambda>e. bytes_less (fst e) [2]) ?kvs)" by blast
  then show ?thesis using *(1-3) by auto
qed

end
