(* ===== verification/Block_Format.thy ===== *)
theory Block_Format
  imports Block_Layout
begin

unbundle bit_operations_syntax

text \<open>
  Footers and blocks as they are read from a file, and the iterator on bytes that no builder wrote.
\<close>

section \<open>Footers\<close>

definition handle_set :: "BlockHandle \<Rightarrow> bool" where
  "handle_set h \<longleftrightarrow> bh_offset h \<noteq> NOT 0 \<and> bh_size h \<noteq> NOT 0"

definition handle_bytes :: "BlockHandle \<Rightarrow> octet list" where
  "handle_bytes h = varint (bh_offset h) @ varint (bh_size h)"

lemma handle_bytes_le: "length (handle_bytes h) \<le> 20"
  using length_varint64 [of "bh_offset h"] length_varint64 [of "bh_size h"] by (simp add: handle_bytes_def)

lemma handle_Encode: "handle_set h \<Longrightarrow> BlockHandle_EncodeTo h dst = Inr (dst @ handle_bytes h)"
  by (simp add: BlockHandle_EncodeTo_def handle_set_def varint64.put handle_bytes_def)

lemma handle_Decode: "BlockHandle_DecodeFrom h0 (handle_bytes h @ rest) = Inr (Status_OK, h, rest)"
  by (simp add: BlockHandle_DecodeFrom_def handle_bytes_def GetVarint64_def GetVarint64Ptr_varint)

definition magic_bytes :: "octet list" where
  "magic_bytes = le_bytes 4 (ucast (kTableMagicNumber AND 0xffffffff) :: 32 word) @ le_bytes 4 (ucast (drop_bit 32 kTableMagicNumber) :: 32 word)"

lemma magic_halves:
  "push_bit 32 (ucast (ucast (drop_bit 32 kTableMagicNumber) :: 32 word)) OR ucast (ucast (kTableMagicNumber AND 0xffffffff) :: 32 word)
   = kTableMagicNumber"
  by (simp add: kTableMagicNumber_def)

definition footer_bytes :: "Footer \<Rightarrow> octet list" where
  "footer_bytes f = resize 40 (handle_bytes (ft_metaindex f) @ handle_bytes (ft_index f)) @ magic_bytes"

lemma length_resize [simp]: "length (resize n s) = n"
  by (simp add: resize_def)

lemma length_footer: "length (footer_bytes f) = 48"
  by (simp add: footer_bytes_def magic_bytes_def)

lemma footer_Encode:
  assumes "handle_set (ft_metaindex f)" "handle_set (ft_index f)"
  shows "Footer_EncodeTo le f dst = (if dst = [] then Inr (footer_bytes f) else Inl AssertFailed)"
  using assms
  by (simp add: Footer_EncodeTo_def handle_Encode fixed32.put Let_def kEncodedLength_def kMaxEncodedLength_def
      footer_bytes_def magic_bytes_def)

lemma footer_Decode: "Footer_DecodeFrom le f0 (footer_bytes f @ rest) = Inr (Status_OK, f, rest)"
proof -
  let ?h = "handle_bytes (ft_metaindex f)" and ?h' = "handle_bytes (ft_index f)"
  have "length (?h @ ?h') \<le> 40" using handle_bytes_le [of "ft_metaindex f"] handle_bytes_le [of "ft_index f"] by simp
  then obtain pad where bytes: "footer_bytes f @ rest = ?h @ ?h' @ pad @ magic_bytes @ rest"
    and l: "length (?h @ ?h' @ pad) = 40"
    by (simp add: footer_bytes_def resize_def)
  then have "drop 40 (footer_bytes f @ rest) = magic_bytes @ rest" by (metis append.assoc append_eq_conv_conj)
  then show ?thesis
    by (simp add: Footer_DecodeFrom_def kEncodedLength_def kMaxEncodedLength_def magic_bytes_def DecodeFixed32_bytes magic_halves Let_def)
      (simp add: bytes handle_Decode Status_ok_def Status_OK_def)
qed

lemma footer_short:
  assumes "length input < 48"
  shows "Footer_DecodeFrom le f input = Inl OutOfBounds"
proof (cases "length input < 44")
  case True
  then show ?thesis
    by (simp add: Footer_DecodeFrom_def kEncodedLength_def kMaxEncodedLength_def DecodeFixed32_def load_def Let_def)
next
  case False
  then show ?thesis
    using assms by (simp add: Footer_DecodeFrom_def kEncodedLength_def kMaxEncodedLength_def DecodeFixed32_def load_def Let_def)
qed

section \<open>Blocks in a file\<close>

text \<open>What the writer of a block appends to its contents: the type, and the masked checksum of both.\<close>

definition trailer :: "octet \<Rightarrow> octet list \<Rightarrow> octet list" where
  "trailer t d = t # le_bytes 4 (Crc32Mask (crc32c 0 (d @ [t])))"

lemma unat_add5:
  fixes n :: "64 word"
  shows "unat n + 5 < 2 ^ 64 \<Longrightarrow> unat (n + 5) = unat n + 5" "2 ^ 64 \<le> unat n + 5 \<Longrightarrow> unat (n + 5) < 5"
proof -
  have u: "unat (n + 5) = (unat n + 5) mod 2 ^ 64" by (simp add: unat_word_ariths)
  then show "unat n + 5 < 2 ^ 64 \<Longrightarrow> unat (n + 5) = unat n + 5" by simp
  have "unat n < 2 ^ 64" using unsigned_less [of n] by simp
  then show "unat (n + 5) < 5" if "2 ^ 64 \<le> unat n + 5" using that u by (simp add: le_mod_geq)
qed

lemma DecodeFixed32_end: "DecodeFixed32 le (le_bytes 4 w) = Inr w"
  using DecodeFixed32_bytes [of le w "[]"] by simp

lemma ReadBlock_written:
  assumes "rf (bh_offset h) (bh_size h + 5) = (Status_OK, d @ trailer t d, in_buf)"
    and "unat (bh_size h) = length d" "length d + 5 < 2 ^ 64"
  shows "ReadBlock le pval rf h =
    (if t = 0 then Inr (Status_OK, \<lparr>bc_data = d, bc_cachable = in_buf, bc_heap_allocated = in_buf\<rparr>, \<not> in_buf)
     else Inr (Some \<lparr>st_code = kError, st_msg = lit ''bad block type''\<rparr>,
               \<lparr>bc_data = [], bc_cachable = False, bc_heap_allocated = False\<rparr>, True))"
proof -
  have n: "unat (bh_size h + 5) = length d + 5" using unat_add5(1) assms(2,3) by simp
  have n1: "unat (bh_size h + 1) = length d + 1" using assms(2,3) by (simp add: unat_word_ariths)
  define C where "C = d @ trailer t d"
  have C: "length C = length d + 5" "C ! length d = t" "take (length d) C = d" by (simp_all add: C_def trailer_def nth_append)
  have crc: "DecodeFixed32 le (drop (Suc (length d)) C) = Inr (Crc32Mask (crc32c 0 (d @ [t])))"
    by (simp add: C_def trailer_def DecodeFixed32_end)
  have ld: "load (Suc (length d)) C = Inr (d @ [t])" by (simp add: C_def load_def trailer_def)
  have err: "Status_Error (lit ''bad block type'') [] = Inr (Some \<lparr>st_code = kError, st_msg = lit ''bad block type''\<rparr>)"
    by (simp add: Status_Error_def Status_code3_def status_codes lit_def)
  have "Status_ok Status_OK" by (simp add: Status_ok_def Status_OK_def)
  then show ?thesis
    unfolding ReadBlock_def Let_def kBlockTrailerSize_def assms(1) C_def [symmetric] n n1
    by (simp add: C crc ld Crc32Value_ref err assms(2))
qed

lemma Status_Error_not_ok: "Status_Error m m2 = Inr s \<Longrightarrow> \<not> Status_ok s"
  by (auto simp: Status_Error_def Status_code3_def status_codes Status_ok_def Let_def split: if_splits)

lemma ReadBlock_accepts:
  assumes "ReadBlock le pval rf h = Inr (s, c, deleted)" "Status_ok s"
  shows "rf (bh_offset h) (bh_size h + 5) = (Status_OK, bc_data c @ trailer 0 (bc_data c), bc_heap_allocated c)
    \<and> unat (bh_size h) = length (bc_data c) \<and> bc_cachable c = bc_heap_allocated c \<and> unat (bh_size h) + 5 < 2 ^ 64"
proof -
  let ?n = "bh_size h"
  obtain st contents in_buf where f: "rf (bh_offset h) (?n + 5) = (st, contents, in_buf)" by (metis prod.exhaust)
  note R = assms(1) [unfolded ReadBlock_def Let_def kBlockTrailerSize_def f prod.case]
  have st: "st = Status_OK" using R assms(2) by (auto simp: Status_ok_def Status_OK_def split: if_splits)
  then have ok: "Status_ok st" by (simp add: Status_ok_def Status_OK_def)
  have err: "ub_bind (Status_Error m m2) (\<lambda>s. Inr (s, res, True)) \<noteq> Inr (s, c, deleted)" for m m2 res
    using Status_Error_not_ok assms(2) by (auto simp: ub_bind_def split: sum.splits)
  have len: "length contents = unat (?n + 5)" using R ok err by (auto split: if_splits)
  note R2 = R [simplified ok len not_True_eq_False if_False]
  obtain masked where m: "DecodeFixed32 le (drop (unat ?n + 1) contents) = Inr masked"
    using R2 by (cases "DecodeFixed32 le (drop (unat ?n + 1) contents)") simp_all
  obtain data where d: "load (unat (?n + 1)) contents = Inr data"
    using R2 m by (cases "load (unat (?n + 1)) contents") simp_all
  note R3 = R2 [unfolded m d ub_bind_simps Crc32Value_ref]
  have crc: "crc32c 0 data = Crc32Unmask masked"
  proof (rule ccontr)
    assume "crc32c 0 data \<noteq> Crc32Unmask masked"
    with R3 show False using err by simp
  qed
  note R4 = R3 [unfolded crc, simplified]
  have t: "contents ! unat ?n = 0"
  proof (rule ccontr)
    assume "contents ! unat ?n \<noteq> 0"
    with R4 show False using err by simp
  qed
  have c: "bc_data c = take (unat ?n) contents" "bc_heap_allocated c = in_buf" "bc_cachable c = in_buf"
    using R4 t by (cases in_buf; auto)+
  have "length (drop (unat ?n + 1) contents) \<ge> 4" using m by (auto simp: DecodeFixed32_def load_def ub_bind_def split: if_splits)
  then have big: "unat ?n + 5 \<le> length contents" by simp
  then have l: "length contents = unat ?n + 5"
    using len unat_add5 [of ?n] by (cases "unat ?n + 5 < 2 ^ 64") auto
  then have n1: "unat (?n + 1) = unat ?n + 1" using len unsigned_less [of "?n + 5"] by (simp add: unat_word_ariths)
  have "length (drop (unat ?n + 1) contents) = 4" using l by simp
  then obtain w :: "32 word" where w: "drop (unat ?n + 1) contents = le_bytes 4 w"
    using le_bytes_surj [of 4 "drop (unat ?n + 1) contents", where ?'a = 32] by auto
  then have "masked = w" using m DecodeFixed32_bytes [of le w "[]"] by simp
  have data: "data = take (unat ?n) contents @ [0]"
    using d n1 l t by (simp add: load_def take_Suc_conv_app_nth)
  have "contents = take (unat ?n) contents @ [0] @ drop (unat ?n + 1) contents"
    using l t by (metis Suc_eq_plus1 add_Suc_right append_Cons append_Nil id_take_nth_drop less_add_Suc1 numeral_eq_Suc)
  then have "contents = bc_data c @ trailer 0 (bc_data c)"
    using w c(1) crc data Crc32Mask_Unmask [of w] \<open>masked = w\<close> by (simp add: trailer_def)
  moreover have "unat (?n + 5) < 2 ^ 64" using unsigned_less [of "?n + 5"] by simp
  then have "unat ?n + 5 < 2 ^ 64" using l len by simp
  ultimately show ?thesis using f st c l by simp
qed

lemma ReadBlock_deletes:
  "ReadBlock le pval rf h = Inr (s, c, deleted) \<Longrightarrow> deleted \<longleftrightarrow> \<not> bc_heap_allocated c"
  by (auto simp: ReadBlock_def Let_def ub_bind_def split: prod.splits if_splits sum.splits)

section \<open>Any bytes\<close>

text \<open>The errors the iterator can meet, and what stays as it is.\<close>

abbreviation oob :: "ub \<Rightarrow> bool" where
  "oob \<equiv> (\<lambda>e. e = OutOfBounds)"

lemma pred_sum_bind: "pred_sum P Q r \<Longrightarrow> (\<And>x. Q x \<Longrightarrow> pred_sum P R (f x)) \<Longrightarrow> pred_sum P R (ub_bind r f)"
  by (cases r) auto

lemma load_oob: "pred_sum oob (\<lambda>_. True) (load n bs)"
  by (simp add: load_def)

lemma DecodeFixed32_oob: "pred_sum oob (\<lambda>_. True) (DecodeFixed32 le bs)"
  unfolding DecodeFixed32_def by (rule pred_sum_bind [OF load_oob]) simp

lemma GetRestartPoint_oob: "j < it_num_restarts it \<Longrightarrow> pred_sum oob (\<lambda>_. True) (GetRestartPoint le it j)"
  by (simp add: GetRestartPoint_def DecodeFixed32_oob)

lemma skip_restarts_oob: "pred_sum oob (\<lambda>_. True) (skip_restarts le it ri)"
proof (induction le it ri rule: skip_restarts.induct)
  case (1 le it ri)
  show ?case
  proof (cases "ri + 1 < it_num_restarts it")
    case True
    with 1 GetRestartPoint_oob [OF True, of le] show ?thesis
      by (subst skip_restarts.simps) (auto split: sum.splits)
  qed (subst skip_restarts.simps, simp)
qed

lemma three_varints_reads: "three_varints p = Some (a, b, c, q) \<Longrightarrow> 3 \<le> q \<and> q \<le> length p"
  by (auto simp: three_varints_def split: option.splits dest!: varint_reads(1)) arith

lemma DecodeEntry_reads:
  assumes "DecodeEntry p = Some (a, b, c, q)"
  shows "3 \<le> q" "q \<le> length p" "b + c \<le> of_nat (length p - q)"
  using assms three_varints_reads [of p] unfolding DecodeEntry_varints
  by (auto split: if_splits option.splits simp: not_less)

text \<open>
  \<open>non_shared + value_length\<close> wraps, and so does \<open>NextEntryOffset\<close>: the next entry is always behind the current one,
  and not behind the restart points.
\<close>

lemma next_offset:
  fixes b c limit :: "32 word"
  assumes "b + c \<le> of_nat m" "p + q + m \<le> unat limit" "3 \<le> q"
  shows "p < unat (of_nat (p + q + unat b + unat c) :: 32 word)" "unat (of_nat (p + q + unat b + unat c) :: 32 word) \<le> unat limit"
proof -
  have lim: "unat limit < 2 ^ 32" using unsigned_less [of limit] by simp
  then have "unat (of_nat m :: 32 word) = m" "unat (of_nat (p + q) :: 32 word) = p + q" using assms(2) by (simp_all del: of_nat_add)
  then have bc: "unat (b + c) \<le> m" using assms(1) by (simp add: word_le_nat_alt)
  have "(of_nat (p + q + unat b + unat c) :: 32 word) = of_nat (p + q + unat (b + c))" by simp
  then have "unat (of_nat (p + q + unat b + unat c) :: 32 word) = p + q + unat (b + c)"
    using bc assms(2) lim by (simp del: of_nat_add)
  then show "p < unat (of_nat (p + q + unat b + unat c) :: 32 word)" "unat (of_nat (p + q + unat b + unat c) :: 32 word) \<le> unat limit"
    using bc assms(2,3) by simp_all
qed

definition step_ok :: "Iter \<Rightarrow> bool \<times> Iter \<Rightarrow> bool" where
  "step_ok it r \<longleftrightarrow> it_num_restarts (snd r) = it_num_restarts it \<and> it_restarts (snd r) = it_restarts it
     \<and> (fst r \<longrightarrow> (\<exists>a b. NextEntryOffset it = Inr a \<and> NextEntryOffset (snd r) = Inr b \<and> unat a < unat b \<and> unat b \<le> unat (it_restarts it)))"

lemma CorruptionError_Inr: "\<exists>it'. CorruptionError it = Inr it' \<and> it_num_restarts it' = it_num_restarts it \<and> it_restarts it' = it_restarts it"
  by (simp add: CorruptionError_def Status_Error_def Status_code3_def status_codes Let_def lit_def)

lemma ParseNextKey_any: "pred_sum oob (step_ok it) (ParseNextKey le it)"
proof (cases "NextEntryOffset it")
  case (Inl e)
  then show ?thesis by (auto simp: ParseNextKey_def NextEntryOffset_def split: option.splits)
next
  case (Inr off)
  let ?it = "it\<lparr>it_current := off\<rparr>" and ?p = "unat off" and ?limit = "unat (it_restarts it)"
  obtain ce where ce: "CorruptionError ?it = Inr ce" "step_ok it (False, ce)"
    using CorruptionError_Inr [of ?it] by (auto simp: step_ok_def)
  show ?thesis
  proof (cases "?p \<ge> ?limit")
    case True
    then show ?thesis using Inr by (simp add: ParseNextKey_def Let_def step_ok_def)
  next
    case lt: False
    let ?buf = "drop ?p (take ?limit (it_data it))"
    show ?thesis
    proof (cases "DecodeEntry ?buf")
      case None
      then show ?thesis using Inr lt ce by (simp add: ParseNextKey_def Let_def)
    next
      case (Some r)
      then obtain sh ns vl q where d: "DecodeEntry ?buf = Some (sh, ns, vl, q)" by (metis prod.exhaust)
      note rd = DecodeEntry_reads [OF d]
      have "length ?buf \<le> ?limit - ?p" by simp
      then have "?p + q + (length ?buf - q) \<le> ?limit" using rd(2) lt by linarith
      note nx = next_offset [OF rd(3) this rd(1)]
      show ?thesis
      proof (cases "length (it_key it) < unat sh")
        case True
        then show ?thesis using Inr lt ce d by (simp add: ParseNextKey_def Let_def)
      next
        case False
        have "pred_sum oob (step_ok it)
          (ub_bind (load (unat ns) (drop (?p + q) (it_data it))) (\<lambda>delta.
             let it2 = ?it\<lparr>it_key := resize (unat sh) (it_key it) @ delta, it_value := Some (?p + q + unat ns, unat vl)\<rparr> in
             ub_bind (skip_restarts le it2 (it_restart_index it)) (\<lambda>ri. Inr (True, it2\<lparr>it_restart_index := ri\<rparr>))))"
          unfolding Let_def
          by (intro pred_sum_bind [OF load_oob] pred_sum_bind [OF skip_restarts_oob])
            (use Inr nx in \<open>auto simp: step_ok_def NextEntryOffset_def simp flip: of_nat_add\<close>)
        then show ?thesis using Inr lt d False by (simp add: ParseNextKey_def Let_def)
      qed
    qed
  qed
qed

lemma seek_linear_any:
  "\<exists>r. seek_linear le t it = Some r \<and> pred_sum oob (\<lambda>it'. it_num_restarts it' = it_num_restarts it) r"
proof (induction "unat (it_restarts it) - (case NextEntryOffset it of Inl _ \<Rightarrow> 0 | Inr a \<Rightarrow> unat a)" arbitrary: it rule: less_induct)
  case less
  show ?case
  proof (cases "ParseNextKey le it")
    case (Inl e)
    then show ?thesis using ParseNextKey_any [of it le] by (subst seek_linear.simps) auto
  next
    case (Inr r)
    obtain ok it' where r: "r = (ok, it')" by fastforce
    have st: "step_ok it (ok, it')" using ParseNextKey_any [of it le] Inr r by simp
    then have num: "it_num_restarts it' = it_num_restarts it" by (simp add: step_ok_def)
    show ?thesis
    proof (cases "ok \<and> StringPiece_compare (it_key it') t < 0")
      case True
      then have "unat (it_restarts it') - (case NextEntryOffset it' of Inl _ \<Rightarrow> 0 | Inr a \<Rightarrow> unat a)
          < unat (it_restarts it) - (case NextEntryOffset it of Inl _ \<Rightarrow> 0 | Inr a \<Rightarrow> unat a)"
        using st by (auto simp: step_ok_def)
      from less [OF this] True show ?thesis using Inr r num by (subst seek_linear.simps) (auto simp: not_le)
    next
      case False
      then show ?thesis using Inr r num by (subst seek_linear.simps) (auto simp: not_le)
    qed
  qed
qed

lemma mid_key_oob: "j < it_num_restarts it \<Longrightarrow> pred_sum oob (\<lambda>_. True) (mid_key le it j)"
  unfolding mid_key_def
  by (rule pred_sum_bind [OF GetRestartPoint_oob])
    (auto simp: Let_def intro!: pred_sum_bind [OF load_oob] split: option.splits)

lemma seek_restart_any:
  assumes "l \<le> r" "r < it_num_restarts it" "unat (it_num_restarts it) < 2 ^ 31"
  shows "\<exists>res. seek_restart le it t l r = Some res \<and> pred_sum oob (\<lambda>x. \<forall>l'. x = Some l' \<longrightarrow> l' < it_num_restarts it) res"
  using assms
proof (induction "unat r - unat l" arbitrary: l r rule: less_induct)
  case less
  show ?case
  proof (cases "l < r")
    case True
    let ?m = "(l + r + 1) div 2"
    have r: "unat r < 2 ^ 31" using less.prems(2,3) by (simp add: word_less_nat_alt)
    note m = mid_bounds [OF True r]
    have lr: "unat l < unat r" using True by (simp add: word_less_nat_alt)
    have mn: "?m < it_num_restarts it" using m(3) less.prems(2) by simp
    have le1: "l \<le> ?m - 1" "?m - 1 < it_num_restarts it" "unat (?m - 1) - unat l < unat r - unat l"
      using m(1,4) lr less.prems(2) by (auto simp: word_le_nat_alt word_less_nat_alt)
    have ge1: "unat r - unat ?m < unat r - unat l" using m(1) lr by simp
    consider e where "mid_key le it ?m = Inl e" "e = OutOfBounds" | "mid_key le it ?m = Inr None" | k where "mid_key le it ?m = Inr (Some k)"
      using mid_key_oob [OF mn, of le] by (cases "mid_key le it ?m"; cases "projr (mid_key le it ?m)") auto
    then show ?thesis
    proof cases
      case 3
      then show ?thesis
        using less.hyps [OF ge1 m(3) less.prems(2,3)] less.hyps [OF le1(3,1,2) less.prems(3)] True
        by (subst seek_restart.simps) (simp add: Let_def)
    qed (use True in \<open>(subst seek_restart.simps, simp add: Let_def)+\<close>)
  next
    case False
    then show ?thesis using less.prems by (subst seek_restart.simps) simp
  qed
qed

lemma SeekToRestartPoint_any:
  "j < it_num_restarts it \<Longrightarrow> pred_sum oob (\<lambda>it'. it_num_restarts it' = it_num_restarts it) (SeekToRestartPoint le j it)"
  unfolding SeekToRestartPoint_def Let_def
  by (rule pred_sum_bind [OF GetRestartPoint_oob]) auto

lemma Iter_Seek_any:
  assumes "0 < it_num_restarts it" "unat (it_num_restarts it) < 2 ^ 31"
  shows "\<exists>r. Iter_Seek le t it = Some r \<and> pred_sum oob (\<lambda>it'. it_num_restarts it' = it_num_restarts it) r"
proof -
  have "1 \<le> it_num_restarts it" using assms(1) by (simp add: word_le_nat_alt word_less_nat_alt)
  then have "it_num_restarts it - 1 < it_num_restarts it" using assms(1) by (simp add: word_less_nat_alt unat_sub)
  from seek_restart_any [OF _ this assms(2), of 0 le t] obtain res where
    res: "seek_restart le it t 0 (it_num_restarts it - 1) = Some res"
      "pred_sum oob (\<lambda>x. \<forall>l'. x = Some l' \<longrightarrow> l' < it_num_restarts it) res" by auto
  consider e where "res = Inl e" "e = OutOfBounds" | "res = Inr None" | l where "res = Inr (Some l)" "l < it_num_restarts it"
    using res(2) by (cases res; cases "projr res") auto
  then show ?thesis
  proof cases
    case 2
    then show ?thesis using res(1) CorruptionError_Inr [of it] by (auto simp: Iter_Seek_def)
  next
    case (3 l)
    show ?thesis
    proof (cases "SeekToRestartPoint le l it")
      case (Inl e)
      then show ?thesis using SeekToRestartPoint_any [OF 3(2), of le] res(1) 3(1) by (simp add: Iter_Seek_def)
    next
      case (Inr it1)
      then have "it_num_restarts it1 = it_num_restarts it" using SeekToRestartPoint_any [OF 3(2), of le] by simp
      then show ?thesis using seek_linear_any [of le t it1] Inr res(1) 3(1) by (simp add: Iter_Seek_def)
    qed
  qed (use res(1) in \<open>auto simp: Iter_Seek_def\<close>)
qed

lemma Iter_SeekToFirst_any:
  "0 < it_num_restarts it \<Longrightarrow> pred_sum oob (\<lambda>it'. it_num_restarts it' = it_num_restarts it) (Iter_SeekToFirst le it)"
  unfolding Iter_SeekToFirst_def
  by (rule pred_sum_bind [OF SeekToRestartPoint_any], assumption, rule pred_sum_bind [OF ParseNextKey_any])
    (auto simp: step_ok_def)

lemma Iter_Next_any:
  "Iter_Valid it \<Longrightarrow> pred_sum oob (\<lambda>it'. it_num_restarts it' = it_num_restarts it) (Iter_Next le it)"
  unfolding Iter_Next_def by (simp, rule pred_sum_bind [OF ParseNextKey_any]) (auto simp: step_ok_def)

definition iterator_sound :: "Iterator \<Rightarrow> bool" where
  "iterator_sound I = (case I of EmptyIterator _ \<Rightarrow> True | BlockIter it \<Rightarrow> 0 < it_num_restarts it \<and> unat (it_num_restarts it) < 2 ^ 31)"

lemma open_block_sound:
  assumes "length data < 2 ^ 33"
  shows "\<exists>I. open_block le data = Inr I \<and> iterator_sound I"
proof (cases "length data < 4")
  case True
  then show ?thesis
    by (auto simp: open_block_def Block_new_def NewIterator_def Status_Error_def Status_code3_def status_codes Let_def iterator_sound_def lit_def)
next
  case False
  let ?b = "\<lambda>sz off. \<lparr>bl_data = data, bl_size = sz, bl_restart_offset = off, bl_owned = True\<rparr>"
  have "length (drop (length data - 4) data) = 4" using False by simp
  then obtain n :: "32 word" where n: "drop (length data - 4) data = le_bytes 4 n"
    using le_bytes_surj [of 4 "drop (length data - 4) data", where ?'a = 32] by auto
  have num: "NumRestarts le (?b (length data) off) = Inr n" for off
    using False n DecodeFixed32_end [of le n] by (simp add: NumRestarts_def)
  show ?thesis
  proof (cases "unat n > (length data - 4) div 4")
    case True
    then show ?thesis
      using False num
      by (auto simp: open_block_def Block_new_def NewIterator_def Status_Error_def Status_code3_def status_codes Let_def
          iterator_sound_def lit_def)
  next
    case le: False
    then have "unat n \<le> (length data - 4) div 4" by simp
    also have "\<dots> < 2 ^ 31" using assms by (simp add: less_mult_imp_div_less)
    finally have "unat n < 2 ^ 31" .
    then show ?thesis
      using False num le by (auto simp: open_block_def Block_new_def NewIterator_def Let_def Iter_new_def iterator_sound_def word_neq_0_conv)
  qed
qed

lemma ub_bind_Inr: "ub_bind r f = Inr y \<longleftrightarrow> (\<exists>x. r = Inr x \<and> f x = Inr y)"
  by (cases r) auto

lemma reach_sound: "iterator_reach le I I' \<Longrightarrow> iterator_sound I \<Longrightarrow> iterator_sound I'"
proof (induction rule: iterator_reach.induct)
  case (first I1 I2)
  show ?case
  proof (cases I1)
    case (BlockIter it)
    then have "0 < it_num_restarts it" using first by (simp add: iterator_sound_def)
    from Iter_SeekToFirst_any [OF this, of le] show ?thesis using first BlockIter by (auto simp: iterator_sound_def ub_bind_Inr)
  qed (use first in \<open>auto simp: iterator_sound_def\<close>)
next
  case (nxt I1 I2)
  show ?case
  proof (cases I1)
    case (BlockIter it)
    then have "Iter_Valid it" using nxt by simp
    from Iter_Next_any [OF this, of le] show ?thesis using nxt BlockIter by (auto simp: iterator_sound_def ub_bind_Inr)
  qed (use nxt in simp)
next
  case (seek I1 t I2)
  show ?case
  proof (cases I1)
    case (BlockIter it)
    then have "0 < it_num_restarts it" "unat (it_num_restarts it) < 2 ^ 31" using seek by (simp_all add: iterator_sound_def)
    from Iter_Seek_any [OF this, of le t] show ?thesis using seek BlockIter by (auto simp: iterator_sound_def ub_bind_Inr)
  qed (use seek in \<open>simp add: iterator_sound_def\<close>)
qed auto

text \<open>A block of one entry whose \<open>non_shared\<close> is \<open>2\<^sup>3\<^sup>2 - 1\<close> and whose \<open>value_length\<close> is 1: their sum wraps to zero.\<close>

definition wrapping_block :: "octet list" where
  "wrapping_block = [0, 255, 255, 255, 255, 15, 1,  0, 0, 0, 0,  1, 0, 0, 0]"

lemma wrapping_entry: "DecodeEntry [0, 255, 255, 255, 255, 15, 1] = Some (0, 0xffffffff, 1, 7)"
  by (simp add: DecodeEntry_def GetVarint32Ptr_def GetVarint32PtrFallback_def)

lemma wrapping_words: "[0, 0, 0, 0] = le_bytes 4 (0 :: 32 word)" "[1, 0, 0, 0] = le_bytes 4 (1 :: 32 word)"
  by (simp_all add: le_bytes_num)

lemma wrapping_block_read: "ub_bind (open_block le wrapping_block) (SeekToFirst le) = Inl OutOfBounds"
proof -
  let ?it = "\<lparr>it_data = wrapping_block, it_restarts = 7, it_num_restarts = 1, it_current = 7, it_restart_index = 1,
    it_key = [], it_value = None, it_status = Status_OK\<rparr>"
  have d: "drop 11 wrapping_block = le_bytes 4 (1 :: 32 word)" "drop 7 wrapping_block = le_bytes 4 (0 :: 32 word) @ le_bytes 4 (1 :: 32 word)"
    "length wrapping_block = 15" "take 7 wrapping_block = [0, 255, 255, 255, 255, 15, 1]"
    by (simp_all add: wrapping_block_def le_bytes_num)
  have "open_block le wrapping_block = Inr (BlockIter ?it)"
    by (simp add: open_block_def Block_new_def NumRestarts_def NewIterator_def Iter_new_def Let_def d DecodeFixed32_end)
  moreover have "SeekToRestartPoint le 0 ?it = Inr (?it\<lparr>it_restart_index := 0, it_value := Some (0, 0)\<rparr>)"
    by (simp add: SeekToRestartPoint_def GetRestartPoint_def d DecodeFixed32_bytes)
  moreover have "ParseNextKey le (?it\<lparr>it_restart_index := 0, it_value := Some (0, 0)\<rparr>) = Inl OutOfBounds"
    by (simp add: ParseNextKey_def NextEntryOffset_def Let_def d wrapping_entry load_def)
  ultimately show ?thesis by (simp add: Iter_SeekToFirst_def)
qed

section \<open>Properties\<close>

text \<open>
  Footers: what \<open>EncodeTo\<close> writes to an empty string has 48 bytes and \<open>DecodeFrom\<close> reads it back, whatever follows;
  on a string that is not empty \<open>EncodeTo\<close> fails its assertion, and \<open>DecodeFrom\<close> reads out of bounds when the
  input is shorter than a footer.
\<close>
theorem footer_roundtrip:
  assumes "handle_set (ft_metaindex f)" and "handle_set (ft_index f)" and "length input < 48" and "dst \<noteq> []"
  shows "(\<exists>bs. Footer_EncodeTo le f [] = Inr bs \<and> length bs = 48 \<and> Footer_DecodeFrom le f0 (bs @ rest) = Inr (Status_OK, f, rest))
    \<and> Footer_EncodeTo le f dst = Inl AssertFailed \<and> Footer_DecodeFrom le f0 input = Inl OutOfBounds"
  using footer_Encode [OF assms(1,2)] length_footer footer_Decode footer_short assms(3,4) by auto

theorem footer_roundtrip_witness:
  "\<exists>bs. Footer_EncodeTo True \<lparr>ft_metaindex = \<lparr>bh_offset = 1, bh_size = 300\<rparr>, ft_index = \<lparr>bh_offset = 7, bh_size = 2\<rparr>\<rparr> [] = Inr bs
     \<and> Footer_DecodeFrom True Footer_new bs
       = Inr (Status_OK, \<lparr>ft_metaindex = \<lparr>bh_offset = 1, bh_size = 300\<rparr>, ft_index = \<lparr>bh_offset = 7, bh_size = 2\<rparr>\<rparr>, [])"
proof -
  have "handle_set \<lparr>bh_offset = 1, bh_size = 300\<rparr>" "handle_set \<lparr>bh_offset = 7, bh_size = 2\<rparr>" by (simp_all add: handle_set_def)
  then show ?thesis
    using footer_roundtrip [of "\<lparr>ft_metaindex = \<lparr>bh_offset = 1, bh_size = 300\<rparr>, ft_index = \<lparr>bh_offset = 7, bh_size = 2\<rparr>\<rparr>"
        "[]" "[0]" True Footer_new "[]"] by auto
qed

text \<open>
  C32. \<open>ReadBlock\<close> succeeds exactly when the file returns, without error, the contents followed by the type 0 and the
  masked checksum of both, and then gives the contents; another type with a correct checksum is
  refused.  The buffer is deleted in every case but the one where it is handed over in the
  result.  A handle whose size is within 5 of \<open>2\<^sup>6\<^sup>4\<close> never succeeds.
\<close>
theorem ReadBlock_checks:
  assumes "unat (bh_size h) = length d" and "length d + 5 < 2 ^ 64"
  shows "((\<exists>deleted. ReadBlock le pval rf h = Inr (Status_OK, \<lparr>bc_data = d, bc_cachable = in_buf, bc_heap_allocated = in_buf\<rparr>, deleted))
           \<longleftrightarrow> rf (bh_offset h) (bh_size h + 5) = (Status_OK, d @ trailer 0 d, in_buf))
    \<and> (t \<noteq> 0 \<longrightarrow> rf (bh_offset h) (bh_size h + 5) = (Status_OK, d @ trailer t d, in_buf) \<longrightarrow>
         (\<exists>s c. ReadBlock le pval rf h = Inr (s, c, True) \<and> \<not> Status_ok s))
    \<and> (\<forall>s c deleted. ReadBlock le pval rf h' = Inr (s, c, deleted) \<longrightarrow>
         (deleted \<longleftrightarrow> \<not> bc_heap_allocated c) \<and> (2 ^ 64 \<le> unat (bh_size h') + 5 \<longrightarrow> \<not> Status_ok s))"
proof (intro conjI allI impI)
  show "(\<exists>deleted. ReadBlock le pval rf h = Inr (Status_OK, \<lparr>bc_data = d, bc_cachable = in_buf, bc_heap_allocated = in_buf\<rparr>, deleted))
           \<longleftrightarrow> rf (bh_offset h) (bh_size h + 5) = (Status_OK, d @ trailer 0 d, in_buf)"
  proof
    assume "\<exists>deleted. ReadBlock le pval rf h = Inr (Status_OK, \<lparr>bc_data = d, bc_cachable = in_buf, bc_heap_allocated = in_buf\<rparr>, deleted)"
    then show "rf (bh_offset h) (bh_size h + 5) = (Status_OK, d @ trailer 0 d, in_buf)"
      using ReadBlock_accepts [where s = Status_OK] by (fastforce simp: Status_ok_def Status_OK_def)
  qed (use ReadBlock_written [OF _ assms] in auto)
  show "\<exists>s c. ReadBlock le pval rf h = Inr (s, c, True) \<and> \<not> Status_ok s"
    if "t \<noteq> 0" "rf (bh_offset h) (bh_size h + 5) = (Status_OK, d @ trailer t d, in_buf)"
    using ReadBlock_written [where d = d and t = t and rf = rf and h = h, OF that(2) assms] that(1) by (simp add: Status_ok_def)
  show "deleted \<longleftrightarrow> \<not> bc_heap_allocated c" if "ReadBlock le pval rf h' = Inr (s, c, deleted)" for s c deleted
    using that by (rule ReadBlock_deletes)
  show "\<not> Status_ok s" if "ReadBlock le pval rf h' = Inr (s, c, deleted)" "2 ^ 64 \<le> unat (bh_size h') + 5" for s c deleted
  proof
    assume "Status_ok s"
    from ReadBlock_accepts [OF that(1) this] that(2) show False by simp
  qed
qed

theorem ReadBlock_checks_witness:
  "\<exists>deleted. ReadBlock True 0 (\<lambda>_ _. (Status_OK, [1, 2] @ trailer 0 [1, 2], True)) \<lparr>bh_offset = 0, bh_size = 2\<rparr>
     = Inr (Status_OK, \<lparr>bc_data = [1, 2], bc_cachable = True, bc_heap_allocated = True\<rparr>, deleted)"
  using ReadBlock_checks [of "\<lparr>bh_offset = 0, bh_size = 2\<rparr>" "[1, 2]" True 0
      "\<lambda>_ _. (Status_OK, [1, 2] @ trailer 0 [1, 2], True)" True] by simp

text \<open>
  C9. On any bytes, whoever wrote them, a block opens, and in every state of its iterator \<open>Seek\<close> ends, as do
  \<open>SeekToFirst\<close> and \<open>Next\<close>, and no assertion fails: each returns an iterator or leaves the bytes of the
  block.  The latter does happen: \<open>DecodeEntry\<close> compares with a sum that wraps at 32 bits, so that a
  corrupt entry passes and the key is read out of bounds.
\<close>
theorem block_any_bytes:
  assumes "length data < 2 ^ 33"
  shows "(\<exists>I. open_block le data = Inr I
      \<and> (\<forall>I'. iterator_reach le I I' \<longrightarrow>
           (\<forall>t. \<exists>r. Seek le t I' = Some r \<and> pred_sum oob (\<lambda>_. True) r)
           \<and> pred_sum oob (\<lambda>_. True) (SeekToFirst le I')
           \<and> (Valid I' \<longrightarrow> pred_sum oob (\<lambda>_. True) (Next le I'))))
    \<and> ub_bind (open_block le wrapping_block) (SeekToFirst le) = Inl OutOfBounds"
proof

  show "\<exists>I. open_block le data = Inr I
      \<and> (\<forall>I'. iterator_reach le I I' \<longrightarrow>
           (\<forall>t. \<exists>r. Seek le t I' = Some r \<and> pred_sum oob (\<lambda>_. True) r)
           \<and> pred_sum oob (\<lambda>_. True) (SeekToFirst le I')
           \<and> (Valid I' \<longrightarrow> pred_sum oob (\<lambda>_. True) (Next le I')))"
  proof -
    obtain I where I: "open_block le data = Inr I" "iterator_sound I" using open_block_sound [OF assms] by blast
    have "(\<forall>t. \<exists>r. Seek le t I' = Some r \<and> pred_sum oob (\<lambda>_. True) r)
        \<and> pred_sum oob (\<lambda>_. True) (SeekToFirst le I') \<and> (Valid I' \<longrightarrow> pred_sum oob (\<lambda>_. True) (Next le I'))"
      if "iterator_reach le I I'" for I'
    proof (cases I')
      case (BlockIter it)
      have any: "pred_sum oob (\<lambda>_. True) (ub_bind r (\<lambda>it. Inr (BlockIter it)))" if "pred_sum oob Q r" for Q r
        using that by (rule pred_sum_bind) simp
      have it: "0 < it_num_restarts it" "unat (it_num_restarts it) < 2 ^ 31"
        using reach_sound [OF that I(2)] BlockIter by (simp_all add: iterator_sound_def)
      have "\<exists>r. Seek le t I' = Some r \<and> pred_sum oob (\<lambda>_. True) r" for t
        using Iter_Seek_any [OF it, of le t] any BlockIter by auto
      then show ?thesis
        using any [OF Iter_SeekToFirst_any [OF it(1), of le]] any [OF Iter_Next_any [of it le]] BlockIter by simp
    qed simp
    then show ?thesis using I(1) by blast
  qed
  show "ub_bind (open_block le wrapping_block) (SeekToFirst le) = Inl OutOfBounds"
    by (rule wrapping_block_read)
qed

theorem block_any_bytes_witness:
  "\<exists>I r. open_block True wrapping_block = Inr I \<and> Seek True [5] I = Some r \<and> pred_sum oob (\<lambda>_. True) r"
proof -
  have "length wrapping_block < 2 ^ 33" by (simp add: wrapping_block_def)
  from block_any_bytes [OF this, of True] show ?thesis using iterator_reach.start by blast
qed

end
