(* ===== verification/Hash_Bloom.thy ===== *)
theory Hash_Bloom
  imports String_Piece
begin

unbundle bit_operations_syntax

text \<open>
  The hash functions of \<open>hash_util.h\<close> and \<open>hash_util.cpp\<close>, and \<open>DynamicBloom\<close> of \<open>bloom.h\<close>, a Bloom filter over
  an array of atomic bytes, also with several threads adding to it.
\<close>

section \<open>Hash functions\<close>

fun Hash_loop :: "bool \<Rightarrow> octet list \<Rightarrow> 32 word \<Rightarrow> (32 word \<times> octet list) result" where
  "Hash_loop le data h =
     (if 4 \<le> length data then
        ub_bind (DecodeFixed32 le data) (\<lambda>w.
        let h = (h + w) * 0xc6a4a793; h = h XOR drop_bit 16 h in Hash_loop le (drop 4 data) h)
      else Inr (h, data))"

declare Hash_loop.simps [simp del]

text \<open>
  The label \<open>case 1:\<close> of the switch is inside a comment: for one remaining byte the switch has no case.
\<close>

definition Hash :: "bool \<Rightarrow> octet list \<Rightarrow> 32 word \<Rightarrow> 32 word result" where
  "Hash le data seed =
     ub_bind (Hash_loop le data (seed XOR ucast (of_nat (length data) * 0xc6a4a793 :: 64 word))) (\<lambda>(h, data).
     let h = (if length data = 3 then h + push_bit 16 (ucast (data ! 2)) else h)
     in Inr (if length data = 3 \<or> length data = 2 then
               let h = h + push_bit 8 (ucast (data ! 1));
                   h = (h + ucast (data ! 0)) * 0xc6a4a793
               in h XOR drop_bit 24 h
             else h))"

definition ByteAs32 :: "octet \<Rightarrow> 32 word" where
  "ByteAs32 c = scast c AND 0xff"

definition ByteAs64 :: "octet \<Rightarrow> 64 word" where
  "ByteAs64 c = scast c AND 0xff"

fun Hash32_loop :: "bool \<Rightarrow> octet list \<Rightarrow> 32 word \<Rightarrow> (32 word \<times> octet list) result" where
  "Hash32_loop le data h =
     (if length data \<ge> 4 then
        ub_bind (DecodeFixed32 le data) (\<lambda>k.
        let k = k * 0x5bd1e995; k = k XOR drop_bit 24 k; k = k * 0x5bd1e995;
            h = (h * 0x5bd1e995) XOR k
        in Hash32_loop le (drop 4 data) h)
      else Inr (h, data))"

declare Hash32_loop.simps [simp del]

definition Hash32 :: "bool \<Rightarrow> octet list \<Rightarrow> 32 word \<Rightarrow> 32 word result" where
  "Hash32 le data seed =
     ub_bind (Hash32_loop le data (seed XOR of_nat (length data))) (\<lambda>(h, data).
     let n = length data;
         h = (if n = 3 then h XOR push_bit 16 (ByteAs32 (data ! 2)) else h);
         h = (if n = 3 \<or> n = 2 then h XOR push_bit 8 (ByteAs32 (data ! 1)) else h);
         h = (if n = 3 \<or> n = 2 \<or> n = 1 then (h XOR ByteAs32 (data ! 0)) * 0x5bd1e995 else h);
         h = h XOR drop_bit 13 h;
         h = h * 0x5bd1e995
     in Inr (h XOR drop_bit 15 h))"

fun Hash64_loop :: "bool \<Rightarrow> octet list \<Rightarrow> 64 word \<Rightarrow> (64 word \<times> octet list) result" where
  "Hash64_loop le data h =
     (if length data \<ge> 8 then
        ub_bind (DecodeFixed64 le data) (\<lambda>k.
        let k = k * 0xc6a4a7935bd1e995; k = k XOR drop_bit 47 k; k = k * 0xc6a4a7935bd1e995;
            h = (h XOR k) * 0xc6a4a7935bd1e995
        in Hash64_loop le (drop 8 data) h)
      else Inr (h, data))"

declare Hash64_loop.simps [simp del]

text \<open>The cases of the switch from \<open>n\<close> down to 1, each falling through to the next.\<close>

primrec Hash64_tail :: "nat \<Rightarrow> octet list \<Rightarrow> 64 word \<Rightarrow> 64 word" where
  "Hash64_tail 0 data h = h"
| "Hash64_tail (Suc i) data h =
     (if i = 0 then (h XOR ByteAs64 (data ! 0)) * 0xc6a4a7935bd1e995
      else Hash64_tail i data (h XOR push_bit (8 * i) (ByteAs64 (data ! i))))"

definition Hash64 :: "bool \<Rightarrow> octet list \<Rightarrow> 64 word \<Rightarrow> 64 word result" where
  "Hash64 le data seed =
     ub_bind (Hash64_loop le data (seed XOR (of_nat (length data) * 0xc6a4a7935bd1e995))) (\<lambda>(h, data).
     let h = Hash64_tail (length data) data h;
         h = h XOR drop_bit 47 h;
         h = h * 0xc6a4a7935bd1e995
     in Inr (h XOR drop_bit 47 h))"

definition Hash64_default :: "bool \<Rightarrow> octet list \<Rightarrow> 64 word result" where
  "Hash64_default le data = Hash64 le data 0xDECAFCAFFE"

definition Hash64Combine :: "64 word \<Rightarrow> 64 word \<Rightarrow> 64 word" where
  "Hash64Combine a b = a XOR (b + 0x9e3779b97f4a7800 + push_bit 10 a + drop_bit 4 a)"

text \<open>\<open>size_t\<close> has 64 bits.\<close>

definition HashInts32 :: "32 word \<Rightarrow> 32 word \<Rightarrow> 64 word" where
  "HashInts32 value1 value2 = (let value1_64 = ucast value1 in push_bit 32 value1_64 OR ucast value2)"

definition HashInts64 :: "64 word \<Rightarrow> 64 word \<Rightarrow> 64 word" where
  "HashInts64 value1 value2 =
     (let value1a = ucast (value1 AND 0xffffffff) :: 32 word;
          value1b = ucast (drop_bit 32 value1 AND 0xffffffff) :: 32 word;
          value2a = ucast (value2 AND 0xffffffff) :: 32 word;
          value2b = ucast (drop_bit 32 value2 AND 0xffffffff) :: 32 word
      in ucast value1a * 842304669 + ucast value1b * 619063811 + ucast value2a * 937041849 + ucast value2b * 3309708029)"

text \<open>\<open>StringPiece::Hasher\<close>.\<close>

definition Hasher :: "bool \<Rightarrow> StringPiece \<Rightarrow> 64 word result" where
  "Hasher le s = Hash64 le s 0xDECAFCAFFE"

section \<open>The Bloom filter\<close>

text \<open>
  The constructor and \<open>SetRawData\<close> are declared and not defined in the repository: any array is considered, and
  an access outside of it is an error.  \<open>cls\<close> is \<open>CACHE_LINE_SIZE\<close>, which depends on the platform.
\<close>

record DynamicBloom =
  kTotalBits :: "32 word"
  kNumBlocks :: "32 word"
  kNumProbes :: "32 word"
  bloom_data :: "octet list"

definition GetNumBlocks :: "DynamicBloom \<Rightarrow> 32 word" where
  "GetNumBlocks b = kNumBlocks b"

definition GetTotalBits :: "DynamicBloom \<Rightarrow> 32 word" where
  "GetTotalBits b = kTotalBits b"

definition GetRawData :: "DynamicBloom \<Rightarrow> octet list result" where
  "GetRawData b = load (unat (GetTotalBits b div 8)) (bloom_data b)"

definition IsInitialized :: "DynamicBloom \<Rightarrow> bool" where
  "IsInitialized b \<longleftrightarrow> kNumBlocks b > 0 \<or> kTotalBits b > 0"

text \<open>The bit positions the \<open>n\<close> iterations visit, in both layouts.\<close>

primrec probes_blocked :: "32 word \<Rightarrow> 32 word \<Rightarrow> 32 word \<Rightarrow> nat \<Rightarrow> 32 word \<Rightarrow> 32 word list" where
  "probes_blocked cls b delta 0 h = []"
| "probes_blocked cls b delta (Suc n) h =
     (let bitpos = b + (h mod (cls * 8));
          h' = h div (cls * 8) + (h mod (cls * 8)) * (0x20000000 div cls) + delta
      in bitpos # probes_blocked cls b delta n h')"

primrec probes_flat :: "32 word \<Rightarrow> 32 word \<Rightarrow> nat \<Rightarrow> 32 word \<Rightarrow> 32 word list" where
  "probes_flat tot delta 0 h = []"
| "probes_flat tot delta (Suc n) h = h mod tot # probes_flat tot delta n (h + delta)"

definition bloom_probes :: "32 word \<Rightarrow> DynamicBloom \<Rightarrow> 32 word \<Rightarrow> 32 word list" where
  "bloom_probes cls b h =
     (let delta = drop_bit 17 h OR push_bit 15 h in
      if kNumBlocks b \<noteq> 0
      then probes_blocked cls (((drop_bit 11 h OR push_bit 21 h) mod kNumBlocks b) * (cls * 8)) delta (unat (kNumProbes b)) h
      else probes_flat (kTotalBits b) delta (unat (kNumProbes b)) h)"

text \<open>Each iteration's body: the test of \<open>MayContainHash\<close>, which returns at the first bit that is not set, and the two \<open>or_func\<close>s.\<close>

primrec MayContain_loop :: "octet list \<Rightarrow> 32 word list \<Rightarrow> bool result" where
  "MayContain_loop data [] = Inr True"
| "MayContain_loop data (bitpos # ps) =
     (if unat (bitpos div 8) < length data then
        let byteval = data ! unat (bitpos div 8)
        in if (ucast byteval :: 32 word) AND push_bit (unat (bitpos mod 8)) 1 = 0 then Inr False else MayContain_loop data ps
      else Inl OutOfBounds)"

definition MayContainHash :: "32 word \<Rightarrow> DynamicBloom \<Rightarrow> 32 word \<Rightarrow> bool result" where
  "MayContainHash cls b h =
     (if IsInitialized b then MayContain_loop (bloom_data b) (bloom_probes cls b h) else Inl AssertFailed)"

definition MayContain :: "32 word \<Rightarrow> (StringPiece \<Rightarrow> 32 word) \<Rightarrow> DynamicBloom \<Rightarrow> StringPiece \<Rightarrow> bool result" where
  "MayContain cls hash_func b key = MayContainHash cls b (hash_func key)"

definition probe_mask :: "32 word \<Rightarrow> octet" where
  "probe_mask bitpos = ucast (push_bit (unat (bitpos mod 8)) 1 :: 32 word)"

definition or_store :: "32 word \<Rightarrow> octet list \<Rightarrow> octet list result" where
  "or_store bitpos data =
     (let i = unat (bitpos div 8)
      in if i < length data then Inr (data[i := data ! i OR probe_mask bitpos]) else Inl OutOfBounds)"

definition or_fetch :: "32 word \<Rightarrow> octet list \<Rightarrow> octet list result" where
  "or_fetch bitpos data =
     (let i = unat (bitpos div 8); mask = probe_mask bitpos
      in if i < length data
         then if mask AND data ! i \<noteq> mask then Inr (data[i := data ! i OR mask]) else Inr data
         else Inl OutOfBounds)"

primrec AddHash_loop :: "(32 word \<Rightarrow> octet list \<Rightarrow> octet list result) \<Rightarrow> 32 word list \<Rightarrow> octet list \<Rightarrow> octet list result" where
  "AddHash_loop or_func [] data = Inr data"
| "AddHash_loop or_func (p # ps) data = ub_bind (or_func p data) (AddHash_loop or_func ps)"

definition AddHash_with :: "32 word \<Rightarrow> (32 word \<Rightarrow> octet list \<Rightarrow> octet list result) \<Rightarrow> 32 word \<Rightarrow> DynamicBloom \<Rightarrow> DynamicBloom result" where
  "AddHash_with cls or_func h b =
     (if IsInitialized b
      then ub_bind (AddHash_loop or_func (bloom_probes cls b h) (bloom_data b)) (\<lambda>d. Inr (b\<lparr>bloom_data := d\<rparr>))
      else Inl AssertFailed)"

definition AddHash :: "32 word \<Rightarrow> 32 word \<Rightarrow> DynamicBloom \<Rightarrow> DynamicBloom result" where
  "AddHash cls h b = AddHash_with cls or_store h b"

definition AddHashConcurrently :: "32 word \<Rightarrow> 32 word \<Rightarrow> DynamicBloom \<Rightarrow> DynamicBloom result" where
  "AddHashConcurrently cls h b = AddHash_with cls or_fetch h b"

definition Bloom_Add :: "32 word \<Rightarrow> (StringPiece \<Rightarrow> 32 word) \<Rightarrow> StringPiece \<Rightarrow> DynamicBloom \<Rightarrow> DynamicBloom result" where
  "Bloom_Add cls hash_func key b = AddHash cls (hash_func key) b"

definition Bloom_AddConcurrently :: "32 word \<Rightarrow> (StringPiece \<Rightarrow> 32 word) \<Rightarrow> StringPiece \<Rightarrow> DynamicBloom \<Rightarrow> DynamicBloom result" where
  "Bloom_AddConcurrently cls hash_func key b = AddHashConcurrently cls (hash_func key) b"

text \<open>
  Threads in \<open>AddHashConcurrently\<close>: what is left of a thread's probes, and whether it has loaded the byte of the
  first one and found the bit missing.  The load and the \<open>fetch_or\<close> are atomic, one after the other.
\<close>

type_synonym bloom_threads = "nat \<Rightarrow> 32 word list \<times> bool"

inductive bloom_step :: "octet list \<times> bloom_threads \<Rightarrow> octet list \<times> bloom_threads \<Rightarrow> bool" where
  load_set: "pc t = (p # ps, False) \<Longrightarrow> unat (p div 8) < length data \<Longrightarrow> probe_mask p AND data ! unat (p div 8) = probe_mask p
     \<Longrightarrow> bloom_step (data, pc) (data, pc(t := (ps, False)))"
| load_unset: "pc t = (p # ps, False) \<Longrightarrow> unat (p div 8) < length data \<Longrightarrow> probe_mask p AND data ! unat (p div 8) \<noteq> probe_mask p
     \<Longrightarrow> bloom_step (data, pc) (data, pc(t := (p # ps, True)))"
| fetch_or: "pc t = (p # ps, True) \<Longrightarrow> unat (p div 8) < length data
     \<Longrightarrow> bloom_step (data, pc) (data[unat (p div 8) := data ! unat (p div 8) OR probe_mask p], pc(t := (ps, False)))"

section \<open>Bits of the filter\<close>

definition in_range :: "octet list \<Rightarrow> 32 word \<Rightarrow> bool" where
  "in_range data p \<longleftrightarrow> unat p div 8 < length data"

definition bit_set :: "octet list \<Rightarrow> 32 word \<Rightarrow> bool" where
  "bit_set data p \<longleftrightarrow> bit (data ! (unat p div 8)) (unat p mod 8)"

lemma unat_div_mod_8: "unat (p div 8) = unat p div 8" "unat (p mod 8) = unat p mod 8" for p :: "32 word"
  by (simp_all add: unat_div unat_mod)

lemma bit_probe_mask: "bit (probe_mask p) n \<longleftrightarrow> n = unat p mod 8"
proof -
  have "unat p mod 8 < 8" by simp
  then show ?thesis by (auto simp: probe_mask_def unat_div_mod_8 bit_simps)
qed

lemma mask_set: "probe_mask p AND x = probe_mask p \<longleftrightarrow> bit x (unat p mod 8)"
proof
  assume "probe_mask p AND x = probe_mask p"
  then have "bit (probe_mask p AND x) (unat p mod 8)" using bit_probe_mask by metis
  then show "bit x (unat p mod 8)" by (simp add: bit_and_iff)
next
  assume "bit x (unat p mod 8)"
  then show "probe_mask p AND x = probe_mask p" by (intro bit_word_eqI) (auto simp: bit_and_iff bit_probe_mask)
qed

lemma test_bit: "(ucast x :: 32 word) AND push_bit (unat (p mod 8)) 1 = 0 \<longleftrightarrow> \<not> bit x (unat p mod 8)" for x :: octet and p :: "32 word"
proof -
  have "unat p mod 8 < 32" using mod_less_divisor [of 8 "unat p"] by linarith
  then have "(ucast x :: 32 word) AND push_bit (unat p mod 8) 1 = 0 \<longleftrightarrow> \<not> bit (ucast x :: 32 word) (unat p mod 8)"
    using and_exp_eq_0_iff_not_bit [of "ucast x :: 32 word" "unat p mod 8"] by (simp add: push_bit_eq_mult)
  then show ?thesis using \<open>unat p mod 8 < 32\<close> by (simp add: unat_div_mod_8 bit_simps)
qed

lemma or_fetch_store: "or_fetch = or_store"
proof (intro ext)
  fix p data
  have "data ! unat (p div 8) OR probe_mask p = data ! unat (p div 8)" if "probe_mask p AND data ! unat (p div 8) = probe_mask p"
    using that by (intro bit_word_eqI) (auto simp: bit_or_iff bit_probe_mask mask_set)
  then show "or_fetch p data = or_store p data" by (simp add: or_fetch_def or_store_def Let_def)
qed

definition set_bit_at :: "32 word \<Rightarrow> octet list \<Rightarrow> octet list" where
  "set_bit_at p data = data[unat p div 8 := data ! (unat p div 8) OR probe_mask p]"

lemma or_store_eq: "in_range data p \<Longrightarrow> or_store p data = Inr (set_bit_at p data)"
  by (simp add: or_store_def in_range_def set_bit_at_def unat_div_mod_8 Let_def)

lemma set_bit_at_simps [simp]: "length (set_bit_at p data) = length data" "in_range (set_bit_at p data) q = in_range data q"
  by (simp_all add: set_bit_at_def in_range_def)

lemma bit_set_at: "in_range data p \<Longrightarrow> bit_set (set_bit_at p data) q \<longleftrightarrow> q = p \<or> bit_set data q"
proof -
  assume r: "in_range data p"
  have "q = p" if "unat q div 8 = unat p div 8" "unat q mod 8 = unat p mod 8"
  proof -
    have "unat q = unat q div 8 * 8 + unat q mod 8" by simp
    also have "\<dots> = unat p div 8 * 8 + unat p mod 8" by (simp only: that)
    also have "\<dots> = unat p" by simp
    finally show ?thesis by (simp add: word_unat_eq_iff)
  qed
  note eq = this
  show ?thesis
  proof (cases "unat q div 8 = unat p div 8")
    case True
    then have "bit_set (set_bit_at p data) q \<longleftrightarrow> bit_set data q \<or> unat q mod 8 = unat p mod 8"
      using r by (simp add: bit_set_def set_bit_at_def in_range_def bit_or_iff bit_probe_mask)
    then show ?thesis using eq [OF True] by blast
  next
    case False
    then show ?thesis by (auto simp: bit_set_def set_bit_at_def)
  qed
qed

lemma AddHash_loop_ok:
  assumes "\<forall>p\<in>set ps. in_range data p"
  shows "\<exists>d. AddHash_loop or_store ps data = Inr d \<and> length d = length data \<and> (\<forall>q. bit_set d q \<longleftrightarrow> q \<in> set ps \<or> bit_set data q)"
  using assms
proof (induction ps arbitrary: data)
  case (Cons p ps)
  then have "\<forall>q\<in>set ps. in_range (set_bit_at p data) q" by simp
  from Cons.IH [OF this] Cons.prems show ?case by (auto simp: or_store_eq bit_set_at)
qed simp

lemma MayContain_loop_ok: "\<forall>p\<in>set ps. in_range data p \<Longrightarrow> MayContain_loop data ps = Inr (\<forall>p\<in>set ps. bit_set data p)"
  by (induction ps) (auto simp: Let_def in_range_def unat_div_mod_8(1) test_bit bit_set_def simp del: push_bit_of_1)

text \<open>The array is large enough for the number of bits or blocks, and the positions fit 32 bits.\<close>

definition bloom_ok :: "32 word \<Rightarrow> DynamicBloom \<Rightarrow> bool" where
  "bloom_ok cls b \<longleftrightarrow> IsInitialized b
     \<and> (if kNumBlocks b \<noteq> 0
        then 0 < cls \<and> unat (kNumBlocks b) * (unat cls * 8) \<le> 2 ^ 32 \<and> unat (kNumBlocks b) * unat cls \<le> length (bloom_data b)
        else unat (kTotalBits b) \<le> 8 * length (bloom_data b))"

lemma probes_flat_less: "0 < tot \<Longrightarrow> p \<in> set (probes_flat tot delta n h) \<Longrightarrow> p < tot"
  by (induction n arbitrary: h) (auto simp: word_less_nat_alt unat_mod)

lemma probes_blocked_between:
  assumes "unat b + unat (cls * 8) \<le> 2 ^ 32" "0 < cls * 8"
  shows "p \<in> set (probes_blocked cls b delta n h) \<Longrightarrow> unat b \<le> unat p \<and> unat p < unat b + unat (cls * 8)"
proof (induction n arbitrary: h)
  case (Suc n)
  have m: "unat (h mod (cls * 8)) < unat (cls * 8)" using assms(2) by (simp add: unat_mod word_less_nat_alt)
  then have "unat (b + h mod (cls * 8)) = unat b + unat (h mod (cls * 8))" using assms(1) by (simp add: unat_word_ariths)
  then show ?case using Suc m by (auto simp: Let_def)
qed simp

lemma bloom_probes_range:
  assumes "bloom_ok cls b" "p \<in> set (bloom_probes cls b h)"
  shows "in_range (bloom_data b) p"
proof (cases "kNumBlocks b = 0")
  case True
  then have "0 < kTotalBits b" using assms(1) by (simp add: bloom_ok_def IsInitialized_def)
  then have "p < kTotalBits b" using assms(2) True probes_flat_less by (auto simp: bloom_probes_def Let_def)
  then have "unat p < 8 * length (bloom_data b)" using assms(1) True by (simp add: bloom_ok_def word_less_nat_alt)
  then show ?thesis by (simp add: in_range_def less_mult_imp_div_less mult.commute)
next
  case False
  let ?n = "unat (kNumBlocks b)" and ?c = "unat cls"
  have k: "0 < cls" "?n * (?c * 8) \<le> 2 ^ 32" "?n * ?c \<le> length (bloom_data b)" "0 < ?n"
    using assms(1) False by (auto simp: bloom_ok_def unat_gt_0)
  define r where "r = (drop_bit 11 h OR push_bit 21 h) mod kNumBlocks b"
  have r: "unat r < ?n" using k(4) by (simp add: r_def unat_mod)
  have c: "0 < ?c" using k(1) by (simp add: word_less_nat_alt)
  have nb: "(unat r + 1) * (?c * 8) \<le> ?n * (?c * 8)" using r by (intro mult_le_mono1) simp
  show ?thesis
  proof (cases "?c * 8 = 2 ^ 32")
    case True
    then have "?n = 1" using k(2,4) by (cases "?n \<ge> 2") (auto simp: mult_le_mono1)
    then have "2 ^ 29 \<le> length (bloom_data b)" using k(3) True by simp
    moreover have "unat p < 2 ^ 32" using unsigned_less [of p] by simp
    then have "unat p div 8 < 2 ^ 29" by (simp add: less_mult_imp_div_less)
    ultimately show ?thesis unfolding in_range_def by linarith
  next
    case f: False
    have "1 * (?c * 8) \<le> ?n * (?c * 8)" using k(4) by (intro mult_le_mono1) simp
    then have "?c * 8 < 2 ^ 32" using f k(2) by linarith
    then have c8: "unat (cls * 8) = ?c * 8" by (simp add: unat_word_ariths)
    have "unat r * (?c * 8) < 2 ^ 32" using nb k(2) c by (simp add: algebra_simps)
    then have rb: "unat (r * (cls * 8)) = unat r * (?c * 8)" using c8 by (simp add: unat_word_ariths mult.assoc)
    have "unat (r * (cls * 8)) + unat (cls * 8) \<le> 2 ^ 32" using rb c8 nb k(2) by (simp add: algebra_simps)
    moreover have "0 < cls * 8" using c8 c by (simp add: word_less_nat_alt)
    ultimately have "unat p < unat (r * (cls * 8)) + unat (cls * 8)"
      using probes_blocked_between [of "r * (cls * 8)" cls p] assms(2) False by (auto simp: bloom_probes_def Let_def r_def)
    then have "unat p < ?n * (?c * 8)" using rb c8 nb by (simp add: algebra_simps)
    then have "unat p < (?n * ?c) * 8" by (simp add: algebra_simps)
    then have "unat p div 8 < ?n * ?c" by (rule less_mult_imp_div_less)
    then show ?thesis using k(3) by (simp add: in_range_def)
  qed
qed

lemma AddHash_ok:
  assumes "bloom_ok cls b"
  shows "\<exists>d. AddHash cls h b = Inr (b\<lparr>bloom_data := d\<rparr>) \<and> length d = length (bloom_data b)
    \<and> (\<forall>q. bit_set d q \<longleftrightarrow> q \<in> set (bloom_probes cls b h) \<or> bit_set (bloom_data b) q)"
proof -
  have "\<forall>p\<in>set (bloom_probes cls b h). in_range (bloom_data b) p" using bloom_probes_range [OF assms] by blast
  moreover have "IsInitialized b" using assms by (simp add: bloom_ok_def)
  ultimately show ?thesis using AddHash_loop_ok [of "bloom_probes cls b h" "bloom_data b"] by (auto simp: AddHash_def AddHash_with_def)
qed

lemma bloom_upd [simp]:
  "bloom_probes cls (b\<lparr>bloom_data := d\<rparr>) h = bloom_probes cls b h"
  "length d = length (bloom_data b) \<Longrightarrow> bloom_ok cls (b\<lparr>bloom_data := d\<rparr>) = bloom_ok cls b"
  by (simp_all add: bloom_probes_def bloom_ok_def IsInitialized_def Let_def)

lemma MayContainHash_ok:
  assumes "bloom_ok cls b"
  shows "MayContainHash cls b h = Inr (\<forall>p\<in>set (bloom_probes cls b h). bit_set (bloom_data b) p)"
proof -
  have "\<forall>p\<in>set (bloom_probes cls b h). in_range (bloom_data b) p" using bloom_probes_range [OF assms] by blast
  moreover have "IsInitialized b" using assms by (simp add: bloom_ok_def)
  ultimately show ?thesis by (simp add: MayContainHash_def MayContain_loop_ok)
qed

primrec add_hashes :: "32 word \<Rightarrow> 32 word list \<Rightarrow> DynamicBloom \<Rightarrow> DynamicBloom result" where
  "add_hashes cls [] b = Inr b"
| "add_hashes cls (h # hs) b = ub_bind (AddHash cls h b) (add_hashes cls hs)"

lemma add_hashes_ok:
  assumes "bloom_ok cls b"
  shows "\<exists>d. add_hashes cls hs b = Inr (b\<lparr>bloom_data := d\<rparr>) \<and> length d = length (bloom_data b)
    \<and> (\<forall>q. bit_set d q \<longleftrightarrow> (\<exists>h\<in>set hs. q \<in> set (bloom_probes cls b h)) \<or> bit_set (bloom_data b) q)"
  using assms
proof (induction hs arbitrary: b)
  case (Cons h hs)
  from AddHash_ok [OF Cons.prems, of h] obtain d where d: "AddHash cls h b = Inr (b\<lparr>bloom_data := d\<rparr>)" "length d = length (bloom_data b)"
    "\<forall>q. bit_set d q \<longleftrightarrow> q \<in> set (bloom_probes cls b h) \<or> bit_set (bloom_data b) q" by blast
  from Cons.IH [of "b\<lparr>bloom_data := d\<rparr>"] Cons.prems d show ?case by auto
next
  case Nil
  then show ?case by (intro exI [of _ "bloom_data b"]) auto
qed

text \<open>Concurrent adds: a probe that a thread has left behind is set, and stays so.\<close>

definition threads_ok :: "(nat \<Rightarrow> 32 word list) \<Rightarrow> nat \<Rightarrow> octet list \<times> bloom_threads \<Rightarrow> bool" where
  "threads_ok probes n s \<longleftrightarrow> length (fst s) = n
     \<and> (\<forall>t. \<exists>finished. probes t = finished @ fst (snd s t) \<and> (\<forall>p\<in>set finished. bit_set (fst s) p))"

lemma bloom_step_ok:
  assumes "bloom_step s s'" "threads_ok probes n s" "\<forall>t. \<forall>p\<in>set (probes t). unat p div 8 < n"
  shows "threads_ok probes n s'"
  using assms(1)
proof cases
  case (load_set pc t p ps data)
  obtain finished where f: "probes t = finished @ p # ps" "\<forall>q\<in>set finished. bit_set data q"
    using assms(2) load_set by (auto simp: threads_ok_def dest: spec [of _ t])
  have "bit_set data p" using load_set(5) by (simp add: mask_set bit_set_def unat_div_mod_8)
  then show ?thesis
    using assms(2) load_set f by (auto simp: threads_ok_def intro!: exI [of _ "finished @ [p]"])
next
  case (load_unset pc t p ps data)
  then show ?thesis using assms(2) by (auto simp: threads_ok_def dest: spec [of _ t])
next
  case (fetch_or pc t p ps data)
  let ?d = "set_bit_at p data"
  have r: "in_range data p" using fetch_or by (simp add: in_range_def unat_div_mod_8)
  obtain finished where f: "probes t = finished @ p # ps" "\<forall>q\<in>set finished. bit_set data q"
    using assms(2) fetch_or by (auto simp: threads_ok_def dest: spec [of _ t])
  have s': "s' = (?d, pc(t := (ps, False)))" using fetch_or by (simp add: set_bit_at_def unat_div_mod_8)
  have mono: "bit_set data q \<Longrightarrow> bit_set ?d q" for q using r by (simp add: bit_set_at)
  have "\<exists>finished. probes t' = finished @ fst ((pc(t := (ps, False))) t') \<and> (\<forall>q\<in>set finished. bit_set ?d q)" for t'
  proof (cases "t' = t")
    case True
    then show ?thesis using f mono r by (auto simp: bit_set_at intro!: exI [of _ "finished @ [p]"])
  next
    case False
    obtain fin where "probes t' = fin @ fst (pc t')" "\<forall>q\<in>set fin. bit_set data q"
      using assms(2) fetch_or(1) by (auto simp: threads_ok_def dest: spec [of _ t'])
    then show ?thesis using False mono by (intro exI [of _ fin]) auto
  qed
  then show ?thesis using assms(2) fetch_or(1) unfolding s' threads_ok_def by simp
qed

lemma bloom_steps_ok:
  assumes "bloom_step\<^sup>*\<^sup>* s s'" "threads_ok probes n s" "\<forall>t. \<forall>p\<in>set (probes t). unat p div 8 < n"
  shows "threads_ok probes n s'"
  using assms by (induction rule: rtranclp_induct) (auto intro: bloom_step_ok)

section \<open>Hashing by blocks of bytes\<close>

definition chunks :: "nat \<Rightarrow> octet list \<Rightarrow> octet list list" where
  "chunks k data = map (\<lambda>i. take k (drop (k * i) data)) [0..<length data div k]"

lemma chunks_step: "0 < k \<Longrightarrow> k \<le> length data \<Longrightarrow> chunks k data = take k data # chunks k (drop k data)"
proof -
  assume k: "0 < k" "k \<le> length data"
  then have "length data div k = Suc ((length data - k) div k)" by (simp add: le_div_geq)
  then show ?thesis by (simp add: chunks_def upt_conv_Cons comp_def add.commute flip: map_Suc_upt del: upt_Suc)
qed

lemma chunks_short: "length data < k \<Longrightarrow> chunks k data = []"
  by (simp add: chunks_def)

lemma drop_chunks: "0 < k \<Longrightarrow> k \<le> length data \<Longrightarrow> drop (k * ((length data - k) div k)) (drop k data) = drop (k * (length data div k)) data"
  by (simp add: le_div_geq add.commute)

definition Hash_mix :: "32 word \<Rightarrow> octet list \<Rightarrow> 32 word" where
  "Hash_mix h c = (let h = (h + from_le c) * 0xc6a4a793 in h XOR drop_bit 16 h)"

definition Hash32_mix :: "32 word \<Rightarrow> octet list \<Rightarrow> 32 word" where
  "Hash32_mix h c = (let k = from_le c * 0x5bd1e995; k = k XOR drop_bit 24 k; k = k * 0x5bd1e995 in (h * 0x5bd1e995) XOR k)"

definition Hash64_mix :: "64 word \<Rightarrow> octet list \<Rightarrow> 64 word" where
  "Hash64_mix h c = (let k = from_le c * 0xc6a4a7935bd1e995; k = k XOR drop_bit 47 k; k = k * 0xc6a4a7935bd1e995
                     in (h XOR k) * 0xc6a4a7935bd1e995)"

text \<open>The loops fold the mixing step over the blocks and leave the rest, for hosts of either byte order.\<close>

lemma Hash_loop_step:
  "4 \<le> length data \<Longrightarrow> Hash_loop le data h = Hash_loop le (drop 4 data) (Hash_mix h (take 4 data))"
  "length data < 4 \<Longrightarrow> Hash_loop le data h = Inr (h, data)"
  by (subst Hash_loop.simps, simp add: DecodeFixed32_from_le Hash_mix_def Let_def)+

lemma Hash32_loop_step:
  "4 \<le> length data \<Longrightarrow> Hash32_loop le data h = Hash32_loop le (drop 4 data) (Hash32_mix h (take 4 data))"
  "length data < 4 \<Longrightarrow> Hash32_loop le data h = Inr (h, data)"
  by (subst Hash32_loop.simps, simp add: DecodeFixed32_from_le Hash32_mix_def Let_def)+

lemma Hash64_loop_step:
  "8 \<le> length data \<Longrightarrow> Hash64_loop le data h = Hash64_loop le (drop 8 data) (Hash64_mix h (take 8 data))"
  "length data < 8 \<Longrightarrow> Hash64_loop le data h = Inr (h, data)"
  by (subst Hash64_loop.simps, simp add: DecodeFixed64_from_le Hash64_mix_def Let_def)+

lemma Hash_loop_chunks: "Hash_loop le data h = Inr (foldl Hash_mix h (chunks 4 data), drop (4 * (length data div 4)) data)"
proof (induction "length data" arbitrary: data h rule: less_induct)
  case less
  show ?case
  proof (cases "4 \<le> length data")
    case True
    then show ?thesis using less [of "drop 4 data"] drop_chunks [of 4 data] by (simp add: Hash_loop_step(1) chunks_step)
  qed (simp add: Hash_loop_step(2) chunks_short)
qed

lemma Hash32_loop_chunks: "Hash32_loop le data h = Inr (foldl Hash32_mix h (chunks 4 data), drop (4 * (length data div 4)) data)"
proof (induction "length data" arbitrary: data h rule: less_induct)
  case less
  show ?case
  proof (cases "4 \<le> length data")
    case True
    then show ?thesis using less [of "drop 4 data"] drop_chunks [of 4 data] by (simp add: Hash32_loop_step(1) chunks_step)
  qed (simp add: Hash32_loop_step(2) chunks_short)
qed

lemma Hash64_loop_chunks: "Hash64_loop le data h = Inr (foldl Hash64_mix h (chunks 8 data), drop (8 * (length data div 8)) data)"
proof (induction "length data" arbitrary: data h rule: less_induct)
  case less
  show ?case
  proof (cases "8 \<le> length data")
    case True
    then show ?thesis using less [of "drop 8 data"] drop_chunks [of 8 data] by (simp add: Hash64_loop_step(1) chunks_step)
  qed (simp add: Hash64_loop_step(2) chunks_short)
qed

lemma chunks_append: "0 < k \<Longrightarrow> k dvd length xs \<Longrightarrow> length ys < k \<Longrightarrow> chunks k (xs @ ys) = chunks k xs"
  by (auto simp: chunks_def dvd_def intro!: map_cong) (metis Suc_leI mult_Suc_right mult_le_mono2)

section \<open>Properties\<close>

text \<open>
  C28. No false negatives: with an array large enough for its bits or blocks, every hash that was added, by \<open>AddHash\<close> or
  \<open>AddHashConcurrently\<close>, in whatever order and among whatever others, is reported by \<open>MayContainHash\<close>, what was
  reported stays reported, and no access leaves the array.  With several threads in
  \<open>AddHashConcurrently\<close>, in every interleaving of their loads and atomic updates, a thread that
  has finished finds its hash, and a thread that has not can go on.
\<close>
theorem bloom_no_false_negatives:
  assumes "bloom_ok cls b"
  shows "(\<exists>b'. add_hashes cls hs b = Inr b' \<and> (\<forall>h\<in>set hs. MayContainHash cls b' h = Inr True)
            \<and> (\<forall>h. MayContainHash cls b h = Inr True \<longrightarrow> MayContainHash cls b' h = Inr True))
    \<and> AddHashConcurrently cls h b = AddHash cls h b
    \<and> (\<forall>data pc t. bloom_step\<^sup>*\<^sup>* (bloom_data b, \<lambda>t. (bloom_probes cls b (g t), False)) (data, pc) \<longrightarrow>
         (fst (pc t) = [] \<longrightarrow> MayContainHash cls (b\<lparr>bloom_data := data\<rparr>) (g t) = Inr True)
         \<and> (fst (pc t) \<noteq> [] \<longrightarrow> (\<exists>data' pc'. bloom_step (data, pc) (data', pc') \<and> pc' t \<noteq> pc t)))"
proof (intro conjI allI impI)
  obtain d where d: "add_hashes cls hs b = Inr (b\<lparr>bloom_data := d\<rparr>)" "length d = length (bloom_data b)"
    "\<forall>q. bit_set d q \<longleftrightarrow> (\<exists>h\<in>set hs. q \<in> set (bloom_probes cls b h)) \<or> bit_set (bloom_data b) q"
    using add_hashes_ok [OF assms] by blast
  have "bloom_ok cls (b\<lparr>bloom_data := d\<rparr>)" using assms d(2) by simp
  then show "\<exists>b'. add_hashes cls hs b = Inr b' \<and> (\<forall>h\<in>set hs. MayContainHash cls b' h = Inr True)
            \<and> (\<forall>h. MayContainHash cls b h = Inr True \<longrightarrow> MayContainHash cls b' h = Inr True)"
    using d assms by (auto simp: MayContainHash_ok)
  show "AddHashConcurrently cls h b = AddHash cls h b" by (simp add: AddHashConcurrently_def AddHash_def or_fetch_store)
  fix data pc t assume steps: "bloom_step\<^sup>*\<^sup>* (bloom_data b, \<lambda>t. (bloom_probes cls b (g t), False)) (data, pc)"
  let ?n = "length (bloom_data b)" and ?pr = "\<lambda>t. bloom_probes cls b (g t)"
  have rng: "\<forall>t. \<forall>p\<in>set (?pr t). unat p div 8 < ?n" using bloom_probes_range [OF assms] by (auto simp: in_range_def)
  have "threads_ok ?pr ?n (bloom_data b, \<lambda>t. (?pr t, False))" by (simp add: threads_ok_def)
  from bloom_steps_ok [OF steps this rng] have ok: "threads_ok ?pr ?n (data, pc)" .
  have len: "length data = ?n" using ok by (simp add: threads_ok_def)
  obtain fin where fin: "?pr t = fin @ fst (pc t)" "\<forall>p\<in>set fin. bit_set data p" using ok by (auto simp: threads_ok_def dest: spec [of _ t])
  show "MayContainHash cls (b\<lparr>bloom_data := data\<rparr>) (g t) = Inr True" if "fst (pc t) = []"
    using fin that assms len by (simp add: MayContainHash_ok)
  show "\<exists>data' pc'. bloom_step (data, pc) (data', pc') \<and> pc' t \<noteq> pc t" if ne: "fst (pc t) \<noteq> []"
  proof -
    obtain p ps f where pc: "pc t = (p # ps, f)" using ne by (cases "pc t"; cases "fst (pc t)") auto
    have "p \<in> set (?pr t)" using fin(1) pc by simp
    then have r: "unat (p div 8) < length data" using rng len by (auto simp: unat_div_mod_8)
    show ?thesis
    proof (cases f)
      case True
      then show ?thesis using bloom_step.fetch_or [of pc t p ps data] pc r by fastforce
    next
      case False
      then show ?thesis using bloom_step.load_set [of pc t p ps data] bloom_step.load_unset [of pc t p ps data] pc r by fastforce
    qed
  qed
qed

definition small_bloom :: DynamicBloom where
  "small_bloom = \<lparr>kTotalBits = 16, kNumBlocks = 0, kNumProbes = 2, bloom_data = [0, 0]\<rparr>"

theorem bloom_no_false_negatives_witness:
  "\<exists>b'. add_hashes 64 [5, 77] small_bloom = Inr b' \<and> MayContainHash 64 b' 77 = Inr True"
proof -
  have "bloom_ok 64 small_bloom" by (simp add: bloom_ok_def small_bloom_def IsInitialized_def)
  from bloom_no_false_negatives [OF this, of "[5, 77]" 0 "\<lambda>_. 0"] show ?thesis by auto
qed



end
