(* ===== verification/Handle_Table.thy ===== *)
theory Handle_Table
  imports List_Util Hash_Bloom
begin

unbundle bit_operations_syntax

text \<open>
  The entries, the hash table and the recency lists of the LRU cache of \<open>cache.cpp\<close>.  Entries are heap cells with an
  address; their links \<open>next\<close> and \<open>prev\<close> are those of \<open>List_Util\<close>, and \<open>next_hash\<close> chains the entries of a bucket.
  An access to a freed entry is an error, as is a chain that never ends.
\<close>

section \<open>The state of a shard\<close>

record 'v LRUHandle =
  lh_value :: 'v
  lh_deleter :: nat
  lh_charge :: "64 word"
  lh_key :: "octet list"
  lh_in_cache :: bool
  lh_refs :: "32 word"
  lh_hash :: "32 word"

text \<open>
  \<open>sc_deleted\<close> logs the calls of deleters.  The addresses 1 and 2 are the list heads \<open>lru_\<close> and \<open>in_use_\<close>, 0 is the null
  pointer.
\<close>

record 'v LRUCache =
  sc_capacity :: "64 word"
  sc_usage :: "64 word"
  sc_links :: list_head
  sc_length :: "32 word"
  sc_elems :: "32 word"
  sc_list :: "nat option list"
  sc_next_hash :: "nat \<Rightarrow> nat option"
  sc_handles :: "nat \<Rightarrow> 'v LRUHandle option"
  sc_deleted :: "(nat \<times> octet list \<times> 'v) list"

definition null_ptr :: nat where "null_ptr = 0"
definition lru_head :: nat where "lru_head = 1"
definition in_use_head :: nat where "in_use_head = 2"

definition get_handle :: "nat \<Rightarrow> 'v LRUCache \<Rightarrow> 'v LRUHandle result" where
  "get_handle e s = (case sc_handles s e of None \<Rightarrow> Inl OutOfBounds | Some h \<Rightarrow> Inr h)"

definition set_handle :: "nat \<Rightarrow> 'v LRUHandle \<Rightarrow> 'v LRUCache \<Rightarrow> 'v LRUCache" where
  "set_handle e h s = s\<lparr>sc_handles := (sc_handles s)(e \<mapsto> h)\<rparr>"

definition handle_key :: "nat \<Rightarrow> 'v LRUCache \<Rightarrow> octet list result" where
  "handle_key e s =
     ub_bind (get_handle e s) (\<lambda>h. if nxt (sc_links s) e \<noteq> e then Inr (lh_key h) else Inl AssertFailed)"

section \<open>\<open>HandleTable\<close>\<close>

text \<open>A pointer to a pointer: a bucket of the array, or the field \<open>next_hash\<close> of an entry.\<close>

datatype hslot = Bucket nat | NextHash nat

definition deref_slot :: "'v LRUCache \<Rightarrow> hslot \<Rightarrow> nat option result" where
  "deref_slot s p =
     (case p of Bucket i \<Rightarrow> if i < length (sc_list s) then Inr (sc_list s ! i) else Inl OutOfBounds
      | NextHash e \<Rightarrow> ub_bind (get_handle e s) (\<lambda>_. Inr (sc_next_hash s e)))"

definition assign_slot :: "hslot \<Rightarrow> nat option \<Rightarrow> 'v LRUCache \<Rightarrow> 'v LRUCache" where
  "assign_slot p v s =
     (case p of Bucket i \<Rightarrow> s\<lparr>sc_list := (sc_list s)[i := v]\<rparr>
      | NextHash e \<Rightarrow> s\<lparr>sc_next_hash := (sc_next_hash s)(e := v)\<rparr>)"

text \<open>Whether the loop goes on at entry \<open>e\<close>.\<close>

definition other_entry :: "octet list \<Rightarrow> 32 word \<Rightarrow> nat \<Rightarrow> 'v LRUCache \<Rightarrow> bool result" where
  "other_entry key hash e s =
     ub_bind (get_handle e s) (\<lambda>h.
     if lh_hash h \<noteq> hash then Inr True else ub_bind (handle_key e s) (\<lambda>k. Inr (\<not> StringPiece_eq key k)))"

partial_function (option) FindPointer_loop :: "octet list \<Rightarrow> 32 word \<Rightarrow> 'v LRUCache \<Rightarrow> hslot \<Rightarrow> hslot result option" where
  "FindPointer_loop key hash s ptr =
     (case deref_slot s ptr of Inl e \<Rightarrow> Some (Inl e)
      | Inr None \<Rightarrow> Some (Inr ptr)
      | Inr (Some e) \<Rightarrow>
          (case other_entry key hash e s of Inl err \<Rightarrow> Some (Inl err)
           | Inr other \<Rightarrow> if other then FindPointer_loop key hash s (NextHash e) else Some (Inr ptr)))"

definition FindPointer :: "octet list \<Rightarrow> 32 word \<Rightarrow> 'v LRUCache \<Rightarrow> hslot result" where
  "FindPointer key hash s =
     (case FindPointer_loop key hash s (Bucket (unat (hash AND (sc_length s - 1)))) of None \<Rightarrow> Inl Diverges | Some r \<Rightarrow> r)"

partial_function (option) new_length_loop :: "32 word \<Rightarrow> 32 word \<Rightarrow> 32 word option" where
  "new_length_loop elems new_length = (if new_length < elems then new_length_loop elems (new_length * 2) else Some new_length)"

text \<open>Moving the entries of one bucket to the new array; \<open>count\<close> counts them.\<close>

partial_function (option) move_bucket ::
    "32 word \<Rightarrow> nat option \<Rightarrow> nat option list \<Rightarrow> 32 word \<Rightarrow> 'v LRUCache \<Rightarrow> (nat option list \<times> 32 word \<times> 'v LRUCache) result option" where
  "move_bucket new_length h new_list count s =
     (case h of None \<Rightarrow> Some (Inr (new_list, count, s))
      | Some e \<Rightarrow>
          (case get_handle e s of Inl err \<Rightarrow> Some (Inl err)
           | Inr x \<Rightarrow>
               let next = sc_next_hash s e;
                   i = unat (lh_hash x AND (new_length - 1))
               in if i < length new_list
                  then move_bucket new_length next (new_list[i := Some e]) (count + 1)
                         (s\<lparr>sc_next_hash := (sc_next_hash s)(e := new_list ! i)\<rparr>)
                  else Some (Inl OutOfBounds)))"

primrec move_buckets ::
    "32 word \<Rightarrow> nat option list \<Rightarrow> nat option list \<Rightarrow> 32 word \<Rightarrow> 'v LRUCache \<Rightarrow> (nat option list \<times> 32 word \<times> 'v LRUCache) result" where
  "move_buckets new_length [] new_list count s = Inr (new_list, count, s)"
| "move_buckets new_length (h # hs) new_list count s =
     (case move_bucket new_length h new_list count s of None \<Rightarrow> Inl Diverges
      | Some r \<Rightarrow> ub_bind r (\<lambda>(new_list, count, s). move_buckets new_length hs new_list count s))"

definition HandleTable_Resize :: "'v LRUCache \<Rightarrow> 'v LRUCache result" where
  "HandleTable_Resize s =
     (case new_length_loop (sc_elems s) 4 of None \<Rightarrow> Inl Diverges
      | Some new_length \<Rightarrow>
          ub_bind (move_buckets new_length (take (unat (sc_length s)) (sc_list s)) (replicate (unat new_length) None) 0 s)
            (\<lambda>(new_list, count, s).
            if sc_elems s = count then Inr (s\<lparr>sc_list := new_list, sc_length := new_length\<rparr>) else Inl AssertFailed))"

definition HandleTable_Lookup :: "octet list \<Rightarrow> 32 word \<Rightarrow> 'v LRUCache \<Rightarrow> nat option result" where
  "HandleTable_Lookup key hash s = ub_bind (FindPointer key hash s) (deref_slot s)"

definition HandleTable_Insert :: "nat \<Rightarrow> 'v LRUCache \<Rightarrow> (nat option \<times> 'v LRUCache) result" where
  "HandleTable_Insert e s =
     ub_bind (handle_key e s) (\<lambda>key.
     ub_bind (get_handle e s) (\<lambda>h.
     ub_bind (FindPointer key (lh_hash h) s) (\<lambda>ptr.
     ub_bind (deref_slot s ptr) (\<lambda>old.
     let s = s\<lparr>sc_next_hash := (sc_next_hash s)(e := (case old of None \<Rightarrow> None | Some x \<Rightarrow> sc_next_hash s x))\<rparr>;
         s = assign_slot ptr (Some e) s
     in if old = None
        then let s = s\<lparr>sc_elems := sc_elems s + 1\<rparr>
             in if sc_elems s > sc_length s then ub_bind (HandleTable_Resize s) (\<lambda>s. Inr (old, s)) else Inr (old, s)
        else Inr (old, s)))))"

definition HandleTable_Remove :: "octet list \<Rightarrow> 32 word \<Rightarrow> 'v LRUCache \<Rightarrow> (nat option \<times> 'v LRUCache) result" where
  "HandleTable_Remove key hash s =
     ub_bind (FindPointer key hash s) (\<lambda>ptr.
     ub_bind (deref_slot s ptr) (\<lambda>res.
     case res of None \<Rightarrow> Inr (None, s)
     | Some e \<Rightarrow>
         ub_bind (get_handle e s) (\<lambda>_.
         Inr (Some e, (assign_slot ptr (sc_next_hash s e) s)\<lparr>sc_elems := sc_elems s - 1\<rparr>))))"

section \<open>Chains\<close>

primrec hchain :: "(nat \<Rightarrow> nat option) \<Rightarrow> nat option \<Rightarrow> nat list \<Rightarrow> bool" where
  "hchain nh p [] \<longleftrightarrow> p = None"
| "hchain nh p (x # xs) \<longleftrightarrow> p = Some x \<and> hchain nh (nh x) xs"

definition chains_ok :: "nat option list \<Rightarrow> (nat \<Rightarrow> nat option) \<Rightarrow> nat list list \<Rightarrow> bool" where
  "chains_ok ls nh bs \<longleftrightarrow> length ls = length bs \<and> (\<forall>i<length bs. hchain nh (ls ! i) (bs ! i))"

text \<open>The slot behind the entries \<open>as\<close> of a chain, and what it holds.\<close>

definition slot_after :: "hslot \<Rightarrow> nat list \<Rightarrow> hslot" where
  "slot_after p as = (if as = [] then p else NextHash (last as))"

definition first_of :: "nat list \<Rightarrow> nat option" where
  "first_of xs = (case xs of [] \<Rightarrow> None | x # _ \<Rightarrow> Some x)"

lemma first_of_simps [simp]: "first_of [] = None" "first_of (x # xs) = Some x"
  by (simp_all add: first_of_def)

lemma hchain_first: "hchain nh p xs \<Longrightarrow> p = first_of xs"
  by (cases xs) auto

lemma hchain_upd: "e \<notin> set xs \<Longrightarrow> hchain (nh(e := v)) p xs = hchain nh p xs"
  by (induction xs arbitrary: p) auto

lemma hchain_cong: "(\<And>e. e \<in> set xs \<Longrightarrow> nh' e = nh e) \<Longrightarrow> hchain nh' p xs = hchain nh p xs"
  by (induction xs arbitrary: p) auto

lemma hchain_rest: "hchain nh p (as @ bs) \<Longrightarrow> as \<noteq> [] \<Longrightarrow> hchain nh (nh (last as)) bs"
proof (induction as arbitrary: p)
  case (Cons a as)
  then show ?case by (cases "as = []") auto
qed simp

lemma hchain_splice:
  assumes "hchain nh p (as @ bs)" "as \<noteq> []" "distinct as" "hchain nh v cs" "last as \<notin> set cs"
  shows "hchain (nh(last as := v)) p (as @ cs)"
  using assms
proof (induction as arbitrary: p)
  case (Cons a as)
  show ?case
  proof (cases "as = []")
    case True
    then show ?thesis using Cons.prems hchain_upd [of a cs nh v v] by (simp add: fun_upd_def)
  next
    case False
    then have "a \<noteq> last as" using Cons.prems(3) by auto
    then show ?thesis using Cons False by simp
  qed
qed simp

text \<open>Writing the slot behind \<open>as\<close> in bucket \<open>i\<close> replaces the rest of that chain.\<close>

lemma chains_assign:
  assumes c: "chains_ok (sc_list s) (sc_next_hash s) bs" and i: "i < length bs" and b: "bs ! i = as @ bs'"
    and v: "hchain (sc_next_hash s) v cs" and d: "distinct as" "set as \<inter> set cs = {}"
    and o: "\<And>j. j < length bs \<Longrightarrow> j \<noteq> i \<Longrightarrow> set as \<inter> set (bs ! j) = {}"
  shows "chains_ok (sc_list (assign_slot (slot_after (Bucket i) as) v s)) (sc_next_hash (assign_slot (slot_after (Bucket i) as) v s))
    (bs[i := as @ cs])"
proof (cases "as = []")
  case True
  then show ?thesis using c i v by (auto simp: chains_ok_def slot_after_def assign_slot_def nth_list_update)
next
  case False
  then have "last as \<in> set as" by simp
  then have n: "last as \<notin> set cs" "\<And>j. j < length bs \<Longrightarrow> j \<noteq> i \<Longrightarrow> last as \<notin> set (bs ! j)" using d(2) o by blast+
  have "hchain (sc_next_hash s) (sc_list s ! i) (as @ bs')" using c i b by (metis chains_ok_def)
  from hchain_splice [OF this False d(1) v n(1)]
  have "hchain ((sc_next_hash s)(last as := v)) (sc_list s ! i) (as @ cs)" .
  then show ?thesis
    using c i n(2) False by (auto simp: chains_ok_def slot_after_def assign_slot_def nth_list_update hchain_upd)
qed

section \<open>Lookup\<close>

definition alive :: "'v LRUCache \<Rightarrow> nat \<Rightarrow> bool" where
  "alive s e \<longleftrightarrow> sc_handles s e \<noteq> None \<and> nxt (sc_links s) e \<noteq> e"

definition hash_of :: "'v LRUCache \<Rightarrow> nat \<Rightarrow> 32 word" where
  "hash_of s e = lh_hash (the (sc_handles s e))"

definition key_of :: "'v LRUCache \<Rightarrow> nat \<Rightarrow> octet list" where
  "key_of s e = lh_key (the (sc_handles s e))"

definition matches :: "octet list \<Rightarrow> 32 word \<Rightarrow> 'v LRUCache \<Rightarrow> nat \<Rightarrow> bool" where
  "matches key hash s e \<longleftrightarrow> hash_of s e = hash \<and> key_of s e = key"

lemma StringPiece_eq_iff: "StringPiece_eq x y \<longleftrightarrow> x = y"
  by (auto simp: StringPiece_eq_def memcmp_eq)

lemma other_entry_alive: "alive s e \<Longrightarrow> other_entry key hash e s = Inr (\<not> matches key hash s e)"
  by (auto simp: alive_def other_entry_def get_handle_def handle_key_def matches_def hash_of_def key_of_def StringPiece_eq_iff)

lemma deref_NextHash: "alive s e \<Longrightarrow> deref_slot s (NextHash e) = Inr (sc_next_hash s e)"
  by (auto simp: deref_slot_def alive_def get_handle_def)

lemma FindPointer_loop_chain:
  assumes "hchain (sc_next_hash s) h xs" "deref_slot s p = Inr h" "\<forall>e\<in>set xs. alive s e"
  shows "\<exists>as bs. xs = as @ bs \<and> (\<forall>e\<in>set as. \<not> matches key hash s e) \<and> (bs \<noteq> [] \<longrightarrow> matches key hash s (hd bs))
    \<and> FindPointer_loop key hash s p = Some (Inr (slot_after p as)) \<and> deref_slot s (slot_after p as) = Inr (first_of bs)"
  using assms
proof (induction xs arbitrary: h p)
  case Nil
  then show ?case by (auto simp: slot_after_def) (subst FindPointer_loop.simps, simp)
next
  case (Cons x xs)
  have h: "h = Some x" "hchain (sc_next_hash s) (sc_next_hash s x) xs" and x: "alive s x" using Cons.prems by auto
  show ?case
  proof (cases "matches key hash s x")
    case True
    then have "FindPointer_loop key hash s p = Some (Inr p)"
      using Cons.prems(2) h(1) other_entry_alive [OF x, of key hash] by (subst FindPointer_loop.simps) simp
    then show ?thesis using True Cons.prems(2) h(1) by (intro exI [of _ "[]"] exI [of _ "x # xs"]) (simp add: slot_after_def)
  next
    case False
    then have step: "FindPointer_loop key hash s p = FindPointer_loop key hash s (NextHash x)"
      using Cons.prems(2) h(1) other_entry_alive [OF x, of key hash] by (subst FindPointer_loop.simps) simp
    obtain as bs where "xs = as @ bs" "\<forall>e\<in>set as. \<not> matches key hash s e" "bs \<noteq> [] \<longrightarrow> matches key hash s (hd bs)"
      "FindPointer_loop key hash s (NextHash x) = Some (Inr (slot_after (NextHash x) as))"
      "deref_slot s (slot_after (NextHash x) as) = Inr (first_of bs)"
      using Cons.IH [OF h(2) deref_NextHash [OF x]] Cons.prems(3) by auto
    moreover have "slot_after (NextHash x) as = slot_after p (x # as)" by (simp add: slot_after_def)
    ultimately show ?thesis using False step by (intro exI [of _ "x # as"] exI [of _ bs]) simp
  qed
qed

section \<open>The table\<close>

definition bucket_of :: "'v LRUCache \<Rightarrow> 32 word \<Rightarrow> nat \<Rightarrow> nat" where
  "bucket_of s len e = unat (hash_of s e AND (len - 1))"

definition members :: "nat list list \<Rightarrow> nat set" where
  "members bs = \<Union> (set ` set bs)"

text \<open>The entries of each bucket, without repetition and in the bucket of their hash.\<close>

definition buckets_ok :: "'v LRUCache \<Rightarrow> 32 word \<Rightarrow> nat list list \<Rightarrow> bool" where
  "buckets_ok s len bs \<longleftrightarrow> length bs = unat len
     \<and> (\<forall>i<length bs. distinct (bs ! i) \<and> (\<forall>e\<in>set (bs ! i). alive s e \<and> bucket_of s len e = i))"

definition pow2_length :: "32 word \<Rightarrow> bool" where
  "pow2_length len \<longleftrightarrow> (\<exists>k. 2 \<le> k \<and> k \<le> 31 \<and> len = 2 ^ k)"

definition table_ok :: "'v LRUCache \<Rightarrow> nat list list \<Rightarrow> bool" where
  "table_ok s bs \<longleftrightarrow> chains_ok (sc_list s) (sc_next_hash s) bs \<and> buckets_ok s (sc_length s) bs \<and> pow2_length (sc_length s)
     \<and> sc_elems s = of_nat (sum_list (map length bs)) \<and> sum_list (map length bs) \<le> unat (sc_length s)
     \<and> inj_on (\<lambda>e. (hash_of s e, key_of s e)) (members bs)"

lemma mem_members: "e \<in> members bs \<longleftrightarrow> (\<exists>i<length bs. e \<in> set (bs ! i))"
  unfolding members_def by (metis UN_iff in_set_conv_nth)

lemma bucket_less: "pow2_length len \<Longrightarrow> unat (h AND (len - 1)) < unat len"
proof -
  assume "pow2_length len"
  then obtain k where k: "k \<le> 31" "len = 2 ^ k" by (auto simp: pow2_length_def)
  have "(2 :: nat) ^ k \<le> 2 ^ 31" using k(1) by (intro power_increasing) auto
  then have u: "unat len = 2 ^ k" using unat_of_nat [of "2 ^ k", where ?'a = 32] k(2) by simp
  have "h AND (len - 1) = take_bit k h" using k(2) by (simp add: take_bit_eq_mask mask_eq_exp_minus_1)
  then have "unat (h AND (len - 1)) = take_bit k (unat h)" by (simp add: unsigned_take_bit_eq)
  then show ?thesis using u by simp
qed

lemma bucket_member:
  assumes "buckets_ok s len bs" "pow2_length len"
  shows "e \<in> members bs \<longleftrightarrow> e \<in> set (bs ! bucket_of s len e)"
  using assms bucket_less [OF assms(2), of "hash_of s e"] by (auto simp: mem_members buckets_ok_def bucket_of_def)

lemma bucket_disjoint:
  "buckets_ok s len bs \<Longrightarrow> i < length bs \<Longrightarrow> j < length bs \<Longrightarrow> i \<noteq> j \<Longrightarrow> set (bs ! i) \<inter> set (bs ! j) = {}"
proof (rule equals0I)
  fix e assume a: "buckets_ok s len bs" "i < length bs" "j < length bs" "i \<noteq> j" and e: "e \<in> set (bs ! i) \<inter> set (bs ! j)"
  have "bucket_of s len e = k" if "k < length bs" "e \<in> set (bs ! k)" for k using a(1) that by (simp add: buckets_ok_def)
  from this [of i] this [of j] show False using a e by auto
qed

lemma members_update:
  assumes "buckets_ok s len bs" "i < length bs" "bs ! i = as @ bs'"
  shows "members (bs[i := as @ cs]) = members bs - set bs' \<union> set cs"
proof (rule set_eqI)
  fix e
  have d: "distinct (as @ bs')" using assms by (metis buckets_ok_def)
  have "e \<in> members (bs[i := as @ cs]) \<longleftrightarrow> e \<in> set (as @ cs) \<or> (\<exists>j<length bs. j \<noteq> i \<and> e \<in> set (bs ! j))"
    using assms(2) by (auto simp: mem_members nth_list_update)
  also have "\<dots> \<longleftrightarrow> e \<in> members bs - set bs' \<union> set cs"
    using d assms bucket_disjoint [OF assms(1)] by (auto simp: mem_members) (metis Un_iff disjoint_iff set_append)+
  finally show "e \<in> members (bs[i := as @ cs]) \<longleftrightarrow> e \<in> members bs - set bs' \<union> set cs" .
qed

lemma sum_update:
  assumes "i < length bs" "bs ! i = as @ bs'"
  shows "sum_list (map length (bs[i := as @ cs])) + length bs' = sum_list (map length bs) + length cs"
proof -
  have "length (bs ! i) \<le> sum_list (map length bs)" using assms(1) by (intro member_le_sum_list) auto
  then show ?thesis using assms by (simp add: map_update sum_list_update)
qed

lemma sum_card:
  assumes "buckets_ok s len bs"
  shows "sum_list (map length bs) = card (members bs)"
proof -
  have "members bs = (\<Union>i<length bs. set (bs ! i))" by (auto simp: mem_members)
  also have "card \<dots> = (\<Sum>i<length bs. card (set (bs ! i)))"
    using bucket_disjoint [OF assms] by (intro card_UN_disjoint) auto
  also have "\<dots> = (\<Sum>i<length bs. length (bs ! i))"
    using assms by (intro sum.cong) (auto simp: buckets_ok_def distinct_card)
  also have "\<dots> = sum_list (map length bs)" by (simp add: sum_list_sum_nth atLeast0LessThan)
  finally show ?thesis by simp
qed

lemma FindPointer_ok:
  assumes t: "table_ok s bs" and i: "i = unat (hash AND (sc_length s - 1))"
  shows "\<exists>as bs'. i < length bs \<and> bs ! i = as @ bs' \<and> (\<forall>e\<in>set as. \<not> matches key hash s e) \<and> (bs' \<noteq> [] \<longrightarrow> matches key hash s (hd bs'))
    \<and> FindPointer key hash s = Inr (slot_after (Bucket i) as) \<and> deref_slot s (slot_after (Bucket i) as) = Inr (first_of bs')"
proof -
  have p: "pow2_length (sc_length s)" and c: "chains_ok (sc_list s) (sc_next_hash s) bs" and b: "buckets_ok s (sc_length s) bs"
    using t by (simp_all add: table_ok_def)
  have il: "i < length bs" using bucket_less [OF p, of hash] i b by (simp add: buckets_ok_def)
  then have "hchain (sc_next_hash s) (sc_list s ! i) (bs ! i)" "deref_slot s (Bucket i) = Inr (sc_list s ! i)"
    using c by (simp_all add: chains_ok_def deref_slot_def)
  moreover have "\<forall>e\<in>set (bs ! i). alive s e" using b il by (simp add: buckets_ok_def)
  ultimately obtain as bs' where r: "bs ! i = as @ bs'" "\<forall>e\<in>set as. \<not> matches key hash s e" "bs' \<noteq> [] \<longrightarrow> matches key hash s (hd bs')"
    "FindPointer_loop key hash s (Bucket i) = Some (Inr (slot_after (Bucket i) as))"
    "deref_slot s (slot_after (Bucket i) as) = Inr (first_of bs')"
    using FindPointer_loop_chain [of s "sc_list s ! i" "bs ! i" "Bucket i" key hash] by blast
  then have "FindPointer key hash s = Inr (slot_after (Bucket i) as)" by (simp add: FindPointer_def flip: i)
  then show ?thesis using il r by blast
qed

text \<open>Nothing outside the bucket of a hash matches it.\<close>

lemma match_bucket:
  assumes t: "table_ok s bs" and "e \<in> members bs" "matches key hash s e"
  shows "e \<in> set (bs ! unat (hash AND (sc_length s - 1)))"
  using bucket_member [of s "sc_length s" bs e] assms by (simp add: table_ok_def matches_def bucket_of_def)

text \<open>The entry of a key, if there is one.\<close>

definition entry_for :: "'v LRUCache \<Rightarrow> nat set \<Rightarrow> octet list \<Rightarrow> 32 word \<Rightarrow> nat option \<Rightarrow> bool" where
  "entry_for s M key hash r \<longleftrightarrow> (case r of None \<Rightarrow> \<forall>e\<in>M. \<not> matches key hash s e | Some e \<Rightarrow> e \<in> M \<and> matches key hash s e)"

lemma entry_for_first:
  assumes t: "table_ok s bs" and i: "i = unat (hash AND (sc_length s - 1))" "i < length bs" "bs ! i = as @ bs'"
    and as: "\<forall>e\<in>set as. \<not> matches key hash s e" "bs' \<noteq> [] \<longrightarrow> matches key hash s (hd bs')"
  shows "entry_for s (members bs) key hash (first_of bs')"
proof (cases bs')
  case Nil
  have "\<not> matches key hash s e" if "e \<in> members bs" for e
    using match_bucket [OF t that, of key hash] as(1) i Nil by auto
  then show ?thesis using Nil by (simp add: entry_for_def)
next
  case (Cons x xs)
  then have "x \<in> members bs" using i by (auto simp: mem_members intro!: exI [of _ i])
  then show ?thesis using Cons as by (simp add: entry_for_def)
qed

lemma HandleTable_Lookup_ok:
  assumes "table_ok s bs"
  shows "\<exists>r. HandleTable_Lookup key hash s = Inr r \<and> entry_for s (members bs) key hash r"
proof -
  obtain as bs' where f: "unat (hash AND (sc_length s - 1)) < length bs" "bs ! unat (hash AND (sc_length s - 1)) = as @ bs'"
    "\<forall>e\<in>set as. \<not> matches key hash s e" "bs' \<noteq> [] \<longrightarrow> matches key hash s (hd bs')"
    "FindPointer key hash s = Inr (slot_after (Bucket (unat (hash AND (sc_length s - 1)))) as)"
    "deref_slot s (slot_after (Bucket (unat (hash AND (sc_length s - 1)))) as) = Inr (first_of bs')"
    using FindPointer_ok [OF assms refl] by blast
  then show ?thesis using entry_for_first [OF assms refl f(1-4)] by (simp add: HandleTable_Lookup_def)
qed

text \<open>What the operations on the table leave alone.\<close>

definition same_but_table :: "'v LRUCache \<Rightarrow> 'v LRUCache \<Rightarrow> bool" where
  "same_but_table s s' \<longleftrightarrow> sc_capacity s' = sc_capacity s \<and> sc_usage s' = sc_usage s \<and> sc_links s' = sc_links s
     \<and> sc_handles s' = sc_handles s \<and> sc_deleted s' = sc_deleted s"

lemma same_but_table_simps:
  assumes "same_but_table s s'"
  shows "alive s' = alive s" "hash_of s' = hash_of s" "key_of s' = key_of s" "matches key hash s' = matches key hash s"
    "bucket_of s' = bucket_of s" "buckets_ok s' = buckets_ok s"
proof -
  show a: "alive s' = alive s" "hash_of s' = hash_of s" "key_of s' = key_of s" "matches key hash s' = matches key hash s"
    using assms by (auto simp: same_but_table_def alive_def hash_of_def key_of_def matches_def fun_eq_iff)
  show b: "bucket_of s' = bucket_of s" by (simp add: bucket_of_def fun_eq_iff a)
  show "buckets_ok s' = buckets_ok s" by (simp add: buckets_ok_def fun_eq_iff a b)
qed

lemma assign_slot_same: "same_but_table s (assign_slot p v s)" "sc_elems (assign_slot p v s) = sc_elems s" "sc_length (assign_slot p v s) = sc_length s"
  by (cases p; simp add: same_but_table_def assign_slot_def)+

lemma HandleTable_Remove_ok:
  assumes t: "table_ok s bs"
  shows "\<exists>r s' bs'. HandleTable_Remove key hash s = Inr (r, s') \<and> entry_for s (members bs) key hash r
    \<and> same_but_table s s' \<and> table_ok s' bs' \<and> members bs' = members bs - set_option r"
proof -
  define i where "i = unat (hash AND (sc_length s - 1))"
  obtain as bs' where f: "i < length bs" "bs ! i = as @ bs'" "\<forall>e\<in>set as. \<not> matches key hash s e" "bs' \<noteq> [] \<longrightarrow> matches key hash s (hd bs')"
    "FindPointer key hash s = Inr (slot_after (Bucket i) as)" "deref_slot s (slot_after (Bucket i) as) = Inr (first_of bs')"
    using FindPointer_ok [OF t i_def] by blast
  note ef = entry_for_first [OF t i_def f(1-4)]
  show ?thesis
  proof (cases bs')
    case Nil
    then show ?thesis using t f ef by (auto simp: HandleTable_Remove_def same_but_table_def intro!: exI [of _ bs])
  next
    case (Cons x xs)
    have b: "buckets_ok s (sc_length s) bs" and c: "chains_ok (sc_list s) (sc_next_hash s) bs" using t by (simp_all add: table_ok_def)
    have "distinct (bs ! i)" "\<forall>e\<in>set (bs ! i). alive s e" using b f(1) by (simp_all add: buckets_ok_def)
    then have d: "distinct (as @ x # xs)" and al: "alive s x" using f(2) Cons by auto
    have ch: "hchain (sc_next_hash s) (sc_next_hash s x) xs"
      using c f(1,2) Cons hchain_rest [of "sc_next_hash s" "sc_list s ! i" "as @ [x]" xs] by (auto simp: chains_ok_def)
    define s' where "s' = (assign_slot (slot_after (Bucket i) as) (sc_next_hash s x) s)\<lparr>sc_elems := sc_elems s - 1\<rparr>"
    let ?s = s' and ?bs = "bs[i := as @ xs]"
    have same: "same_but_table s ?s" using assign_slot_same(1) [of s] by (simp add: same_but_table_def s'_def)
    have len: "sc_length s' = sc_length s" by (simp add: s'_def assign_slot_same)
    have chains: "chains_ok (sc_list ?s) (sc_next_hash ?s) ?bs"
      using chains_assign [OF c f(1,2) ch] d bucket_disjoint [OF b f(1)] f(2) by (auto simp: s'_def)
    have bk: "buckets_ok ?s (sc_length ?s) ?bs"
      using b d f(1,2) Cons
      by (auto simp: same_but_table_simps [OF same] len buckets_ok_def nth_list_update)
    have sum: "sum_list (map length ?bs) + 1 = sum_list (map length bs)"
      using sum_update [OF f(1,2), of xs] Cons by simp
    have "sc_elems ?s = of_nat (sum_list (map length ?bs))" using t sum by (simp add: table_ok_def s'_def flip: sum)
    moreover have m: "members ?bs = members bs - {x}"
    proof -
      have "set xs \<subseteq> members bs" using f(1,2) Cons by (auto simp: mem_members intro!: exI [of _ i])
      then show ?thesis using members_update [OF b f(1,2), of xs] d Cons by auto
    qed
    ultimately have "table_ok ?s ?bs"
      using t chains bk sum len
      by (auto simp: table_ok_def same_but_table_simps [OF same] m intro: inj_on_subset)
    moreover have "HandleTable_Remove key hash s = Inr (Some x, ?s)"
      using f(5,6) Cons al by (auto simp: HandleTable_Remove_def alive_def get_handle_def s'_def)
    ultimately show ?thesis using ef same m Cons by auto
  qed
qed

section \<open>Growing\<close>

lemma new_length_loop_ok:
  assumes "elems \<le> 2 ^ 31" "k \<le> 31"
  shows "\<exists>k'. k \<le> k' \<and> k' \<le> 31 \<and> new_length_loop elems (2 ^ k) = Some (2 ^ k') \<and> elems \<le> 2 ^ k'"
  using assms(2)
proof (induction "31 - k" arbitrary: k rule: less_induct)
  case less
  show ?case
  proof (cases "2 ^ k < elems")
    case True
    then have "k \<noteq> 31" using assms(1) by auto
    then have k: "k + 1 \<le> 31" using less.prems by simp
    have "new_length_loop elems (2 ^ k) = new_length_loop elems (2 ^ (k + 1))"
      using True by (subst new_length_loop.simps) (simp add: mult.commute)
    moreover have "31 - (k + 1) < 31 - k" using k by simp
    from less.hyps [OF this k] obtain k' where
      "k + 1 \<le> k'" "k' \<le> 31" "new_length_loop elems (2 ^ (k + 1)) = Some (2 ^ k')" "elems \<le> 2 ^ k'" by blast
    ultimately show ?thesis by (intro exI [of _ k']) simp
  next
    case False
    then have "new_length_loop elems (2 ^ k) = Some (2 ^ k)" by (subst new_length_loop.simps) simp
    then show ?thesis using False less.prems by auto
  qed
qed

text \<open>Moving an entry puts it in front of its new bucket.\<close>

definition push_entry :: "'v LRUCache \<Rightarrow> 32 word \<Rightarrow> nat list list \<Rightarrow> nat \<Rightarrow> nat list list" where
  "push_entry s len ns e = ns[bucket_of s len e := e # ns ! bucket_of s len e]"

lemma length_push_entry [simp]: "length (push_entry s len ns e) = length ns" "length (foldl (push_entry s len) ns xs) = length ns"
  by (simp add: push_entry_def) (induction xs arbitrary: ns; simp add: push_entry_def)

lemma push_entry_cong: "hash_of s' = hash_of s \<Longrightarrow> push_entry s' = push_entry s"
  by (simp add: push_entry_def bucket_of_def fun_eq_iff)

lemma members_push:
  "bucket_of s len e < length ns \<Longrightarrow> members (push_entry s len ns e) = insert e (members ns)"
  by (auto simp: mem_members push_entry_def nth_list_update split: if_splits)

lemma buckets_ok_push:
  assumes "buckets_ok s len ns" "pow2_length len" "alive s e" "e \<notin> members ns"
  shows "buckets_ok s len (push_entry s len ns e)"
proof -
  have i: "bucket_of s len e < length ns" using bucket_less [OF assms(2)] assms(1) by (simp add: bucket_of_def buckets_ok_def)
  have "e \<notin> set (ns ! bucket_of s len e)" using assms(4) i by (auto simp: mem_members)
  then show ?thesis using assms(1,3) i by (auto simp: buckets_ok_def push_entry_def nth_list_update)
qed

lemma move_bucket_ok:
  assumes "hchain (sc_next_hash s) h xs" "chains_ok nl (sc_next_hash s) ns" "buckets_ok s len ns" "pow2_length len"
    "distinct xs" "set xs \<inter> members ns = {}" "\<forall>e\<in>set xs. alive s e"
  shows "\<exists>nl' s'. move_bucket len h nl c s = Some (Inr (nl', c + of_nat (length xs), s'))
    \<and> same_but_table s s' \<and> sc_elems s' = sc_elems s \<and> (\<forall>e. e \<notin> set xs \<longrightarrow> sc_next_hash s' e = sc_next_hash s e)
    \<and> chains_ok nl' (sc_next_hash s') (foldl (push_entry s len) ns xs)
    \<and> buckets_ok s len (foldl (push_entry s len) ns xs) \<and> members (foldl (push_entry s len) ns xs) = members ns \<union> set xs"
  using assms
proof (induction xs arbitrary: h nl ns c s)
  case Nil
  then show ?case by (auto simp: same_but_table_def) (subst move_bucket.simps, simp)
next
  case (Cons x xs)
  define i where "i = bucket_of s len x"
  define s1 where "s1 = s\<lparr>sc_next_hash := (sc_next_hash s)(x := nl ! i)\<rparr>"
  let ?ns = "push_entry s len ns x" and ?nl = "nl[i := Some x]"
  have same: "same_but_table s s1" by (simp add: same_but_table_def s1_def)
  have nh: "sc_next_hash s1 = (sc_next_hash s)(x := nl ! i)" and el: "sc_elems s1 = sc_elems s" by (simp_all add: s1_def)
  have h: "h = Some x" "hchain (sc_next_hash s) (sc_next_hash s x) xs" using Cons.prems(1) by auto
  have x: "alive s x" "x \<notin> members ns" "x \<notin> set xs" using Cons.prems by auto
  have i: "i < length ns" using bucket_less [OF Cons.prems(4)] Cons.prems(3) by (simp add: i_def bucket_of_def buckets_ok_def)
  have len: "length nl = length ns" using Cons.prems(2) by (simp add: chains_ok_def)
  obtain hx where hx: "sc_handles s x = Some hx" using x(1) by (auto simp: alive_def)
  have m: "members ?ns = insert x (members ns)" using members_push i by (simp add: i_def)
  have run: "move_bucket len h nl c s = move_bucket len (sc_next_hash s x) ?nl (c + 1) s1"
    using h(1) hx i len by (subst move_bucket.simps) (simp add: get_handle_def Let_def i_def s1_def bucket_of_def hash_of_def)
  have "hchain (sc_next_hash s1) (sc_next_hash s x) xs" using h(2) x(3) by (simp add: nh hchain_upd)
  moreover have "chains_ok ?nl (sc_next_hash s1) ?ns"
  proof -
    have "hchain ((sc_next_hash s)(x := nl ! i)) (nl ! j) (ns ! j)" if "j < length ns" for j
      using Cons.prems(2) that x(2) by (auto simp: chains_ok_def mem_members hchain_upd)
    then show ?thesis using i len by (auto simp: chains_ok_def push_entry_def nth_list_update nh simp flip: i_def)
  qed
  moreover have "buckets_ok s1 len ?ns"
    using buckets_ok_push [OF Cons.prems(3,4) x(1,2)] by (simp add: same_but_table_simps [OF same])
  moreover have "distinct xs" "set xs \<inter> members ?ns = {}" "\<forall>e\<in>set xs. alive s1 e"
    using Cons.prems(5-7) x(3) m by (auto simp: same_but_table_simps [OF same])
  ultimately obtain nl' s' where r:
    "move_bucket len (sc_next_hash s x) ?nl (c + 1) s1 = Some (Inr (nl', c + 1 + of_nat (length xs), s'))"
    "same_but_table s1 s'" "sc_elems s' = sc_elems s" "\<forall>e. e \<notin> set xs \<longrightarrow> sc_next_hash s' e = sc_next_hash s1 e"
    "chains_ok nl' (sc_next_hash s') (foldl (push_entry s len) ?ns xs)"
    "buckets_ok s len (foldl (push_entry s len) ?ns xs)" "members (foldl (push_entry s len) ?ns xs) = members ?ns \<union> set xs"
    using Cons.IH [of s1 "sc_next_hash s x" ?nl ?ns "c + 1"] Cons.prems(4)
    unfolding same_but_table_simps [OF same] push_entry_cong [OF same_but_table_simps(2) [OF same]] el by blast
  have "same_but_table s s'" using r(2) same by (simp add: same_but_table_def)
  then show ?case using r run m nh by (auto simp: add.assoc)
qed

lemma move_buckets_ok:
  assumes "list_all2 (hchain (sc_next_hash s)) ls bs" "chains_ok nl (sc_next_hash s) ns" "buckets_ok s len ns" "pow2_length len"
    "distinct (concat bs)" "set (concat bs) \<inter> members ns = {}" "\<forall>e\<in>set (concat bs). alive s e"
  shows "\<exists>nl' s'. move_buckets len ls nl c s = Inr (nl', c + of_nat (length (concat bs)), s')
    \<and> same_but_table s s' \<and> sc_elems s' = sc_elems s \<and> chains_ok nl' (sc_next_hash s') (foldl (push_entry s len) ns (concat bs))
    \<and> buckets_ok s len (foldl (push_entry s len) ns (concat bs))
    \<and> members (foldl (push_entry s len) ns (concat bs)) = members ns \<union> set (concat bs)"
  using assms
proof (induction bs arbitrary: ls nl ns c s rule: list.induct)
  case Nil
  from Nil.prems(1) have "ls = []" unfolding list_all2_Nil2 .
  then show ?case using Nil by (intro exI [of _ nl] exI [of _ s]) (simp add: same_but_table_def)
next
  case (Cons b bs)
  obtain h hs where ls: "ls = h # hs" "hchain (sc_next_hash s) h b" "list_all2 (hchain (sc_next_hash s)) hs bs"
    using Cons.prems(1) by (auto simp: list_all2_Cons2)
  have "distinct b" "set b \<inter> members ns = {}" "\<forall>e\<in>set b. alive s e" using Cons.prems(5-7) by auto
  from move_bucket_ok [OF ls(2) Cons.prems(2-4) this, of c] obtain nl1 s1 where r:
    "move_bucket len h nl c s = Some (Inr (nl1, c + of_nat (length b), s1))"
    "same_but_table s s1" "sc_elems s1 = sc_elems s" "\<forall>e. e \<notin> set b \<longrightarrow> sc_next_hash s1 e = sc_next_hash s e"
    "chains_ok nl1 (sc_next_hash s1) (foldl (push_entry s len) ns b)"
    "buckets_ok s len (foldl (push_entry s len) ns b)" "members (foldl (push_entry s len) ns b) = members ns \<union> set b"
    by blast
  let ?ns = "foldl (push_entry s len) ns b"
  note same = same_but_table_simps [OF r(2)]
  have "list_all2 (hchain (sc_next_hash s1)) hs bs"
  proof (rule list.rel_mono_strong [OF ls(3)])
    fix p xs assume "p \<in> set hs" "xs \<in> set bs" "hchain (sc_next_hash s) p xs"
    moreover have "e \<notin> set b" if "e \<in> set xs" for e using Cons.prems(5) \<open>xs \<in> set bs\<close> that by auto
    ultimately show "hchain (sc_next_hash s1) p xs" using r(4) hchain_cong [of xs "sc_next_hash s1" "sc_next_hash s" p] by blast
  qed
  moreover have "distinct (concat bs)" "set (concat bs) \<inter> members ?ns = {}" "\<forall>e\<in>set (concat bs). alive s1 e"
    using Cons.prems(5-7) r(7) by (auto simp: same)
  moreover have "buckets_ok s1 len ?ns" using r(6) by (simp add: same)
  ultimately obtain nl' s' where q:
    "move_buckets len hs nl1 (c + of_nat (length b)) s1 = Inr (nl', c + of_nat (length b) + of_nat (length (concat bs)), s')"
    "same_but_table s1 s'" "sc_elems s' = sc_elems s" "chains_ok nl' (sc_next_hash s') (foldl (push_entry s len) ?ns (concat bs))"
    "buckets_ok s len (foldl (push_entry s len) ?ns (concat bs))"
    "members (foldl (push_entry s len) ?ns (concat bs)) = members ?ns \<union> set (concat bs)"
    using Cons.IH [of s1 hs nl1 ?ns "c + of_nat (length b)"] r(5) Cons.prems(4)
    unfolding same push_entry_cong [OF same(2)] r(3) by blast
  have "same_but_table s s'" using q(2) r(2) by (simp add: same_but_table_def)
  then show ?case using q r(1,7) ls(1) by (auto simp: add.assoc)
qed

lemma unat_pow2: "k \<le> 31 \<Longrightarrow> unat (2 ^ k :: 32 word) = 2 ^ k"
proof -
  assume "k \<le> 31"
  then have "(2 :: nat) ^ k \<le> 2 ^ 31" by (intro power_increasing) auto
  then show ?thesis using unat_of_nat [of "2 ^ k", where ?'a = 32] by simp
qed

lemma unat_of_nat32: "m < 2 ^ 32 \<Longrightarrow> unat (of_nat m :: 32 word) = m"
  by (simp add: unat_of_nat)

lemma distinct_buckets: "buckets_ok s len bs \<Longrightarrow> distinct (concat bs)"
proof -
  assume b: "buckets_ok s len bs"
  have "card (set (concat bs)) = length (concat bs)"
    using sum_card [OF b] by (simp add: members_def length_concat)
  then show ?thesis by (rule card_distinct)
qed

text \<open>What \<open>Resize\<close> needs of the table: more entries than buckets are fine, and so is the empty array of the constructor.\<close>

definition table_grows :: "'v LRUCache \<Rightarrow> nat list list \<Rightarrow> bool" where
  "table_grows s bs \<longleftrightarrow> chains_ok (sc_list s) (sc_next_hash s) bs \<and> buckets_ok s (sc_length s) bs
     \<and> sc_elems s = of_nat (sum_list (map length bs)) \<and> sum_list (map length bs) \<le> 2 ^ 31
     \<and> inj_on (\<lambda>e. (hash_of s e, key_of s e)) (members bs)"

lemma HandleTable_Resize_ok:
  assumes t: "table_grows s bs"
  shows "\<exists>s' bs'. HandleTable_Resize s = Inr s' \<and> same_but_table s s' \<and> table_ok s' bs' \<and> members bs' = members bs"
proof -
  let ?n = "sum_list (map length bs)"
  have n: "?n \<le> 2 ^ 31" "sc_elems s = of_nat ?n" and b: "buckets_ok s (sc_length s) bs" and c: "chains_ok (sc_list s) (sc_next_hash s) bs"
    using t by (auto simp: table_grows_def)
  have un: "unat (sc_elems s) = ?n" using n by (simp add: unat_of_nat)
  then have "sc_elems s \<le> 2 ^ 31" using n(1) by (simp add: word_le_nat_alt)
  from new_length_loop_ok [OF this, of 2] obtain k where
    k: "2 \<le> k" "k \<le> 31" "new_length_loop (sc_elems s) 4 = Some (2 ^ k)" "sc_elems s \<le> 2 ^ k" by auto
  define len :: "32 word" where "len = 2 ^ k"
  have p: "pow2_length len" using k by (auto simp: pow2_length_def len_def)
  have ul: "unat len = 2 ^ k" using unat_pow2 [OF k(2)] by (simp add: len_def)
  let ?ns = "replicate (unat len) []" and ?nl = "replicate (unat len) (None :: nat option)"
  have mem: "members bs = set (concat bs)" by (simp add: members_def)
  have "members ?ns = {}" by (auto simp: members_def)
  moreover have "list_all2 (hchain (sc_next_hash s)) (sc_list s) bs"
    using c by (simp add: chains_ok_def list_all2_conv_all_nth)
  moreover have "chains_ok ?nl (sc_next_hash s) ?ns" "buckets_ok s len ?ns" by (simp_all add: chains_ok_def buckets_ok_def)
  moreover have "\<forall>e\<in>set (concat bs). alive s e" using b unfolding mem [symmetric] by (auto simp: mem_members buckets_ok_def)
  ultimately obtain nl s' where r: "move_buckets len (sc_list s) ?nl 0 s = Inr (nl, of_nat (length (concat bs)), s')"
    "same_but_table s s'" "sc_elems s' = sc_elems s"
    "chains_ok nl (sc_next_hash s') (foldl (push_entry s len) ?ns (concat bs))"
    "buckets_ok s len (foldl (push_entry s len) ?ns (concat bs))"
    "members (foldl (push_entry s len) ?ns (concat bs)) = members bs"
    using move_buckets_ok [of s "sc_list s" bs ?nl ?ns len 0] p distinct_buckets [OF b] by (auto simp: mem)
  define s2 where "s2 = s'\<lparr>sc_list := nl, sc_length := len\<rparr>"
  let ?bs = "foldl (push_entry s len) ?ns (concat bs)"
  have same: "same_but_table s s2" using r(2) by (simp add: same_but_table_def s2_def)
  have "take (unat (sc_length s)) (sc_list s) = sc_list s" using b c by (simp add: buckets_ok_def chains_ok_def)
  then have run: "HandleTable_Resize s = Inr s2"
    using r(1,3) n k(3) by (simp add: HandleTable_Resize_def s2_def length_concat flip: len_def)
  have "sum_list (map length ?bs) = ?n" using sum_card [OF r(5)] sum_card [OF b] r(6) by simp
  moreover have "?n \<le> unat len" using k(4) un by (simp add: word_le_nat_alt len_def)
  ultimately have "table_ok s2 ?bs"
    using r p n t unfolding table_ok_def table_grows_def same_but_table_simps [OF same] by (simp add: s2_def)
  then show ?thesis using run same r(6) by blast
qed

section \<open>Insertion\<close>

text \<open>
  \<open>Insert\<close> of an entry \<open>e\<close> outside the table takes the place of the entry with the same key and hash, which it
  returns, and keeps the table correct while it has fewer than $2^{31}$ entries.
\<close>

lemma HandleTable_Insert_ok:
  assumes t: "table_ok s bs" and e: "alive s e" "e \<notin> members bs" and n: "card (members bs) < 2 ^ 31"
  shows "\<exists>old s' bs'. HandleTable_Insert e s = Inr (old, s') \<and> entry_for s (members bs) (key_of s e) (hash_of s e) old
    \<and> same_but_table s s' \<and> table_ok s' bs' \<and> members bs' = insert e (members bs - set_option old)"
proof -
  define i where "i = unat (hash_of s e AND (sc_length s - 1))"
  obtain as bs' where f: "i < length bs" "bs ! i = as @ bs'" "\<forall>x\<in>set as. \<not> matches (key_of s e) (hash_of s e) s x"
    "bs' \<noteq> [] \<longrightarrow> matches (key_of s e) (hash_of s e) s (hd bs')"
    "FindPointer (key_of s e) (hash_of s e) s = Inr (slot_after (Bucket i) as)"
    "deref_slot s (slot_after (Bucket i) as) = Inr (first_of bs')"
    using FindPointer_ok [OF t i_def] by blast
  note ef = entry_for_first [OF t i_def f(1-4)]
  have b: "buckets_ok s (sc_length s) bs" and c: "chains_ok (sc_list s) (sc_next_hash s) bs" and p: "pow2_length (sc_length s)"
    using t by (simp_all add: table_ok_def)
  define rest where "rest = tl bs'"
  define nx where "nx = (case first_of bs' of None \<Rightarrow> None | Some x \<Rightarrow> sc_next_hash s x)"
  define s0 where "s0 = s\<lparr>sc_next_hash := (sc_next_hash s)(e := nx)\<rparr>"
  define s1 where "s1 = assign_slot (slot_after (Bucket i) as) (Some e) s0"
  let ?bs = "bs[i := as @ e # rest]"
  have s01: "sc_list s0 = sc_list s" "sc_next_hash s0 = (sc_next_hash s)(e := nx)" "same_but_table s s0" by (simp_all add: s0_def same_but_table_def)
  have same: "same_but_table s s1" using assign_slot_same(1) [of s0] s01(3) by (simp add: same_but_table_def s1_def)
  have len: "sc_length s1 = sc_length s" "sc_elems s1 = sc_elems s" by (simp_all add: s1_def s0_def assign_slot_same)
  have ne: "e \<notin> set (bs ! j)" if "j < length bs" for j using e(2) that by (auto simp: mem_members)
  have d: "distinct (as @ bs')" using b f(1,2) by (metis buckets_ok_def)
  then have d': "distinct (as @ rest)" "set as \<inter> set rest = {}" unfolding rest_def by (cases bs'; auto)+
  have sub: "set rest \<subseteq> set (bs ! i)" unfolding rest_def using f(2) by (cases bs') auto
  have "hchain (sc_next_hash s) nx rest"
    using c f(1,2) hchain_rest [of "sc_next_hash s" "sc_list s ! i" "as @ [hd bs']" rest]
    by (cases bs') (auto simp: chains_ok_def nx_def rest_def)
  then have ch: "hchain (sc_next_hash s0) (Some e) (e # rest)" using ne [OF f(1)] sub hchain_upd [of e rest] by (simp add: s01 subset_iff) blast
  have c0: "chains_ok (sc_list s0) (sc_next_hash s0) bs" using c ne by (simp add: chains_ok_def s01 hchain_upd)
  have dj: "set as \<inter> set (bs ! j) = {}" if "j < length bs" "j \<noteq> i" for j
    using bucket_disjoint [OF b f(1) that(1)] that(2) f(2) by auto
  have chains: "chains_ok (sc_list s1) (sc_next_hash s1) ?bs"
    unfolding s1_def by (rule chains_assign [OF c0 f(1,2) ch]) (use d' ne [OF f(1)] f(2) dj in auto)
  have ei: "bucket_of s (sc_length s) e = i" by (simp add: i_def bucket_of_def)
  have bk: "buckets_ok s1 (sc_length s1) ?bs"
    unfolding same_but_table_simps [OF same] len
    using b d' f(1,2) ne [OF f(1)] sub e(1) ei by (auto simp: buckets_ok_def nth_list_update)
  have m: "members ?bs = insert e (members bs - set_option (first_of bs'))"
  proof -
    have "set rest \<subseteq> members bs" using f(1) sub by (meson mem_members subset_iff)
    moreover have "set bs' = set_option (first_of bs') \<union> set rest" "set_option (first_of bs') \<inter> set rest = {}"
      using d by (cases bs'; auto simp: rest_def)+
    ultimately show ?thesis using members_update [OF b f(1,2), of "e # rest"] by auto
  qed
  have inj: "inj_on (\<lambda>e. (hash_of s e, key_of s e)) (members ?bs)"
  proof -
    have i0: "inj_on (\<lambda>e. (hash_of s e, key_of s e)) (members bs)" using t by (simp add: table_ok_def)
    have "\<not> matches (key_of s e) (hash_of s e) s x" if "x \<in> members bs - set_option (first_of bs')" for x
    proof (cases "first_of bs'")
      case None
      then show ?thesis using ef that by (simp add: entry_for_def)
    next
      case (Some y)
      then have "y \<in> members bs" "matches (key_of s e) (hash_of s e) s y" "x \<noteq> y" "x \<in> members bs" using ef that by (auto simp: entry_for_def)
      then show ?thesis using inj_onD [OF i0, of x y] by (auto simp: matches_def)
    qed
    then have "(hash_of s e, key_of s e) \<notin> (\<lambda>e. (hash_of s e, key_of s e)) ` (members bs - set_option (first_of bs'))"
      unfolding matches_def by fastforce
    then show ?thesis unfolding m inj_on_insert using inj_on_subset [OF i0] by blast
  qed
  have key: "handle_key e s = Inr (key_of s e)" "get_handle e s = Inr (the (sc_handles s e))" "lh_hash (the (sc_handles s e)) = hash_of s e"
    using e(1) by (auto simp: handle_key_def alive_def get_handle_def key_of_def hash_of_def)
  show ?thesis
  proof (cases bs')
    case (Cons x xs)
    have "sum_list (map length ?bs) = sum_list (map length bs)"
      using sum_update [OF f(1,2), of "e # rest"] Cons by (simp add: rest_def)
    then have "table_ok s1 ?bs"
      using t chains bk inj unfolding table_ok_def same_but_table_simps [OF same] len by simp
    moreover have "HandleTable_Insert e s = Inr (Some x, s1)"
      using key f(5,6) Cons by (simp add: HandleTable_Insert_def Let_def s1_def s0_def nx_def)
    ultimately show ?thesis using ef same m Cons by (intro exI [of _ "Some x"] exI [of _ s1] exI [of _ ?bs]) simp
  next
    case Nil
    define s2 where "s2 = s1\<lparr>sc_elems := sc_elems s + 1\<rparr>"
    have same2: "same_but_table s s2" using same by (simp add: same_but_table_def s2_def)
    have sum: "sum_list (map length ?bs) = sum_list (map length bs) + 1"
      using sum_update [OF f(1,2), of "e # rest"] Nil by (simp add: rest_def)
    have lt: "sum_list (map length bs) < 2 ^ 31" using n sum_card [OF b] by simp
    have el: "sc_elems s2 = of_nat (sum_list (map length ?bs))" using t by (simp add: s2_def sum table_ok_def)
    have run: "HandleTable_Insert e s =
      (if sc_elems s2 > sc_length s2 then ub_bind (HandleTable_Resize s2) (\<lambda>s. Inr (None, s)) else Inr (None, s2))"
      using key f(5,6) Nil by (simp add: HandleTable_Insert_def Let_def s2_def s1_def s0_def nx_def assign_slot_same)
    have g: "table_grows s2 ?bs"
      using el lt sum chains bk inj unfolding table_grows_def same_but_table_simps [OF same2] same_but_table_simps [OF same]
      by (simp add: s2_def)
    show ?thesis
    proof (cases "sc_elems s2 > sc_length s2")
      case True
      obtain s3 bs3 where r: "HandleTable_Resize s2 = Inr s3" "same_but_table s2 s3" "table_ok s3 bs3" "members bs3 = members ?bs"
        using HandleTable_Resize_ok [OF g] by blast
      have "same_but_table s s3" using r(2) same2 by (simp add: same_but_table_def)
      then show ?thesis using run True r ef m Nil by (intro exI [of _ None] exI [of _ s3] exI [of _ bs3]) simp
    next
      case False
      have "unat (sc_elems s2) = sum_list (map length ?bs)" unfolding el by (rule unat_of_nat32) (use lt sum in simp)
      then have "sum_list (map length ?bs) \<le> unat (sc_length s2)" using False by (simp add: word_le_nat_alt not_less)
      moreover have "sc_length s2 = sc_length s" by (simp add: s2_def len)
      ultimately have "table_ok s2 ?bs" using g p by (simp add: table_ok_def table_grows_def)
      then show ?thesis using run False same2 ef m Nil by (intro exI [of _ None] exI [of _ s2] exI [of _ ?bs]) simp
    qed
  qed
qed

end
