(* ===== verification/Lru_Shard.thy ===== *)
theory Lru_Shard
  imports Handle_Table
begin

unbundle bit_operations_syntax

text \<open>
  \<open>LRUCache\<close>, one shard of the reference-counted LRU cache of \<open>cache.cpp\<close>.  A shard keeps
  its entries in the table of \<open>Handle_Table\<close> and on one of two rings, \<open>lru_\<close> for the entries no client holds and
  \<open>in_use_\<close> for the others; every access to an entry checks that it has not been freed.  The address \<open>malloc\<close> returns is
  an argument of \<open>Insert\<close>.  A call of a deleter is logged.  The specification knows which entries are idle, in use, held
  and alive; every operation of the shard refines it.
\<close>

section \<open>\<open>LRUCache\<close>\<close>

text \<open>A node of a ring: a list head or an entry that has not been freed.\<close>

definition is_node :: "'v LRUCache \<Rightarrow> nat \<Rightarrow> bool" where
  "is_node s e \<longleftrightarrow> e = lru_head \<or> e = in_use_head \<or> sc_handles s e \<noteq> None"

definition LRU_Remove :: "nat \<Rightarrow> 'v LRUCache \<Rightarrow> 'v LRUCache result" where
  "LRU_Remove e s =
     (if is_node s e \<and> is_node s (nxt (sc_links s) e) then
        let s = s\<lparr>sc_links := set_prev (nxt (sc_links s) e) (prv (sc_links s) e) (sc_links s)\<rparr>
        in if is_node s (prv (sc_links s) e)
           then Inr (s\<lparr>sc_links := set_next (prv (sc_links s) e) (nxt (sc_links s) e) (sc_links s)\<rparr>)
           else Inl OutOfBounds
      else Inl OutOfBounds)"

definition LRU_Append :: "nat \<Rightarrow> nat \<Rightarrow> 'v LRUCache \<Rightarrow> 'v LRUCache result" where
  "LRU_Append l e s =
     (if is_node s e \<and> is_node s l then
        let L = set_next e l (sc_links s);
            L = set_prev e (prv L l) L
        in if is_node s (prv L e)
           then let L = set_next (prv L e) e L
                in if is_node s (nxt L e) then Inr (s\<lparr>sc_links := set_prev (nxt L e) e L\<rparr>) else Inl OutOfBounds
           else Inl OutOfBounds
      else Inl OutOfBounds)"

definition LRU_Ref :: "nat \<Rightarrow> 'v LRUCache \<Rightarrow> 'v LRUCache result" where
  "LRU_Ref e s =
     ub_bind (get_handle e s) (\<lambda>h.
     ub_bind (if lh_refs h = 1 \<and> lh_in_cache h then ub_bind (LRU_Remove e s) (LRU_Append in_use_head e) else Inr s) (\<lambda>s.
     Inr (set_handle e (h\<lparr>lh_refs := lh_refs h + 1\<rparr>) s)))"

definition LRU_Unref :: "nat \<Rightarrow> 'v LRUCache \<Rightarrow> 'v LRUCache result" where
  "LRU_Unref e s =
     ub_bind (get_handle e s) (\<lambda>h.
     if lh_refs h > 0 then
       let h = h\<lparr>lh_refs := lh_refs h - 1\<rparr>;
           s = set_handle e h s
       in if lh_refs h = 0 then
            if \<not> lh_in_cache h then
              ub_bind (handle_key e s) (\<lambda>key.
              let s = s\<lparr>sc_deleted := sc_deleted s @ [(lh_deleter h, key, lh_value h)]\<rparr>
              in Inr (s\<lparr>sc_handles := (sc_handles s)(e := None)\<rparr>))
            else Inl AssertFailed
          else if lh_in_cache h \<and> lh_refs h = 1 then ub_bind (LRU_Remove e s) (LRU_Append lru_head e)
          else Inr s
     else Inl AssertFailed)"

definition LRU_Lookup :: "octet list \<Rightarrow> 32 word \<Rightarrow> 'v LRUCache \<Rightarrow> (nat option \<times> 'v LRUCache) result" where
  "LRU_Lookup key hash s =
     ub_bind (HandleTable_Lookup key hash s) (\<lambda>r.
     case r of None \<Rightarrow> Inr (None, s) | Some e \<Rightarrow> ub_bind (LRU_Ref e s) (\<lambda>s. Inr (Some e, s)))"

definition LRU_Release :: "nat \<Rightarrow> 'v LRUCache \<Rightarrow> 'v LRUCache result" where
  "LRU_Release handle s = LRU_Unref handle s"

definition FinishErase :: "nat option \<Rightarrow> 'v LRUCache \<Rightarrow> (bool \<times> 'v LRUCache) result" where
  "FinishErase r s =
     (case r of None \<Rightarrow> Inr (False, s)
      | Some e \<Rightarrow>
          ub_bind (get_handle e s) (\<lambda>h.
          if lh_in_cache h then
            ub_bind (LRU_Remove e s) (\<lambda>s.
            let s = set_handle e (h\<lparr>lh_in_cache := False\<rparr>) s;
                s = s\<lparr>sc_usage := sc_usage s - lh_charge h\<rparr>
            in ub_bind (LRU_Unref e s) (\<lambda>s. Inr (True, s)))
          else Inl AssertFailed))"

definition LRU_Erase :: "octet list \<Rightarrow> 32 word \<Rightarrow> 'v LRUCache \<Rightarrow> 'v LRUCache result" where
  "LRU_Erase key hash s =
     ub_bind (HandleTable_Remove key hash s) (\<lambda>(r, s). ub_bind (FinishErase r s) (\<lambda>(_, s). Inr s))"

text \<open>The body of the loops of \<open>Insert\<close> and \<open>Prune\<close>: the oldest idle entry leaves the cache.\<close>

definition evict_oldest :: "'v LRUCache \<Rightarrow> 'v LRUCache result" where
  "evict_oldest s =
     (let e = nxt (sc_links s) lru_head
      in ub_bind (get_handle e s) (\<lambda>h.
         if lh_refs h = 1 then
           ub_bind (handle_key e s) (\<lambda>key.
           ub_bind (HandleTable_Remove key (lh_hash h) s) (\<lambda>(r, s).
           ub_bind (FinishErase r s) (\<lambda>(erased, s). if erased then Inr s else Inl AssertFailed)))
         else Inl AssertFailed))"

partial_function (option) evict_loop :: "'v LRUCache \<Rightarrow> 'v LRUCache result option" where
  "evict_loop s =
     (if sc_usage s > sc_capacity s \<and> nxt (sc_links s) lru_head \<noteq> lru_head
      then case evict_oldest s of Inl e \<Rightarrow> Some (Inl e) | Inr s \<Rightarrow> evict_loop s
      else Some (Inr s))"

partial_function (option) prune_loop :: "'v LRUCache \<Rightarrow> 'v LRUCache result option" where
  "prune_loop s =
     (if nxt (sc_links s) lru_head \<noteq> lru_head
      then case evict_oldest s of Inl e \<Rightarrow> Some (Inl e) | Inr s \<Rightarrow> prune_loop s
      else Some (Inr s))"

text \<open>\<open>e\<close> is the address \<open>malloc\<close> returned; the links of the new cell hold whatever the memory held.\<close>

definition LRU_Insert ::
    "nat \<Rightarrow> octet list \<Rightarrow> 32 word \<Rightarrow> 'v \<Rightarrow> 64 word \<Rightarrow> nat \<Rightarrow> 'v LRUCache \<Rightarrow> (nat \<times> 'v LRUCache) result" where
  "LRU_Insert e key hash v charge deleter s =
     (if e = null_ptr then Inl OutOfBounds
      else
        let h = \<lparr>lh_value = v, lh_deleter = deleter, lh_charge = charge, lh_key = key, lh_in_cache = False,
                 lh_refs = 1, lh_hash = hash\<rparr>;
            s = set_handle e h s
        in ub_bind
             (if sc_capacity s > 0 then
                let s = set_handle e (h\<lparr>lh_refs := lh_refs h + 1, lh_in_cache := True\<rparr>) s
                in ub_bind (LRU_Append in_use_head e s) (\<lambda>s.
                   let s = s\<lparr>sc_usage := sc_usage s + charge\<rparr>
                   in ub_bind (HandleTable_Insert e s) (\<lambda>(old, s).
                      ub_bind (FinishErase old s) (\<lambda>(_, s). Inr s)))
              else Inr (s\<lparr>sc_links := set_next e null_ptr (sc_links s)\<rparr>))
             (\<lambda>s. case evict_loop s of None \<Rightarrow> Inl Diverges | Some r \<Rightarrow> ub_bind r (\<lambda>s. Inr (e, s))))"

definition LRU_Prune :: "'v LRUCache \<Rightarrow> 'v LRUCache result" where
  "LRU_Prune s = (case prune_loop s of None \<Rightarrow> Inl Diverges | Some r \<Rightarrow> r)"

definition LRU_TotalCharge :: "'v LRUCache \<Rightarrow> 64 word" where
  "LRU_TotalCharge s = sc_usage s"

text \<open>The constructor over memory with arbitrary links, and \<open>SetCapacity\<close>.\<close>

definition LRUCache_new :: "list_head \<Rightarrow> (nat \<Rightarrow> nat option) \<Rightarrow> 64 word \<Rightarrow> 'v LRUCache result" where
  "LRUCache_new L nh capacity =
     HandleTable_Resize \<lparr>sc_capacity = capacity, sc_usage = 0,
       sc_links = list_init in_use_head (list_init lru_head L), sc_length = 0, sc_elems = 0, sc_list = [],
       sc_next_hash = nh, sc_handles = (\<lambda>_. None), sc_deleted = []\<rparr>"

definition SetCapacity :: "64 word \<Rightarrow> 'v LRUCache \<Rightarrow> 'v LRUCache" where
  "SetCapacity capacity s = s\<lparr>sc_capacity := capacity\<rparr>"

partial_function (option) destroy_handles :: "nat \<Rightarrow> 'v LRUCache \<Rightarrow> 'v LRUCache result option" where
  "destroy_handles e s =
     (if e \<noteq> lru_head then
        case get_handle e s of Inl err \<Rightarrow> Some (Inl err)
        | Inr h \<Rightarrow>
            let next = nxt (sc_links s) e
            in if lh_in_cache h \<and> lh_refs h = 1 then
                 case LRU_Unref e (set_handle e (h\<lparr>lh_in_cache := False\<rparr>) s) of Inl err \<Rightarrow> Some (Inl err)
                 | Inr s \<Rightarrow> destroy_handles next s
               else Some (Inl AssertFailed)
      else Some (Inr s))"

definition LRUCache_destroy :: "'v LRUCache \<Rightarrow> 'v LRUCache result" where
  "LRUCache_destroy s =
     (if nxt (sc_links s) in_use_head = in_use_head
      then case destroy_handles (nxt (sc_links s) lru_head) s of None \<Rightarrow> Inl Diverges | Some r \<Rightarrow> r
      else Inl AssertFailed)"

section \<open>The specification of a shard\<close>

record 'v entry =
  en_key :: "octet list"
  en_hash :: "32 word"
  en_value :: 'v
  en_charge :: "64 word"
  en_deleter :: nat

text \<open>
  Idle entries, oldest first, and used entries are in the cache; \<open>ss_held\<close> counts the references of clients.  An entry
  that has left the cache lives on while it is held.
\<close>

record 'v shard_spec =
  ss_capacity :: "64 word"
  ss_idle :: "nat list"
  ss_used :: "nat list"
  ss_held :: "nat \<Rightarrow> nat"
  ss_entry :: "nat \<Rightarrow> 'v entry option"
  ss_deleted :: "(nat \<times> octet list \<times> 'v) list"

definition ss_new :: "64 word \<Rightarrow> 'v shard_spec" where
  "ss_new capacity = \<lparr>ss_capacity = capacity, ss_idle = [], ss_used = [], ss_held = (\<lambda>_. 0), ss_entry = (\<lambda>_. None), ss_deleted = []\<rparr>"

definition ss_cached :: "'v shard_spec \<Rightarrow> nat list" where
  "ss_cached a = ss_idle a @ ss_used a"

definition ss_charge :: "'v shard_spec \<Rightarrow> nat \<Rightarrow> 64 word" where
  "ss_charge a e = (case ss_entry a e of None \<Rightarrow> 0 | Some d \<Rightarrow> en_charge d)"

definition ss_usage :: "'v shard_spec \<Rightarrow> 64 word" where
  "ss_usage a = sum_list (map (ss_charge a) (ss_cached a))"

definition ss_matches :: "octet list \<Rightarrow> 32 word \<Rightarrow> 'v shard_spec \<Rightarrow> nat \<Rightarrow> bool" where
  "ss_matches key hash a e = (case ss_entry a e of None \<Rightarrow> False | Some d \<Rightarrow> en_hash d = hash \<and> en_key d = key)"

definition ss_find :: "octet list \<Rightarrow> 32 word \<Rightarrow> 'v shard_spec \<Rightarrow> nat option" where
  "ss_find key hash a = List.find (ss_matches key hash a) (ss_cached a)"

definition ss_free :: "nat \<Rightarrow> 'v shard_spec \<Rightarrow> 'v shard_spec" where
  "ss_free e a =
     (case ss_entry a e of None \<Rightarrow> a
      | Some d \<Rightarrow> a\<lparr>ss_entry := (ss_entry a)(e := None), ss_deleted := ss_deleted a @ [(en_deleter d, en_key d, en_value d)]\<rparr>)"

definition ss_hold :: "nat \<Rightarrow> 'v shard_spec \<Rightarrow> 'v shard_spec" where
  "ss_hold e a =
     (let a = (if e \<in> set (ss_idle a) then a\<lparr>ss_idle := remove1 e (ss_idle a), ss_used := ss_used a @ [e]\<rparr> else a)
      in a\<lparr>ss_held := (ss_held a)(e := ss_held a e + 1)\<rparr>)"

definition ss_release :: "nat \<Rightarrow> 'v shard_spec \<Rightarrow> 'v shard_spec" where
  "ss_release e a =
     (let a = a\<lparr>ss_held := (ss_held a)(e := ss_held a e - 1)\<rparr>
      in if ss_held a e > 0 then a
         else if e \<in> set (ss_used a) then a\<lparr>ss_used := remove1 e (ss_used a), ss_idle := ss_idle a @ [e]\<rparr>
         else ss_free e a)"

text \<open>An entry leaves the cache, and is freed unless a client holds it.\<close>

definition ss_drop :: "nat \<Rightarrow> 'v shard_spec \<Rightarrow> 'v shard_spec" where
  "ss_drop e a =
     (let a = a\<lparr>ss_idle := remove1 e (ss_idle a), ss_used := remove1 e (ss_used a)\<rparr>
      in if ss_held a e > 0 then a else ss_free e a)"

definition ss_drop_opt :: "nat option \<Rightarrow> 'v shard_spec \<Rightarrow> 'v shard_spec" where
  "ss_drop_opt r a = (case r of None \<Rightarrow> a | Some e \<Rightarrow> ss_drop e a)"

primrec ss_evict :: "nat list \<Rightarrow> 'v shard_spec \<Rightarrow> 'v shard_spec" where
  "ss_evict [] a = a"
| "ss_evict (e # es) a = (if ss_usage a > ss_capacity a then ss_evict es (ss_drop e a) else a)"

definition ss_shrink :: "'v shard_spec \<Rightarrow> 'v shard_spec" where
  "ss_shrink a = ss_evict (ss_idle a) a"

definition ss_prune :: "'v shard_spec \<Rightarrow> 'v shard_spec" where
  "ss_prune a = fold ss_drop (ss_idle a) a"

definition ss_add :: "nat \<Rightarrow> 'v entry \<Rightarrow> 'v shard_spec \<Rightarrow> 'v shard_spec" where
  "ss_add e d a = a\<lparr>ss_entry := (ss_entry a)(e \<mapsto> d), ss_held := (ss_held a)(e := 1)\<rparr>"

definition ss_insert :: "nat \<Rightarrow> 'v entry \<Rightarrow> 'v shard_spec \<Rightarrow> 'v shard_spec" where
  "ss_insert e d a =
     (if ss_capacity a > 0
      then ss_shrink (ss_drop_opt (ss_find (en_key d) (en_hash d) a) ((ss_add e d a)\<lparr>ss_used := ss_used a @ [e]\<rparr>))
      else ss_shrink (ss_add e d a))"

section \<open>The rings\<close>

definition rings_ok :: "list_head \<Rightarrow> nat list \<Rightarrow> nat list \<Rightarrow> nat set \<Rightarrow> bool" where
  "rings_ok L idle used E \<longleftrightarrow> clist L lru_head idle \<and> clist L in_use_head used \<and> set idle \<inter> set used = {}
     \<and> set idle \<union> set used \<subseteq> E \<and> (\<forall>e\<in>E. 3 \<le> e \<and> nxt L e \<noteq> e)"

lemma heads: "lru_head = 1" "in_use_head = 2" "lru_head \<noteq> in_use_head" "in_use_head \<noteq> lru_head"
  by (simp_all add: lru_head_def in_use_head_def)

lemma clist_nxt_neq: "clist h head xs \<Longrightarrow> x \<in> set xs \<Longrightarrow> nxt h x \<noteq> x"
proof -
  assume c: "clist h head xs" and "x \<in> set xs"
  then obtain as bs where "xs = as @ x # bs" by (meson split_list)
  then show ?thesis using c by (cases bs) (auto simp: clist_def)
qed

lemma LRU_Remove_eq:
  assumes "is_node s e" "is_node s (nxt (sc_links s) e)" "is_node s (prv (sc_links s) e)"
  shows "LRU_Remove e s = Inr (s\<lparr>sc_links := list_del_entry e (sc_links s)\<rparr>)"
  using assms by (auto simp: LRU_Remove_def is_node_def Let_def list_del_entry_def list_del_between_def)

lemma LRU_Append_eq:
  assumes "is_node s e" "is_node s l" "is_node s (prv (sc_links s) l)" "e \<noteq> l" "prv (sc_links s) l \<noteq> e"
  shows "LRU_Append l e s = Inr (s\<lparr>sc_links := list_add_tail e l (sc_links s)\<rparr>)"
  using assms
  by (simp add: LRU_Append_def Let_def list_add_tail_def list_add_between_def set_next_def set_prev_def fun_upd_twist)

lemma same_outside_nxt: "same_outside A h h' \<Longrightarrow> x \<notin> A \<Longrightarrow> nxt h' x = nxt h x"
  by (simp add: same_outside_def)

lemma del_entry_self: "clist h head (as @ e # bs) \<Longrightarrow> nxt (list_del_entry e h) e = nxt h e"
  by (cases as rule: rev_cases) (auto simp: list_del_entry_def list_del_between_def clist_def Let_def)

lemma LRU_Remove_ring:
  assumes c: "clist L hd1 xs" "clist L hd2 ys" and d: "set (hd1 # xs) \<inter> set (hd2 # ys) = {}" and e: "e \<in> set xs"
    and nx: "\<forall>x\<in>E. nxt L x \<noteq> x"
  shows "clist (list_del_entry e L) hd1 (remove1 e xs) \<and> clist (list_del_entry e L) hd2 ys
    \<and> (\<forall>x\<in>E. x \<noteq> hd1 \<longrightarrow> nxt (list_del_entry e L) x \<noteq> x)"
proof -
  obtain as bs where xs: "xs = as @ e # bs" "e \<notin> set as" using e by (meson split_list_first)
  have r: "clist (list_del_entry e L) hd1 (as @ bs)" using list_del_entry_ring c(1) xs(1) by blast
  have o: "same_outside (set (hd1 # xs)) L (list_del_entry e L)" by (rule list_del_frame(1) [OF c(1) e])
  have "nxt (list_del_entry e L) x \<noteq> x" if "x \<in> E" "x \<noteq> hd1" for x
  proof (cases "x \<in> set (as @ bs)")
    case True
    then show ?thesis by (rule clist_nxt_neq [OF r])
  next
    case False
    have "nxt (list_del_entry e L) x = nxt L x"
      using False that(2) xs(1) c(1) del_entry_self [of L hd1 as e bs] same_outside_nxt [OF o] by (cases "x = e") auto
    then show ?thesis using nx that(1) by simp
  qed
  moreover have "clist (list_del_entry e L) hd2 ys" using clist_frame [OF c(2) o] d by blast
  ultimately show ?thesis using r xs by (simp add: remove1_append)
qed

lemma LRU_Append_ring:
  assumes c: "clist L hd1 xs" "clist L hd2 ys" and d: "set (hd1 # xs) \<inter> set (hd2 # ys) = {}" and e: "e \<notin> set (hd1 # xs @ hd2 # ys)"
    and nx: "\<forall>x\<in>E. nxt L x \<noteq> x"
  shows "clist (list_add_tail e hd1 L) hd1 (xs @ [e]) \<and> clist (list_add_tail e hd1 L) hd2 ys
    \<and> (\<forall>x\<in>insert e E. x \<noteq> hd1 \<longrightarrow> nxt (list_add_tail e hd1 L) x \<noteq> x)"
proof -
  have r: "clist (list_add_tail e hd1 L) hd1 (xs @ [e])" using list_add_tail_ring [OF c(1)] e by simp
  have o: "same_outside (set (e # hd1 # xs)) L (list_add_tail e hd1 L)" by (rule list_add_frame(2) [OF c(1)])
  have "nxt (list_add_tail e hd1 L) x \<noteq> x" if "x \<in> insert e E" "x \<noteq> hd1" for x
  proof (cases "x \<in> set (xs @ [e])")
    case True
    then show ?thesis by (rule clist_nxt_neq [OF r])
  next
    case False
    then show ?thesis using that nx same_outside_nxt [OF o, of x] by auto
  qed
  moreover have "clist (list_add_tail e hd1 L) hd2 ys" using clist_frame [OF c(2) o] d e by auto
  ultimately show ?thesis using r by simp
qed

lemma ring_node:
  assumes "rings_ok (sc_links s) idle used (dom (sc_handles s))" "x \<in> set (lru_head # idle) \<union> set (in_use_head # used)"
  shows "is_node s x"
  using assms by (auto simp: rings_ok_def is_node_def)

lemma ring_neighbours:
  assumes "rings_ok L idle used E" "x \<in> set (lru_head # idle) \<union> set (in_use_head # used)"
  shows "nxt L x \<in> set (lru_head # idle) \<union> set (in_use_head # used)" "prv L x \<in> set (lru_head # idle) \<union> set (in_use_head # used)"
  using assms clist_closed [of L lru_head idle x] clist_closed [of L in_use_head used x] unfolding rings_ok_def by auto

lemma rings_parts:
  assumes "rings_ok L idle used E"
  shows "set (lru_head # idle) \<inter> set (in_use_head # used) = {}" "set (in_use_head # used) \<inter> set (lru_head # idle) = {}"
    "\<forall>x\<in>E. nxt L x \<noteq> x" "\<forall>x\<in>E. x \<noteq> lru_head \<and> x \<noteq> in_use_head"
proof -
  have E: "3 \<le> x" if "x \<in> E" for x using assms that by (simp add: rings_ok_def)
  then show h: "\<forall>x\<in>E. x \<noteq> lru_head \<and> x \<noteq> in_use_head" by (fastforce simp: heads)
  have "lru_head \<notin> set used" "in_use_head \<notin> set idle" using h assms by (auto simp: rings_ok_def)
  then show d: "set (lru_head # idle) \<inter> set (in_use_head # used) = {}" using assms heads(3) by (auto simp: rings_ok_def)
  show "set (in_use_head # used) \<inter> set (lru_head # idle) = {}" using d by blast
  show "\<forall>x\<in>E. nxt L x \<noteq> x" using assms by (simp add: rings_ok_def)
qed

lemma LRU_Remove_ok:
  assumes r: "rings_ok (sc_links s) idle used (dom (sc_handles s))" and e: "e \<in> set idle \<union> set used"
  shows "\<exists>L. LRU_Remove e s = Inr (s\<lparr>sc_links := L\<rparr>) \<and> rings_ok L (remove1 e idle) (remove1 e used) (dom (sc_handles s))"
proof -
  let ?L = "list_del_entry e (sc_links s)" and ?E = "dom (sc_handles s)"
  have c: "clist (sc_links s) lru_head idle" "clist (sc_links s) in_use_head used" and i: "set idle \<inter> set used = {}"
    "set idle \<union> set used \<subseteq> ?E" "\<forall>e\<in>?E. 3 \<le> e" using r by (auto simp: rings_ok_def)
  have run: "LRU_Remove e s = Inr (s\<lparr>sc_links := ?L\<rparr>)"
    by (rule LRU_Remove_eq; rule ring_node [OF r]) (use e ring_neighbours [OF r, of e] in auto)
  have "clist ?L lru_head (remove1 e idle) \<and> clist ?L in_use_head (remove1 e used) \<and> (\<forall>x\<in>?E. nxt ?L x \<noteq> x)"
  proof (cases "e \<in> set idle")
    case True
    then have "remove1 e used = used" using i(1) by (auto intro: remove1_idem)
    then show ?thesis using LRU_Remove_ring [OF c rings_parts(1) [OF r] True rings_parts(3) [OF r]] rings_parts(4) [OF r] by auto
  next
    case False
    then have "e \<in> set used" "remove1 e idle = idle" using e by (auto intro: remove1_idem)
    then show ?thesis using LRU_Remove_ring [OF c(2,1) rings_parts(2) [OF r] _ rings_parts(3) [OF r]] rings_parts(4) [OF r] by auto
  qed
  then have "rings_ok ?L (remove1 e idle) (remove1 e used) ?E"
    unfolding rings_ok_def using i set_remove1_subset [of e idle] set_remove1_subset [of e used] by blast
  then show ?thesis using run by blast
qed

lemma LRU_Append_ok:
  assumes r: "rings_ok (sc_links s) idle used E" and e: "e \<notin> set idle \<union> set used" "3 \<le> e" "insert e E = dom (sc_handles s)"
  shows "\<exists>L. LRU_Append lru_head e s = Inr (s\<lparr>sc_links := L\<rparr>) \<and> rings_ok L (idle @ [e]) used (dom (sc_handles s))"
    and "\<exists>L. LRU_Append in_use_head e s = Inr (s\<lparr>sc_links := L\<rparr>) \<and> rings_ok L idle (used @ [e]) (dom (sc_handles s))"
proof -
  have c: "clist (sc_links s) lru_head idle" "clist (sc_links s) in_use_head used" and i: "set idle \<inter> set used = {}"
    "set idle \<union> set used \<subseteq> E" "\<forall>e\<in>E. 3 \<le> e" using r by (auto simp: rings_ok_def)
  have ne: "e \<noteq> lru_head" "e \<noteq> in_use_head" using e(2) by (auto simp: heads)
  have node: "is_node s x" if "x \<in> set (lru_head # idle) \<union> set (in_use_head # used)" for x
    using that i(2) e(3) by (auto simp: is_node_def)
  have run: "LRU_Append h e s = Inr (s\<lparr>sc_links := list_add_tail e h (sc_links s)\<rparr>)" if "h = lru_head \<or> h = in_use_head" for h
  proof -
    have p: "prv (sc_links s) h \<in> set (lru_head # idle) \<union> set (in_use_head # used)" using that by (intro ring_neighbours(2) [OF r]) auto
    then have "prv (sc_links s) h \<noteq> e" using e(1) ne by auto
    moreover have "is_node s e" using e(3) by (auto simp: is_node_def)
    ultimately show ?thesis using LRU_Append_eq [of s e h] node [OF p] node [of h] that ne by auto
  qed
  note o = rings_parts [OF r]
  have E3: "\<forall>x\<in>dom (sc_handles s). 3 \<le> x" using i(3) e by (metis insert_iff)
  show "\<exists>L. LRU_Append lru_head e s = Inr (s\<lparr>sc_links := L\<rparr>) \<and> rings_ok L (idle @ [e]) used (dom (sc_handles s))"
  proof (intro exI conjI)
    show "LRU_Append lru_head e s = Inr (s\<lparr>sc_links := list_add_tail e lru_head (sc_links s)\<rparr>)" by (rule run) simp
    have "e \<notin> set (lru_head # idle @ in_use_head # used)" using e(1) ne by auto
    from LRU_Append_ring [OF c o(1) this o(3)] show "rings_ok (list_add_tail e lru_head (sc_links s)) (idle @ [e]) used (dom (sc_handles s))"
      using i e(1) E3 ne o(4) unfolding rings_ok_def e(3) [symmetric] by (intro conjI ballI) auto
  qed
  show "\<exists>L. LRU_Append in_use_head e s = Inr (s\<lparr>sc_links := L\<rparr>) \<and> rings_ok L idle (used @ [e]) (dom (sc_handles s))"
  proof (intro exI conjI)
    show "LRU_Append in_use_head e s = Inr (s\<lparr>sc_links := list_add_tail e in_use_head (sc_links s)\<rparr>)" by (rule run) simp
    have "e \<notin> set (in_use_head # used @ lru_head # idle)" using e(1) ne by auto
    from LRU_Append_ring [OF c(2,1) o(2) this o(3)] show "rings_ok (list_add_tail e in_use_head (sc_links s)) idle (used @ [e]) (dom (sc_handles s))"
      using i e(1) E3 ne o(4) unfolding rings_ok_def e(3) [symmetric] by (intro conjI ballI) auto
  qed
qed

lemma rings_ok_free: "rings_ok L idle used E \<Longrightarrow> e \<notin> set idle \<union> set used \<Longrightarrow> rings_ok L idle used (E - {e})"
  by (auto simp: rings_ok_def)

lemma rings_first:
  assumes "rings_ok L idle used E"
  shows "nxt L lru_head = hd (idle @ [lru_head])" "nxt L lru_head \<noteq> lru_head \<longleftrightarrow> idle \<noteq> []"
    "nxt L in_use_head \<noteq> in_use_head \<longleftrightarrow> used \<noteq> []"
proof -
  have c: "clist L lru_head idle" "clist L in_use_head used" using assms by (simp_all add: rings_ok_def)
  then show "nxt L lru_head = hd (idle @ [lru_head])" using dseg_ends by (simp add: clist_def)
  show "nxt L lru_head \<noteq> lru_head \<longleftrightarrow> idle \<noteq> []" "nxt L in_use_head \<noteq> in_use_head \<longleftrightarrow> used \<noteq> []"
    using clist_empty_iff c by (auto simp: list_empty_def)
qed

section \<open>The shard represents its specification\<close>

definition has_table :: "'v LRUCache \<Rightarrow> nat set \<Rightarrow> bool" where
  "has_table s M \<longleftrightarrow> (\<exists>bs. table_ok s bs \<and> members bs = M)"

definition entry_of :: "'v LRUHandle \<Rightarrow> 'v entry" where
  "entry_of h = \<lparr>en_key = lh_key h, en_hash = lh_hash h, en_value = lh_value h, en_charge = lh_charge h, en_deleter = lh_deleter h\<rparr>"

text \<open>The flag and the count of a handle: the references of the clients and that of the cache.\<close>

definition handle_ok :: "'v shard_spec \<Rightarrow> nat \<Rightarrow> 'v LRUHandle \<Rightarrow> bool" where
  "handle_ok a e h \<longleftrightarrow> (lh_in_cache h \<longleftrightarrow> e \<in> set (ss_cached a))
     \<and> unat (lh_refs h) = ss_held a e + (if lh_in_cache h then 1 else 0) \<and> (e \<in> set (ss_idle a) \<longleftrightarrow> ss_held a e = 0)"

text \<open>\<open>M\<close> is what the table holds: all cached entries, except within \<open>Insert\<close> and \<open>Erase\<close>.\<close>

definition rep_with :: "nat set \<Rightarrow> 'v LRUCache \<Rightarrow> 'v shard_spec \<Rightarrow> bool" where
  "rep_with M s a \<longleftrightarrow> sc_capacity s = ss_capacity a \<and> sc_deleted s = ss_deleted a \<and> sc_usage s = ss_usage a
     \<and> rings_ok (sc_links s) (ss_idle a) (ss_used a) (dom (sc_handles s)) \<and> has_table s M
     \<and> (\<forall>e. ss_entry a e = map_option entry_of (sc_handles s e)) \<and> (\<forall>e h. sc_handles s e = Some h \<longrightarrow> handle_ok a e h)
     \<and> (\<forall>e. ss_entry a e = None \<longrightarrow> ss_held a e = 0)"

definition shard_rep :: "'v LRUCache \<Rightarrow> 'v shard_spec \<Rightarrow> bool" where
  "shard_rep s a \<longleftrightarrow> rep_with (set (ss_cached a)) s a"

lemma has_table_cong:
  assumes "has_table s M" "sc_list s' = sc_list s" "sc_next_hash s' = sc_next_hash s" "sc_length s' = sc_length s" "sc_elems s' = sc_elems s"
    "\<And>e. e \<in> M \<Longrightarrow> alive s' e \<and> hash_of s' e = hash_of s e \<and> key_of s' e = key_of s e"
  shows "has_table s' M"
proof -
  obtain bs where t: "table_ok s bs" "members bs = M" using assms(1) by (auto simp: has_table_def)
  have mem: "e \<in> M" if "i < length bs" "e \<in> set (bs ! i)" for i e using that t(2) mem_members by blast
  have "buckets_ok s' (sc_length s') bs"
    using t(1) assms(4,6) mem by (auto simp: table_ok_def buckets_ok_def bucket_of_def)
  moreover have "inj_on (\<lambda>e. (hash_of s' e, key_of s' e)) (members bs)"
    using t assms(6) by (simp add: table_ok_def inj_on_def)
  ultimately have "table_ok s' bs" using t(1) assms(2-5) by (simp add: table_ok_def)
  then show ?thesis using t(2) by (auto simp: has_table_def)
qed

lemma has_table_alive: "has_table s M \<Longrightarrow> x \<in> M \<Longrightarrow> alive s x"
  by (auto simp: has_table_def table_ok_def buckets_ok_def mem_members)

text \<open>A step that changes the handle of one entry and moves that entry between the rings.\<close>

lemma rep_change:
  assumes r: "rep_with M s a" and h: "sc_handles s e = Some h" "entry_of h' = entry_of h"
    and L: "rings_ok L (ss_idle a') (ss_used a') (dom (sc_handles s))"
    and a': "ss_entry a' = ss_entry a" "ss_capacity a' = ss_capacity a" "ss_deleted a' = ss_deleted a" "u = ss_usage a'"
    and o: "\<And>x. x \<noteq> e \<Longrightarrow> (x \<in> set (ss_idle a') \<longleftrightarrow> x \<in> set (ss_idle a)) \<and> (x \<in> set (ss_used a') \<longleftrightarrow> x \<in> set (ss_used a)) \<and> ss_held a' x = ss_held a x"
    and ok: "handle_ok a' e h'"
  shows "rep_with M (s\<lparr>sc_links := L, sc_usage := u, sc_handles := (sc_handles s)(e \<mapsto> h')\<rparr>) a'" (is "rep_with M ?s a'")
proof -
  have kh: "lh_key h' = lh_key h" "lh_hash h' = lh_hash h" using h(2) by (simp_all add: entry_of_def)
  have d: "dom (sc_handles ?s) = dom (sc_handles s)" using h(1) by auto
  have same: "hash_of ?s x = hash_of s x" "key_of ?s x = key_of s x" for x using h(1) kh by (simp_all add: hash_of_def key_of_def)
  have t: "has_table s M" using r by (simp add: rep_with_def)
  have "has_table ?s M"
  proof (rule has_table_cong [OF t])
    fix x assume "x \<in> M"
    then have "sc_handles s x \<noteq> None" using has_table_alive [OF t] by (simp add: alive_def)
    then show "alive ?s x \<and> hash_of ?s x = hash_of s x \<and> key_of ?s x = key_of s x"
      using L same by (auto simp: alive_def rings_ok_def)
  qed simp_all
  moreover have "handle_ok a' x hx" if "sc_handles ?s x = Some hx" for x hx
  proof (cases "x = e")
    case False
    then have "handle_ok a x hx" using that r by (simp add: rep_with_def)
    then show ?thesis using o [OF False] by (simp add: handle_ok_def ss_cached_def)
  qed (use that ok in simp)
  moreover have "ss_held a' x = 0" if "ss_entry a' x = None" for x
  proof -
    have "x \<noteq> e" using that r h(1) a'(1) by (auto simp: rep_with_def)
    then show ?thesis using o that r a'(1) by (simp add: rep_with_def)
  qed
  moreover have "rings_ok (sc_links ?s) (ss_idle a') (ss_used a') (dom (sc_handles ?s))" unfolding d using L by simp
  moreover have "ss_entry a' x = map_option entry_of (sc_handles ?s x)" for x using r a'(1) h by (simp add: rep_with_def)
  ultimately show ?thesis using r a' unfolding rep_with_def by simp
qed

lemma ss_charge_upd [simp]: "ss_charge (a\<lparr>ss_idle := xs\<rparr>) = ss_charge a" "ss_charge (a\<lparr>ss_used := xs\<rparr>) = ss_charge a"
  "ss_charge (a\<lparr>ss_held := f\<rparr>) = ss_charge a" "ss_charge (a\<lparr>ss_deleted := ds\<rparr>) = ss_charge a"
  by (simp_all add: ss_charge_def fun_eq_iff)

lemma cached_usage:
  "e \<in> set (ss_idle a) \<Longrightarrow> ss_usage (a\<lparr>ss_idle := remove1 e (ss_idle a), ss_used := ss_used a @ [e]\<rparr>) = ss_usage a"
  "e \<in> set (ss_used a) \<Longrightarrow> ss_usage (a\<lparr>ss_used := remove1 e (ss_used a), ss_idle := ss_idle a @ [e]\<rparr>) = ss_usage a"
  by (simp_all add: ss_usage_def ss_cached_def sum_list_map_remove1 [of e])

lemma usage_held [simp]: "ss_usage (a\<lparr>ss_held := f\<rparr>) = ss_usage a"
  by (simp add: ss_usage_def ss_cached_def)

lemma rep_handle:
  assumes "rep_with M s a" "sc_handles s e = Some h"
  shows "handle_ok a e h" "ss_entry a e = Some (entry_of h)" "3 \<le> e" "nxt (sc_links s) e \<noteq> e"
  using assms by (auto simp: rep_with_def rings_ok_def)

lemma rep_rings: "rep_with M s a \<Longrightarrow> rings_ok (sc_links s) (ss_idle a) (ss_used a) (dom (sc_handles s))"
  by (simp add: rep_with_def)

lemma rings_distinct:
  assumes "rings_ok L idle used E"
  shows "distinct idle" "distinct used" "set idle \<inter> set used = {}" "set idle \<subseteq> E" "set used \<subseteq> E"
  using assms by (auto simp: rings_ok_def clist_def)

lemma LRU_Ref_ok:
  assumes r: "rep_with M s a" and e: "e \<in> set (ss_cached a)" and n: "ss_held a e < 2 ^ 32 - 2"
  shows "\<exists>s'. LRU_Ref e s = Inr s' \<and> rep_with M s' (ss_hold e a)"
proof -
  note ro = rep_rings [OF r]
  note di = rings_distinct [OF ro]
  obtain h where h: "sc_handles s e = Some h" using e di(4,5) by (auto simp: ss_cached_def)
  have ok: "handle_ok a e h" using rep_handle [OF r h] by simp
  then have c: "lh_in_cache h" "unat (lh_refs h) = ss_held a e + 1" "e \<in> set (ss_idle a) \<longleftrightarrow> ss_held a e = 0"
    using e by (auto simp: handle_ok_def)
  let ?h = "h\<lparr>lh_refs := lh_refs h + 1\<rparr>"
  have "unat (lh_refs h + 1) = ss_held a e + 2" using c(2) n by (simp add: unat_word_ariths)
  moreover have one: "lh_refs h = 1 \<longleftrightarrow> ss_held a e = 0" using c(2) by (metis add_cancel_left_left unat_1 word_unat_eq_iff)
  ultimately have refs: "unat (lh_refs ?h) = ss_held a e + 2" by simp
  show ?thesis
  proof (cases "ss_held a e = 0")
    case True
    then have i: "e \<in> set (ss_idle a)" "e \<notin> set (ss_used a)" using c(3) di(3) by auto
    obtain L where L: "LRU_Remove e s = Inr (s\<lparr>sc_links := L\<rparr>)" "rings_ok L (remove1 e (ss_idle a)) (ss_used a) (dom (sc_handles s))"
      using LRU_Remove_ok [OF ro, of e] i by (auto simp: remove1_idem)
    obtain L' where L': "LRU_Append in_use_head e (s\<lparr>sc_links := L\<rparr>) = Inr (s\<lparr>sc_links := L'\<rparr>)"
      "rings_ok L' (remove1 e (ss_idle a)) (ss_used a @ [e]) (dom (sc_handles s))"
      using LRU_Append_ok(2) [of "s\<lparr>sc_links := L\<rparr>" "remove1 e (ss_idle a)" "ss_used a" "dom (sc_handles s)" e]
        L(2) i di(1) insert_absorb [of e "dom (sc_handles s)"] h rep_handle(3) [OF r h] by auto
    have a': "ss_hold e a = a\<lparr>ss_idle := remove1 e (ss_idle a), ss_used := ss_used a @ [e], ss_held := (ss_held a)(e := 1)\<rparr>"
      using i True by (simp add: ss_hold_def)
    have "rep_with M (s\<lparr>sc_links := L', sc_usage := sc_usage s, sc_handles := (sc_handles s)(e \<mapsto> ?h)\<rparr>) (ss_hold e a)"
    proof (rule rep_change [OF r h])
      show "sc_usage s = ss_usage (ss_hold e a)" using r cached_usage(1) [OF i(1)] unfolding a' by (simp add: rep_with_def)
      show "handle_ok (ss_hold e a) e ?h" using c(1) refs True di(1) by (simp add: a' handle_ok_def ss_cached_def)
    qed (use L'(2) di(1) in \<open>auto simp: a' entry_of_def\<close>)
    moreover have "LRU_Ref e s = Inr (s\<lparr>sc_links := L', sc_usage := sc_usage s, sc_handles := (sc_handles s)(e \<mapsto> ?h)\<rparr>)"
      using h one True c(1) L(1) L'(1) by (simp add: LRU_Ref_def get_handle_def set_handle_def)
    ultimately show ?thesis by blast
  next
    case False
    then have i: "e \<notin> set (ss_idle a)" "e \<in> set (ss_used a)" using c(3) e by (auto simp: ss_cached_def)
    have a': "ss_hold e a = a\<lparr>ss_held := (ss_held a)(e := ss_held a e + 1)\<rparr>" using i by (simp add: ss_hold_def)
    have "rep_with M (s\<lparr>sc_links := sc_links s, sc_usage := sc_usage s, sc_handles := (sc_handles s)(e \<mapsto> ?h)\<rparr>) (ss_hold e a)"
    proof (rule rep_change [OF r h])
      show "sc_usage s = ss_usage (ss_hold e a)" using r unfolding a' by (simp add: rep_with_def)
      show "handle_ok (ss_hold e a) e ?h" using c(1) refs i by (simp add: a' handle_ok_def ss_cached_def)
    qed (use ro in \<open>auto simp: a' entry_of_def\<close>)
    moreover have "LRU_Ref e s = Inr (s\<lparr>sc_links := sc_links s, sc_usage := sc_usage s, sc_handles := (sc_handles s)(e \<mapsto> ?h)\<rparr>)"
      using h one False by (simp add: LRU_Ref_def get_handle_def set_handle_def)
    ultimately show ?thesis by blast
  qed
qed

lemma rep_free:
  assumes r: "rep_with M s a" and h: "sc_handles s e = Some h" and e: "e \<notin> set (ss_cached a)" "e \<notin> M"
  shows "rep_with M (s\<lparr>sc_deleted := sc_deleted s @ [(lh_deleter h, lh_key h, lh_value h)], sc_handles := (sc_handles s)(e := None)\<rparr>)
    (ss_free e (a\<lparr>ss_held := (ss_held a)(e := 0)\<rparr>))" (is "rep_with M ?s ?a")
proof -
  have d: "ss_entry a e = Some (entry_of h)" using rep_handle [OF r h] by simp
  then have a': "?a = a\<lparr>ss_held := (ss_held a)(e := 0), ss_entry := (ss_entry a)(e := None),
    ss_deleted := ss_deleted a @ [(lh_deleter h, lh_key h, lh_value h)]\<rparr>" by (simp add: ss_free_def entry_of_def)
  have t: "has_table s M" using r by (simp add: rep_with_def)
  have "has_table ?s M"
  proof (rule has_table_cong [OF t])
    fix x assume "x \<in> M"
    then have "alive s x" "x \<noteq> e" using has_table_alive [OF t] e(2) by auto
    then show "alive ?s x \<and> hash_of ?s x = hash_of s x \<and> key_of ?s x = key_of s x" by (simp add: alive_def hash_of_def key_of_def)
  qed simp_all
  moreover have "rings_ok (sc_links ?s) (ss_idle ?a) (ss_used ?a) (dom (sc_handles ?s))"
    using rings_ok_free [OF rep_rings [OF r], of e] e(1) by (simp add: a' ss_cached_def)
  moreover have "ss_usage ?a = ss_usage a"
  proof -
    have "map (ss_charge ?a) (ss_cached a) = map (ss_charge a) (ss_cached a)"
      using e(1) by (auto simp: a' ss_charge_def intro!: map_cong)
    moreover have "ss_cached ?a = ss_cached a" by (simp add: a' ss_cached_def)
    ultimately show ?thesis unfolding ss_usage_def by (simp only:)
  qed
  moreover have "handle_ok ?a x hx" if "sc_handles ?s x = Some hx" for x hx
  proof -
    have "x \<noteq> e" "handle_ok a x hx" using that r by (auto simp: rep_with_def split: if_splits)
    then show ?thesis by (simp add: a' handle_ok_def ss_cached_def)
  qed
  ultimately show ?thesis using r unfolding rep_with_def by (simp add: a')
qed

lemma LRU_Unref_ok:
  assumes r: "rep_with M s a" and e: "0 < ss_held a e" and M: "M \<subseteq> set (ss_cached a)"
  shows "\<exists>s'. LRU_Unref e s = Inr s' \<and> rep_with M s' (ss_release e a)"
proof -
  note ro = rep_rings [OF r]
  note di = rings_distinct [OF ro]
  obtain h where h: "sc_handles s e = Some h" using e r by (cases "sc_handles s e") (auto simp: rep_with_def)
  have c: "lh_in_cache h \<longleftrightarrow> e \<in> set (ss_cached a)" "unat (lh_refs h) = ss_held a e + (if lh_in_cache h then 1 else 0)" "e \<notin> set (ss_idle a)"
    using rep_handle(1) [OF r h] e by (auto simp: handle_ok_def)
  then have u: "lh_in_cache h \<longleftrightarrow> e \<in> set (ss_used a)" by (simp add: ss_cached_def)
  let ?h = "h\<lparr>lh_refs := lh_refs h - 1\<rparr>" and ?a = "a\<lparr>ss_held := (ss_held a)(e := ss_held a e - 1)\<rparr>"
  have pos: "0 < lh_refs h" using c(2) e by (metis add_is_0 gr_implies_not_zero unat_0 word_neq_0_conv)
  then have "unat (lh_refs h - 1) = unat (lh_refs h) - 1" by (metis unat_minus_one word_not_simps(1))
  then have refs: "unat (lh_refs ?h) = ss_held a e - 1 + (if lh_in_cache h then 1 else 0)" using c(2) e by simp
  have zero: "lh_refs ?h = 0 \<longleftrightarrow> unat (lh_refs ?h) = 0" "lh_refs ?h = 1 \<longleftrightarrow> unat (lh_refs ?h) = 1"
    by (metis unat_0 word_unat_eq_iff, metis unat_1 word_unat_eq_iff)
  consider (stay) "1 < ss_held a e" | (idle) "ss_held a e = 1" "lh_in_cache h" | (free) "ss_held a e = 1" "\<not> lh_in_cache h"
    using e by linarith
  then show ?thesis
  proof cases
    case stay
    have "rep_with M (s\<lparr>sc_links := sc_links s, sc_usage := sc_usage s, sc_handles := (sc_handles s)(e \<mapsto> ?h)\<rparr>) ?a"
    proof (rule rep_change [OF r h])
      show "sc_usage s = ss_usage ?a" using r by (simp add: rep_with_def)
      show "handle_ok ?a e ?h" using c stay refs by (auto simp: handle_ok_def ss_cached_def)
    qed (use ro in \<open>auto simp: entry_of_def\<close>)
    moreover have "ss_release e a = ?a" using stay by (simp add: ss_release_def)
    moreover have "LRU_Unref e s = Inr (s\<lparr>sc_links := sc_links s, sc_usage := sc_usage s, sc_handles := (sc_handles s)(e \<mapsto> ?h)\<rparr>)"
      using h pos stay refs zero by (simp add: LRU_Unref_def get_handle_def set_handle_def)
    ultimately show ?thesis by auto
  next
    case idle
    then have i: "e \<in> set (ss_used a)" using u by simp
    let ?s = "s\<lparr>sc_handles := (sc_handles s)(e \<mapsto> ?h)\<rparr>"
    have d: "dom (sc_handles ?s) = dom (sc_handles s)" "insert e (dom (sc_handles s)) = dom (sc_handles s)" using h by auto
    obtain L where L: "LRU_Remove e ?s = Inr (?s\<lparr>sc_links := L\<rparr>)" "rings_ok L (ss_idle a) (remove1 e (ss_used a)) (dom (sc_handles s))"
      using LRU_Remove_ok [of ?s "ss_idle a" "ss_used a" e] ro d(1) i c(3) by (auto simp: remove1_idem)
    obtain L' where L': "LRU_Append lru_head e (?s\<lparr>sc_links := L\<rparr>) = Inr (?s\<lparr>sc_links := L'\<rparr>)"
      "rings_ok L' (ss_idle a @ [e]) (remove1 e (ss_used a)) (dom (sc_handles s))"
      using LRU_Append_ok(1) [of "?s\<lparr>sc_links := L\<rparr>" "ss_idle a" "remove1 e (ss_used a)" "dom (sc_handles s)" e]
        L(2) i c(3) di(2) d rep_handle(3) [OF r h] by auto
    let ?b = "?a\<lparr>ss_used := remove1 e (ss_used a), ss_idle := ss_idle a @ [e]\<rparr>"
    have a': "ss_release e a = ?b" using i idle by (simp add: ss_release_def)
    have "rep_with M (s\<lparr>sc_links := L', sc_usage := sc_usage s, sc_handles := (sc_handles s)(e \<mapsto> ?h)\<rparr>) ?b"
    proof (rule rep_change [OF r h])
      show "sc_usage s = ss_usage ?b" using r cached_usage(2) [of e ?a] i by (simp add: rep_with_def)
      show "handle_ok ?b e ?h" using c idle refs by (auto simp: handle_ok_def ss_cached_def)
    qed (use L'(2) di(2) in \<open>auto simp: entry_of_def\<close>)
    moreover have "LRU_Unref e s = Inr (s\<lparr>sc_links := L', sc_usage := sc_usage s, sc_handles := (sc_handles s)(e \<mapsto> ?h)\<rparr>)"
      using h pos idle refs zero L(1) L'(1) by (simp add: LRU_Unref_def get_handle_def set_handle_def Let_def)
    ultimately show ?thesis unfolding a' by blast
  next
    case free
    have m: "e \<notin> set (ss_cached a)" "e \<notin> M" using free c(1) M by auto
    have a': "ss_release e a = ss_free e (a\<lparr>ss_held := (ss_held a)(e := 0)\<rparr>)" using free u by (simp add: ss_release_def)
    have "LRU_Unref e s = Inr (s\<lparr>sc_deleted := sc_deleted s @ [(lh_deleter h, lh_key h, lh_value h)], sc_handles := (sc_handles s)(e := None)\<rparr>)"
      using h pos free refs zero rep_handle(4) [OF r h]
      by (simp add: LRU_Unref_def get_handle_def set_handle_def Let_def handle_key_def)
    then show ?thesis using rep_free [OF r h m] unfolding a' by blast
  qed
qed

lemma ss_release_drop:
  assumes "distinct (ss_used a)"
  shows "ss_release e (a\<lparr>ss_idle := remove1 e (ss_idle a), ss_used := remove1 e (ss_used a), ss_held := (ss_held a)(e := ss_held a e + 1)\<rparr>) = ss_drop e a"
  using assms by (simp add: ss_release_def ss_drop_def Let_def)

text \<open>An entry already taken out of the table leaves the cache.\<close>

lemma FinishErase_ok:
  assumes r: "rep_with M s a" and e: "e \<in> set (ss_cached a)" and M: "M = set (ss_cached a) - {e}"
  shows "\<exists>s'. FinishErase (Some e) s = Inr (True, s') \<and> rep_with M s' (ss_drop e a)"
proof -
  note ro = rep_rings [OF r]
  note di = rings_distinct [OF ro]
  obtain h where h: "sc_handles s e = Some h" using e di(4,5) by (auto simp: ss_cached_def)
  have c: "lh_in_cache h" "unat (lh_refs h) = ss_held a e + 1" using rep_handle(1) [OF r h] e by (auto simp: handle_ok_def)
  let ?a = "a\<lparr>ss_idle := remove1 e (ss_idle a), ss_used := remove1 e (ss_used a), ss_held := (ss_held a)(e := ss_held a e + 1)\<rparr>"
  let ?h = "h\<lparr>lh_in_cache := False\<rparr>"
  obtain L where L: "LRU_Remove e s = Inr (s\<lparr>sc_links := L\<rparr>)" "rings_ok L (remove1 e (ss_idle a)) (remove1 e (ss_used a)) (dom (sc_handles s))"
    using LRU_Remove_ok [OF ro, of e] e by (auto simp: ss_cached_def)
  define s1 where "s1 = s\<lparr>sc_links := L, sc_usage := sc_usage s - lh_charge h, sc_handles := (sc_handles s)(e \<mapsto> ?h)\<rparr>"
  have ch: "ss_charge a e = lh_charge h" using rep_handle(2) [OF r h] by (simp add: ss_charge_def entry_of_def)
  have "ss_usage a = ss_usage ?a + lh_charge h"
  proof (cases "e \<in> set (ss_idle a)")
    case True
    then have "e \<notin> set (ss_used a)" using di(3) by blast
    then show ?thesis using True ch by (simp add: ss_usage_def ss_cached_def sum_list_map_remove1 [of e "ss_idle a"] remove1_idem)
  next
    case False
    then have "e \<in> set (ss_used a)" using e by (simp add: ss_cached_def)
    then show ?thesis using False ch by (simp add: ss_usage_def ss_cached_def sum_list_map_remove1 [of e "ss_used a"] remove1_idem)
  qed
  then have u: "sc_usage s - lh_charge h = ss_usage ?a" using r by (simp add: rep_with_def)
  have r1: "rep_with M s1 ?a"
    unfolding s1_def
  proof (rule rep_change [OF r h])
    show "sc_usage s - lh_charge h = ss_usage ?a" by (rule u)
    show "handle_ok ?a e ?h" using c di(1,2) by (simp add: handle_ok_def ss_cached_def)
  qed (use L(2) di(1,2) in \<open>auto simp: entry_of_def\<close>)
  have "M \<subseteq> set (ss_cached ?a)" using M di(1,2) by (auto simp: ss_cached_def)
  then obtain s' where "LRU_Unref e s1 = Inr s'" "rep_with M s' (ss_release e ?a)" using LRU_Unref_ok [OF r1, of e] by auto
  moreover have "s\<lparr>sc_links := L, sc_handles := (sc_handles s)(e \<mapsto> ?h), sc_usage := sc_usage s - lh_charge h\<rparr> = s1"
    unfolding s1_def by (rule LRUCache.equality) simp_all
  then have "FinishErase (Some e) s = ub_bind (LRU_Unref e s1) (\<lambda>s. Inr (True, s))"
    using h c(1) L(1) by (simp add: FinishErase_def get_handle_def set_handle_def Let_def)
  ultimately show ?thesis unfolding ss_release_drop [OF di(2)] by auto
qed

section \<open>The operations of a shard\<close>

lemma ss_free_simps [simp]: "ss_idle (ss_free e a) = ss_idle a" "ss_used (ss_free e a) = ss_used a" "ss_capacity (ss_free e a) = ss_capacity a"
  "ss_held (ss_free e a) = ss_held a"
  by (simp_all add: ss_free_def split: option.split)

lemma ss_drop_simps [simp]: "ss_idle (ss_drop e a) = remove1 e (ss_idle a)" "ss_used (ss_drop e a) = remove1 e (ss_used a)"
  "ss_capacity (ss_drop e a) = ss_capacity a" "ss_held (ss_drop e a) = ss_held a"
  by (simp_all add: ss_drop_def Let_def)

lemma set_cached:
  assumes "distinct (ss_idle a)" "distinct (ss_used a)"
  shows "set (ss_cached (ss_hold e a)) = set (ss_cached a)" "set (ss_cached (ss_release e a)) = set (ss_cached a)"
    "set (ss_cached (ss_drop e a)) = set (ss_cached a) - {e}"
  using assms by (auto simp: ss_cached_def ss_hold_def ss_release_def Let_def)

lemma shard_rep_distinct: "shard_rep s a \<Longrightarrow> distinct (ss_idle a)" "shard_rep s a \<Longrightarrow> distinct (ss_used a)"
  unfolding shard_rep_def by (auto dest!: rep_rings dest: rings_distinct(1,2))

lemma rep_table: "rep_with M s a \<Longrightarrow> same_but_table s s' \<Longrightarrow> has_table s' M' \<Longrightarrow> rep_with M' s' a"
  by (auto simp: rep_with_def same_but_table_def)

lemma rep_matches:
  assumes "rep_with M s a" "sc_handles s e \<noteq> None"
  shows "matches key hash s e \<longleftrightarrow> ss_matches key hash a e"
  using assms rep_handle(2) [OF assms(1)] by (auto simp: matches_def ss_matches_def hash_of_def key_of_def entry_of_def)

lemma shard_rep_find:
  assumes r: "shard_rep s a" and e: "entry_for s (set (ss_cached a)) key hash x"
  shows "x = ss_find key hash a"
proof -
  let ?M = "set (ss_cached a)"
  have r': "rep_with ?M s a" using r by (simp add: shard_rep_def)
  have live: "sc_handles s y \<noteq> None" if "y \<in> ?M" for y using rings_distinct(4,5) [OF rep_rings [OF r']] that by (auto simp: ss_cached_def)
  have inj: "inj_on (\<lambda>e. (hash_of s e, key_of s e)) ?M" using r' by (auto simp: rep_with_def has_table_def table_ok_def)
  show ?thesis
  proof (cases x)
    case None
    then have "\<not> ss_matches key hash a y" if "y \<in> ?M" for y using e that rep_matches [OF r' live [OF that], of key hash] by (simp add: entry_for_def)
    then show ?thesis using None by (metis find_None_iff ss_find_def)
  next
    case (Some y)
    then have y: "y \<in> ?M" "matches key hash s y" using e by (auto simp: entry_for_def)
    then have "ss_matches key hash a y" using rep_matches [OF r' live] by blast
    then obtain z where z: "ss_find key hash a = Some z" using y(1) by (metis find_None_iff option.exhaust ss_find_def)
    then have "z \<in> ?M" "ss_matches key hash a z" unfolding ss_find_def by (metis find_Some_iff nth_mem)+
    then have "z \<in> ?M" "matches key hash s z" using rep_matches [OF r' live] by blast+
    then have "z = y" using y inj_onD [OF inj, of z y] by (simp add: matches_def)
    then show ?thesis using Some z by simp
  qed
qed

lemma ss_find_cached: "ss_find key hash a = Some e \<Longrightarrow> e \<in> set (ss_cached a)"
  unfolding ss_find_def by (metis find_Some_iff nth_mem)

lemma LRU_Lookup_ok:
  assumes r: "shard_rep s a" and n: "\<forall>e. ss_find key hash a = Some e \<longrightarrow> ss_held a e < 2 ^ 32 - 2"
  shows "\<exists>s'. LRU_Lookup key hash s = Inr (ss_find key hash a, s')
    \<and> shard_rep s' (case ss_find key hash a of None \<Rightarrow> a | Some e \<Rightarrow> ss_hold e a)"
proof -
  have r': "rep_with (set (ss_cached a)) s a" using r by (simp add: shard_rep_def)
  then obtain bs where "table_ok s bs" "members bs = set (ss_cached a)" by (auto simp: rep_with_def has_table_def)
  then have l: "HandleTable_Lookup key hash s = Inr (ss_find key hash a)"
    using HandleTable_Lookup_ok [of s bs key hash] shard_rep_find [OF r] by auto
  show ?thesis
  proof (cases "ss_find key hash a")
    case None
    then show ?thesis using l r by (simp add: LRU_Lookup_def)
  next
    case (Some e)
    then obtain s' where "LRU_Ref e s = Inr s'" "rep_with (set (ss_cached a)) s' (ss_hold e a)"
      using LRU_Ref_ok [OF r' ss_find_cached [OF Some]] n by blast
    then show ?thesis using Some l set_cached(1) [OF shard_rep_distinct [OF r]] by (simp add: LRU_Lookup_def shard_rep_def)
  qed
qed

lemma LRU_Release_ok:
  assumes r: "shard_rep s a" and e: "0 < ss_held a e"
  shows "\<exists>s'. LRU_Release e s = Inr s' \<and> shard_rep s' (ss_release e a)"
  using LRU_Unref_ok [of "set (ss_cached a)" s a e] r e set_cached(2) [OF shard_rep_distinct [OF r]]
  by (simp add: LRU_Release_def shard_rep_def)

lemma table_erase_ok:
  assumes r: "shard_rep s a"
  shows "\<exists>s1 s2. HandleTable_Remove key hash s = Inr (ss_find key hash a, s1)
    \<and> FinishErase (ss_find key hash a) s1 = Inr (ss_find key hash a \<noteq> None, s2) \<and> shard_rep s2 (ss_drop_opt (ss_find key hash a) a)"
proof -
  let ?x = "ss_find key hash a"
  have r': "rep_with (set (ss_cached a)) s a" using r by (simp add: shard_rep_def)
  then obtain bs where t: "table_ok s bs" "members bs = set (ss_cached a)" by (auto simp: rep_with_def has_table_def)
  obtain x s1 bs' where q: "HandleTable_Remove key hash s = Inr (x, s1)" "entry_for s (members bs) key hash x"
    "same_but_table s s1" "table_ok s1 bs'" "members bs' = members bs - set_option x"
    using HandleTable_Remove_ok [OF t(1)] by blast
  have x: "x = ?x" using shard_rep_find [OF r] q(2) t(2) by simp
  have r1: "rep_with (set (ss_cached a) - set_option x) s1 a"
    using rep_table [OF r' q(3)] q(4,5) t(2) by (auto simp: has_table_def)
  show ?thesis
  proof (cases ?x)
    case None
    then show ?thesis using q(1) r1 x by (simp add: FinishErase_def ss_drop_opt_def shard_rep_def)
  next
    case (Some e)
    then have r2: "rep_with (set (ss_cached a) - {e}) s1 a" using r1 x by simp
    obtain s2 where "FinishErase (Some e) s1 = Inr (True, s2)" "rep_with (set (ss_cached a) - {e}) s2 (ss_drop e a)"
      using FinishErase_ok [OF r2 ss_find_cached [OF Some] refl] by blast
    then show ?thesis using Some q(1) x set_cached(3) [OF shard_rep_distinct [OF r]] by (simp add: ss_drop_opt_def shard_rep_def)
  qed
qed

lemma LRU_Erase_ok:
  assumes "shard_rep s a"
  shows "\<exists>s'. LRU_Erase key hash s = Inr s' \<and> shard_rep s' (ss_drop_opt (ss_find key hash a) a)"
  using table_erase_ok [OF assms, of key hash] by (auto simp: LRU_Erase_def)

lemma evict_oldest_ok:
  assumes r: "shard_rep s a" and i: "ss_idle a = e # es"
  shows "\<exists>s'. evict_oldest s = Inr s' \<and> shard_rep s' (ss_drop e a)"
proof -
  let ?M = "set (ss_cached a)"
  have r': "rep_with ?M s a" using r by (simp add: shard_rep_def)
  note ro = rep_rings [OF r']
  have e: "e \<in> ?M" "nxt (sc_links s) lru_head = e" using i rings_first(1) [OF ro] by (simp_all add: ss_cached_def)
  obtain h where h: "sc_handles s e = Some h" using rings_distinct(4) [OF ro] i by auto
  note hh = rep_handle [OF r' h]
  have "unat (lh_refs h) = 1" using hh(1) i by (auto simp: handle_ok_def ss_cached_def)
  then have one: "lh_refs h = 1" by (metis unat_1 word_unat_eq_iff)
  have "entry_for s ?M (lh_key h) (lh_hash h) (Some e)" using e h by (simp add: entry_for_def matches_def hash_of_def key_of_def)
  then have f: "ss_find (lh_key h) (lh_hash h) a = Some e" using shard_rep_find [OF r] by metis
  have k: "handle_key e s = Inr (lh_key h)" "get_handle e s = Inr h" using h hh(4) by (simp_all add: handle_key_def get_handle_def)
  show ?thesis using table_erase_ok [OF r, of "lh_key h" "lh_hash h"] f one e(2) k by (auto simp: evict_oldest_def ss_drop_opt_def)
qed

lemma evict_loop_ok: "shard_rep s a \<Longrightarrow> \<exists>s'. evict_loop s = Some (Inr s') \<and> shard_rep s' (ss_shrink a)"
proof (induction "ss_idle a" arbitrary: s a)
  case Nil
  have "nxt (sc_links s) lru_head = lru_head" using rings_first(2) rep_rings Nil unfolding shard_rep_def by metis
  then show ?case using Nil by (subst evict_loop.simps) (simp add: ss_shrink_def flip: Nil(1))
next
  case (Cons e es)
  have r: "rep_with (set (ss_cached a)) s a" using Cons.prems by (simp add: shard_rep_def)
  have n: "nxt (sc_links s) lru_head \<noteq> lru_head" using rings_first(2) [OF rep_rings [OF r]] by (simp flip: Cons(2))
  have u: "sc_usage s = ss_usage a" "sc_capacity s = ss_capacity a" using r by (simp_all add: rep_with_def)
  show ?case
  proof (cases "ss_usage a > ss_capacity a")
    case True
    obtain s1 where s1: "evict_oldest s = Inr s1" "shard_rep s1 (ss_drop e a)"
      using evict_oldest_ok [OF Cons.prems Cons(2) [symmetric]] by blast
    have es: "es = ss_idle (ss_drop e a)" using Cons(2) by (simp flip: Cons(2))
    have "ss_shrink a = ss_shrink (ss_drop e a)" using True es by (simp add: ss_shrink_def flip: Cons(2))
    moreover have "evict_loop s = evict_loop s1" using True u n s1(1) by (subst evict_loop.simps) simp
    ultimately show ?thesis using Cons(1) [OF es s1(2)] by simp
  next
    case False
    then have "evict_loop s = Some (Inr s)" using u by (subst evict_loop.simps) simp
    moreover have "ss_shrink a = a" using False by (simp add: ss_shrink_def flip: Cons(2))
    ultimately show ?thesis using Cons.prems by simp
  qed
qed

lemma LRU_Prune_ok: "shard_rep s a \<Longrightarrow> \<exists>s'. LRU_Prune s = Inr s' \<and> shard_rep s' (ss_prune a)"
proof (induction "ss_idle a" arbitrary: s a)
  case Nil
  have "nxt (sc_links s) lru_head = lru_head" using rings_first(2) rep_rings Nil unfolding shard_rep_def by metis
  then have "prune_loop s = Some (Inr s)" by (subst prune_loop.simps) simp
  then show ?case using Nil by (simp add: ss_prune_def LRU_Prune_def flip: Nil(1))
next
  case (Cons e es)
  have r: "rep_with (set (ss_cached a)) s a" using Cons.prems by (simp add: shard_rep_def)
  have n: "nxt (sc_links s) lru_head \<noteq> lru_head" using rings_first(2) [OF rep_rings [OF r]] by (simp flip: Cons(2))
  obtain s1 where s1: "evict_oldest s = Inr s1" "shard_rep s1 (ss_drop e a)"
    using evict_oldest_ok [OF Cons.prems Cons(2) [symmetric]] by blast
  have es: "es = ss_idle (ss_drop e a)" using Cons(2) by (simp flip: Cons(2))
  have "ss_prune a = ss_prune (ss_drop e a)" using es by (simp add: ss_prune_def flip: Cons(2))
  moreover have "prune_loop s = prune_loop s1" using n s1(1) by (subst prune_loop.simps) simp
  ultimately show ?case using Cons(1) [OF es s1(2)] by (simp add: LRU_Prune_def)
qed

text \<open>A new cell.\<close>

lemma add_usage:
  assumes "e \<notin> set (ss_cached a)"
  shows "ss_usage (ss_add e d a) = ss_usage a" "ss_usage ((ss_add e d a)\<lparr>ss_used := ss_used a @ [e]\<rparr>) = ss_usage a + en_charge d"
proof -
  have m: "map (ss_charge (ss_add e d a)) (ss_cached a) = map (ss_charge a) (ss_cached a)"
    using assms by (auto simp: ss_add_def ss_charge_def intro!: map_cong)
  have c: "ss_cached (ss_add e d a) = ss_cached a" "ss_cached ((ss_add e d a)\<lparr>ss_used := ss_used a @ [e]\<rparr>) = ss_cached a @ [e]"
    by (simp_all add: ss_add_def ss_cached_def)
  show "ss_usage (ss_add e d a) = ss_usage a" unfolding ss_usage_def c m ..
  have "ss_charge (ss_add e d a) e = en_charge d" by (simp add: ss_add_def ss_charge_def)
  then show "ss_usage ((ss_add e d a)\<lparr>ss_used := ss_used a @ [e]\<rparr>) = ss_usage a + en_charge d"
    unfolding ss_usage_def c ss_charge_upd map_append sum_list_append m by simp
qed

lemma rep_add:
  assumes r: "rep_with M s a" and e: "sc_handles s e = None" and h: "entry_of h = d"
    and L: "rings_ok L (ss_idle a) us (insert e (dom (sc_handles s)))" and us: "\<And>x. x \<noteq> e \<Longrightarrow> x \<in> set us \<longleftrightarrow> x \<in> set (ss_used a)"
    and ok: "handle_ok ((ss_add e d a)\<lparr>ss_used := us\<rparr>) e h" and u: "u = ss_usage ((ss_add e d a)\<lparr>ss_used := us\<rparr>)"
  shows "rep_with M (s\<lparr>sc_links := L, sc_usage := u, sc_handles := (sc_handles s)(e \<mapsto> h)\<rparr>) ((ss_add e d a)\<lparr>ss_used := us\<rparr>)" (is "rep_with M ?s ?a")
proof -
  have t: "has_table s M" using r by (simp add: rep_with_def)
  have "has_table ?s M"
  proof (rule has_table_cong [OF t])
    fix x assume "x \<in> M"
    then have "alive s x" by (rule has_table_alive [OF t])
    moreover then have "x \<noteq> e" "x \<in> insert e (dom (sc_handles s))" using e(1) by (auto simp: alive_def)
    ultimately show "alive ?s x \<and> hash_of ?s x = hash_of s x \<and> key_of ?s x = key_of s x"
      using L by (auto simp: alive_def hash_of_def key_of_def rings_ok_def)
  qed simp_all
  moreover have "handle_ok ?a x hx" if "sc_handles ?s x = Some hx" for x hx
  proof (cases "x = e")
    case False
    then have "handle_ok a x hx" using that r by (auto simp: rep_with_def)
    then show ?thesis using False us [OF False] by (simp add: ss_add_def handle_ok_def ss_cached_def)
  qed (use that ok in simp)
  moreover have "ss_entry ?a x = map_option entry_of (sc_handles ?s x)" "ss_entry ?a x = None \<longrightarrow> ss_held ?a x = 0" for x
    using r h unfolding rep_with_def by (simp_all add: ss_add_def)
  ultimately show ?thesis using r L u unfolding rep_with_def by (simp add: ss_add_def)
qed

lemma rings_fresh:
  assumes "rings_ok L idle used E" "e \<notin> E" "3 \<le> e"
  shows "rings_ok (set_next e null_ptr L) idle used (insert e E)"
proof -
  have "e \<notin> set (lru_head # idle)" "e \<notin> set (in_use_head # used)" using assms by (auto simp: rings_ok_def heads)
  then show ?thesis using assms clist_set_fresh(1) [of L _ _ e null_ptr] by (auto simp: rings_ok_def null_ptr_def)
qed

lemma LRU_Insert_ok:
  assumes r: "shard_rep s a" and e: "ss_entry a e = None" "3 \<le> e" and n: "length (ss_cached a) < 2 ^ 31"
    and d: "d = \<lparr>en_key = key, en_hash = hash, en_value = v, en_charge = charge, en_deleter = deleter\<rparr>"
  shows "\<exists>s'. LRU_Insert e key hash v charge deleter s = Inr (e, s') \<and> shard_rep s' (ss_insert e d a)"
proof -
  let ?M = "set (ss_cached a)"
  let ?h = "\<lparr>lh_value = v, lh_deleter = deleter, lh_charge = charge, lh_key = key, lh_in_cache = False, lh_refs = 1, lh_hash = hash\<rparr>"
  have r': "rep_with ?M s a" using r by (simp add: shard_rep_def)
  note ro = rep_rings [OF r']
  have fresh: "sc_handles s e = None" using e(1) r' by (simp add: rep_with_def)
  have cap: "sc_capacity s = ss_capacity a" using r' by (simp add: rep_with_def)
  have en: "entry_of ?h = d" by (simp add: entry_of_def d)
  have ne: "e \<notin> ?M" using rings_distinct(4,5) [OF ro] fresh by (auto simp: ss_cached_def)
  have nn: "e \<noteq> null_ptr" using e(2) by (simp add: null_ptr_def)
  show ?thesis
  proof (cases "ss_capacity a > 0")
    case False
    let ?s = "s\<lparr>sc_links := set_next e null_ptr (sc_links s), sc_usage := sc_usage s, sc_handles := (sc_handles s)(e \<mapsto> ?h)\<rparr>"
    have s: "(set_handle e ?h s)\<lparr>sc_links := set_next e null_ptr (sc_links (set_handle e ?h s))\<rparr> = ?s"
      by (rule LRUCache.equality) (simp_all add: set_handle_def)
    have "rings_ok (set_next e null_ptr (sc_links s)) (ss_idle a) (ss_used a) (insert e (dom (sc_handles s)))"
      using rings_fresh [OF ro _ e(2)] fresh by auto
    moreover have "(ss_add e d a)\<lparr>ss_used := ss_used a\<rparr> = ss_add e d a" by (simp add: ss_add_def)
    moreover have "sc_usage s = ss_usage (ss_add e d a)" using add_usage(1) [OF ne] r' by (simp add: rep_with_def)
    moreover have "handle_ok (ss_add e d a) e ?h" using ne by (simp add: handle_ok_def ss_add_def ss_cached_def)
    ultimately have "rep_with ?M ?s (ss_add e d a)" using rep_add [OF r' fresh en, of _ "ss_used a" "sc_usage s"] by simp
    then have "shard_rep ?s (ss_add e d a)" by (simp add: shard_rep_def ss_add_def ss_cached_def)
    then obtain s' where "evict_loop ?s = Some (Inr s')" "shard_rep s' (ss_shrink (ss_add e d a))" using evict_loop_ok by blast
    moreover have "sc_capacity (set_handle e ?h s) = ss_capacity a" by (simp add: set_handle_def cap)
    ultimately show ?thesis using False nn s by (simp add: LRU_Insert_def Let_def ss_insert_def)
  next
    case True
    let ?h2 = "?h\<lparr>lh_refs := 1 + 1, lh_in_cache := True\<rparr>"
    define s1 where "s1 = s\<lparr>sc_handles := (sc_handles s)(e \<mapsto> ?h2)\<rparr>"
    let ?a1 = "(ss_add e d a)\<lparr>ss_used := ss_used a @ [e]\<rparr>"
    obtain L where L: "LRU_Append in_use_head e s1 = Inr (s1\<lparr>sc_links := L\<rparr>)" "rings_ok L (ss_idle a) (ss_used a @ [e]) (insert e (dom (sc_handles s)))"
      using LRU_Append_ok(2) [of s1 "ss_idle a" "ss_used a" "dom (sc_handles s)" e] ro ne e(2) by (auto simp: s1_def ss_cached_def)
    define s2 where "s2 = s1\<lparr>sc_links := L, sc_usage := sc_usage s + charge\<rparr>"
    have r2: "rep_with ?M s2 ?a1"
    proof -
      have "handle_ok ?a1 e ?h2" using ne by (simp add: handle_ok_def ss_add_def ss_cached_def)
      moreover have "sc_usage s + charge = ss_usage ?a1" using add_usage(2) [OF ne, of d] r' by (simp add: rep_with_def d)
      moreover have "s2 = s\<lparr>sc_links := L, sc_usage := sc_usage s + charge, sc_handles := (sc_handles s)(e \<mapsto> ?h2)\<rparr>"
        unfolding s2_def s1_def by (rule LRUCache.equality) simp_all
      ultimately show ?thesis using rep_add [OF r' fresh _ L(2), of ?h2 d "sc_usage s + charge"] by (simp add: entry_of_def d)
    qed
    have al: "alive s2 e" "key_of s2 e = key" "hash_of s2 e = hash"
      using L(2) by (auto simp: s2_def s1_def alive_def rings_ok_def key_of_def hash_of_def)
    obtain bs where t: "table_ok s2 bs" "members bs = ?M" using r2 by (auto simp: rep_with_def has_table_def)
    have "card (members bs) < 2 ^ 31" using n t(2) card_length [of "ss_cached a"] by simp
    then obtain old s3 bs' where q: "HandleTable_Insert e s2 = Inr (old, s3)" "entry_for s2 ?M key hash old"
      "same_but_table s2 s3" "table_ok s3 bs'" "members bs' = insert e (?M - set_option old)"
      using HandleTable_Insert_ok [OF t(1) al(1)] ne t(2) al(2,3) by metis
    have r3: "rep_with (insert e (?M - set_option old)) s3 ?a1" using rep_table [OF r2 q(3)] q(4,5) by (auto simp: has_table_def)
    have "matches key hash s2 x = matches key hash s x" if "x \<in> ?M" for x
      using that ne by (auto simp: matches_def hash_of_def key_of_def s2_def s1_def)
    then have "entry_for s ?M key hash old" using q(2) by (auto simp: entry_for_def split: option.splits)
    then have old: "old = ss_find key hash a" by (rule shard_rep_find [OF r])
    have c1: "set (ss_cached ?a1) = insert e ?M" by (auto simp: ss_cached_def ss_add_def)
    have "\<exists>b s4. FinishErase old s3 = Inr (b, s4) \<and> shard_rep s4 (ss_drop_opt old ?a1)"
    proof (cases old)
      case None
      then show ?thesis using r3 c1 by (auto simp: FinishErase_def ss_drop_opt_def shard_rep_def)
    next
      case (Some x)
      then have x: "x \<in> ?M" "x \<noteq> e" using old ss_find_cached [of key hash a x] ne by auto
      then have m: "insert e (?M - set_option old) = set (ss_cached ?a1) - {x}" using Some c1 by auto
      have ds: "distinct (ss_idle ?a1)" "distinct (ss_used ?a1)" using rings_distinct(1,2) [OF rep_rings [OF r3]] .
      obtain s4 where "FinishErase (Some x) s3 = Inr (True, s4)" "rep_with (set (ss_cached ?a1) - {x}) s4 (ss_drop x ?a1)"
        using FinishErase_ok [OF r3 _ m] x(1) c1 m by auto
      then show ?thesis using Some set_cached(3) [OF ds] by (auto simp: ss_drop_opt_def shard_rep_def)
    qed
    then obtain b s4 where s4: "FinishErase old s3 = Inr (b, s4)" "shard_rep s4 (ss_drop_opt old ?a1)" by blast
    obtain s5 where s5: "evict_loop s4 = Some (Inr s5)" "shard_rep s5 (ss_shrink (ss_drop_opt old ?a1))" using evict_loop_ok [OF s4(2)] by blast
    have "set_handle e (?h\<lparr>lh_refs := lh_refs ?h + 1, lh_in_cache := True\<rparr>) (set_handle e ?h s) = s1"
      unfolding s1_def set_handle_def by simp
    then have "LRU_Insert e key hash v charge deleter s = Inr (e, s5)"
      using True nn L(1) q(1) s4(1) s5(1) cap by (simp add: LRU_Insert_def Let_def s2_def set_handle_def s1_def)
    moreover have "ss_insert e d a = ss_shrink (ss_drop_opt old ?a1)" using True old by (simp add: ss_insert_def d)
    ultimately show ?thesis using s5(2) by simp
  qed
qed

section \<open>Construction and destruction\<close>

lemma LRUCache_new_ok: "\<exists>s. LRUCache_new L nh capacity = Inr s \<and> shard_rep s (ss_new capacity)"
proof -
  define s0 :: "'a LRUCache" where "s0 = \<lparr>sc_capacity = capacity, sc_usage = 0,
    sc_links = list_init in_use_head (list_init lru_head L), sc_length = 0, sc_elems = 0, sc_list = [],
    sc_next_hash = nh, sc_handles = (\<lambda>_. None), sc_deleted = []\<rparr>"
  have "table_grows s0 []" by (simp add: table_grows_def s0_def chains_ok_def buckets_ok_def members_def)
  from HandleTable_Resize_ok [OF this] obtain s bs where q: "HandleTable_Resize s0 = Inr s" "same_but_table s0 s" "table_ok s bs" "members bs = {}"
    by (auto simp: members_def)
  have "clist (list_init in_use_head (list_init lru_head L)) lru_head []"
    by (rule clist_set_fresh(3) [OF list_init_ring]) (simp add: heads)
  then have "rings_ok (sc_links s0) [] [] {}" by (simp add: rings_ok_def list_init_ring s0_def)
  then have "shard_rep s (ss_new capacity)"
    using q(2-4) unfolding shard_rep_def rep_with_def
    by (auto simp: same_but_table_def has_table_def s0_def ss_new_def ss_cached_def ss_usage_def)
  then show ?thesis using q(1) by (simp add: LRUCache_new_def s0_def)
qed

lemma SetCapacity_ok: "shard_rep s a \<Longrightarrow> shard_rep (SetCapacity c s) (a\<lparr>ss_capacity := c\<rparr>)"
proof -
  assume r: "shard_rep s a"
  then have t: "has_table s (set (ss_cached a))" by (simp add: shard_rep_def rep_with_def)
  have "has_table (SetCapacity c s) (set (ss_cached a))"
    by (rule has_table_cong [OF t]) (use has_table_alive [OF t] in \<open>simp_all add: SetCapacity_def alive_def hash_of_def key_of_def\<close>)
  moreover have "ss_cached (a\<lparr>ss_capacity := c\<rparr>) = ss_cached a" "ss_usage (a\<lparr>ss_capacity := c\<rparr>) = ss_usage a"
    "handle_ok (a\<lparr>ss_capacity := c\<rparr>) = handle_ok a"
    by (simp_all add: ss_cached_def ss_usage_def ss_charge_def [abs_def] handle_ok_def fun_eq_iff)
  ultimately show ?thesis using r unfolding shard_rep_def rep_with_def by (simp add: SetCapacity_def)
qed

definition entry_log :: "'v entry \<Rightarrow> nat \<times> octet list \<times> 'v" where
  "entry_log d = (en_deleter d, en_key d, en_value d)"

lemma destroy_handles_ok:
  assumes "dseg (sc_links s) p es lru_head" "distinct es" "lru_head \<notin> set es"
    "\<forall>e\<in>set es. nxt (sc_links s) e \<noteq> e \<and> (\<exists>h. sc_handles s e = Some h \<and> lh_in_cache h \<and> lh_refs h = 1)"
  shows "destroy_handles (nxt (sc_links s) p) s = Some (Inr (s\<lparr>
    sc_deleted := sc_deleted s @ map (\<lambda>e. entry_log (entry_of (the (sc_handles s e)))) es,
    sc_handles := (\<lambda>e. if e \<in> set es then None else sc_handles s e)\<rparr>))"
  using assms
proof (induction es arbitrary: p s)
  case Nil
  then show ?case by (subst destroy_handles.simps) simp
next
  case (Cons e es)
  obtain h where h: "sc_handles s e = Some h" "lh_in_cache h" "lh_refs h = 1" and ne: "nxt (sc_links s) e \<noteq> e" using Cons.prems(4) by auto
  have nx: "nxt (sc_links s) p = e" "e \<noteq> lru_head" using Cons.prems(1,3) by auto
  define s1 where "s1 = s\<lparr>sc_deleted := sc_deleted s @ [(lh_deleter h, lh_key h, lh_value h)], sc_handles := (sc_handles s)(e := None)\<rparr>"
  have s1: "sc_links s1 = sc_links s" "sc_handles s1 = (sc_handles s)(e := None)" by (simp_all add: s1_def)
  have "LRU_Unref e (set_handle e (h\<lparr>lh_in_cache := False\<rparr>) s) = Inr s1"
    using h ne by (simp add: LRU_Unref_def get_handle_def set_handle_def Let_def handle_key_def s1_def)
  then have step: "destroy_handles e s = destroy_handles (nxt (sc_links s) e) s1"
    using h nx(2) by (subst destroy_handles.simps) (simp add: get_handle_def Let_def)
  have "dseg (sc_links s1) e es lru_head" "distinct es" "lru_head \<notin> set es"
    "\<forall>x\<in>set es. nxt (sc_links s1) x \<noteq> x \<and> (\<exists>h. sc_handles s1 x = Some h \<and> lh_in_cache h \<and> lh_refs h = 1)"
    using Cons.prems by (auto simp: s1)
  note ih = Cons.IH [OF this]
  have m: "map (\<lambda>e. entry_log (entry_of (the (sc_handles s1 e)))) es = map (\<lambda>e. entry_log (entry_of (the (sc_handles s e)))) es"
    using Cons.prems(2) by (auto simp: s1)
  have "entry_log (entry_of h) = (lh_deleter h, lh_key h, lh_value h)" by (simp add: entry_log_def entry_of_def)
  moreover have "s1\<lparr>sc_deleted := sc_deleted s1 @ map (\<lambda>e. entry_log (entry_of (the (sc_handles s e)))) es,
      sc_handles := (\<lambda>x. if x \<in> set es then None else sc_handles s1 x)\<rparr>
    = s\<lparr>sc_deleted := sc_deleted s @ (lh_deleter h, lh_key h, lh_value h) # map (\<lambda>e. entry_log (entry_of (the (sc_handles s e)))) es,
      sc_handles := (\<lambda>x. if x \<in> set (e # es) then None else sc_handles s x)\<rparr>"
    by (rule LRUCache.equality) (auto simp: s1_def fun_eq_iff)
  ultimately show ?case using step ih m nx(1) h(1) s1(1) by simp
qed

text \<open>The destructor calls the deleter of every entry in the cache once, oldest first, when no client holds one of them.\<close>

lemma LRUCache_destroy_ok:
  assumes r: "shard_rep s a" and u: "ss_used a = []"
  shows "\<exists>s'. LRUCache_destroy s = Inr s' \<and> sc_deleted s' = ss_deleted a @ map (\<lambda>e. entry_log (the (ss_entry a e))) (ss_idle a)
    \<and> dom (sc_handles s') = dom (ss_entry a) - set (ss_idle a)"
proof -
  have r': "rep_with (set (ss_cached a)) s a" using r by (simp add: shard_rep_def)
  note ro = rep_rings [OF r']
  have c: "dseg (sc_links s) lru_head (ss_idle a) lru_head" "distinct (ss_idle a)" "lru_head \<notin> set (ss_idle a)"
    using ro by (auto simp: rings_ok_def clist_def)
  have h: "\<exists>h. sc_handles s e = Some h \<and> lh_in_cache h \<and> lh_refs h = 1" "nxt (sc_links s) e \<noteq> e" if e: "e \<in> set (ss_idle a)" for e
  proof -
    obtain h where h: "sc_handles s e = Some h" using rings_distinct(4) [OF ro] e by auto
    have "lh_in_cache h" "unat (lh_refs h) = 1" using rep_handle(1) [OF r' h] e by (auto simp: handle_ok_def ss_cached_def)
    moreover then have "lh_refs h = 1" by (metis unat_1 word_unat_eq_iff)
    ultimately show "\<exists>h. sc_handles s e = Some h \<and> lh_in_cache h \<and> lh_refs h = 1" using h by simp
    show "nxt (sc_links s) e \<noteq> e" by (rule rep_handle(4) [OF r' h])
  qed
  have en: "entry_of (the (sc_handles s e)) = the (ss_entry a e)" if "e \<in> set (ss_idle a)" for e
    using h(1) [OF that] rep_handle(2) [OF r'] by fastforce
  have "nxt (sc_links s) in_use_head = in_use_head" using rings_first(3) [OF ro] u by simp
  moreover have "sc_deleted s = ss_deleted a" "dom (ss_entry a) = dom (sc_handles s)" using r' by (auto simp: rep_with_def dom_def)
  moreover have "map (\<lambda>e. entry_log (entry_of (the (sc_handles s e)))) (ss_idle a) = map (\<lambda>e. entry_log (the (ss_entry a e))) (ss_idle a)"
    using en by simp
  ultimately show ?thesis
    using destroy_handles_ok [OF c] h by (auto simp: LRUCache_destroy_def dom_def split: if_splits)
qed

end
