(* ===== verification/Sharded_Lru.thy ===== *)
theory Sharded_Lru
  imports Lru_Shard "HOL-Library.Multiset"
begin

unbundle bit_operations_syntax

text \<open>
  \<open>ShardedLRUCache\<close> of \<open>cache.cpp\<close>: sixteen shards of \<open>Lru_Shard\<close>, chosen by the top bits of the hash of the key.  The
  entries of a shard are its part of the heap; \<open>Release\<close> and \<open>Value\<close> read the entry they are given wherever it is.
  The locale \<open>simulation\<close> lifts a step-by-step refinement to histories of calls; it is interpreted on one shard and on
  the whole cache.
\<close>

section \<open>\<open>ShardedLRUCache\<close>\<close>

definition kNumShardBits :: nat where "kNumShardBits = 4"
definition kNumShards :: nat where "kNumShards = push_bit kNumShardBits 1"

record 'v ShardedLRUCache =
  sh_shard :: "'v LRUCache list"
  sh_last_id :: "64 word"

definition HashStringPiece :: "bool \<Rightarrow> octet list \<Rightarrow> 32 word result" where
  "HashStringPiece le s = Hash le s 0"

definition Shard :: "32 word \<Rightarrow> 32 word" where
  "Shard hash = drop_bit (32 - kNumShardBits) hash"

text \<open>The shards are built in memory with arbitrary contents, one after the other.\<close>

primrec shards_new :: "(list_head \<times> (nat \<Rightarrow> nat option) \<times> 64 word) list \<Rightarrow> 'v LRUCache list result" where
  "shards_new [] = Inr []"
| "shards_new (m # ms) =
     (case m of (L, nh, c) \<Rightarrow>
        ub_bind (LRUCache_new L nh c) (\<lambda>s. ub_bind (shards_new ms) (\<lambda>ss. Inr (s # ss))))"

definition ShardedLRUCache_new ::
    "(nat \<Rightarrow> list_head \<times> (nat \<Rightarrow> nat option) \<times> 64 word) \<Rightarrow> 64 word \<Rightarrow> 'v ShardedLRUCache result" where
  "ShardedLRUCache_new mem capacity =
     ub_bind (shards_new (map mem [0..<kNumShards])) (\<lambda>ss.
     let per_shard = (capacity + (of_nat kNumShards - 1)) div of_nat kNumShards
     in Inr \<lparr>sh_shard = map (SetCapacity per_shard) ss, sh_last_id = 0\<rparr>)"

definition on_shard :: "32 word \<Rightarrow> ('v LRUCache \<Rightarrow> ('r \<times> 'v LRUCache) result) \<Rightarrow> 'v ShardedLRUCache \<Rightarrow> ('r \<times> 'v ShardedLRUCache) result" where
  "on_shard i f S =
     (if unat i < length (sh_shard S)
      then ub_bind (f (sh_shard S ! unat i)) (\<lambda>(r, s). Inr (r, S\<lparr>sh_shard := (sh_shard S)[unat i := s]\<rparr>))
      else Inl OutOfBounds)"

definition read_entry :: "nat \<Rightarrow> 'v ShardedLRUCache \<Rightarrow> 'v LRUHandle result" where
  "read_entry e S =
     (case List.find (\<lambda>s. sc_handles s e \<noteq> None) (sh_shard S) of None \<Rightarrow> Inl OutOfBounds | Some s \<Rightarrow> get_handle e s)"

definition Sharded_Insert ::
    "bool \<Rightarrow> nat \<Rightarrow> octet list \<Rightarrow> 'v \<Rightarrow> 64 word \<Rightarrow> nat \<Rightarrow> 'v ShardedLRUCache \<Rightarrow> (nat \<times> 'v ShardedLRUCache) result" where
  "Sharded_Insert le e key v charge deleter S =
     ub_bind (HashStringPiece le key) (\<lambda>hash. on_shard (Shard hash) (LRU_Insert e key hash v charge deleter) S)"

definition Sharded_Lookup :: "bool \<Rightarrow> octet list \<Rightarrow> 'v ShardedLRUCache \<Rightarrow> (nat option \<times> 'v ShardedLRUCache) result" where
  "Sharded_Lookup le key S = ub_bind (HashStringPiece le key) (\<lambda>hash. on_shard (Shard hash) (LRU_Lookup key hash) S)"

definition Sharded_Release :: "nat \<Rightarrow> 'v ShardedLRUCache \<Rightarrow> (unit \<times> 'v ShardedLRUCache) result" where
  "Sharded_Release handle S =
     ub_bind (read_entry handle S) (\<lambda>h.
     on_shard (Shard (lh_hash h)) (\<lambda>s. ub_bind (LRU_Release handle s) (\<lambda>s. Inr ((), s))) S)"

definition Sharded_Erase :: "bool \<Rightarrow> octet list \<Rightarrow> 'v ShardedLRUCache \<Rightarrow> (unit \<times> 'v ShardedLRUCache) result" where
  "Sharded_Erase le key S =
     ub_bind (HashStringPiece le key) (\<lambda>hash.
     on_shard (Shard hash) (\<lambda>s. ub_bind (LRU_Erase key hash s) (\<lambda>s. Inr ((), s))) S)"

definition Sharded_Value :: "nat \<Rightarrow> 'v ShardedLRUCache \<Rightarrow> 'v result" where
  "Sharded_Value handle S = ub_bind (read_entry handle S) (\<lambda>h. Inr (lh_value h))"

definition NewId :: "'v ShardedLRUCache \<Rightarrow> 64 word \<times> 'v ShardedLRUCache" where
  "NewId S = (let S = S\<lparr>sh_last_id := sh_last_id S + 1\<rparr> in (sh_last_id S, S))"

text \<open>The destructor destroys the array of shards, the last one first.\<close>

primrec destroy_all :: "'v LRUCache list \<Rightarrow> 'v LRUCache list result" where
  "destroy_all [] = Inr []"
| "destroy_all (s # ss) = ub_bind (destroy_all ss) (\<lambda>ss. ub_bind (LRUCache_destroy s) (\<lambda>s. Inr (s # ss)))"

definition ShardedLRUCache_destroy :: "'v ShardedLRUCache \<Rightarrow> 'v ShardedLRUCache result" where
  "ShardedLRUCache_destroy S = ub_bind (destroy_all (sh_shard S)) (\<lambda>ss. Inr (S\<lparr>sh_shard := ss\<rparr>))"

primrec prune_all :: "'v LRUCache list \<Rightarrow> 'v LRUCache list result" where
  "prune_all [] = Inr []"
| "prune_all (s # ss) = ub_bind (LRU_Prune s) (\<lambda>s. ub_bind (prune_all ss) (\<lambda>ss. Inr (s # ss)))"

definition Sharded_Prune :: "'v ShardedLRUCache \<Rightarrow> 'v ShardedLRUCache result" where
  "Sharded_Prune S = ub_bind (prune_all (sh_shard S)) (\<lambda>ss. Inr (S\<lparr>sh_shard := ss\<rparr>))"

definition Sharded_TotalCharge :: "'v ShardedLRUCache \<Rightarrow> 64 word" where
  "Sharded_TotalCharge S = foldl (\<lambda>sum s. sum + LRU_TotalCharge s) 0 (sh_shard S)"

section \<open>Histories of calls\<close>

primrec call_all :: "('op \<Rightarrow> 's \<Rightarrow> ('o \<times> 's) result) \<Rightarrow> 'op list \<Rightarrow> 's \<Rightarrow> ('o list \<times> 's) result" where
  "call_all f [] s = Inr ([], s)"
| "call_all f (c # cs) s = ub_bind (f c s) (\<lambda>(r, s). ub_bind (call_all f cs s) (\<lambda>(rs, s). Inr (r # rs, s)))"

primrec spec_all :: "('op \<Rightarrow> 'a \<Rightarrow> 'o \<times> 'a) \<Rightarrow> 'op list \<Rightarrow> 'a \<Rightarrow> 'o list \<times> 'a" where
  "spec_all g [] a = ([], a)"
| "spec_all g (c # cs) a = (fst (g c a) # fst (spec_all g cs (snd (g c a))), snd (spec_all g cs (snd (g c a))))"

primrec may_call_all :: "('op \<Rightarrow> 'a \<Rightarrow> bool) \<Rightarrow> ('op \<Rightarrow> 'a \<Rightarrow> 'o \<times> 'a) \<Rightarrow> 'op list \<Rightarrow> 'a \<Rightarrow> bool" where
  "may_call_all ok g [] a \<longleftrightarrow> True"
| "may_call_all ok g (c # cs) a \<longleftrightarrow> ok c a \<and> may_call_all ok g cs (snd (g c a))"

locale simulation =
  fixes impl :: "'op \<Rightarrow> 's \<Rightarrow> ('o \<times> 's) result" and spec :: "'op \<Rightarrow> 'a \<Rightarrow> 'o \<times> 'a"
    and may_call :: "'op \<Rightarrow> 'a \<Rightarrow> bool" and rel :: "'s \<Rightarrow> 'a \<Rightarrow> bool"
  assumes step: "rel s a \<Longrightarrow> may_call c a \<Longrightarrow> \<exists>s'. impl c s = Inr (fst (spec c a), s') \<and> rel s' (snd (spec c a))"
begin

lemma history:
  "rel s a \<Longrightarrow> may_call_all may_call spec cs a \<Longrightarrow>
   \<exists>s'. call_all impl cs s = Inr (fst (spec_all spec cs a), s') \<and> rel s' (snd (spec_all spec cs a))"
proof (induction cs arbitrary: s a)
  case (Cons c cs)
  obtain s1 where s1: "impl c s = Inr (fst (spec c a), s1)" "rel s1 (snd (spec c a))" using step [OF Cons.prems(1)] Cons.prems(2) by auto
  then show ?case using Cons.IH [OF s1(2)] Cons.prems(2) by auto
qed simp

lemma invariant:
  assumes keep: "\<And>s a c. rel s a \<Longrightarrow> may_call c a \<Longrightarrow> I a \<Longrightarrow> I (snd (spec c a))"
  shows "rel s a \<Longrightarrow> may_call_all may_call spec cs a \<Longrightarrow> I a \<Longrightarrow> I (snd (spec_all spec cs a))"
proof (induction cs arbitrary: s a)
  case (Cons c cs)
  obtain s1 where "rel s1 (snd (spec c a))" using step [OF Cons.prems(1)] Cons.prems(2) by auto
  then show ?case using Cons.IH keep [OF Cons.prems(1)] Cons.prems(2,3) by auto
qed simp

end

section \<open>One shard\<close>

datatype 'v shard_call =
    ShardInsert nat "'v entry"
  | ShardLookup "octet list" "32 word"
  | ShardRelease nat
  | ShardErase "octet list" "32 word"
  | ShardPrune

fun do_shard_call :: "'v shard_call \<Rightarrow> 'v LRUCache \<Rightarrow> (nat option \<times> 'v LRUCache) result" where
  "do_shard_call (ShardInsert e d) s =
     ub_bind (LRU_Insert e (en_key d) (en_hash d) (en_value d) (en_charge d) (en_deleter d) s) (\<lambda>(e, s). Inr (Some e, s))"
| "do_shard_call (ShardLookup key hash) s = LRU_Lookup key hash s"
| "do_shard_call (ShardRelease e) s = ub_bind (LRU_Release e s) (\<lambda>s. Inr (None, s))"
| "do_shard_call (ShardErase key hash) s = ub_bind (LRU_Erase key hash s) (\<lambda>s. Inr (None, s))"
| "do_shard_call ShardPrune s = ub_bind (LRU_Prune s) (\<lambda>s. Inr (None, s))"

fun ss_call :: "'v shard_call \<Rightarrow> 'v shard_spec \<Rightarrow> nat option \<times> 'v shard_spec" where
  "ss_call (ShardInsert e d) a = (Some e, ss_insert e d a)"
| "ss_call (ShardLookup key hash) a = (ss_find key hash a, case ss_find key hash a of None \<Rightarrow> a | Some e \<Rightarrow> ss_hold e a)"
| "ss_call (ShardRelease e) a = (None, ss_release e a)"
| "ss_call (ShardErase key hash) a = (None, ss_drop_opt (ss_find key hash a) a)"
| "ss_call ShardPrune a = (None, ss_prune a)"

text \<open>
  What the caller guarantees: \<open>malloc\<close> returns unused memory, fewer than $2^{31}$ entries are cached and fewer than
  $2^{32} - 2$ references to one entry are held, and only held handles are released.
\<close>

fun ss_may_call :: "'v shard_call \<Rightarrow> 'v shard_spec \<Rightarrow> bool" where
  "ss_may_call (ShardInsert e d) a \<longleftrightarrow> 3 \<le> e \<and> ss_entry a e = None \<and> length (ss_cached a) < 2 ^ 31"
| "ss_may_call (ShardLookup key hash) a \<longleftrightarrow> (case ss_find key hash a of None \<Rightarrow> True | Some e \<Rightarrow> ss_held a e < 2 ^ 32 - 2)"
| "ss_may_call (ShardRelease e) a \<longleftrightarrow> 0 < ss_held a e"
| "ss_may_call (ShardErase key hash) a \<longleftrightarrow> True"
| "ss_may_call ShardPrune a \<longleftrightarrow> True"

interpretation shard: simulation do_shard_call ss_call ss_may_call shard_rep
proof (unfold_locales, goal_cases)
  case (1 s a c)
  then show ?case
  proof (cases c)
    case (ShardInsert e d)
    then show ?thesis using 1 LRU_Insert_ok [of s a e d "en_key d" "en_hash d" "en_value d" "en_charge d" "en_deleter d"] by auto
  next
    case (ShardLookup key hash)
    then show ?thesis using 1 LRU_Lookup_ok [of s a key hash] by (auto split: option.splits)
  next
    case (ShardRelease e)
    then show ?thesis using 1 LRU_Release_ok [of s a e] by auto
  next
    case (ShardErase key hash)
    then show ?thesis using 1 LRU_Erase_ok [of s a key hash] by auto
  next
    case ShardPrune
    then show ?thesis using 1 LRU_Prune_ok [of s a] by auto
  qed
qed

section \<open>The whole cache\<close>

record 'v cache_spec =
  cs_shard :: "'v shard_spec list"
  cs_last_id :: "64 word"

definition key_hash :: "bool \<Rightarrow> octet list \<Rightarrow> 32 word" where
  "key_hash le key = (case HashStringPiece le key of Inl _ \<Rightarrow> 0 | Inr h \<Rightarrow> h)"

definition shard_of :: "bool \<Rightarrow> octet list \<Rightarrow> nat" where
  "shard_of le key = unat (Shard (key_hash le key))"

definition cs_new :: "64 word \<Rightarrow> 'v cache_spec" where
  "cs_new capacity = \<lparr>cs_shard = replicate 16 (ss_new ((capacity + 15) div 16)), cs_last_id = 0\<rparr>"

text \<open>The shard an entry lives in.\<close>

definition cs_where :: "nat \<Rightarrow> 'v cache_spec \<Rightarrow> nat option" where
  "cs_where e a = List.find (\<lambda>i. ss_entry (cs_shard a ! i) e \<noteq> None) [0..<16]"

definition cs_on :: "nat \<Rightarrow> 'v shard_call \<Rightarrow> 'v cache_spec \<Rightarrow> nat option \<times> 'v cache_spec" where
  "cs_on i c a = (fst (ss_call c (cs_shard a ! i)), a\<lparr>cs_shard := (cs_shard a)[i := snd (ss_call c (cs_shard a ! i))]\<rparr>)"

datatype 'v cache_call =
    CacheInsert nat "octet list" 'v "64 word" nat
  | CacheLookup "octet list"
  | CacheRelease nat
  | CacheErase "octet list"
  | CacheValue nat
  | CachePrune
  | CacheNewId
  | CacheTotalCharge

datatype 'v cache_return = Handle "nat option" | Value 'v | Number "64 word"

text \<open>A call on a shard, and the shard it is made on; \<open>None\<close> for the calls that concern no single shard.\<close>

fun routed :: "bool \<Rightarrow> 'v cache_spec \<Rightarrow> 'v cache_call \<Rightarrow> (nat \<times> 'v shard_call) option" where
  "routed le a (CacheInsert e key v charge deleter) =
     Some (shard_of le key, ShardInsert e \<lparr>en_key = key, en_hash = key_hash le key, en_value = v, en_charge = charge, en_deleter = deleter\<rparr>)"
| "routed le a (CacheLookup key) = Some (shard_of le key, ShardLookup key (key_hash le key))"
| "routed le a (CacheRelease e) = Some (the (cs_where e a), ShardRelease e)"
| "routed le a (CacheErase key) = Some (shard_of le key, ShardErase key (key_hash le key))"
| "routed le a _ = None"

definition cs_value :: "nat \<Rightarrow> 'v cache_spec \<Rightarrow> 'v" where
  "cs_value e a = en_value (the (ss_entry (cs_shard a ! the (cs_where e a)) e))"

definition cs_call :: "bool \<Rightarrow> 'v cache_call \<Rightarrow> 'v cache_spec \<Rightarrow> 'v cache_return \<times> 'v cache_spec" where
  "cs_call le c a =
     (case routed le a c of Some (i, c) \<Rightarrow> apfst Handle (cs_on i c a)
      | None \<Rightarrow>
          (case c of CacheValue e \<Rightarrow> (Value (cs_value e a), a)
           | CachePrune \<Rightarrow> (Handle None, a\<lparr>cs_shard := map ss_prune (cs_shard a)\<rparr>)
           | CacheNewId \<Rightarrow> (Number (cs_last_id a + 1), a\<lparr>cs_last_id := cs_last_id a + 1\<rparr>)
           | _ \<Rightarrow> (Number (sum_list (map ss_usage (cs_shard a))), a)))"

definition cs_held :: "nat \<Rightarrow> 'v cache_spec \<Rightarrow> bool" where
  "cs_held e a \<longleftrightarrow> (\<exists>i<16. 0 < ss_held (cs_shard a ! i) e)"

fun cs_may_call :: "bool \<Rightarrow> 'v cache_call \<Rightarrow> 'v cache_spec \<Rightarrow> bool" where
  "cs_may_call le (CacheInsert e key v charge deleter) a \<longleftrightarrow>
     3 \<le> e \<and> cs_where e a = None \<and> length (ss_cached (cs_shard a ! shard_of le key)) < 2 ^ 31"
| "cs_may_call le (CacheLookup key) a \<longleftrightarrow> ss_may_call (ShardLookup key (key_hash le key)) (cs_shard a ! shard_of le key)"
| "cs_may_call le (CacheRelease e) a \<longleftrightarrow> cs_held e a"
| "cs_may_call le (CacheValue e) a \<longleftrightarrow> cs_held e a"
| "cs_may_call le _ a \<longleftrightarrow> True"

fun do_cache_call :: "bool \<Rightarrow> 'v cache_call \<Rightarrow> 'v ShardedLRUCache \<Rightarrow> ('v cache_return \<times> 'v ShardedLRUCache) result" where
  "do_cache_call le (CacheInsert e key v charge deleter) S =
     ub_bind (Sharded_Insert le e key v charge deleter S) (\<lambda>(e, S). Inr (Handle (Some e), S))"
| "do_cache_call le (CacheLookup key) S = ub_bind (Sharded_Lookup le key S) (\<lambda>(r, S). Inr (Handle r, S))"
| "do_cache_call le (CacheRelease e) S = ub_bind (Sharded_Release e S) (\<lambda>(_, S). Inr (Handle None, S))"
| "do_cache_call le (CacheErase key) S = ub_bind (Sharded_Erase le key S) (\<lambda>(_, S). Inr (Handle None, S))"
| "do_cache_call le (CacheValue e) S = ub_bind (Sharded_Value e S) (\<lambda>v. Inr (Value v, S))"
| "do_cache_call le CachePrune S = ub_bind (Sharded_Prune S) (\<lambda>S. Inr (Handle None, S))"
| "do_cache_call le CacheNewId S = (case NewId S of (n, S) \<Rightarrow> Inr (Number n, S))"
| "do_cache_call le CacheTotalCharge S = Inr (Number (Sharded_TotalCharge S), S)"

text \<open>Every entry is in the shard of its hash, and in no other.\<close>

definition placed :: "'v cache_spec \<Rightarrow> bool" where
  "placed a \<longleftrightarrow> length (cs_shard a) = 16 \<and> (\<forall>i<16. \<forall>e d. ss_entry (cs_shard a ! i) e = Some d \<longrightarrow> unat (Shard (en_hash d)) = i)
     \<and> (\<forall>i<16. \<forall>j<16. \<forall>e. ss_entry (cs_shard a ! i) e \<noteq> None \<longrightarrow> ss_entry (cs_shard a ! j) e \<noteq> None \<longrightarrow> i = j)"

definition cache_rep :: "'v ShardedLRUCache \<Rightarrow> 'v cache_spec \<Rightarrow> bool" where
  "cache_rep S a \<longleftrightarrow> list_all2 shard_rep (sh_shard S) (cs_shard a) \<and> sh_last_id S = cs_last_id a \<and> placed a"

lemma HashStringPiece_ok: "HashStringPiece le key = Inr (key_hash le key)"
proof -
  obtain v where "Hash le key 0 = Inr v" by (simp add: Hash_def Hash_loop_chunks Let_def)
  then show ?thesis by (simp add: key_hash_def HashStringPiece_def)
qed

lemma Shard_less: "unat (Shard h) < 16"
proof -
  have "unat h < 2 ^ 32" using unsigned_less [of h] by simp
  then show ?thesis by (simp add: Shard_def kNumShardBits_def drop_bit_eq_div unat_div less_mult_imp_div_less)
qed

lemma shard_of_less [simp]: "shard_of le key < 16"
  by (simp add: shard_of_def Shard_less)

lemma find_unique:
  assumes "i < n" "P i" "\<And>j. j < n \<Longrightarrow> P j \<Longrightarrow> j = i"
  shows "List.find P [0..<n] = Some i"
proof -
  obtain j where j: "List.find P [0..<n] = Some j" using assms(1,2) by (metis find_None_iff atLeastLessThan_iff le0 option.exhaust set_upt)
  then have "j < n" "P j" by (auto simp: find_Some_iff)
  then show ?thesis using j assms(3) by blast
qed

lemma cs_where_iff:
  assumes "placed a"
  shows "cs_where e a = Some i \<longleftrightarrow> i < 16 \<and> ss_entry (cs_shard a ! i) e \<noteq> None"
proof
  show "cs_where e a = Some i \<Longrightarrow> i < 16 \<and> ss_entry (cs_shard a ! i) e \<noteq> None" by (auto simp: cs_where_def find_Some_iff)
  assume "i < 16 \<and> ss_entry (cs_shard a ! i) e \<noteq> None"
  moreover then have "j = i" if "j < 16" "ss_entry (cs_shard a ! j) e \<noteq> None" for j using assms that by (auto simp: placed_def)
  ultimately show "cs_where e a = Some i" unfolding cs_where_def by (intro find_unique) auto
qed

lemma cs_where_None: "cs_where e a = None \<longleftrightarrow> (\<forall>i<16. ss_entry (cs_shard a ! i) e = None)"
  by (auto simp: cs_where_def find_None_iff)

lemma cache_rep_shard:
  assumes "cache_rep S a" "i < 16"
  shows "shard_rep (sh_shard S ! i) (cs_shard a ! i)" "length (sh_shard S) = 16" "length (cs_shard a) = 16"
  using assms by (auto simp: cache_rep_def placed_def list_all2_conv_all_nth)

lemma shard_rep_entry: "shard_rep s a \<Longrightarrow> ss_entry a e = map_option entry_of (sc_handles s e)"
  by (simp add: shard_rep_def rep_with_def)

lemma shard_rep_held: "shard_rep s a \<Longrightarrow> 0 < ss_held a e \<Longrightarrow> ss_entry a e \<noteq> None"
  unfolding shard_rep_def rep_with_def by (metis less_irrefl)

lemma cs_held_where:
  assumes "cache_rep S a" "cs_held e a"
  obtains i where "cs_where e a = Some i" "i < 16" "0 < ss_held (cs_shard a ! i) e"
proof -
  obtain i where i: "i < 16" "0 < ss_held (cs_shard a ! i) e" using assms(2) by (auto simp: cs_held_def)
  then have "ss_entry (cs_shard a ! i) e \<noteq> None" using shard_rep_held cache_rep_shard(1) [OF assms(1)] by blast
  then show thesis using i that cs_where_iff assms(1) by (metis cache_rep_def)
qed

text \<open>What the calls of a shard do to its entries: only \<open>Insert\<close> makes one.\<close>

lemma ss_free_le: "ss_entry (ss_free e a) \<subseteq>\<^sub>m ss_entry a"
  by (auto simp: ss_free_def map_le_def split: option.split)

lemma ss_drop_le: "ss_entry (ss_drop e a) \<subseteq>\<^sub>m ss_entry a"
  using ss_free_le [of e "a\<lparr>ss_idle := remove1 e (ss_idle a), ss_used := remove1 e (ss_used a)\<rparr>"] by (simp add: ss_drop_def Let_def)

lemma ss_drop_opt_le: "ss_entry (ss_drop_opt r a) \<subseteq>\<^sub>m ss_entry a"
  by (simp add: ss_drop_opt_def ss_drop_le split: option.split)

lemma ss_evict_le: "ss_entry (ss_evict es a) \<subseteq>\<^sub>m ss_entry a"
  by (induction es arbitrary: a) (auto intro: map_le_trans ss_drop_le)

lemma ss_fold_drop_le: "ss_entry (fold ss_drop es a) \<subseteq>\<^sub>m ss_entry a"
  by (induction es arbitrary: a) (auto intro: map_le_trans ss_drop_le)

lemma ss_hold_entry [simp]: "ss_entry (ss_hold e a) = ss_entry a"
  by (simp add: ss_hold_def Let_def)

lemma ss_release_le: "ss_entry (ss_release e a) \<subseteq>\<^sub>m ss_entry a"
proof -
  have "ss_entry (ss_free e (a\<lparr>ss_held := f\<rparr>)) \<subseteq>\<^sub>m ss_entry a" for f using ss_free_le [of e "a\<lparr>ss_held := f\<rparr>"] by simp
  then show ?thesis by (simp add: ss_release_def Let_def)
qed

lemma ss_insert_le: "ss_entry (ss_insert e d a) \<subseteq>\<^sub>m (ss_entry a)(e \<mapsto> d)"
proof -
  have "ss_entry (ss_shrink (ss_add e d a)) \<subseteq>\<^sub>m (ss_entry a)(e \<mapsto> d)"
    using ss_evict_le [of _ "ss_add e d a"] by (simp add: ss_shrink_def ss_add_def)
  moreover have "ss_entry (ss_shrink (ss_drop_opt r ((ss_add e d a)\<lparr>ss_used := us\<rparr>))) \<subseteq>\<^sub>m (ss_entry a)(e \<mapsto> d)" for r us
    using map_le_trans [OF ss_evict_le ss_drop_opt_le, of _ r "(ss_add e d a)\<lparr>ss_used := us\<rparr>"] by (simp add: ss_shrink_def ss_add_def)
  ultimately show ?thesis by (simp add: ss_insert_def)
qed

lemma map_le_Some: "f \<subseteq>\<^sub>m g \<Longrightarrow> f x = Some y \<Longrightarrow> g x = Some y"
  by (metis domI map_le_def)

lemma ss_call_entries:
  assumes "ss_entry (snd (ss_call c b)) x = Some y"
  shows "ss_entry b x = Some y \<or> c = ShardInsert x y"
proof (cases c)
  case (ShardInsert e d)
  then show ?thesis using assms map_le_Some [OF ss_insert_le, of e d b x y] by (auto split: if_splits)
qed (use assms map_le_Some [OF ss_release_le] map_le_Some [OF ss_drop_opt_le] map_le_Some [OF ss_fold_drop_le]
      in \<open>auto simp: ss_prune_def split: option.splits\<close>)

lemma placed_update:
  assumes p: "placed a" and i: "i < 16"
    and n: "\<And>x y. ss_entry b x = Some y \<Longrightarrow> ss_entry (cs_shard a ! i) x = Some y \<or> unat (Shard (en_hash y)) = i \<and> cs_where x a = None"
  shows "placed (a\<lparr>cs_shard := (cs_shard a)[i := b]\<rparr>)"
proof -
  have len: "length (cs_shard a) = 16" using p by (simp add: placed_def)
  have pl: "unat (Shard (en_hash d)) = j" if "j < 16" "ss_entry (cs_shard a ! j) e = Some d" for j e d using p that by (simp add: placed_def)
  have un: "j = k" if "j < 16" "k < 16" "ss_entry (cs_shard a ! j) e \<noteq> None" "ss_entry (cs_shard a ! k) e \<noteq> None" for j k e
    using p that unfolding placed_def by blast
  have b: "j = i" if "j < 16" "ss_entry (cs_shard a ! j) x \<noteq> None" "ss_entry b x \<noteq> None" for j x
    using n [of x] that un i cs_where_None [of x a] by (metis not_None_eq)
  have "unat (Shard (en_hash d)) = j" if "j < 16" "ss_entry ((cs_shard a)[i := b] ! j) e = Some d" for j e d
    using that n [of e d] pl [of j e d] i len by (cases "j = i") auto
  moreover have "j = k" if "j < 16" "k < 16" "ss_entry ((cs_shard a)[i := b] ! j) e \<noteq> None" "ss_entry ((cs_shard a)[i := b] ! k) e \<noteq> None" for j k e
  proof -
    have at: "ss_entry ((cs_shard a)[i := b] ! l) e = (if l = i then ss_entry b e else ss_entry (cs_shard a ! l) e)" if "l < 16" for l
      using that len by simp
    consider "j = i" "k = i" | "j = i" "k \<noteq> i" | "j \<noteq> i" "k = i" | "j \<noteq> i" "k \<noteq> i" by blast
    then show ?thesis
    proof cases
      case 2
      then show ?thesis using that(2-4) at [OF that(1)] at [OF that(2)] b [OF that(2)] by simp
    next
      case 3
      then show ?thesis using that(1,3,4) at [OF that(1)] at [OF that(2)] b [OF that(1)] by simp
    next
      case 4
      then show ?thesis using that(3,4) at [OF that(1)] at [OF that(2)] un [OF that(1,2)] by simp
    qed simp
  qed
  ultimately show ?thesis using len by (simp add: placed_def)
qed

lemma cs_on_ok:
  assumes r: "cache_rep S a" and i: "i < 16" and c: "ss_may_call c (cs_shard a ! i)"
    and n: "\<And>e d. c = ShardInsert e d \<Longrightarrow> unat (Shard (en_hash d)) = i \<and> cs_where e a = None"
  shows "\<exists>s'. do_shard_call c (sh_shard S ! i) = Inr (fst (cs_on i c a), s') \<and> cache_rep (S\<lparr>sh_shard := (sh_shard S)[i := s']\<rparr>) (snd (cs_on i c a))"
proof -
  obtain s' where s': "do_shard_call c (sh_shard S ! i) = Inr (fst (ss_call c (cs_shard a ! i)), s')" "shard_rep s' (snd (ss_call c (cs_shard a ! i)))"
    using shard.step [OF cache_rep_shard(1) [OF r i] c] by blast
  have p: "placed a" using r by (simp add: cache_rep_def)
  have "placed (snd (cs_on i c a))"
    unfolding cs_on_def snd_conv by (rule placed_update [OF p i]) (use ss_call_entries n in blast)
  moreover have "list_all2 shard_rep ((sh_shard S)[i := s']) (cs_shard (snd (cs_on i c a)))"
    using r s'(2) by (simp add: cs_on_def cache_rep_def list_all2_update_cong)
  ultimately have "cache_rep (S\<lparr>sh_shard := (sh_shard S)[i := s']\<rparr>) (snd (cs_on i c a))" using r by (simp add: cache_rep_def cs_on_def)
  then show ?thesis using s'(1) by (simp add: cs_on_def)
qed

lemma find_shard:
  assumes r: "cache_rep S a" and w: "cs_where e a = Some i"
  shows "\<exists>h. read_entry e S = Inr h \<and> entry_of h = the (ss_entry (cs_shard a ! i) e) \<and> unat (Shard (lh_hash h)) = i"
proof -
  have p: "placed a" using r by (simp add: cache_rep_def)
  have i: "i < 16" "ss_entry (cs_shard a ! i) e \<noteq> None" using cs_where_iff [OF p] w by auto
  have en: "ss_entry (cs_shard a ! j) e = map_option entry_of (sc_handles (sh_shard S ! j) e)" if "j < 16" for j
    using shard_rep_entry [OF cache_rep_shard(1) [OF r that]] .
  obtain h where h: "sc_handles (sh_shard S ! i) e = Some h" "ss_entry (cs_shard a ! i) e = Some (entry_of h)" using en [OF i(1)] i(2) by auto
  have "sc_handles (sh_shard S ! j) e = None" if "j < i" for j
    using that i en [of j] p unfolding placed_def by (metis (no_types, lifting) less_trans nless_le option.map_disc_iff)
  then have "List.find (\<lambda>s. sc_handles s e \<noteq> None) (sh_shard S) = Some (sh_shard S ! i)"
    using h(1) i(1) cache_rep_shard(2) [OF r i(1)] by (auto simp: find_Some_iff intro!: exI [of _ i])
  moreover have "unat (Shard (en_hash (entry_of h))) = i" using p i(1) h(2) by (simp add: placed_def)
  ultimately show ?thesis using h by (simp add: read_entry_def get_handle_def entry_of_def)
qed

lemma on_shard_unat: "on_shard (Shard h) f S = (if unat (Shard h) < length (sh_shard S)
  then ub_bind (f (sh_shard S ! unat (Shard h))) (\<lambda>(r, s). Inr (r, S\<lparr>sh_shard := (sh_shard S)[unat (Shard h) := s]\<rparr>)) else Inl OutOfBounds)"
  by (simp add: on_shard_def)

lemma ub_bind_assoc: "ub_bind (ub_bind r f) g = ub_bind r (\<lambda>x. ub_bind (f x) g)"
  by (cases r) simp_all

text \<open>A call that concerns one shard is the call on that shard.\<close>

lemma routed_call:
  assumes r: "cache_rep S a" and m: "cs_may_call le c a" and q: "routed le a c = Some (i, sc)"
  shows "i < 16 \<and> ss_may_call sc (cs_shard a ! i) \<and> (\<forall>e d. sc = ShardInsert e d \<longrightarrow> unat (Shard (en_hash d)) = i \<and> cs_where e a = None)
    \<and> do_cache_call le c S = ub_bind (do_shard_call sc (sh_shard S ! i)) (\<lambda>(r, s). Inr (Handle r, S\<lparr>sh_shard := (sh_shard S)[i := s]\<rparr>))"
proof (cases c)
  case (CacheRelease e)
  have cm: "cs_held e a" using m CacheRelease by simp
  obtain j where j: "cs_where e a = Some j" "j < 16" "0 < ss_held (cs_shard a ! j) e" by (rule cs_held_where [OF r cm])
  obtain h where "read_entry e S = Inr h" "unat (Shard (lh_hash h)) = j" using find_shard [OF r j(1)] by blast
  then show ?thesis
    using q j CacheRelease cache_rep_shard(2) [OF r j(2)]
    by (auto simp: Sharded_Release_def on_shard_def ub_bind_assoc)
qed (use m q cache_rep_shard(2) [OF r shard_of_less [of le]] in
  \<open>auto simp: cs_where_None HashStringPiece_ok Sharded_Insert_def Sharded_Lookup_def Sharded_Erase_def on_shard_unat ub_bind_assoc
    case_prod_unfold simp flip: shard_of_def\<close>)

lemma prune_all_ok: "list_all2 shard_rep ss as \<Longrightarrow> \<exists>ss'. prune_all ss = Inr ss' \<and> list_all2 shard_rep ss' (map ss_prune as)"
proof (induction ss as rule: list_all2_induct)
  case (Cons s ss a as)
  then show ?case using LRU_Prune_ok [OF Cons.hyps(1)] by auto
qed simp

lemma placed_prune: "placed a \<Longrightarrow> placed (a\<lparr>cs_shard := map ss_prune (cs_shard a)\<rparr>)"
proof -
  assume p: "placed a"
  then have len: "length (cs_shard a) = 16" by (simp add: placed_def)
  have le: "ss_entry (cs_shard a ! i) e = Some d" if "i < 16" "ss_entry (map ss_prune (cs_shard a) ! i) e = Some d" for i e d
    using map_le_Some [OF ss_fold_drop_le] that len by (auto simp: ss_prune_def)
  then have ne: "ss_entry (cs_shard a ! i) e \<noteq> None" if "i < 16" "ss_entry (map ss_prune (cs_shard a) ! i) e \<noteq> None" for i e
    using that by blast
  show ?thesis
    unfolding placed_def
  proof (intro conjI allI impI)
    show "length (cs_shard (a\<lparr>cs_shard := map ss_prune (cs_shard a)\<rparr>)) = 16" using len by simp
    fix i e d assume "i < 16" "ss_entry (cs_shard (a\<lparr>cs_shard := map ss_prune (cs_shard a)\<rparr>) ! i) e = Some d"
    then show "unat (Shard (en_hash d)) = i" using p le [of i e d] by (simp add: placed_def)
  next
    fix i j e assume "i < 16" "j < 16" "ss_entry (cs_shard (a\<lparr>cs_shard := map ss_prune (cs_shard a)\<rparr>) ! i) e \<noteq> None"
      "ss_entry (cs_shard (a\<lparr>cs_shard := map ss_prune (cs_shard a)\<rparr>) ! j) e \<noteq> None"
    then show "i = j" using p ne [of i e] ne [of j e] unfolding placed_def by simp
  qed
qed

lemma TotalCharge_sum: "list_all2 shard_rep ss as \<Longrightarrow> foldl (\<lambda>sum s. sum + LRU_TotalCharge s) c ss = c + sum_list (map ss_usage as)"
proof (induction ss as arbitrary: c rule: list_all2_induct)
  case (Cons s ss a as)
  have "LRU_TotalCharge s = ss_usage a" using Cons.hyps(1) by (simp add: LRU_TotalCharge_def shard_rep_def rep_with_def)
  then show ?case using Cons.IH [of "c + ss_usage a"] by (simp add: add.assoc)
qed simp

lemma cache_step_ok:
  assumes r: "cache_rep S a" and m: "cs_may_call le c a"
  shows "\<exists>S'. do_cache_call le c S = Inr (fst (cs_call le c a), S') \<and> cache_rep S' (snd (cs_call le c a))"
proof (cases "routed le a c")
  case (Some x)
  obtain i sc where x: "x = (i, sc)" by (cases x)
  have q: "routed le a c = Some (i, sc)" using Some x by simp
  note rc = routed_call [OF r m q]
  then obtain s' where "do_shard_call sc (sh_shard S ! i) = Inr (fst (cs_on i sc a), s')" "cache_rep (S\<lparr>sh_shard := (sh_shard S)[i := s']\<rparr>) (snd (cs_on i sc a))"
    using cs_on_ok [OF r, of i sc] by blast
  then show ?thesis using rc q by (simp add: cs_call_def)
next
  case None
  then consider (val) e where "c = CacheValue e" | (prune) "c = CachePrune" | (id) "c = CacheNewId" | (charge) "c = CacheTotalCharge"
    by (cases c) auto
  then show ?thesis
  proof cases
    case val
    have cm: "cs_held e a" using m val by simp
    obtain j where j: "cs_where e a = Some j" by (rule cs_held_where [OF r cm])
    obtain h where "read_entry e S = Inr h" "entry_of h = the (ss_entry (cs_shard a ! j) e)" using find_shard [OF r j] by blast
    moreover then have "lh_value h = cs_value e a" using j by (metis cs_value_def entry.select_convs(3) entry_of_def option.sel)
    ultimately show ?thesis using val r by (simp add: cs_call_def Sharded_Value_def)
  next
    case prune
    obtain ss where "prune_all (sh_shard S) = Inr ss" "list_all2 shard_rep ss (map ss_prune (cs_shard a))"
      using prune_all_ok r by (auto simp: cache_rep_def)
    then show ?thesis using prune r placed_prune [of a] by (simp add: cs_call_def Sharded_Prune_def cache_rep_def)
  next
    case id
    then show ?thesis using r by (simp add: cs_call_def NewId_def cache_rep_def placed_def)
  next
    case charge
    then show ?thesis using r TotalCharge_sum [of "sh_shard S" "cs_shard a" 0] by (simp add: cs_call_def Sharded_TotalCharge_def cache_rep_def)
  qed
qed

interpretation cache: simulation "do_cache_call le" "cs_call le" "cs_may_call le" cache_rep for le
  by unfold_locales (rule cache_step_ok)

lemma shards_new_ok: "\<exists>ss :: 'v LRUCache list. shards_new ms = Inr ss \<and> list_all2 shard_rep ss (map (\<lambda>m. ss_new (snd (snd m))) ms)"
proof (induction ms)
  case (Cons m ms)
  obtain L nh c where m: "m = (L, nh, c)" by (cases m)
  obtain s :: "'v LRUCache" where "LRUCache_new L nh c = Inr s" "shard_rep s (ss_new c)" using LRUCache_new_ok by blast
  then show ?case using Cons m by auto
qed simp

lemma ShardedLRUCache_new_ok: "\<exists>S :: 'v ShardedLRUCache. ShardedLRUCache_new mem capacity = Inr S \<and> cache_rep S (cs_new capacity)"
proof -
  have n: "kNumShards = 16" by (simp add: kNumShards_def kNumShardBits_def)
  let ?c = "(capacity + 15) div 16"
  obtain ss :: "'v LRUCache list" where ss: "shards_new (map mem [0..<16]) = Inr ss" "list_all2 shard_rep ss (map (\<lambda>m. ss_new (snd (snd m))) (map mem [0..<16]))"
    using shards_new_ok by blast
  have "length ss = 16" using list_all2_lengthD [OF ss(2)] by simp
  moreover have "shard_rep (SetCapacity ?c (ss ! i)) (ss_new ?c)" if "i < 16" for i
    using SetCapacity_ok [of "ss ! i" "ss_new _" ?c] ss(2) that by (auto simp: list_all2_conv_all_nth ss_new_def)
  ultimately have "list_all2 shard_rep (map (SetCapacity ?c) ss) (replicate 16 (ss_new ?c))" by (simp add: list_all2_conv_all_nth)
  moreover have "placed (cs_new capacity :: 'v cache_spec)" by (simp add: placed_def cs_new_def ss_new_def)
  ultimately show ?thesis using ss(1) by (simp add: ShardedLRUCache_new_def n Let_def cache_rep_def cs_new_def)
qed

section \<open>Every entry is accounted for\<close>

text \<open>The entries a shard has deleted and the live ones.\<close>

definition ss_account :: "'v shard_spec \<Rightarrow> (nat \<times> octet list \<times> 'v) multiset" where
  "ss_account a = mset (ss_deleted a) + image_mset (\<lambda>e. entry_log (the (ss_entry a e))) (mset_set (dom (ss_entry a)))"

definition cs_account :: "'v cache_spec \<Rightarrow> (nat \<times> octet list \<times> 'v) multiset" where
  "cs_account a = sum_list (map ss_account (cs_shard a))"

definition inserted :: "'v cache_call \<Rightarrow> (nat \<times> octet list \<times> 'v) list" where
  "inserted c = (case c of CacheInsert e key v charge deleter \<Rightarrow> [(deleter, key, v)] | _ \<Rightarrow> [])"

definition ss_finite :: "'v shard_spec \<Rightarrow> bool" where
  "ss_finite a \<longleftrightarrow> finite (dom (ss_entry a))"

lemma ss_finite_le: "ss_entry a \<subseteq>\<^sub>m ss_entry b \<Longrightarrow> ss_finite b \<Longrightarrow> ss_finite a"
  by (metis finite_subset map_le_implies_dom_le ss_finite_def)

lemma ss_account_cong: "ss_entry a = ss_entry b \<Longrightarrow> ss_deleted a = ss_deleted b \<Longrightarrow> ss_account a = ss_account b"
  by (simp add: ss_account_def)

lemma ss_free_account:
  assumes "ss_finite a"
  shows "ss_account (ss_free e a) = ss_account a"
proof (cases "ss_entry a e")
  case None
  then show ?thesis by (simp add: ss_free_def)
next
  case (Some d)
  let ?D = "dom (ss_entry a)"
  have D: "finite (?D - {e})" "?D = insert e (?D - {e})" using assms Some by (auto simp: ss_finite_def)
  have "image_mset (\<lambda>x. entry_log (the (((ss_entry a)(e := None)) x))) (mset_set (?D - {e}))
    = image_mset (\<lambda>x. entry_log (the (ss_entry a x))) (mset_set (?D - {e}))"
    using D(1) by (intro image_mset_cong) auto
  moreover have "image_mset (\<lambda>x. entry_log (the (ss_entry a x))) (mset_set ?D)
    = add_mset (entry_log d) (image_mset (\<lambda>x. entry_log (the (ss_entry a x))) (mset_set (?D - {e})))"
    using D(1) Some by (subst D(2), subst mset_set.insert) auto
  ultimately show ?thesis using Some by (simp add: ss_account_def ss_free_def entry_log_def)
qed

lemma ss_drop_account: "ss_finite a \<Longrightarrow> ss_account (ss_drop e a) = ss_account a"
  using ss_free_account [of "a\<lparr>ss_idle := remove1 e (ss_idle a), ss_used := remove1 e (ss_used a)\<rparr>" e]
  by (simp add: ss_drop_def Let_def ss_finite_def ss_account_def)

lemma ss_drop_finite: "ss_finite a \<Longrightarrow> ss_finite (ss_drop e a)"
  by (rule ss_finite_le [OF ss_drop_le])

lemma ss_evict_account: "ss_finite a \<Longrightarrow> ss_account (ss_evict es a) = ss_account a"
  by (induction es arbitrary: a) (simp_all add: ss_drop_account ss_drop_finite)

lemma ss_fold_drop_account: "ss_finite a \<Longrightarrow> ss_account (fold ss_drop es a) = ss_account a"
  by (induction es arbitrary: a) (simp_all add: ss_drop_account ss_drop_finite)

lemma ss_release_account: "ss_finite a \<Longrightarrow> ss_account (ss_release e a) = ss_account a"
proof -
  assume "ss_finite a"
  then have "ss_account (ss_free e (a\<lparr>ss_held := f\<rparr>)) = ss_account a" for f
    using ss_free_account [of "a\<lparr>ss_held := f\<rparr>" e] by (simp add: ss_finite_def ss_account_def)
  then show ?thesis by (simp add: ss_release_def Let_def) (simp add: ss_account_def)
qed

lemma ss_add_account:
  assumes "ss_finite a" "ss_entry a e = None"
  shows "ss_account ((ss_add e d a)\<lparr>ss_used := us\<rparr>) = add_mset (entry_log d) (ss_account a)" "ss_finite ((ss_add e d a)\<lparr>ss_used := us\<rparr>)"
proof -
  let ?D = "dom (ss_entry a)"
  have D: "finite ?D" "e \<notin> ?D" using assms by (auto simp: ss_finite_def)
  have "image_mset (\<lambda>x. entry_log (the (((ss_entry a)(e \<mapsto> d)) x))) (mset_set ?D) = image_mset (\<lambda>x. entry_log (the (ss_entry a x))) (mset_set ?D)"
    using D by (intro image_mset_cong) auto
  then show "ss_account ((ss_add e d a)\<lparr>ss_used := us\<rparr>) = add_mset (entry_log d) (ss_account a)"
    using D by (simp add: ss_account_def ss_add_def)
  show "ss_finite ((ss_add e d a)\<lparr>ss_used := us\<rparr>)" using D(1) by (simp add: ss_finite_def ss_add_def)
qed

lemma ss_insert_account:
  assumes "ss_finite a" "ss_entry a e = None"
  shows "ss_account (ss_insert e d a) = add_mset (entry_log d) (ss_account a)"
proof -
  have "ss_account (ss_shrink (ss_drop_opt r ((ss_add e d a)\<lparr>ss_used := us\<rparr>))) = add_mset (entry_log d) (ss_account a)" for r us
    using ss_add_account [OF assms, where d = d and us = us]
    by (simp add: ss_shrink_def ss_drop_opt_def ss_evict_account ss_drop_account ss_drop_finite split: option.split)
  from this [of None "ss_used a"] this [of "ss_find (en_key d) (en_hash d) a" "ss_used a @ [e]"]
  show ?thesis by (simp add: ss_insert_def ss_drop_opt_def ss_add_def)
qed

lemma ss_call_account:
  assumes "ss_finite a" "ss_may_call c a"
  shows "ss_account (snd (ss_call c a)) = ss_account a + (case c of ShardInsert e d \<Rightarrow> {#entry_log d#} | _ \<Rightarrow> {#})"
    and "ss_finite (snd (ss_call c a))"
proof -
  show "ss_account (snd (ss_call c a)) = ss_account a + (case c of ShardInsert e d \<Rightarrow> {#entry_log d#} | _ \<Rightarrow> {#})"
  proof (cases c)
    case (ShardLookup key hash)
    have "ss_account (ss_hold e a) = ss_account a" for e by (rule ss_account_cong) (simp_all add: ss_hold_def Let_def)
    then show ?thesis using ShardLookup by (simp split: option.split)
  qed (use assms in \<open>auto simp: ss_insert_account ss_release_account ss_drop_opt_def ss_drop_account ss_prune_def ss_fold_drop_account split: option.split\<close>)
  show "ss_finite (snd (ss_call c a))"
  proof (cases c)
    case (ShardInsert e d)
    have "dom (ss_entry (ss_insert e d a)) \<subseteq> insert e (dom (ss_entry a))" using map_le_implies_dom_le [OF ss_insert_le, of e d a] by simp
    then show ?thesis using assms(1) ShardInsert by (auto simp: ss_finite_def dest: finite_subset)
  qed (use assms(1) ss_finite_le [OF ss_release_le] ss_finite_le [OF ss_drop_opt_le] ss_finite_le [OF ss_fold_drop_le]
      in \<open>auto simp: ss_prune_def ss_finite_def split: option.split\<close>)
qed

lemma sum_map_update:
  "i < length xs \<Longrightarrow> sum_list (map f (xs[i := y])) + f (xs ! i) = sum_list (map f xs) + (f y :: 'b :: comm_monoid_add)"
proof (induction xs arbitrary: i)
  case (Cons x xs)
  then show ?case by (cases i) (simp_all add: ac_simps)
qed simp

definition cs_finite :: "'v cache_spec \<Rightarrow> bool" where
  "cs_finite a \<longleftrightarrow> (\<forall>b\<in>set (cs_shard a). ss_finite b)"

lemma cs_call_account:
  assumes r: "cache_rep S a" and m: "cs_may_call le c a" and f: "cs_finite a"
  shows "cs_account (snd (cs_call le c a)) = cs_account a + mset (inserted c) \<and> cs_finite (snd (cs_call le c a))"
proof (cases "routed le a c")
  case (Some x)
  obtain i sc where q: "routed le a c = Some (i, sc)" using Some by (cases x) auto
  let ?b = "cs_shard a ! i" and ?n = "case sc of ShardInsert e d \<Rightarrow> {#entry_log d#} | _ \<Rightarrow> {#}"
  have i: "i < length (cs_shard a)" and sc: "ss_may_call sc ?b" using routed_call [OF r m q] cache_rep_shard(3) [OF r] by auto
  have fb: "ss_finite ?b" using f i by (simp add: cs_finite_def)
  note ac = ss_call_account [OF fb sc]
  have "cs_account (snd (cs_on i sc a)) + ss_account ?b = cs_account a + ?n + ss_account ?b"
    using sum_map_update [OF i, of ss_account "snd (ss_call sc ?b)"] ac(1) by (simp add: cs_account_def cs_on_def ac_simps)
  then have "cs_account (snd (cs_on i sc a)) = cs_account a + ?n" by simp
  moreover have "?n = mset (inserted c)" using q by (cases c) (auto simp: inserted_def entry_log_def)
  moreover have "cs_finite (snd (cs_on i sc a))" using f ac(2) set_update_subset_insert [of "cs_shard a" i] by (fastforce simp: cs_finite_def cs_on_def)
  ultimately show ?thesis using q by (simp add: cs_call_def)
next
  case None
  have "map ss_account (map ss_prune (cs_shard a)) = map ss_account (cs_shard a)"
    using f by (simp add: cs_finite_def ss_prune_def ss_fold_drop_account)
  moreover have "\<forall>b\<in>set (cs_shard a). ss_finite (ss_prune b)"
    using f ss_finite_le [OF ss_fold_drop_le] by (auto simp: cs_finite_def ss_prune_def)
  ultimately show ?thesis using None f
    by (cases c) (simp_all add: cs_call_def inserted_def cs_account_def cs_finite_def del: map_map)
qed

section \<open>What a client knows\<close>

text \<open>The references a client holds by the calls it made and what they returned.\<close>

definition ref_step :: "'v cache_call \<Rightarrow> 'v cache_return \<Rightarrow> (nat \<Rightarrow> nat) \<Rightarrow> nat \<Rightarrow> nat" where
  "ref_step c r f =
     (case c of CacheInsert e key v charge deleter \<Rightarrow> f(e := f e + 1)
      | CacheLookup key \<Rightarrow> (case r of Handle (Some e) \<Rightarrow> f(e := f e + 1) | _ \<Rightarrow> f)
      | CacheRelease e \<Rightarrow> f(e := f e - 1)
      | _ \<Rightarrow> f)"

definition client_refs :: "'v cache_call list \<Rightarrow> 'v cache_return list \<Rightarrow> (nat \<Rightarrow> nat) \<Rightarrow> nat \<Rightarrow> nat" where
  "client_refs cs rs f = fold (\<lambda>(c, r). ref_step c r) (zip cs rs) f"

text \<open>The value it inserted last at an address.\<close>

definition value_step :: "'v cache_call \<Rightarrow> (nat \<Rightarrow> 'v option) \<Rightarrow> nat \<Rightarrow> 'v option" where
  "value_step c m = (case c of CacheInsert e key v charge deleter \<Rightarrow> m(e \<mapsto> v) | _ \<Rightarrow> m)"

definition client_values :: "'v cache_call list \<Rightarrow> nat \<Rightarrow> 'v option" where
  "client_values cs = fold value_step cs (\<lambda>_. None)"

definition cs_refs :: "'v cache_spec \<Rightarrow> nat \<Rightarrow> nat" where
  "cs_refs a e = sum_list (map (\<lambda>b. ss_held b e) (cs_shard a))"

definition cs_values_ok :: "(nat \<Rightarrow> 'v option) \<Rightarrow> 'v cache_spec \<Rightarrow> bool" where
  "cs_values_ok m a \<longleftrightarrow> (\<forall>i<16. \<forall>e d. ss_entry (cs_shard a ! i) e = Some d \<longrightarrow> m e = Some (en_value d))"

lemma ss_fold_held: "ss_held (fold ss_drop es a) = ss_held a" "ss_held (ss_evict es a) = ss_held a" "ss_held (ss_drop_opt r a) = ss_held a"
  by (induction es arbitrary: a) (simp_all add: ss_drop_opt_def split: option.split)

lemma ss_call_held:
  "ss_held (snd (ss_call c a)) =
     (case c of ShardInsert e d \<Rightarrow> (ss_held a)(e := 1)
      | ShardLookup key hash \<Rightarrow> (case ss_find key hash a of None \<Rightarrow> ss_held a | Some e \<Rightarrow> (ss_held a)(e := ss_held a e + 1))
      | ShardRelease e \<Rightarrow> (ss_held a)(e := ss_held a e - 1)
      | _ \<Rightarrow> ss_held a)"
  by (cases c) (auto simp: ss_insert_def ss_shrink_def ss_fold_held ss_add_def ss_prune_def ss_hold_def ss_release_def Let_def split: option.split)

lemma cs_refs_on:
  assumes "i < length (cs_shard a)"
  shows "cs_refs (snd (cs_on i sc a)) x + ss_held (cs_shard a ! i) x = cs_refs a x + ss_held (snd (ss_call sc (cs_shard a ! i))) x"
  using sum_map_update [OF assms, of "\<lambda>b. ss_held b x"] by (simp add: cs_refs_def cs_on_def)

lemma cs_call_refs:
  assumes r: "cache_rep S a" and m: "cs_may_call le c a"
  shows "cs_refs (snd (cs_call le c a)) = ref_step c (fst (cs_call le c a)) (cs_refs a)"
proof (rule ext)
  fix x
  show "cs_refs (snd (cs_call le c a)) x = ref_step c (fst (cs_call le c a)) (cs_refs a) x"
  proof (cases "routed le a c")
    case (Some y)
    obtain i sc where q: "routed le a c = Some (i, sc)" using Some by (cases y) auto
    note rc = routed_call [OF r m q]
    then have i: "i < length (cs_shard a)" using cache_rep_shard(3) [OF r] by auto
    have e: "cs_call le c a = (Handle (fst (ss_call sc (cs_shard a ! i))), snd (cs_on i sc a))" using q by (simp add: cs_call_def cs_on_def)
    have none: "ss_held (cs_shard a ! i) y = 0" if "cs_where y a = None" for y
    proof -
      have "ss_entry (cs_shard a ! i) y = None" using that rc by (simp add: cs_where_None)
      then show ?thesis using shard_rep_held [OF cache_rep_shard(1) [OF r], of i y] rc by auto
    qed
    show ?thesis
      using q cs_refs_on [OF i, of sc x] rc e none by (cases c) (auto simp: ss_call_held ref_step_def split: option.splits)
  next
    case None
    have "cs_refs (a\<lparr>cs_shard := map ss_prune (cs_shard a)\<rparr>) x = cs_refs a x" by (simp add: cs_refs_def ss_prune_def ss_fold_held comp_def)
    then show ?thesis using None by (cases c) (simp_all add: cs_call_def ref_step_def, simp add: cs_refs_def)
  qed
qed

lemma cs_call_values:
  assumes r: "cache_rep S a" and m: "cs_may_call le c a" and v: "cs_values_ok w a"
  shows "cs_values_ok (value_step c w) (snd (cs_call le c a))"
proof (cases "routed le a c")
  case (Some y)
  obtain i sc where q: "routed le a c = Some (i, sc)" using Some by (cases y) auto
  note rc = routed_call [OF r m q]
  have len: "length (cs_shard a) = 16" by (rule cache_rep_shard(3) [OF r, of 0]) simp
  have st: "value_step c w = (case sc of ShardInsert e d \<Rightarrow> w(e \<mapsto> en_value d) | _ \<Rightarrow> w)" using q by (cases c) (auto simp: value_step_def)
  have old: "value_step c w e = Some (en_value d)" if "j < 16" "ss_entry (cs_shard a ! j) e = Some d" for j e d
  proof -
    have "cs_where e a \<noteq> None" using that by (auto simp: cs_where_None)
    then show ?thesis using that v rc by (auto simp: st cs_values_ok_def split: shard_call.split)
  qed
  have "value_step c w e = Some (en_value d)" if "j < 16" "ss_entry (cs_shard (snd (cs_on i sc a)) ! j) e = Some d" for j e d
  proof (cases "j = i")
    case True
    then have "ss_entry (snd (ss_call sc (cs_shard a ! i))) e = Some d" using that len by (simp add: cs_on_def)
    from ss_call_entries [OF this] show ?thesis using old [of i e d] rc by (auto simp: st)
  next
    case False
    then show ?thesis using that old by (simp add: cs_on_def)
  qed
  then show ?thesis using q by (simp add: cs_call_def cs_values_ok_def)
next
  case None
  have "cs_values_ok w (a\<lparr>cs_shard := map ss_prune (cs_shard a)\<rparr>)"
    unfolding cs_values_ok_def
  proof (intro allI impI)
    fix i e d assume "i < (16 :: nat)" "ss_entry (cs_shard (a\<lparr>cs_shard := map ss_prune (cs_shard a)\<rparr>) ! i) e = Some d"
    moreover then have "ss_entry (cs_shard a ! i) e = Some d"
      using cache_rep_shard(3) [OF r, of 0] map_le_Some [OF ss_fold_drop_le, of _ _ e d] by (simp add: ss_prune_def)
    ultimately show "w e = Some (en_value d)" using v by (simp add: cs_values_ok_def)
  qed
  then show ?thesis using None v by (cases c) (simp_all add: cs_call_def value_step_def, simp add: cs_values_ok_def)
qed

lemma history_books:
  assumes "cache_rep S a" "may_call_all (cs_may_call le) (cs_call le) cs a" "cs_finite a" "cs_values_ok w a"
  shows "cs_account (snd (spec_all (cs_call le) cs a)) = cs_account a + mset (concat (map inserted cs))
    \<and> cs_finite (snd (spec_all (cs_call le) cs a)) \<and> cs_values_ok (fold value_step cs w) (snd (spec_all (cs_call le) cs a))
    \<and> cs_refs (snd (spec_all (cs_call le) cs a)) = client_refs cs (fst (spec_all (cs_call le) cs a)) (cs_refs a)"
  using assms
proof (induction cs arbitrary: S a w)
  case Nil
  then show ?case by (simp add: client_refs_def)
next
  case (Cons c cs)
  have m: "cs_may_call le c a" "may_call_all (cs_may_call le) (cs_call le) cs (snd (cs_call le c a))" using Cons.prems(2) by auto
  obtain S1 where S1: "cache_rep S1 (snd (cs_call le c a))" using cache_step_ok [OF Cons.prems(1) m(1)] by blast
  note ac = cs_call_account [OF Cons.prems(1) m(1) Cons.prems(3)]
  show ?case
    using Cons.IH [OF S1 m(2) conjunct2 [OF ac] cs_call_values [OF Cons.prems(1) m(1) Cons.prems(4)]] ac
    by (simp add: client_refs_def cs_call_refs [OF Cons.prems(1) m(1)] add.assoc)
qed

section \<open>Destruction\<close>

lemma destroy_shard_ok:
  assumes r: "shard_rep s a" and n: "\<And>e. ss_held a e = 0" and f: "ss_finite a"
  shows "\<exists>s'. LRUCache_destroy s = Inr s' \<and> mset (sc_deleted s') = ss_account a \<and> (\<forall>e. sc_handles s' e = None)"
proof -
  have r': "rep_with (set (ss_cached a)) s a" using r by (simp add: shard_rep_def)
  note di = rings_distinct [OF rep_rings [OF r']]
  have idle: "e \<in> set (ss_idle a) \<longleftrightarrow> sc_handles s e \<noteq> None" for e
    using rep_handle(1) [OF r'] n di(4) by (cases "sc_handles s e") (auto simp: handle_ok_def)
  have u: "ss_used a = []"
  proof (rule ccontr)
    assume "ss_used a \<noteq> []"
    then obtain e where "e \<in> set (ss_used a)" by (cases "ss_used a") auto
    then show False using idle [of e] di(3,5) by auto
  qed
  have D: "set (ss_idle a) = dom (ss_entry a)" using idle shard_rep_entry [OF r] by (auto simp: dom_def)
  obtain s' where s': "LRUCache_destroy s = Inr s'" "sc_deleted s' = ss_deleted a @ map (\<lambda>e. entry_log (the (ss_entry a e))) (ss_idle a)"
    "dom (sc_handles s') = dom (ss_entry a) - set (ss_idle a)" using LRUCache_destroy_ok [OF r u] by blast
  have "mset_set (dom (ss_entry a)) = mset (ss_idle a)" using di(1) D by (metis mset_set_set)
  then have "mset (sc_deleted s') = ss_account a" using s'(2) by (simp add: ss_account_def)
  moreover have "sc_handles s' e = None" for e using s'(3) D by auto
  ultimately show ?thesis using s'(1) by blast
qed

lemma destroy_all_ok:
  "list_all2 shard_rep ss as \<Longrightarrow> \<forall>b\<in>set as. ss_finite b \<and> (\<forall>e. ss_held b e = 0) \<Longrightarrow>
   \<exists>ss'. destroy_all ss = Inr ss' \<and> mset (concat (map sc_deleted ss')) = sum_list (map ss_account as) \<and> (\<forall>s\<in>set ss'. \<forall>e. sc_handles s e = None)"
proof (induction ss as rule: list_all2_induct)
  case (Cons s ss a as)
  obtain ss' where "destroy_all ss = Inr ss'" "mset (concat (map sc_deleted ss')) = sum_list (map ss_account as)" "\<forall>s\<in>set ss'. \<forall>e. sc_handles s e = None"
    using Cons.IH Cons.prems by auto
  moreover obtain s' where "LRUCache_destroy s = Inr s'" "mset (sc_deleted s') = ss_account a" "\<forall>e. sc_handles s' e = None"
    using destroy_shard_ok [OF Cons.hyps(1)] Cons.prems by auto
  ultimately show ?case by auto
qed simp

lemma new_books:
  "cs_finite (cs_new capacity)" "cs_values_ok (\<lambda>_. None) (cs_new capacity)" "cs_refs (cs_new capacity) = (\<lambda>_. 0)" "cs_account (cs_new capacity) = {#}"
proof -
  have "sum_list (replicate n {#}) = {#}" for n by (induction n) simp_all
  then show "cs_account (cs_new capacity) = {#}" by (simp add: cs_account_def cs_new_def ss_new_def ss_account_def)
qed (auto simp: cs_finite_def cs_values_ok_def cs_refs_def cs_new_def ss_new_def ss_finite_def sum_list_replicate fun_eq_iff)

lemma cs_refs_0: "cs_refs a e = 0 \<longleftrightarrow> (\<forall>b\<in>set (cs_shard a). ss_held b e = 0)"
  by (simp add: cs_refs_def)

lemma client_history:
  fixes cs :: "'v cache_call list"
  assumes "may_call_all (cs_may_call le) (cs_call le) cs (cs_new capacity)"
  obtains S0 S a where "ShardedLRUCache_new mem capacity = Inr S0"
    "call_all (do_cache_call le) cs S0 = Inr (fst (spec_all (cs_call le) cs (cs_new capacity)), S)" "cache_rep S a"
    "a = snd (spec_all (cs_call le) cs (cs_new capacity))"
    "cs_account a = mset (concat (map inserted cs))" "cs_finite a" "cs_values_ok (client_values cs) a"
    "cs_refs a = client_refs cs (fst (spec_all (cs_call le) cs (cs_new capacity))) (\<lambda>_. 0)"
proof -
  obtain S0 :: "'v ShardedLRUCache" where S0: "ShardedLRUCache_new mem capacity = Inr S0" "cache_rep S0 (cs_new capacity)" using ShardedLRUCache_new_ok by blast
  obtain S where S: "call_all (do_cache_call le) cs S0 = Inr (fst (spec_all (cs_call le) cs (cs_new capacity)), S)"
    "cache_rep S (snd (spec_all (cs_call le) cs (cs_new capacity)))" using cache.history [OF S0(2) assms] by blast
  note b = history_books [OF S0(2) assms new_books(1,2)]
  show thesis by (rule that [OF S0(1) S refl]) (use b in \<open>simp_all add: client_values_def new_books\<close>)
qed

lemma deleted_sub: "mset (concat (map ss_deleted as)) \<subseteq># sum_list (map ss_account as)"
proof (induction as)
  case (Cons a as)
  have "mset (ss_deleted a) \<subseteq># ss_account a" by (simp add: ss_account_def)
  then show ?case using Cons by (simp add: subset_mset.add_mono)
qed simp

lemma rep_deleted: "list_all2 shard_rep ss as \<Longrightarrow> map sc_deleted ss = map ss_deleted as"
  by (induction rule: list_all2_induct) (simp_all add: shard_rep_def rep_with_def)

section \<open>Eviction\<close>

lemma fold_drop_fields:
  "ss_capacity (fold ss_drop es a) = ss_capacity a" "ss_used (fold ss_drop es a) = fold remove1 es (ss_used a)"
  "ss_idle (fold ss_drop es a) = fold remove1 es (ss_idle a)"
  by (induction es arbitrary: a) simp_all

lemma fold_remove1_prefix: "fold remove1 (take n xs) xs = drop n xs"
proof (induction n arbitrary: xs)
  case (Suc n)
  then show ?case by (cases xs) simp_all
qed simp

lemma fold_remove1_other: "set es \<inter> set xs = {} \<Longrightarrow> fold remove1 es xs = xs"
  by (induction es) (simp_all add: remove1_idem)

lemma same_key_same_entry:
  assumes r: "shard_rep s a" and e: "e \<in> set (ss_cached a)"
  shows "ss_matches key hash a e \<longleftrightarrow> ss_find key hash a = Some e"
proof -
  have r': "rep_with (set (ss_cached a)) s a" using r by (simp add: shard_rep_def)
  have l: "sc_handles s e \<noteq> None" using rings_distinct(4,5) [OF rep_rings [OF r']] e by (auto simp: ss_cached_def)
  show ?thesis
  proof
    assume "ss_matches key hash a e"
    then have "entry_for s (set (ss_cached a)) key hash (Some e)" using e rep_matches [OF r' l] by (simp add: entry_for_def)
    then show "ss_find key hash a = Some e" using shard_rep_find [OF r] by metis
  qed (auto simp: ss_find_def find_Some_iff)
qed

text \<open>The entries evicted are the oldest ones, and no more than it takes.\<close>

lemma ss_evict_prefix:
  "\<exists>n\<le>length es. ss_evict es a = fold ss_drop (take n es) a \<and> (\<forall>k<n. ss_capacity a < ss_usage (fold ss_drop (take k es) a))
    \<and> (n = length es \<or> ss_usage (ss_evict es a) \<le> ss_capacity a)"
proof (induction es arbitrary: a)
  case (Cons e es)
  show ?case
  proof (cases "ss_usage a > ss_capacity a")
    case True
    obtain n where "n \<le> length es" "ss_evict es (ss_drop e a) = fold ss_drop (take n es) (ss_drop e a)"
      "\<forall>k<n. ss_capacity a < ss_usage (fold ss_drop (take k es) (ss_drop e a))"
      "n = length es \<or> ss_usage (ss_evict es (ss_drop e a)) \<le> ss_capacity a" using Cons [of "ss_drop e a"] by auto
    moreover from this(3) have "\<forall>k<Suc n. ss_capacity a < ss_usage (fold ss_drop (take k (e # es)) a)"
      using True by (auto simp: less_Suc_eq_0_disj)
    ultimately show ?thesis using True by (intro exI [of _ "Suc n"]) simp
  next
    case False
    then show ?thesis by (intro exI [of _ 0]) simp
  qed
qed simp

text \<open>The entry with the key of the new one leaves its list.\<close>

definition ss_replace :: "nat \<Rightarrow> 'v entry \<Rightarrow> 'v shard_spec \<Rightarrow> 'v shard_spec" where
  "ss_replace e d a = ss_drop_opt (ss_find (en_key d) (en_hash d) a) ((ss_add e d a)\<lparr>ss_used := ss_used a @ [e]\<rparr>)"

definition others :: "'v entry \<Rightarrow> 'v shard_spec \<Rightarrow> nat list \<Rightarrow> nat list" where
  "others d a xs = filter (\<lambda>x. \<not> ss_matches (en_key d) (en_hash d) a x) xs"

lemma others_remove1:
  assumes r: "shard_rep s a" and f: "ss_find (en_key d) (en_hash d) a = Some x" and xs: "distinct xs" "set xs \<subseteq> set (ss_cached a)"
  shows "remove1 x xs = others d a xs"
proof -
  have "ss_matches (en_key d) (en_hash d) a y \<longleftrightarrow> y = x" if "y \<in> set xs" for y
    using same_key_same_entry [OF r, of y] that xs(2) f by auto
  then show ?thesis using xs(1) by (auto simp: others_def distinct_remove1_removeAll removeAll_filter_not_eq intro!: filter_cong)
qed

lemma others_all: "ss_find (en_key d) (en_hash d) a = None \<Longrightarrow> set xs \<subseteq> set (ss_cached a) \<Longrightarrow> others d a xs = xs"
  by (auto simp: others_def ss_find_def find_None_iff filter_id_conv)

lemma ss_replace_lists:
  assumes r: "shard_rep s a" and e: "e \<notin> set (ss_cached a)"
  shows "ss_idle (ss_replace e d a) = others d a (ss_idle a)" "ss_used (ss_replace e d a) = others d a (ss_used a) @ [e]"
    "ss_capacity (ss_replace e d a) = ss_capacity a"
proof -
  note di = shard_rep_distinct [OF r]
  have sub: "set (ss_idle a) \<subseteq> set (ss_cached a)" "set (ss_used a) \<subseteq> set (ss_cached a)" by (auto simp: ss_cached_def)
  show "ss_capacity (ss_replace e d a) = ss_capacity a" by (simp add: ss_replace_def ss_drop_opt_def ss_add_def split: option.split)
  show "ss_idle (ss_replace e d a) = others d a (ss_idle a)"
    using others_remove1 [OF r _ di(1) sub(1)] others_all [OF _ sub(1)] by (simp add: ss_replace_def ss_drop_opt_def ss_add_def split: option.split)
  show "ss_used (ss_replace e d a) = others d a (ss_used a) @ [e]"
  proof (cases "ss_find (en_key d) (en_hash d) a")
    case (Some x)
    then have "x \<noteq> e" using ss_find_cached e by metis
    then have "remove1 x (ss_used a @ [e]) = remove1 x (ss_used a) @ [e]" by (simp add: remove1_append remove1_idem)
    then show ?thesis using Some others_remove1 [OF r Some di(2) sub(2)] by (simp add: ss_replace_def ss_drop_opt_def)
  qed (use others_all [OF _ sub(2)] in \<open>simp add: ss_replace_def ss_drop_opt_def\<close>)
qed

lemma ss_insert_lists:
  assumes r: "shard_rep s a" and e: "e \<notin> set (ss_cached a)" and c: "0 < ss_capacity a"
  shows "\<exists>n. ss_idle (ss_insert e d a) = drop n (others d a (ss_idle a)) \<and> ss_used (ss_insert e d a) = others d a (ss_used a) @ [e]
    \<and> (\<forall>k<n. ss_capacity a < ss_usage (fold ss_drop (take k (others d a (ss_idle a))) (ss_replace e d a)))
    \<and> (ss_idle (ss_insert e d a) = [] \<or> ss_usage (ss_insert e d a) \<le> ss_capacity a)"
proof -
  let ?b = "ss_replace e d a" and ?i = "others d a (ss_idle a)"
  note l = ss_replace_lists [OF r e, of d]
  have ins: "ss_insert e d a = ss_evict ?i ?b" using c l(1) by (simp add: ss_insert_def ss_shrink_def flip: ss_replace_def)
  obtain n where n: "ss_evict ?i ?b = fold ss_drop (take n ?i) ?b" "\<forall>k<n. ss_capacity a < ss_usage (fold ss_drop (take k ?i) ?b)"
    "n = length ?i \<or> ss_usage (ss_evict ?i ?b) \<le> ss_capacity a" using ss_evict_prefix [of ?i ?b] l(3) by auto
  have d: "ss_idle (ss_insert e d a) = drop n ?i" by (simp add: ins n(1) fold_drop_fields l fold_remove1_prefix)
  have "set (ss_idle a) \<inter> set (ss_used a) = {}" using rings_distinct(3) rep_rings r unfolding shard_rep_def by blast
  then have "set (take n ?i) \<inter> set (others d a (ss_used a) @ [e]) = {}"
    using e set_take_subset [of n ?i] by (auto simp: others_def ss_cached_def)
  then have "ss_used (ss_insert e d a) = others d a (ss_used a) @ [e]" by (simp only: ins n(1) fold_drop_fields l fold_remove1_other)
  then show ?thesis using d n(2,3) ins by auto
qed

section \<open>A history\<close>

definition small_calls :: "nat cache_call list" where
  "small_calls = [CacheInsert 10 [] 5 1 7, CacheLookup [], CacheRelease 10]"

definition small_calls_released :: "nat cache_call list" where
  "small_calls_released = small_calls @ [CacheErase [], CacheRelease 10]"

lemma key_hash_Nil: "key_hash le [] = 0" "shard_of le [] = 0"
proof -
  show "key_hash le [] = 0" by (simp add: key_hash_def HashStringPiece_def Hash_def Hash_loop_chunks chunks_short)
  then show "shard_of le [] = 0" by (simp add: shard_of_def Shard_def)
qed

lemma first_shard:
  "ss_entry (cs_shard a ! 0) e \<noteq> None \<Longrightarrow> cs_where e a = Some 0" "0 < ss_held (cs_shard a ! 0) e \<Longrightarrow> cs_held e a"
  by (auto simp: cs_where_def cs_held_def upt_conv_Cons intro!: exI [of _ 0])

lemmas small_history = small_calls_def small_calls_released_def key_hash_Nil cs_new_def ss_new_def first_shard cs_call_def cs_on_def
  ss_insert_def ss_find_def ss_cached_def ss_drop_opt_def ss_shrink_def ss_add_def ss_matches_def ss_hold_def ss_release_def ss_drop_def ss_free_def

lemma small_calls_ok: "may_call_all (cs_may_call True) (cs_call True) small_calls_released (cs_new 32)"
    "may_call_all (cs_may_call True) (cs_call True) small_calls (cs_new 32)"
  by (simp_all add: small_history cs_where_None)

definition old_memory :: "nat \<Rightarrow> list_head \<times> (nat \<Rightarrow> nat option) \<times> 64 word" where
  "old_memory i = (\<lparr>nxt = (\<lambda>_. 9), prv = (\<lambda>_. 9)\<rparr>, (\<lambda>_. Some 4), 0)"

section \<open>Properties\<close>

text \<open>
  C7. For every history of calls in which \<open>malloc\<close> returns unused memory and only held handles are used, the sharded
  cache runs without a failed assertion, an access to freed memory or an endless loop, and returns what the specification
  returns: a lookup finds the entry of the key if it is in the cache, a replaced, erased or evicted entry lives until it is
  released, the oldest idle entries go first.
\<close>
theorem ShardedLRUCache_refines_cache:
  fixes cs :: "'v cache_call list"
  assumes "may_call_all (cs_may_call le) (cs_call le) cs (cs_new capacity)"
  shows "\<exists>S0 S. ShardedLRUCache_new mem capacity = Inr S0
    \<and> call_all (do_cache_call le) cs S0 = Inr (fst (spec_all (cs_call le) cs (cs_new capacity)), S)
    \<and> cache_rep S (snd (spec_all (cs_call le) cs (cs_new capacity)))"
proof -
  obtain S0 :: "'v ShardedLRUCache" where S0: "ShardedLRUCache_new mem capacity = Inr S0" "cache_rep S0 (cs_new capacity)" using ShardedLRUCache_new_ok by blast
  then show ?thesis using cache.history [OF S0(2) assms] by blast
qed

theorem ShardedLRUCache_refines_cache_witness:
  "\<exists>S0 S. ShardedLRUCache_new old_memory 32 = Inr S0
    \<and> call_all (do_cache_call True) small_calls S0 = Inr ([Handle (Some 10), Handle (Some 10), Handle None], S)"
  using ShardedLRUCache_refines_cache [OF small_calls_ok(2), of old_memory]
  by (auto simp: small_history)

text \<open>
  C11. A handle stays valid while its client holds it, whatever was inserted, erased, evicted or pruned in between:
  \<open>Value\<close> gives the value inserted at that address.  No deleter is called for an entry that was not inserted, and none
  more often than its entry was inserted.
\<close>
theorem ShardedLRUCache_handles_stay_valid:
  assumes "may_call_all (cs_may_call le) (cs_call le) cs (cs_new capacity)" "rs = fst (spec_all (cs_call le) cs (cs_new capacity))"
  shows "\<exists>S0 S. ShardedLRUCache_new mem capacity = Inr S0 \<and> call_all (do_cache_call le) cs S0 = Inr (rs, S)
    \<and> (\<forall>e. 0 < client_refs cs rs (\<lambda>_. 0) e \<longrightarrow> (\<exists>v. client_values cs e = Some v \<and> Sharded_Value e S = Inr v))
    \<and> mset (concat (map sc_deleted (sh_shard S))) \<subseteq># mset (concat (map inserted cs))"
proof (rule client_history [OF assms(1), of mem])
  fix S0 S a
  assume h: "ShardedLRUCache_new mem capacity = Inr S0" "call_all (do_cache_call le) cs S0 = Inr (fst (spec_all (cs_call le) cs (cs_new capacity)), S)"
    "cache_rep S a" "a = snd (spec_all (cs_call le) cs (cs_new capacity))" "cs_account a = mset (concat (map inserted cs))" "cs_finite a"
    "cs_values_ok (client_values cs) a" "cs_refs a = client_refs cs (fst (spec_all (cs_call le) cs (cs_new capacity))) (\<lambda>_. 0)"
  have len: "length (cs_shard a) = 16" by (rule cache_rep_shard(3) [OF h(3), of 0]) simp
  have "\<exists>v. client_values cs e = Some v \<and> Sharded_Value e S = Inr v" if e: "0 < client_refs cs rs (\<lambda>_. 0) e" for e
  proof -
    have "cs_refs a e \<noteq> 0" using e h(8) assms(2) by simp
    then obtain b where "b \<in> set (cs_shard a)" "0 < ss_held b e" using cs_refs_0 [of a e] by auto
    then have "cs_held e a" using len by (metis cs_held_def in_set_conv_nth)
    from cs_held_where [OF h(3) this] obtain i where i: "cs_where e a = Some i" "i < 16" by metis
    obtain g where g: "read_entry e S = Inr g" "entry_of g = the (ss_entry (cs_shard a ! i) e)" using find_shard [OF h(3) i(1)] by blast
    have "ss_entry (cs_shard a ! i) e \<noteq> None" using i cs_where_iff h(3) by (metis cache_rep_def)
    then have "client_values cs e = Some (lh_value g)" using g(2) i(2) h(7) by (auto simp: cs_values_ok_def entry_of_def)
    then show ?thesis using g(1) by (simp add: Sharded_Value_def)
  qed
  moreover have "mset (concat (map sc_deleted (sh_shard S))) \<subseteq># mset (concat (map inserted cs))"
    using deleted_sub [of "cs_shard a"] rep_deleted h(3,5) by (metis cache_rep_def cs_account_def)
  ultimately show ?thesis using h(1,2) assms(2) by blast
qed

theorem ShardedLRUCache_handles_stay_valid_witness:
  "\<exists>S0 rs S. ShardedLRUCache_new old_memory 32 = Inr S0 \<and> call_all (do_cache_call True) small_calls S0 = Inr (rs, S) \<and> Sharded_Value 10 S = Inr 5"
proof -
  have "client_refs small_calls (fst (spec_all (cs_call True) small_calls (cs_new 32))) (\<lambda>_. 0) 10 = 1" "client_values small_calls 10 = Some 5"
    by (simp_all add: small_history client_refs_def ref_step_def client_values_def value_step_def)
  then show ?thesis using ShardedLRUCache_handles_stay_valid [OF small_calls_ok(2) refl, of old_memory] by (metis option.inject zero_less_one)
qed

text \<open>
  C10. When the client has released what it held, the destructor frees every entry, and every inserted entry has been
  given to its deleter exactly once: at eviction, replacement, erasure, release or destruction.
\<close>
theorem ShardedLRUCache_deletes_once:
  assumes "may_call_all (cs_may_call le) (cs_call le) cs (cs_new capacity)" "rs = fst (spec_all (cs_call le) cs (cs_new capacity))"
    and "\<forall>e. client_refs cs rs (\<lambda>_. 0) e = 0"
  shows "\<exists>S0 S S'. ShardedLRUCache_new mem capacity = Inr S0 \<and> call_all (do_cache_call le) cs S0 = Inr (rs, S)
    \<and> ShardedLRUCache_destroy S = Inr S' \<and> mset (concat (map sc_deleted (sh_shard S'))) = mset (concat (map inserted cs))
    \<and> (\<forall>s\<in>set (sh_shard S'). \<forall>e. sc_handles s e = None)"
proof (rule client_history [OF assms(1), of mem])
  fix S0 S a
  assume h: "ShardedLRUCache_new mem capacity = Inr S0" "call_all (do_cache_call le) cs S0 = Inr (fst (spec_all (cs_call le) cs (cs_new capacity)), S)"
    "cache_rep S a" "a = snd (spec_all (cs_call le) cs (cs_new capacity))" "cs_account a = mset (concat (map inserted cs))" "cs_finite a"
    "cs_values_ok (client_values cs) a" "cs_refs a = client_refs cs (fst (spec_all (cs_call le) cs (cs_new capacity))) (\<lambda>_. 0)"
  have "\<forall>b\<in>set (cs_shard a). ss_finite b \<and> (\<forall>e. ss_held b e = 0)" using h(6,8) assms(2,3) cs_refs_0 [of a] by (auto simp: cs_finite_def)
  moreover have "list_all2 shard_rep (sh_shard S) (cs_shard a)" using h(3) by (simp add: cache_rep_def)
  ultimately obtain ss where "destroy_all (sh_shard S) = Inr ss" "mset (concat (map sc_deleted ss)) = cs_account a" "\<forall>s\<in>set ss. \<forall>e. sc_handles s e = None"
    using destroy_all_ok unfolding cs_account_def by blast
  then show ?thesis using h(1,2,5) assms(2) by (simp add: ShardedLRUCache_destroy_def)
qed

theorem ShardedLRUCache_deletes_once_witness:
  "\<exists>S0 rs S S'. ShardedLRUCache_new old_memory 32 = Inr S0 \<and> call_all (do_cache_call True) small_calls_released S0 = Inr (rs, S)
    \<and> ShardedLRUCache_destroy S = Inr S' \<and> mset (concat (map sc_deleted (sh_shard S'))) = {#(7, [], 5 :: nat)#}"
proof -
  have "\<forall>e. client_refs small_calls_released (fst (spec_all (cs_call True) small_calls_released (cs_new 32))) (\<lambda>_. 0) e = 0"
    by (simp add: small_history client_refs_def ref_step_def)
  moreover have "mset (concat (map inserted small_calls_released)) = {#(7, [], 5)#}" by (simp add: small_history inserted_def)
  ultimately show ?thesis using ShardedLRUCache_deletes_once [OF small_calls_ok(1) refl, of old_memory] by metis
qed

text \<open>
  C21. Inserting into a shard with capacity: the new entry takes the place of the one with its key and is found by a lookup;
  idle entries are evicted oldest first, as long as the charges exceed the capacity and no longer; no entry that a client
  holds is evicted; the loop ends within the capacity or with no idle entry left.
\<close>
theorem LRUCache_insert_evicts_oldest:
  assumes r: "shard_rep s a" and m: "ss_may_call (ShardInsert e d) a" and c: "0 < ss_capacity a"
  shows "\<exists>s' a' n. LRU_Insert e (en_key d) (en_hash d) (en_value d) (en_charge d) (en_deleter d) s = Inr (e, s') \<and> shard_rep s' a'
    \<and> ss_idle a' = drop n (others d a (ss_idle a)) \<and> ss_used a' = others d a (ss_used a) @ [e]
    \<and> (\<forall>k<n. ss_capacity a < ss_usage (fold ss_drop (take k (others d a (ss_idle a))) (ss_replace e d a)))
    \<and> (sc_usage s' \<le> sc_capacity s \<or> nxt (sc_links s') lru_head = lru_head)
    \<and> HandleTable_Lookup (en_key d) (en_hash d) s' = Inr (Some e)"
proof -
  let ?a = "ss_insert e d a"
  have e: "e \<notin> set (ss_cached a)"
    using m rings_distinct(4,5) [OF rep_rings [OF r [unfolded shard_rep_def]]] shard_rep_entry [OF r, of e] by (auto simp: ss_cached_def)
  obtain s' where s': "LRU_Insert e (en_key d) (en_hash d) (en_value d) (en_charge d) (en_deleter d) s = Inr (e, s')" "shard_rep s' ?a"
    using LRU_Insert_ok [of s a e d "en_key d" "en_hash d" "en_value d" "en_charge d" "en_deleter d"] r m by auto
  obtain n where n: "ss_idle ?a = drop n (others d a (ss_idle a))" "ss_used ?a = others d a (ss_used a) @ [e]"
    "\<forall>k<n. ss_capacity a < ss_usage (fold ss_drop (take k (others d a (ss_idle a))) (ss_replace e d a))"
    "ss_idle ?a = [] \<or> ss_usage ?a \<le> ss_capacity a" using ss_insert_lists [OF r e c] by blast
  note ro = rep_rings [OF s'(2) [unfolded shard_rep_def]]
  have "ss_entry ?a e \<noteq> None" using rings_distinct(5) [OF ro] shard_rep_entry [OF s'(2), of e] by (auto simp: n(2))
  then have "ss_matches (en_key d) (en_hash d) ?a e" using map_le_Some [OF ss_insert_le, of e d a e] by (auto simp: ss_matches_def)
  then have look: "ss_find (en_key d) (en_hash d) ?a = Some e" using same_key_same_entry [OF s'(2), of e] by (simp add: ss_cached_def n(2))
  obtain bs where "table_ok s' bs" "members bs = set (ss_cached ?a)" using s'(2) by (auto simp: shard_rep_def rep_with_def has_table_def)
  then have "HandleTable_Lookup (en_key d) (en_hash d) s' = Inr (Some e)"
    using HandleTable_Lookup_ok [of s' bs "en_key d" "en_hash d"] shard_rep_find [OF s'(2)] look by auto
  moreover have "sc_usage s' \<le> sc_capacity s \<or> nxt (sc_links s') lru_head = lru_head"
    using n(4) rings_first(2) [OF ro] s'(2) r by (auto simp: shard_rep_def rep_with_def)
  ultimately show ?thesis using s' n(1-3) by blast
qed

theorem LRUCache_insert_evicts_oldest_witness:
  "\<exists>s s'. LRU_Insert 10 [1] 3 (5 :: nat) 1 7 s = Inr (10, s') \<and> HandleTable_Lookup [1] 3 s' = Inr (Some 10)"
proof -
  obtain s :: "nat LRUCache" where "shard_rep s (ss_new 2)" using LRUCache_new_ok by blast
  from LRUCache_insert_evicts_oldest [OF this, of 10 "\<lparr>en_key = [1], en_hash = 3, en_value = 5, en_charge = 1, en_deleter = 7\<rparr>"]
  show ?thesis by (auto simp: ss_new_def ss_cached_def)
qed

end
