(* ===== verification/Spec2Isabelle.thy ===== *)
theory Spec2Isabelle
  imports List_Util Hlist_Util Small_Queue Bounded_Queue Loop_Queue Blocking_Queue Auto_Vector Small_Hash_Map Binary_Heap Top_N_Heap Data_Buffer Lru_Map Lru_Easy Flat_Map Coding_Util Base64 Bit_Map Latches Wait_Queues Crc_Util String_Piece Status_Code Table_Block Block_Layout Block_Format Hash_Bloom Sharded_Lru
begin

text \<open>
  \<^bold>\<open>What the program is.\<close>  The repository is a library of C++ utilities, all under \<open>src/util\<close>.  Its own
  logic is in its containers (queues, lists, hash tables, heaps, caches), its byte-level codings and its
  thread synchronisation; the rest wraps the operating system and the C library.  This development
  models containers, codings and the blocking queue, one theory per component.

  \<^bold>\<open>How the code is modelled.\<close>  A class is a \<open>record\<close> of its fields and a method a function on that
  record.  Behaviour that C++ leaves undefined, failed assertions and loops that never end are
  values of type \<open>ub\<close> in the sum type \<open>'a result\<close> of theory \<open>Prelude\<close>, so a theorem that an
  operation returns \<open>Inr\<close> also says that it stays within its storage and ends.  Unsigned
  integers are machine words, or naturals with the wrap-around written out where it matters;
  signed arithmetic that does not fit is an error.  Pointers that the code compares or aliases are
  addresses of an explicit heap.  Template parameters are type variables; hash functions,
  orders and the algorithms of the standard library are parameters, with the contract of the
  standard as a locale where the code relies on one.

  \<^bold>\<open>The theories.\<close>

  \<^item> \<open>Prelude\<close>: errors, 32-bit wrap-around, circular arrays (collection \<open>ring_simps\<close>), and the interface
    \<open>fifo_queue\<close> with the refinement lemma that any of its implementations returns what a list queue returns.

  \<^item> \<open>Small_Queue\<close>, \<open>Bounded_Queue\<close>, \<open>Loop_Queue\<close>: \<open>SmallQueue\<close> of \<open>small_container.h\<close>, \<open>BoundedQueue\<close> and
    \<open>TCLoopQueue\<close> of \<open>blocking_queue.h\<close>.  Three ring buffers, refined to lists; the first and the third are
    interpretations of \<open>fifo_queue\<close>.

  \<^item> \<open>Monitor\<close>, \<open>Blocking_Queue\<close>: a step relation for threads that share an object under a mutex with condition
    variables, and \<open>BlockingQueue\<close> of \<open>blocking_queue.h\<close> as critical sections on it.  The locale \<open>counting_monitor\<close>
    says which signals a critical section owes; from it no wake-up is lost under any interleaving.  The
    locales \<open>opening_monitor\<close> and \<open>gate\<close> add states in which no method waits; from them every call
    returns within a bounded number of steps once such a state is reached.

  \<^item> \<open>Latches\<close>: the waitable objects of \<open>locks_util.h\<close> as clients of \<open>Monitor\<close>: \<open>BlockingCounter\<close>, \<open>AutoResetEvent\<close>,
    \<open>ManualResetEvent\<close>, \<open>CountDownLatch\<close>, \<open>Notification\<close>, \<open>CThreadInterrupt\<close>, \<open>CondVarSem\<close> with its grants and
    \<open>FutureResult\<close>.  Wake-ups, release of all waiters, and the bound on the grants held.

  \<^item> \<open>Wait_Queues\<close>: the other queues of \<open>blocking_queue.h\<close> on \<open>Monitor\<close>.  \<open>ConcurrentBlockingQueue\<close>, which notifies only
    when consumers have announced themselves, is shown to reach only states of a variant that always notifies.

  \<^item> \<open>List_Util\<close>, \<open>Hlist_Util\<close>: the intrusive rings and the hash-bucket lists of \<open>list_util.h\<close> on a heap of
    next and prev fields: every operation has its effect on the ring it is given and leaves others alone.

  \<^item> \<open>Auto_Vector\<close>, \<open>Small_Hash_Map\<close>: \<open>autovector\<close> and \<open>SmallHashMap\<close> of \<open>small_container.h\<close>.  The map uses
    the vector only through the locale \<open>random_access\<close>, and is itself an instance of \<open>map_impl\<close>.

  \<^item> \<open>Binary_Heap\<close>, \<open>Top_N_Heap\<close>: \<open>BinaryHeap\<close> and \<open>TopNHeap\<close> of \<open>small_container.h\<close>, for every strict weak
    order (locale \<open>strict_weak\<close>).  The heap has the contract \<open>priority_queue\<close>; the STL algorithms under
    \<open>TopNHeap\<close> are the parameter of the locale \<open>std_heap\<close>, shown satisfiable by list algorithms.

  \<^item> \<open>Data_Buffer\<close>: \<open>DataBuffer\<close> of \<open>buffer.h\<close> over raw bytes.  The locale \<open>wire_codec\<close> relates each write to its
    read; from its interpretations follows the round trip of whole messages.

  \<^item> \<open>Lru_Spec\<close>, \<open>Lru_Map\<close>, \<open>Lru_Easy\<close>: the abstract least-recently-used cache (locale \<open>lru_cache\<close>), and
    \<open>LruMap\<close>, \<open>MRUCacheBase\<close> and \<open>LRUCacheEasy\<close> of \<open>cache.h\<close>, which implement it with linked nodes and an index.

  \<^item> \<open>Flat_Rep\<close>, \<open>Flat_Map\<close>: the open-addressing table \<open>FlatRep\<close> of \<open>map_util.h\<close> and its clients \<open>FlatMap\<close> and
    \<open>FlatSet\<close>, interpretations of \<open>bounded_map\<close>.  The table invariant counts the live, deleted and
    empty slots; an empty slot always exists, and quadratic probing over a power of two reaches it.

  \<^item> \<open>Coding_Util\<close>, \<open>Base64\<close>: \<open>coding_util.cc\<close> and \<open>base64.cpp\<close>.  The locales \<open>coder\<close> and \<open>length_coder\<close> state
    that a \<open>Get\<close> reads back what a \<open>Put\<close> appended and leaves the rest; strings are coded by a length coder.

  \<^item> \<open>Crc_Util\<close>: \<open>crc_util.cpp\<close>, with its four tables as they stand in the source, equal to the bitwise definition of
    CRC-32C.  The tables are checked against it through the linearity of the register shift.

  \<^item> \<open>String_Piece\<close>: \<open>stringpiece.h\<close> and \<open>stringpiece.cpp\<close>, a view of bytes as a list of octets: comparison is the
    lexicographic order, searches and tests are those of the list, the hexadecimal form is inverted, and the
    bytewise comparator's shortened keys stay within the order.

  \<^item> \<open>Status_Code\<close>: \<open>Status\<close> of \<open>status.h\<close> and \<open>status.cpp\<close>, with the comparison that prints both sides shown to be
    equality, and the cleanup list of \<open>iterator.cpp\<close>.

  \<^item> \<open>Table_Block\<close>, \<open>Block_Layout\<close>, \<open>Block_Format\<close>: \<open>block.h\<close> and \<open>block.cpp\<close> on top of \<open>Coding_Util\<close>, \<open>Crc_Util\<close>,
    \<open>String_Piece\<close> and \<open>Status_Code\<close>.  \<open>Table_Block\<close> has the definitions.  \<open>Block_Layout\<close> describes the bytes a
    builder writes as a list of entries with shared prefixes and restart points; the iterator is
    a cursor over them (locale \<open>cursor\<close>, the contract of \<open>iterator.h\<close>).  \<open>Block_Format\<close> treats footers and
    blocks read from a file, a parameter of the model, and the iterator on arbitrary bytes.

  \<^item> \<open>Hash_Bloom\<close>: the hash functions of \<open>hash_util.cpp\<close> and the Bloom filter of \<open>bloom.h\<close>, which has no false negatives,
    also when threads add to it concurrently (the step relation \<open>bloom_step\<close>).

  \<^item> \<open>Handle_Table\<close>, \<open>Lru_Shard\<close>, \<open>Sharded_Lru\<close>: the cache of \<open>cache.cpp\<close> behind the interface of \<open>cache.h\<close>, on top of
    \<open>List_Util\<close>, \<open>Hash_Bloom\<close> and \<open>String_Piece\<close>.  \<open>Handle_Table\<close> has the entries on an explicit heap and the chained hash
    table; \<open>Lru_Shard\<close> the reference counts and the two rings of a shard, refined to a specification with idle, used and
    held entries; \<open>Sharded_Lru\<close> the sixteen shards.  The locale \<open>simulation\<close>, interpreted on the shard and on the cache,
    lifts the refinement to histories of calls: held handles stay valid, deleters are called exactly once, eviction
    takes the oldest idle entries.

  \<^item> \<open>Bit_Map\<close>: \<open>Bitmap\<close>, the \<open>bit_array\<close> routines and \<open>DynamicBitset\<close> of \<open>bitmap.h\<close> and \<open>bitmap.cpp\<close>.

  \<^bold>\<open>Loops and bounds.\<close>  Loops are structural or have a termination measure, except the probes of \<open>FlatRep\<close>
  and the list traversals, which do not end on every input: these are \<open>partial_function (option)\<close>, with
  \<open>None\<close> for a loop that runs forever, and the theorems show that they return on well-formed
  states.  \<open>flat_cap\<close> entries are as many as a table of \<open>2^31\<close> slots takes at the load factor 0.8: the
  next larger one has \<open>2^32\<close> slots, which the 32-bit variable \<open>capacity\<close> of \<open>Init\<close> does not represent.    A
  \<open>BoundedQueue\<close> has at most \<open>2^31\<close> elements, so that sums of two of its 32-bit indices do not wrap; a
  \<open>TCLoopQueue\<close> below 1000000 is the condition of its own constructor.

  \<^bold>\<open>What the code does not do.\<close>  Some theorems state behaviour the code hardly means: \<open>pop_bottom\<close> of a wrapped
  \<open>BoundedQueue\<close> leaves the storage, \<open>TCLoopQueue(0)\<close> loses elements, \<open>clear\<close> of a \<open>FlatMap\<close> after erasures can make
  a later lookup run forever, \<open>BlockingCounter::reset(0)\<close> strands its waiters, the timed waits of \<open>CountDownLatch\<close> never time out,
  a bucket of \<open>QueueRing\<close> loses wake-ups, short reads of \<open>DataBuffer\<close> and of fixed-length-prefixed strings are not
  all refused.

  \<^bold>\<open>Not modelled.\<close>  Destructors and allocation failure; memory ordering of the lock-free code; the wrappers of
  files, sockets, processes, signals, time and formatted output, whose effect is that of the operating system or of
  the C library.  Still to be modelled: \<open>BitSet\<close>, the search trees, \<open>skiplist\<close>,
  the arena, and string utilities.
\<close>

end
